(* ===== verification/Prelude.thy ===== *)
theory Prelude
  imports Main
begin

text \<open>
  What every component shares: the ways a C call can fail, the sequencing of calls that may
  fail, the typed heap with \<open>malloc\<close> and \<open>free\<close>, and the predicate that says
  which list a chain of heap nodes spells.

  \<^item> A call of the C code either returns a value or ends the program. \<open>Assertion\<close> is a
    failed \<open>assert\<close>, \<open>Undefined\<close> is undefined behaviour (a NULL or dangling pointer is
    followed, a block is freed twice, an uninitialised value is used as a pointer),
    \<open>Nontermination\<close> is a loop that never ends and \<open>Exit_with n\<close> is \<open>exit(n)\<close>.
  \<^item> A heap holds cells of one C type. What \<open>malloc\<close> answers is not determined by the C
    standard: the field \<open>policy\<close> is any function of the number of the call and of the
    allocated cells. It gives the address and the bytes found there, which are arbitrary
    (\<open>malloc\<close> does not clear memory), or nothing when \<open>malloc\<close> returns NULL.
\<close>

named_theorems result_simps \<open>rewriting of calls that may fail\<close>
named_theorems heap_simps \<open>rewriting of heap operations\<close>

section \<open>Calls that may fail\<close>

datatype failure = Assertion | Undefined | Nontermination | Exit_with int

type_synonym 'a result = "failure + 'a"

definition bindE :: "'a result \<Rightarrow> ('a \<Rightarrow> 'b result) \<Rightarrow> 'b result" where
  "bindE m f = (case m of Inl e \<Rightarrow> Inl e | Inr x \<Rightarrow> f x)"

definition assertE :: "bool \<Rightarrow> unit result" where
  "assertE b = (if b then Inr () else Inl Assertion)"

fun foldE :: "('s \<Rightarrow> 'a \<Rightarrow> 's result) \<Rightarrow> 's \<Rightarrow> 'a list \<Rightarrow> 's result" where
  "foldE f s [] = Inr s"
| "foldE f s (x # xs) = bindE (f s x) (\<lambda>s'. foldE f s' xs)"

text \<open>
  A loop over pointers is a \<open>partial_function\<close> with value \<open>None\<close> when it never ends;
  \<open>loopE\<close> turns its value into the result of the call that runs it.
\<close>

definition loopE :: "'a result option \<Rightarrow> 'a result" where
  "loopE r = (case r of None \<Rightarrow> Inl Nontermination | Some x \<Rightarrow> x)"

lemma loopE_Some [simp]: "loopE (Some r) = r"
  by (simp add: loopE_def)

lemma bindE_Inr [simp, result_simps]: "bindE (Inr x) f = f x"
  by (simp add: bindE_def)

lemma bindE_Inl [simp, result_simps]: "bindE (Inl e) f = Inl e"
  by (simp add: bindE_def)

lemma bindE_eq_Inr [result_simps]: "bindE m f = Inr y \<longleftrightarrow> (\<exists>x. m = Inr x \<and> f x = Inr y)"
  by (cases m) auto

lemma bindE_eq_Inl [result_simps]:
  "bindE m f = Inl e \<longleftrightarrow> m = Inl e \<or> (\<exists>x. m = Inr x \<and> f x = Inl e)"
  by (cases m) auto

lemma assertE_True [simp]: "assertE True = Inr ()"
  by (simp add: assertE_def)

lemma assertE_False [simp]: "assertE False = Inl Assertion"
  by (simp add: assertE_def)

lemma assertE_eq_Inr [result_simps]: "assertE b = Inr u \<longleftrightarrow> b"
  by (simp add: assertE_def)

lemma assertE_eq_Inl [result_simps]: "assertE b = Inl e \<longleftrightarrow> \<not> b \<and> e = Assertion"
  by (auto simp: assertE_def)

lemma foldE_append: "foldE f s (xs @ ys) = bindE (foldE f s xs) (\<lambda>s'. foldE f s' ys)"
  by (induction xs arbitrary: s) (auto simp: bindE_def split: sum.splits)

section \<open>Pointers and the heap\<close>

datatype ptr = NULL | Addr nat

record 'c heap =
  cells :: "nat \<rightharpoonup> 'c"
  calls :: nat
  policy :: "nat \<Rightarrow> (nat \<rightharpoonup> 'c) \<Rightarrow> (nat \<times> 'c) option"

text \<open>What the C standard promises of \<open>malloc\<close>: a block it returns is not in use.\<close>

definition fresh_policy :: "(nat \<Rightarrow> (nat \<rightharpoonup> 'c) \<Rightarrow> (nat \<times> 'c) option) \<Rightarrow> bool" where
  "fresh_policy p \<longleftrightarrow> (\<forall>n m a c. p n m = Some (a, c) \<longrightarrow> m a = None)"

definition malloc :: "'c heap \<Rightarrow> ptr \<times> 'c heap" where
  "malloc h = (case policy h (calls h) (cells h) of
      None \<Rightarrow> (NULL, h\<lparr>calls := Suc (calls h)\<rparr>)
    | Some (a, c) \<Rightarrow> (Addr a, h\<lparr>cells := (cells h)(a \<mapsto> c), calls := Suc (calls h)\<rparr>))"

definition free :: "'c heap \<Rightarrow> ptr \<Rightarrow> 'c heap result" where
  "free h p = (case p of
      NULL \<Rightarrow> Inr h
    | Addr a \<Rightarrow> (if cells h a = None then Inl Undefined
                 else Inr (h\<lparr>cells := (cells h)(a := None)\<rparr>)))"

definition load :: "'c heap \<Rightarrow> ptr \<Rightarrow> 'c result" where
  "load h p = (case p of
      NULL \<Rightarrow> Inl Undefined
    | Addr a \<Rightarrow> (case cells h a of None \<Rightarrow> Inl Undefined | Some c \<Rightarrow> Inr c))"

definition store :: "'c heap \<Rightarrow> ptr \<Rightarrow> 'c \<Rightarrow> 'c heap result" where
  "store h p c = (case p of
      NULL \<Rightarrow> Inl Undefined
    | Addr a \<Rightarrow> (if cells h a = None then Inl Undefined
                 else Inr (h\<lparr>cells := (cells h)(a \<mapsto> c)\<rparr>)))"

lemma free_NULL [simp]: "free h NULL = Inr h"
  by (simp add: free_def)

lemma free_Addr [heap_simps]:
  "cells h a = Some c \<Longrightarrow> free h (Addr a) = Inr (h\<lparr>cells := (cells h)(a := None)\<rparr>)"
  by (simp add: free_def)

lemma free_dangling [heap_simps]: "cells h a = None \<Longrightarrow> free h (Addr a) = Inl Undefined"
  by (simp add: free_def)

lemma load_NULL [simp]: "load h NULL = Inl Undefined"
  by (simp add: load_def)

lemma load_Addr [heap_simps]: "cells h a = Some c \<Longrightarrow> load h (Addr a) = Inr c"
  by (simp add: load_def)

lemma store_Addr [heap_simps]:
  "cells h a = Some c' \<Longrightarrow> store h (Addr a) c = Inr (h\<lparr>cells := (cells h)(a \<mapsto> c)\<rparr>)"
  by (simp add: store_def)

lemma malloc_NULL [heap_simps]:
  "policy h (calls h) (cells h) = None \<Longrightarrow> malloc h = (NULL, h\<lparr>calls := Suc (calls h)\<rparr>)"
  by (simp add: malloc_def)

lemma malloc_Some [heap_simps]:
  "policy h (calls h) (cells h) = Some (a, c) \<Longrightarrow>
   malloc h = (Addr a, h\<lparr>cells := (cells h)(a \<mapsto> c), calls := Suc (calls h)\<rparr>)"
  by (simp add: malloc_def)

lemma fresh_policyD: "fresh_policy p \<Longrightarrow> p n m = Some (a, c) \<Longrightarrow> m a = None"
  by (auto simp: fresh_policy_def)

text \<open>A policy for concrete runs: the n-th call gets address n, if that is free.\<close>

definition counting_policy :: "'c \<Rightarrow> nat \<Rightarrow> (nat \<rightharpoonup> 'c) \<Rightarrow> (nat \<times> 'c) option" where
  "counting_policy junk n m = (case m n of None \<Rightarrow> Some (n, junk) | Some _ \<Rightarrow> None)"

definition new_heap :: "'c \<Rightarrow> 'c heap" where
  "new_heap junk = \<lparr>cells = (\<lambda>_. None), calls = 0, policy = counting_policy junk\<rparr>"

lemma fresh_counting_policy [simp]: "fresh_policy (counting_policy junk)"
  by (auto simp: fresh_policy_def counting_policy_def split: option.splits)

section \<open>Heaps that do not run out\<close>

definition roomy :: "'c heap \<Rightarrow> bool" where
  "roomy h \<longleftrightarrow> fresh_policy (policy h) \<and> (\<forall>n m. finite (dom m) \<longrightarrow> policy h n m \<noteq> None) \<and> finite (dom (cells h))"

lemma roomy_cells [intro]: "roomy h \<Longrightarrow> finite (dom m) \<Longrightarrow> roomy (h\<lparr>cells := m\<rparr>)"
  by (simp add: roomy_def)

lemma roomy_calls [simp]: "roomy (h\<lparr>calls := n\<rparr>) = roomy h"
  by (simp add: roomy_def)

lemma roomy_malloc:
  assumes "roomy h"
  obtains a c where "malloc h = (Addr a, h\<lparr>cells := (cells h)(a \<mapsto> c), calls := Suc (calls h)\<rparr>)"
    and "cells h a = None" and "roomy (h\<lparr>cells := (cells h)(a \<mapsto> c), calls := Suc (calls h)\<rparr>)"
proof -
  obtain a c where p: "policy h (calls h) (cells h) = Some (a, c)"
    using assms by (force simp: roomy_def)
  moreover have "cells h a = None" using assms p by (auto simp: roomy_def dest: fresh_policyD)
  ultimately show thesis using that [of a c] assms by (simp add: malloc_Some roomy_def)
qed

lemma roomy_load [simp]: "load (h\<lparr>calls := n\<rparr>) p = load h p"
  by (simp add: load_def split: ptr.splits)

lemma roomy_store: "store h p c = Inr h' \<Longrightarrow> roomy h \<Longrightarrow> roomy h'"
  by (auto simp: store_def roomy_def split: ptr.splits if_splits)

lemma roomy_free: "free h p = Inr h' \<Longrightarrow> roomy h \<Longrightarrow> roomy h'"
  by (auto simp: free_def roomy_def split: ptr.splits if_splits)

text \<open>An allocator that takes the next higher address.\<close>

definition growing_heap :: "'c \<Rightarrow> 'c heap" where
  "growing_heap junk = \<lparr>cells = Map.empty, calls = 0,
     policy = (\<lambda>n m. if finite (dom m) then Some (Suc (Max (insert 0 (dom m))), junk) else None)\<rparr>"

lemma growing_heap_roomy: "roomy (growing_heap junk)" and growing_heap_cells: "cells (growing_heap junk) = Map.empty"
proof -
  have "Suc (Max (insert 0 (dom m))) \<notin> dom m" if "finite (dom m)" for m :: "nat \<rightharpoonup> 'a"
    using Max_ge [of "insert 0 (dom m)" "Suc (Max (insert 0 (dom m)))"] that
    by (metis finite_insert insertI2 not_less_eq_eq order_refl)
  then show "roomy (growing_heap junk)"
    by (auto simp: roomy_def growing_heap_def fresh_policy_def domIff split: if_splits)
qed (simp add: growing_heap_def)

section \<open>Chains of nodes\<close>

text \<open>A node of a singly linked list: the \<open>next\<close> pointer and the other fields.\<close>

record 'v node =
  nxt :: ptr
  val :: "'v"

text \<open>
  \<open>chain m p xs q\<close>: following \<open>next\<close> from \<open>p\<close> visits the nodes \<open>xs\<close> (address
  and payload of each, in order) and arrives at \<open>q\<close>.
\<close>

fun chain :: "(nat \<rightharpoonup> 'v node) \<Rightarrow> ptr \<Rightarrow> (nat \<times> 'v) list \<Rightarrow> ptr \<Rightarrow> bool" where
  "chain m p [] q = (p = q)"
| "chain m p ((a, v) # xs) q =
     (p = Addr a \<and>
      (case m a of None \<Rightarrow> False | Some n \<Rightarrow> val n = v \<and> chain m (nxt n) xs q))"

lemma chain_Cons:
  "chain m p ((a, v) # xs) q \<longleftrightarrow>
   p = Addr a \<and> (\<exists>n. m a = Some \<lparr>nxt = n, val = v\<rparr> \<and> chain m n xs q)"
proof (cases "m a")
  case None
  then show ?thesis by simp
next
  case (Some x)
  obtain n w where "x = \<lparr>nxt = n, val = w\<rparr>" by (cases x)
  with Some show ?thesis by auto
qed

declare chain.simps(2) [simp del]
declare chain_Cons [simp]

lemma chain_append: "chain m p (xs @ ys) q \<longleftrightarrow> (\<exists>r. chain m p xs r \<and> chain m r ys q)"
  by (induction xs arbitrary: p) fastforce+

lemma chain_NULL [simp]: "chain m NULL xs q \<longleftrightarrow> xs = [] \<and> q = NULL"
  by (cases xs) auto

lemma chain_to_NULL: "chain m p xs NULL \<Longrightarrow> p = NULL \<longleftrightarrow> xs = []"
  by (cases xs) auto

lemma chain_update [simp]:
  "a \<notin> fst ` set xs \<Longrightarrow> chain (m(a := c)) p xs q = chain m p xs q"
  by (induction xs arbitrary: p) auto

lemma chain_allocated: "chain m p xs q \<Longrightarrow> fst ` set xs \<subseteq> dom m"
  by (induction xs arbitrary: p) fastforce+

lemma chain_agree:
  "chain m p xs q \<Longrightarrow> \<forall>a \<in> fst ` set xs. m' a = m a \<Longrightarrow> chain m' p xs q"
  by (induction xs arbitrary: p) auto

lemma chain_unique: "chain m p xs NULL \<Longrightarrow> chain m p ys NULL \<Longrightarrow> xs = ys"
proof (induction xs arbitrary: p ys)
  case Nil
  then show ?case by (cases ys) auto
next
  case (Cons x xs)
  then show ?case by (cases ys; cases x) auto
qed

lemma chain_snoc:
  "chain m p (xs @ [(a, v)]) q \<longleftrightarrow>
   chain m p xs (Addr a) \<and> m a = Some \<lparr>nxt = q, val = v\<rparr>"
  by (auto simp: chain_append)

text \<open>The same chain, when the last node is given a new successor.\<close>

lemma chain_redirect_last:
  assumes "chain m p (xs @ [(a, v)]) q" and "distinct (map fst (xs @ [(a, v)]))"
  shows "chain (m(a \<mapsto> \<lparr>nxt = r, val = v\<rparr>)) p (xs @ [(a, v)]) r"
  using assms by (auto simp: chain_append)

section \<open>Integers, sets and lists\<close>

text \<open>The remainder of C: it has the sign of the dividend.\<close>

definition c_rem :: "int \<Rightarrow> int \<Rightarrow> int" where
  "c_rem a b = sgn a * (\<bar>a\<bar> mod \<bar>b\<bar>)"

lemma c_rem_nonneg: "0 \<le> a \<Longrightarrow> 0 < b \<Longrightarrow> c_rem a b = a mod b"
  by (cases "a = 0") (auto simp: c_rem_def)

lemma inter_through: "A \<inter> D \<subseteq> C \<Longrightarrow> B \<subseteq> D \<Longrightarrow> A \<inter> B \<subseteq> C \<inter> B"
  by blast

lemma remove1_append_first: "x \<notin> set xs \<Longrightarrow> remove1 x (xs @ x # ys) = xs @ ys"
  by (simp add: remove1_append)

lemma split_first:
  assumes "x \<in> set xs"
  obtains ys zs where "xs = ys @ x # zs" and "x \<notin> set ys"
  using assms by (auto dest!: split_list_first)

end
