(* ===== verification/Node_Queue.thy ===== *)
theory Node_Queue
  imports Prelude
begin

text \<open>
  The linked queue that every part of the repository builds by hand: a \<open>head\<close> and a
  \<open>tail\<close> pointer into a heap of nodes. The four queue.c files repeat the same pointer
  manipulations; each is defined once here, over any payload, and the component theories
  put their own checks and \<open>malloc\<close> calls around it.

  \<open>queue_rep h q xs\<close> says that the queue \<open>q\<close> holds, in heap \<open>h\<close>, the nodes
  \<open>xs\<close> (address and payload of each, front first). The lemmas give for every
  manipulation the new list and the exact change to the heap, so that nothing outside the
  queue's own nodes is written and no node is lost.
\<close>

record fifo_queue =
  head :: ptr
  tail :: ptr

definition empty_queue :: fifo_queue where
  "empty_queue = \<lparr>head = NULL, tail = NULL\<rparr>"

definition is_empty_queue :: "fifo_queue \<Rightarrow> bool" where
  "is_empty_queue q \<longleftrightarrow> head q = NULL \<and> tail q = NULL"

text \<open>The end of push_back: hang a filled node behind the last one.\<close>

definition link_back ::
  "'v node heap \<Rightarrow> fifo_queue \<Rightarrow> ptr \<Rightarrow> ('v node heap \<times> fifo_queue) result" where
  "link_back h q node =
     (if head q = NULL \<and> tail q = NULL then Inr (h, \<lparr>head = node, tail = node\<rparr>)
      else if head q \<noteq> NULL \<and> tail q \<noteq> NULL then
        bindE (load h (tail q)) (\<lambda>t.
        bindE (store h (tail q) (t\<lparr>nxt := node\<rparr>)) (\<lambda>h'.
        Inr (h', q\<lparr>tail := node\<rparr>)))
      else Inl Assertion)"

text \<open>The non-empty branch of pop_front: unhook, read and free the first node.\<close>

definition take_front ::
  "'v node heap \<Rightarrow> fifo_queue \<Rightarrow> ('v node heap \<times> fifo_queue \<times> 'v) result" where
  "take_front h q =
     bindE (load h (head q)) (\<lambda>n.
     let new_front = nxt n;
         q' = (if new_front = NULL then q\<lparr>tail := NULL\<rparr> else q) in
     bindE (free h (head q)) (\<lambda>h'.
     Inr (h', q'\<lparr>head := new_front\<rparr>, val n)))"

text \<open>The search loop of remove_node, with the node before the current one.\<close>

partial_function (option) find_node ::
  "'v node heap \<Rightarrow> 'v \<Rightarrow> ptr \<Rightarrow> ptr \<Rightarrow> (ptr \<times> ptr) result option" where
  "find_node h v cur prev =
     (if cur = NULL then Some (Inr (cur, prev))
      else case load h cur of
        Inl e \<Rightarrow> Some (Inl e)
      | Inr n \<Rightarrow> if val n = v then Some (Inr (cur, prev))
               else find_node h v (nxt n) cur)"

declare find_node.simps [code]

text \<open>The second branch of remove_node: unhook and free \<open>cur\<close>, which follows \<open>prev\<close>.\<close>

definition unlink_after ::
  "'v node heap \<Rightarrow> fifo_queue \<Rightarrow> ptr \<Rightarrow> ptr \<Rightarrow> ('v node heap \<times> fifo_queue) result" where
  "unlink_after h q prev cur =
     bindE (load h cur) (\<lambda>n.
     let q' = (if nxt n = NULL then q\<lparr>tail := prev\<rparr> else q) in
     bindE (load h prev) (\<lambda>p.
     bindE (store h prev (p\<lparr>nxt := nxt n\<rparr>)) (\<lambda>h1.
     bindE (free h1 cur) (\<lambda>h2.
     Inr (h2, q')))))"

section \<open>The list a queue holds\<close>

definition queue_rep :: "'v node heap \<Rightarrow> fifo_queue \<Rightarrow> (nat \<times> 'v) list \<Rightarrow> bool" where
  "queue_rep h q xs \<longleftrightarrow>
     chain (cells h) (head q) xs NULL \<and> distinct (map fst xs) \<and>
     tail q = (if xs = [] then NULL else Addr (fst (last xs)))"

abbreviation footprint :: "(nat \<times> 'v) list \<Rightarrow> nat set" where
  "footprint xs \<equiv> fst ` set xs"

lemma queue_rep_Nil [simp]: "queue_rep h q [] \<longleftrightarrow> q = empty_queue"
  by (cases q) (auto simp: queue_rep_def empty_queue_def)

lemma queue_rep_empty_iff: "queue_rep h q xs \<Longrightarrow> is_empty_queue q \<longleftrightarrow> xs = []"
  by (cases xs) (auto simp: queue_rep_def is_empty_queue_def)

lemma queue_rep_head_NULL: "queue_rep h q xs \<Longrightarrow> head q = NULL \<longleftrightarrow> xs = []"
  by (cases xs) (auto simp: queue_rep_def)

lemma queue_rep_tail_NULL: "queue_rep h q xs \<Longrightarrow> tail q = NULL \<longleftrightarrow> xs = []"
  by (cases xs) (auto simp: queue_rep_def)

lemma queue_rep_allocated: "queue_rep h q xs \<Longrightarrow> footprint xs \<subseteq> dom (cells h)"
  by (auto simp: queue_rep_def dest: chain_allocated)

lemma queue_rep_agree:
  "queue_rep h q xs \<Longrightarrow> \<forall>a \<in> footprint xs. cells h' a = cells h a \<Longrightarrow> queue_rep h' q xs"
  by (auto simp: queue_rep_def intro: chain_agree)

lemma queue_rep_calls [simp]: "queue_rep (h\<lparr>calls := n\<rparr>) q xs = queue_rep h q xs"
  by (simp add: queue_rep_def)

lemma queue_rep_unique: "queue_rep h q xs \<Longrightarrow> queue_rep h q ys \<Longrightarrow> xs = ys"
  by (auto simp: queue_rep_def dest: chain_unique)

section \<open>Each manipulation\<close>

lemma link_back_rep:
  assumes rep: "queue_rep h q xs"
    and cell: "cells h a = Some \<lparr>nxt = NULL, val = v\<rparr>" and new: "a \<notin> footprint xs"
  shows "\<exists>h' q'. link_back h q (Addr a) = Inr (h', q') \<and> queue_rep h' q' (xs @ [(a, v)]) \<and>
           (\<forall>b. b \<notin> footprint xs \<longrightarrow> cells h' b = cells h b) \<and>
           dom (cells h') = dom (cells h) \<and> calls h' = calls h \<and> policy h' = policy h"
proof (cases xs rule: rev_cases)
  case Nil
  with rep cell show ?thesis
    by (auto simp: link_back_def empty_queue_def queue_rep_def)
next
  case (snoc ys y)
  obtain b w where y: "y = (b, w)" by (cases y)
  from rep snoc y have t: "tail q = Addr b" and hd: "head q \<noteq> NULL"
    and c: "chain (cells h) (head q) (ys @ [(b, w)]) NULL"
    and d: "distinct (map fst (ys @ [(b, w)]))"
    by (auto simp: queue_rep_def chain_to_NULL)
  from c have cb: "cells h b = Some \<lparr>nxt = NULL, val = w\<rparr>" by (simp add: chain_snoc)
  let ?h = "h\<lparr>cells := (cells h)(b \<mapsto> \<lparr>nxt = Addr a, val = w\<rparr>)\<rparr>"
  have "link_back h q (Addr a) = Inr (?h, q\<lparr>tail := Addr a\<rparr>)"
    using t hd cb by (simp add: link_back_def heap_simps)
  moreover have "chain (cells ?h) (head q) (ys @ [(b, w)]) (Addr a)"
    using chain_redirect_last [OF c d] by simp
  ultimately show ?thesis
    using cell new d snoc y cb by (auto simp: queue_rep_def chain_append)
qed

lemma take_front_rep:
  assumes rep: "queue_rep h q ((a, v) # xs)"
  shows "\<exists>q'. take_front h q = Inr (h\<lparr>cells := (cells h)(a := None)\<rparr>, q', v) \<and>
           queue_rep (h\<lparr>cells := (cells h)(a := None)\<rparr>) q' xs"
proof -
  from rep obtain n where hd: "head q = Addr a" and n: "cells h a = Some \<lparr>nxt = n, val = v\<rparr>"
    and c: "chain (cells h) n xs NULL" and a: "a \<notin> footprint xs" and d: "distinct (map fst xs)"
    by (auto simp: queue_rep_def)
  have "n = NULL \<longleftrightarrow> xs = []" using c by (cases xs) auto
  moreover have "chain ((cells h)(a := None)) n xs NULL" using a c by simp
  ultimately show ?thesis
    using rep hd n d by (auto simp: take_front_def heap_simps queue_rep_def)
qed

lemma find_node_NULL: "find_node h v NULL prev = Some (Inr (NULL, prev))"
  by (simp add: find_node.simps)

lemma find_node_absent:
  "chain (cells h) cur xs NULL \<Longrightarrow> v \<notin> snd ` set xs \<Longrightarrow>
   \<exists>p. find_node h v cur prev = Some (Inr (NULL, p))"
proof (induction xs arbitrary: cur prev)
  case Nil
  then show ?case by (simp add: find_node_NULL)
next
  case (Cons x xs)
  obtain a w where x: "x = (a, w)" by (cases x)
  from Cons.prems x obtain n where "cur = Addr a" "cells h a = Some \<lparr>nxt = n, val = w\<rparr>"
    "chain (cells h) n xs NULL" by auto
  moreover from Cons.prems x have "w \<noteq> v" "v \<notin> snd ` set xs" by auto
  ultimately show ?case
    using Cons.IH [of n "Addr a"] by (subst find_node.simps) (simp add: heap_simps)
qed

lemma find_node_first:
  "chain (cells h) cur (ys @ (a, v) # zs) NULL \<Longrightarrow> v \<notin> snd ` set ys \<Longrightarrow>
   find_node h v cur prev =
     Some (Inr (Addr a, if ys = [] then prev else Addr (fst (last ys))))"
proof (induction ys arbitrary: cur prev)
  case Nil
  then show ?case by (subst find_node.simps) (auto simp: heap_simps)
next
  case (Cons x ys)
  obtain b w where x: "x = (b, w)" by (cases x)
  from Cons.prems x obtain n where "cur = Addr b" "cells h b = Some \<lparr>nxt = n, val = w\<rparr>"
    "chain (cells h) n (ys @ (a, v) # zs) NULL" by auto
  moreover from Cons.prems x have "w \<noteq> v" "v \<notin> snd ` set ys" by auto
  ultimately show ?case
    using Cons.IH [of n "Addr b"] x by (subst find_node.simps) (simp add: heap_simps)
qed

lemma unlink_after_rep:
  assumes rep: "queue_rep h q (ys @ (b, w) # (a, v) # zs)"
  shows "\<exists>h' q'. unlink_after h q (Addr b) (Addr a) = Inr (h', q') \<and>
           queue_rep h' q' (ys @ (b, w) # zs) \<and>
           cells h' a = None \<and> dom (cells h') = dom (cells h) - {a} \<and>
           (\<forall>c. c \<noteq> a \<longrightarrow> c \<noteq> b \<longrightarrow> cells h' c = cells h c) \<and>
           calls h' = calls h \<and> policy h' = policy h"
proof -
  from rep have c: "chain (cells h) (head q) (ys @ (b, w) # (a, v) # zs) NULL"
    and d: "distinct (map fst (ys @ (b, w) # (a, v) # zs))"
    and t: "tail q = Addr (fst (last ((b, w) # (a, v) # zs)))"
    by (auto simp: queue_rep_def)
  from c obtain r n where c1: "chain (cells h) (head q) ys (Addr b)"
    and cb: "cells h b = Some \<lparr>nxt = Addr a, val = w\<rparr>"
    and ca: "cells h a = Some \<lparr>nxt = n, val = v\<rparr>" and c2: "chain (cells h) n zs NULL"
    by (auto simp: chain_append)
  let ?m = "(cells h)(b \<mapsto> \<lparr>nxt = n, val = w\<rparr>, a := None)"
  let ?q = "if n = NULL then q\<lparr>tail := Addr b\<rparr> else q"
  have nz: "n = NULL \<longleftrightarrow> zs = []" using c2 by (cases zs) auto
  have ab: "a \<noteq> b" using d by auto
  have "unlink_after h q (Addr b) (Addr a) = Inr (h\<lparr>cells := ?m\<rparr>, ?q)"
    using ca cb ab by (simp add: unlink_after_def heap_simps Let_def)
  moreover have "chain ?m (head q) ys (Addr b)" "chain ?m n zs NULL" using c1 c2 d by auto
  then have "queue_rep (h\<lparr>cells := ?m\<rparr>) ?q (ys @ (b, w) # zs)"
    using d t nz ab by (auto simp: queue_rep_def chain_append)
  moreover have "dom ?m = dom (cells h) - {a}" using cb ab by auto
  ultimately show ?thesis using ab by auto
qed

end
