(* ===== verification/Fifo_Interface.thy ===== *)
theory Fifo_Interface
  imports Prelude
begin

text \<open>
  The contract of the queues: what the scheduler and the server rely on when they push and
  pop. \<open>rep q xs\<close> relates a queue to the list it holds; a push may abort the program
  (an \<open>assert\<close> on the argument or on \<open>malloc\<close>) but never does anything else wrong.
  The clients' facts (pushes come out in order, draining stops, rotation) are proved once
  here; the queue theories interpret the locales on their pointer operations and on the
  lists that the scheduler's model uses.
\<close>

fun pop_times :: "('q \<Rightarrow> ('q \<times> 'a option) result) \<Rightarrow> nat \<Rightarrow> 'q \<Rightarrow> ('q \<times> 'a list) result" where
  "pop_times pop 0 q = Inr (q, [])"
| "pop_times pop (Suc n) q =
     bindE (pop q) (\<lambda>(q1, r).
     case r of None \<Rightarrow> Inr (q1, [])
     | Some x \<Rightarrow> bindE (pop_times pop n q1) (\<lambda>(q2, xs). Inr (q2, x # xs)))"

text \<open>The loop of delete_queue: pop until a pop fails.\<close>

partial_function (option) drain :: "('q \<Rightarrow> ('q \<times> 'a option) result) \<Rightarrow> 'q \<Rightarrow> 'q result option" where
  "drain pop q =
     (case pop q of
        Inl e \<Rightarrow> Some (Inl e)
      | Inr r \<Rightarrow> (case snd r of None \<Rightarrow> Some (Inr (fst r)) | Some x \<Rightarrow> drain pop (fst r)))"

text \<open>A failure that is a deliberate end of the program, not undefined behaviour or a hang.\<close>

fun aborts :: "failure \<Rightarrow> bool" where
  "aborts Assertion = True"
| "aborts (Exit_with n) = True"
| "aborts _ = False"

text \<open>
  The operations that succeed. That is all there is to say of the Lab 2 queue, whose push
  follows the result of \<open>malloc\<close> unchecked.
\<close>

locale fifo_partial =
  fixes push :: "'q \<Rightarrow> 'a \<Rightarrow> 'q result"
    and pop :: "'q \<Rightarrow> ('q \<times> 'a option) result"
    and rep :: "'q \<Rightarrow> 'a list \<Rightarrow> bool"
  assumes push_back_rep: "rep q xs \<Longrightarrow> push q x = Inr q' \<Longrightarrow> rep q' (xs @ [x])"
    and pop_front_none: "rep q [] \<Longrightarrow> pop q = Inr (q, None)"
    and pop_front_some: "rep q (x # xs) \<Longrightarrow> \<exists>q'. pop q = Inr (q', Some x) \<and> rep q' xs"
begin

lemma push_all_rep: "rep q xs \<Longrightarrow> foldE push q ys = Inr q' \<Longrightarrow> rep q' (xs @ ys)"
proof (induction ys arbitrary: q xs)
  case Nil
  then show ?case by simp
next
  case (Cons y ys)
  from Cons.prems(2) obtain q1 where "push q y = Inr q1" "foldE push q1 ys = Inr q'"
    by (auto simp: result_simps)
  with Cons.prems(1) Cons.IH [of q1 "xs @ [y]"] show ?case by (simp add: push_back_rep)
qed

lemma pop_times_rep:
  "rep q xs \<Longrightarrow> n \<le> length xs \<Longrightarrow>
   \<exists>q'. pop_times pop n q = Inr (q', take n xs) \<and> rep q' (drop n xs)"
proof (induction n arbitrary: q xs)
  case (Suc n)
  then obtain x ys where "xs = x # ys" by (cases xs) auto
  with Suc show ?case by (fastforce dest!: pop_front_some)
qed simp

text \<open>First in, first out: what was pushed comes out behind what was there, in order.\<close>

lemma push_then_pop:
  assumes "rep q xs" and "foldE push q ys = Inr q'"
  shows "\<exists>q''. pop_times pop (length xs + length ys) q' = Inr (q'', xs @ ys) \<and> rep q'' []"
  using pop_times_rep [OF push_all_rep [OF assms], of "length xs + length ys"] by simp

lemma drain_empties: "rep q xs \<Longrightarrow> \<exists>q'. drain pop q = Some (Inr q') \<and> rep q' []"
proof (induction xs arbitrary: q)
  case Nil
  then show ?case by (subst drain.simps) (simp add: pop_front_none)
next
  case (Cons x xs)
  then show ?case by (subst drain.simps) (fastforce dest!: pop_front_some)
qed

lemma rotate_once:
  assumes "rep q (x # xs)" and "pop q = Inr (q1, Some y)" and "push q1 y = Inr q2"
  shows "y = x \<and> rep q2 (xs @ [x])"
  using assms by (auto dest!: pop_front_some intro: push_back_rep)

end

text \<open>Queues whose push never does worse than end the program.\<close>

locale fifo = fifo_partial push pop rep
  for push :: "'q \<Rightarrow> 'a \<Rightarrow> 'q result" and pop :: "'q \<Rightarrow> ('q \<times> 'a option) result"
    and rep :: "'q \<Rightarrow> 'a list \<Rightarrow> bool" +
  assumes push_back_fails: "rep q xs \<Longrightarrow> push q x = Inl e \<Longrightarrow> aborts e"
begin

lemma push_all_fails: "rep q xs \<Longrightarrow> foldE push q ys = Inl e \<Longrightarrow> aborts e"
proof (induction ys arbitrary: q xs)
  case (Cons y ys)
  then show ?case by (auto simp: result_simps dest: push_back_fails push_back_rep)
qed simp

end

text \<open>Queues that also remove the first occurrence of a given element.\<close>

locale fifo_partial_remove = fifo_partial push pop rep
  for push :: "'q \<Rightarrow> 'a \<Rightarrow> 'q result" and pop :: "'q \<Rightarrow> ('q \<times> 'a option) result"
    and rep :: "'q \<Rightarrow> 'a list \<Rightarrow> bool" +
  fixes remove :: "'q \<Rightarrow> 'a \<Rightarrow> ('q \<times> bool) result"
  assumes remove_present:
    "rep q xs \<Longrightarrow> x \<in> set xs \<Longrightarrow> \<exists>q'. remove q x = Inr (q', True) \<and> rep q' (remove1 x xs)"
    and remove_absent: "rep q xs \<Longrightarrow> x \<notin> set xs \<Longrightarrow> remove q x = Inr (q, False)"
begin

lemma remove_rep:
  "rep q xs \<Longrightarrow> \<exists>q'. remove q x = Inr (q', x \<in> set xs) \<and> rep q' (remove1 x xs)"
  by (cases "x \<in> set xs") (auto dest: remove_present remove_absent simp: remove1_idem)

lemma push_then_remove_new:
  assumes "rep q xs" and "push q x = Inr q1" and "x \<notin> set xs"
  shows "\<exists>q2. remove q1 x = Inr (q2, True) \<and> rep q2 xs"
  using remove_present [OF push_back_rep [OF assms(1,2)], of x] assms(3)
  by (simp add: remove1_append)

lemma remove_twice:
  assumes "rep q xs" and "distinct xs" and "remove q x = Inr (q1, b)"
  shows "remove q1 x = Inr (q1, False)"
proof -
  from remove_rep [OF assms(1), of x] assms(3) have "rep q1 (remove1 x xs)" by auto
  with assms(2) show ?thesis by (intro remove_absent) auto
qed

end

locale fifo_remove = fifo push pop rep + fifo_partial_remove push pop rep remove
  for push :: "'q \<Rightarrow> 'a \<Rightarrow> 'q result" and pop :: "'q \<Rightarrow> ('q \<times> 'a option) result"
    and rep :: "'q \<Rightarrow> 'a list \<Rightarrow> bool" and remove :: "'q \<Rightarrow> 'a \<Rightarrow> ('q \<times> bool) result"

end
