(* ===== verification/Thread_Queue.thy ===== *)
theory Thread_Queue
  imports Node_Queue Fifo_Interface
begin

text \<open>
  threads_3/queue.c: the ready queue and the wait queues of the preemptive thread library.
  The flag \<open>ie\<close> is the answer of \<open>interrupts_enabled()\<close>. The code has one copy of
  each operation for \<open>READY_QUEUE\<close> (\<open>_rq\<close>) and one for \<open>WAIT_QUEUE\<close>
  (\<open>_wq\<close>), since C has no generics; both structs have the same two fields.
  The last section interprets the queue contracts on these operations.
\<close>

definition THREAD_MAX_THREADS :: int where
  "THREAD_MAX_THREADS = 1024"

definition valid_tid :: "int \<Rightarrow> bool" where
  "valid_tid t \<longleftrightarrow> 0 \<le> t \<and> t < THREAD_MAX_THREADS"

type_synonym READY_QUEUE = fifo_queue
type_synonym WAIT_QUEUE = fifo_queue
type_synonym node_heap = "int node heap"

definition initialize_queue_rq :: "READY_QUEUE option \<Rightarrow> READY_QUEUE result" where
  "initialize_queue_rq queue =
     (case queue of None \<Rightarrow> Inl Assertion | Some q \<Rightarrow> Inr (q\<lparr>head := NULL, tail := NULL\<rparr>))"

definition initialize_queue_wq :: "WAIT_QUEUE option \<Rightarrow> WAIT_QUEUE result" where
  "initialize_queue_wq queue =
     (case queue of None \<Rightarrow> Inl Assertion | Some q \<Rightarrow> Inr (q\<lparr>head := NULL, tail := NULL\<rparr>))"

definition queue_empty_rq :: "bool \<Rightarrow> READY_QUEUE \<Rightarrow> bool result" where
  "queue_empty_rq ie queue =
     bindE (assertE (\<not> ie)) (\<lambda>_. Inr (head queue = NULL \<and> tail queue = NULL))"

definition queue_empty_wq :: "bool \<Rightarrow> WAIT_QUEUE \<Rightarrow> bool result" where
  "queue_empty_wq ie queue =
     bindE (assertE (\<not> ie)) (\<lambda>_. Inr (head queue = NULL \<and> tail queue = NULL))"

definition push_back_helper ::
  "node_heap \<Rightarrow> fifo_queue \<Rightarrow> int \<Rightarrow> (node_heap \<times> fifo_queue) result" where
  "push_back_helper h q thread_id =
     bindE (assertE (0 \<le> thread_id \<and> thread_id < THREAD_MAX_THREADS)) (\<lambda>_.
     let (node, h1) = malloc h in
     bindE (assertE (node \<noteq> NULL)) (\<lambda>_.
     bindE (store h1 node \<lparr>nxt = NULL, val = thread_id\<rparr>) (\<lambda>h2.
     link_back h2 q node)))"

definition push_back_rq ::
  "bool \<Rightarrow> node_heap \<Rightarrow> READY_QUEUE \<Rightarrow> int \<Rightarrow> (node_heap \<times> READY_QUEUE) result" where
  "push_back_rq ie h queue thread_id =
     bindE (assertE (\<not> ie)) (\<lambda>_. push_back_helper h queue thread_id)"

definition push_back_wq ::
  "bool \<Rightarrow> node_heap \<Rightarrow> WAIT_QUEUE \<Rightarrow> int \<Rightarrow> (node_heap \<times> WAIT_QUEUE) result" where
  "push_back_wq ie h queue thread_id =
     bindE (assertE (\<not> ie)) (\<lambda>_. push_back_helper h queue thread_id)"

text \<open>\<open>None\<close> is the answer false; \<open>Some t\<close> is true with \<open>t\<close> written to \<open>*thread_id\<close>.\<close>

definition pop_front_helper ::
  "node_heap \<Rightarrow> fifo_queue \<Rightarrow> (node_heap \<times> fifo_queue \<times> int option) result" where
  "pop_front_helper h q =
     (if head q = NULL \<and> tail q = NULL then Inr (h, q, None)
      else if head q \<noteq> NULL \<and> tail q \<noteq> NULL then
        bindE (take_front h q) (\<lambda>(h', q', t). Inr (h', q', Some t))
      else Inl Assertion)"

definition pop_front_rq ::
  "bool \<Rightarrow> node_heap \<Rightarrow> READY_QUEUE \<Rightarrow> (node_heap \<times> READY_QUEUE \<times> int option) result" where
  "pop_front_rq ie h queue = bindE (assertE (\<not> ie)) (\<lambda>_. pop_front_helper h queue)"

definition pop_front_wq ::
  "bool \<Rightarrow> node_heap \<Rightarrow> WAIT_QUEUE \<Rightarrow> (node_heap \<times> WAIT_QUEUE \<times> int option) result" where
  "pop_front_wq ie h queue = bindE (assertE (\<not> ie)) (\<lambda>_. pop_front_helper h queue)"

definition remove_node_rq ::
  "bool \<Rightarrow> node_heap \<Rightarrow> READY_QUEUE \<Rightarrow> int \<Rightarrow> (node_heap \<times> READY_QUEUE \<times> bool) result" where
  "remove_node_rq ie h queue thread_id =
     bindE (assertE (\<not> ie)) (\<lambda>_.
     bindE (loopE (find_node h thread_id (head queue) NULL)) (\<lambda>(cur, prev).
     if cur = NULL then Inr (h, queue, False)
     else if prev = NULL then
       bindE (pop_front_rq ie h queue) (\<lambda>(h', q', _). Inr (h', q', True))
     else bindE (unlink_after h queue prev cur) (\<lambda>(h', q'). Inr (h', q', True))))"

definition remove_node_wq ::
  "bool \<Rightarrow> node_heap \<Rightarrow> WAIT_QUEUE \<Rightarrow> int \<Rightarrow> (node_heap \<times> WAIT_QUEUE \<times> bool) result" where
  "remove_node_wq ie h queue thread_id =
     bindE (assertE (\<not> ie)) (\<lambda>_.
     bindE (loopE (find_node h thread_id (head queue) NULL)) (\<lambda>(cur, prev).
     if cur = NULL then Inr (h, queue, False)
     else if prev = NULL then
       bindE (pop_front_wq ie h queue) (\<lambda>(h', q', _). Inr (h', q', True))
     else bindE (unlink_after h queue prev cur) (\<lambda>(h', q'). Inr (h', q', True))))"

text \<open>A pop seen as an operation on the pair of heap and queue.\<close>

definition pop_pair_rq ::
  "bool \<Rightarrow> node_heap \<times> READY_QUEUE \<Rightarrow> ((node_heap \<times> READY_QUEUE) \<times> int option) result" where
  "pop_pair_rq ie s =
     bindE (pop_front_rq ie (fst s) (snd s)) (\<lambda>(h, q, r). Inr ((h, q), r))"

definition pop_pair_wq ::
  "bool \<Rightarrow> node_heap \<times> WAIT_QUEUE \<Rightarrow> ((node_heap \<times> WAIT_QUEUE) \<times> int option) result" where
  "pop_pair_wq ie s =
     bindE (pop_front_wq ie (fst s) (snd s)) (\<lambda>(h, q, r). Inr ((h, q), r))"

definition delete_queue_rq ::
  "bool \<Rightarrow> node_heap \<Rightarrow> READY_QUEUE \<Rightarrow> (node_heap \<times> READY_QUEUE) result" where
  "delete_queue_rq ie h queue =
     bindE (assertE (\<not> ie)) (\<lambda>_. loopE (drain (pop_pair_rq ie) (h, queue)))"

definition delete_queue_wq ::
  "bool \<Rightarrow> node_heap \<Rightarrow> WAIT_QUEUE \<Rightarrow> (node_heap \<times> WAIT_QUEUE) result" where
  "delete_queue_wq ie h queue =
     bindE (assertE (\<not> ie)) (\<lambda>_. loopE (drain (pop_pair_wq ie) (h, queue)))"

text \<open>The two copies of every operation are the same function.\<close>

lemma wq_is_rq:
  "initialize_queue_wq = initialize_queue_rq" "queue_empty_wq = queue_empty_rq"
  "push_back_wq = push_back_rq" "pop_front_wq = pop_front_rq"
  "remove_node_wq = remove_node_rq" "delete_queue_wq = delete_queue_rq"
proof -
  show p: "pop_front_wq = pop_front_rq"
    by (intro ext) (simp add: pop_front_wq_def pop_front_rq_def)
  show "remove_node_wq = remove_node_rq"
    by (intro ext) (simp only: remove_node_wq_def remove_node_rq_def p)
  have "pop_pair_wq = pop_pair_rq" by (intro ext) (simp add: pop_pair_wq_def pop_pair_rq_def p)
  then show "delete_queue_wq = delete_queue_rq"
    by (intro ext) (simp add: delete_queue_wq_def delete_queue_rq_def)
qed (auto intro!: ext simp: initialize_queue_wq_def initialize_queue_rq_def
       queue_empty_wq_def queue_empty_rq_def push_back_wq_def push_back_rq_def)

section \<open>Each operation on the list of the queue\<close>

lemma queue_empty_rq_rep: "queue_rep h q xs \<Longrightarrow> queue_empty_rq False q = Inr (xs = [])"
  by (auto simp: queue_empty_rq_def queue_rep_head_NULL queue_rep_tail_NULL)

lemma push_back_rq_no_memory:
  "valid_tid t \<Longrightarrow> fst (malloc h) = NULL \<Longrightarrow> push_back_rq False h q t = Inl Assertion"
  by (auto simp: push_back_rq_def push_back_helper_def valid_tid_def split: prod.splits)

lemma push_back_rq_invalid: "\<not> valid_tid t \<Longrightarrow> push_back_rq ie h q t = Inl Assertion"
  by (auto simp: push_back_rq_def push_back_helper_def valid_tid_def assertE_def)

lemma push_back_rq_rep:
  assumes rep: "queue_rep h q xs" and fresh: "fresh_policy (policy h)" and t: "valid_tid t"
    and m: "policy h (calls h) (cells h) = Some (a, c)"
  shows "\<exists>h' q'. push_back_rq False h q t = Inr (h', q') \<and>
           queue_rep h' q' (xs @ [(a, t)]) \<and> cells h a = None \<and>
           dom (cells h') = insert a (dom (cells h)) \<and>
           (\<forall>b. b \<noteq> a \<longrightarrow> b \<notin> footprint xs \<longrightarrow> cells h' b = cells h b) \<and> policy h' = policy h"
proof -
  have a: "cells h a = None" using fresh_policyD [OF fresh m] .
  then have af: "a \<notin> footprint xs" using queue_rep_allocated [OF rep] by blast
  let ?h = "h\<lparr>calls := Suc (calls h), cells := (cells h)(a \<mapsto> \<lparr>nxt = NULL, val = t\<rparr>)\<rparr>"
  have rep': "queue_rep ?h q xs" using rep af by (auto simp: queue_rep_def)
  have c: "cells ?h a = Some \<lparr>nxt = NULL, val = t\<rparr>" by simp
  have "push_back_rq False h q t = link_back ?h q (Addr a)"
    using t m by (simp add: push_back_rq_def push_back_helper_def valid_tid_def heap_simps)
  moreover obtain h' q' where "link_back ?h q (Addr a) = Inr (h', q')"
    "queue_rep h' q' (xs @ [(a, t)])" "\<forall>b. b \<notin> footprint xs \<longrightarrow> cells h' b = cells ?h b"
    "dom (cells h') = dom (cells ?h)" "policy h' = policy ?h"
    using link_back_rep [OF rep' c af] by blast
  ultimately show ?thesis using a by auto
qed

lemma pop_front_rq_empty: "queue_rep h q [] \<Longrightarrow> pop_front_rq False h q = Inr (h, q, None)"
  by (simp add: pop_front_rq_def pop_front_helper_def empty_queue_def)

lemma pop_front_rq_rep:
  assumes rep: "queue_rep h q ((a, t) # xs)"
  shows "\<exists>q'. pop_front_rq False h q = Inr (h\<lparr>cells := (cells h)(a := None)\<rparr>, q', Some t) \<and>
           queue_rep (h\<lparr>cells := (cells h)(a := None)\<rparr>) q' xs"
proof -
  have "head q \<noteq> NULL" "tail q \<noteq> NULL"
    using queue_rep_head_NULL [OF rep] queue_rep_tail_NULL [OF rep] by auto
  then show ?thesis
    using take_front_rep [OF rep] by (auto simp: pop_front_rq_def pop_front_helper_def)
qed

lemma remove_node_rq_absent:
  assumes "queue_rep h q xs" and "t \<notin> snd ` set xs"
  shows "remove_node_rq False h q t = Inr (h, q, False)"
proof -
  from assms obtain p where "find_node h t (head q) NULL = Some (Inr (NULL, p))"
    using find_node_absent by (fastforce simp: queue_rep_def)
  then show ?thesis by (simp add: remove_node_rq_def)
qed

lemma remove_node_rq_rep:
  assumes rep: "queue_rep h q (ys @ (a, t) # zs)" and t: "t \<notin> snd ` set ys"
  shows "\<exists>h' q'. remove_node_rq False h q t = Inr (h', q', True) \<and>
           queue_rep h' q' (ys @ zs) \<and> dom (cells h') = dom (cells h) - {a} \<and>
           (\<forall>b. b \<notin> footprint (ys @ (a, t) # zs) \<longrightarrow> cells h' b = cells h b) \<and>
           policy h' = policy h"
proof (cases ys rule: rev_cases)
  case Nil
  with rep have f: "find_node h t (head q) NULL = Some (Inr (Addr a, NULL))"
    using find_node_first [of h "head q" "[]" a t zs NULL] by (simp add: queue_rep_def)
  from rep Nil have "queue_rep h q ((a, t) # zs)" by simp
  from pop_front_rq_rep [OF this] f Nil show ?thesis by (auto simp: remove_node_rq_def)
next
  case (snoc us u)
  obtain b w where u: "u = (b, w)" by (cases u)
  from rep t snoc u have f: "find_node h t (head q) NULL = Some (Inr (Addr a, Addr b))"
    using find_node_first [of h "head q" ys a t zs NULL] by (simp add: queue_rep_def)
  from rep snoc u have "queue_rep h q (us @ (b, w) # (a, t) # zs)" by simp
  from unlink_after_rep [OF this] f snoc u show ?thesis
    by (fastforce simp: remove_node_rq_def)
qed

section \<open>The queue contracts\<close>

definition push_pair_rq ::
  "node_heap \<times> READY_QUEUE \<Rightarrow> int \<Rightarrow> (node_heap \<times> READY_QUEUE) result" where
  "push_pair_rq s t = push_back_rq False (fst s) (snd s) t"

definition remove_pair_rq ::
  "node_heap \<times> READY_QUEUE \<Rightarrow> int \<Rightarrow> ((node_heap \<times> READY_QUEUE) \<times> bool) result" where
  "remove_pair_rq s t =
     bindE (remove_node_rq False (fst s) (snd s) t) (\<lambda>(h, q, b). Inr ((h, q), b))"

definition rq_rep :: "node_heap \<times> READY_QUEUE \<Rightarrow> int list \<Rightarrow> bool" where
  "rq_rep s ts \<longleftrightarrow>
     fresh_policy (policy (fst s)) \<and> (\<exists>xs. queue_rep (fst s) (snd s) xs \<and> map snd xs = ts)"

lemma push_pair_rq_cases:
  assumes "rq_rep s ts"
  shows "(\<exists>s'. push_pair_rq s t = Inr s' \<and> rq_rep s' (ts @ [t]) \<and> valid_tid t) \<or>
    (push_pair_rq s t = Inl Assertion \<and> (\<not> valid_tid t \<or> fst (malloc (fst s)) = NULL))"
proof -
  obtain h q where s: "s = (h, q)" by (cases s)
  from assms s obtain xs where r: "queue_rep h q xs" "fresh_policy (policy h)" "map snd xs = ts"
    by (auto simp: rq_rep_def)
  show ?thesis
  proof (cases "valid_tid t")
    case False
    with s show ?thesis by (simp add: push_pair_rq_def push_back_rq_invalid)
  next
    case True
    show ?thesis
    proof (cases "policy h (calls h) (cells h)")
      case None
      with True s show ?thesis
        by (simp add: push_pair_rq_def push_back_rq_no_memory heap_simps)
    next
      case (Some ac)
      obtain a c where "ac = (a, c)" by (cases ac)
      with Some push_back_rq_rep [OF r(1,2) True, of a c] True r s show ?thesis
        by (fastforce simp: push_pair_rq_def rq_rep_def)
    qed
  qed
qed

interpretation rq: fifo_remove push_pair_rq "pop_pair_rq False" rq_rep remove_pair_rq
proof
  fix s :: "node_heap \<times> READY_QUEUE" and ts t s' e
  assume r: "rq_rep s ts"
  show "push_pair_rq s t = Inr s' \<Longrightarrow> rq_rep s' (ts @ [t])"
    "push_pair_rq s t = Inl e \<Longrightarrow> aborts e"
    using push_pair_rq_cases [OF r, of t] by auto
next
  fix s :: "node_heap \<times> READY_QUEUE"
  assume "rq_rep s []"
  then show "pop_pair_rq False s = Inr (s, None)"
    by (cases s) (auto simp: rq_rep_def pop_pair_rq_def pop_front_rq_empty)
next
  fix s :: "node_heap \<times> READY_QUEUE" and t ts
  assume r: "rq_rep s (t # ts)"
  obtain h q where s: "s = (h, q)" by (cases s)
  from r s obtain a xs where "queue_rep h q ((a, t) # xs)" "fresh_policy (policy h)"
    "map snd xs = ts" by (auto simp: rq_rep_def)
  with pop_front_rq_rep [of h q a t xs] s
  show "\<exists>s'. pop_pair_rq False s = Inr (s', Some t) \<and> rq_rep s' ts"
    by (auto simp: pop_pair_rq_def rq_rep_def)
next
  fix s :: "node_heap \<times> READY_QUEUE" and t ts
  assume r: "rq_rep s ts" and t: "t \<in> set ts"
  obtain h q where s: "s = (h, q)" by (cases s)
  from r s obtain xs where q: "queue_rep h q xs" "fresh_policy (policy h)" and m: "map snd xs = ts"
    by (auto simp: rq_rep_def)
  from t m obtain us vs where "ts = us @ t # vs" and us: "t \<notin> set us"
    by (auto elim: split_first)
  with m obtain ys a zs where xs: "xs = ys @ (a, t) # zs" and ys: "map snd ys = us" "map snd zs = vs"
    by (auto simp: map_eq_append_conv)
  have n: "t \<notin> snd ` set ys" using us by (simp flip: ys(1))
  have "remove1 t ts = map snd (ys @ zs)"
    using remove1_append_first [OF us, of vs] \<open>ts = us @ t # vs\<close> ys by simp
  with remove_node_rq_rep [OF q(1) [unfolded xs] n] q(2) s
  show "\<exists>s'. remove_pair_rq s t = Inr (s', True) \<and> rq_rep s' (remove1 t ts)"
    by (fastforce simp: remove_pair_rq_def rq_rep_def)
next
  fix s :: "node_heap \<times> READY_QUEUE" and t ts
  assume "rq_rep s ts" and "t \<notin> set ts"
  then show "remove_pair_rq s t = Inr (s, False)"
    by (cases s) (auto simp: rq_rep_def remove_pair_rq_def remove_node_rq_absent)
qed

section \<open>Many queues in one heap\<close>

lemma delete_queue_rq_rep:
  "queue_rep h q xs \<Longrightarrow>
   \<exists>h' q'. drain (pop_pair_rq False) (h, q) = Some (Inr (h', q')) \<and> q' = empty_queue \<and>
     dom (cells h') = dom (cells h) - footprint xs \<and>
     (\<forall>b. b \<notin> footprint xs \<longrightarrow> cells h' b = cells h b) \<and> policy h' = policy h"
proof (induction xs arbitrary: h q)
  case Nil
  then show ?case
    by (subst drain.simps) (auto simp: pop_pair_rq_def pop_front_rq_empty)
next
  case (Cons x xs)
  obtain a t where x: "x = (a, t)" by (cases x)
  let ?h = "h\<lparr>cells := (cells h)(a := None)\<rparr>"
  from Cons.prems x obtain q1 where "pop_front_rq False h q = Inr (?h, q1, Some t)"
    and r: "queue_rep ?h q1 xs" using pop_front_rq_rep by blast
  then have "drain (pop_pair_rq False) (h, q) = drain (pop_pair_rq False) (?h, q1)"
    by (subst drain.simps) (simp add: pop_pair_rq_def)
  with Cons.IH [OF r] x show ?case by (auto split: if_splits)
qed

text \<open>The operations that change a queue, and what each does to the list.\<close>

datatype qop = Push int | Pop | Remove int | Delete

fun run_qop :: "qop \<Rightarrow> node_heap \<Rightarrow> fifo_queue \<Rightarrow> (node_heap \<times> fifo_queue) result" where
  "run_qop (Push t) h q = push_back_rq False h q t"
| "run_qop Pop h q = bindE (pop_front_rq False h q) (\<lambda>(h', q', _). Inr (h', q'))"
| "run_qop (Remove t) h q = bindE (remove_node_rq False h q t) (\<lambda>(h', q', _). Inr (h', q'))"
| "run_qop Delete h q = delete_queue_rq False h q"

fun qop_list :: "qop \<Rightarrow> int list \<Rightarrow> int list" where
  "qop_list (Push t) ts = ts @ [t]"
| "qop_list Pop ts = tl ts"
| "qop_list (Remove t) ts = remove1 t ts"
| "qop_list Delete ts = []"

text \<open>
  What one operation does to its own queue: the new nodes are either old ones or fresh
  ones, and cells of other structures keep their contents.
\<close>

definition qop_effect ::
  "node_heap \<Rightarrow> (nat \<times> int) list \<Rightarrow> node_heap \<Rightarrow> fifo_queue \<Rightarrow> int list \<Rightarrow> bool" where
  "qop_effect h xs h' q' ts \<longleftrightarrow>
     (\<exists>xs'. queue_rep h' q' xs' \<and> map snd xs' = ts \<and>
        footprint xs' \<inter> dom (cells h) \<subseteq> footprint xs) \<and>
     (\<forall>b. b \<in> dom (cells h) - footprint xs \<longrightarrow> cells h' b = cells h b) \<and> policy h' = policy h"

lemma qop_effectE:
  assumes "qop_effect h xs h' q' ts"
  obtains xs' where "queue_rep h' q' xs'" "map snd xs' = ts"
    "footprint xs' \<inter> dom (cells h) \<subseteq> footprint xs"
    "\<forall>b. b \<in> dom (cells h) - footprint xs \<longrightarrow> cells h' b = cells h b" "policy h' = policy h"
  using assms unfolding qop_effect_def by (elim conjE exE) (rule that)

lemma push_effect:
  assumes "queue_rep h q xs" "fresh_policy (policy h)"
    and run: "push_back_rq False h q t = Inr (h', q')"
  shows "qop_effect h xs h' q' (map snd xs @ [t])"
proof -
  have t: "valid_tid t" using run by (metis push_back_rq_invalid sum.distinct(1))
  then obtain a c where m: "policy h (calls h) (cells h) = Some (a, c)"
    using run by (cases "policy h (calls h) (cells h)")
      (auto simp: push_back_rq_no_memory heap_simps)
  from push_back_rq_rep [OF assms(1,2) t m] run
  have new: "queue_rep h' q' (xs @ [(a, t)])" "cells h a = None" "policy h' = policy h"
    and keep: "\<forall>b. b \<noteq> a \<longrightarrow> b \<notin> footprint xs \<longrightarrow> cells h' b = cells h b" by auto
  show ?thesis unfolding qop_effect_def
  proof (intro conjI exI [of _ "xs @ [(a, t)]"])
    show "\<forall>b. b \<in> dom (cells h) - footprint xs \<longrightarrow> cells h' b = cells h b"
      using keep new(2) by (metis DiffD1 DiffD2 domIff)
  qed (use new in auto)
qed

lemma pop_effect:
  assumes "queue_rep h q xs" and "pop_front_rq False h q = Inr (h', q', r)"
  shows "qop_effect h xs h' q' (tl (map snd xs))"
proof (cases xs)
  case Nil
  with assms show ?thesis by (auto simp: pop_front_rq_empty qop_effect_def)
next
  case (Cons x ys)
  obtain a t where "x = (a, t)" by (cases x)
  with assms Cons pop_front_rq_rep [of h q a t ys] show ?thesis
    by (auto simp: qop_effect_def)
qed

lemma remove_effect:
  assumes rep: "queue_rep h q xs" and run: "remove_node_rq False h q t = Inr (h', q', b)"
  shows "qop_effect h xs h' q' (remove1 t (map snd xs))"
proof (cases "t \<in> set (map snd xs)")
  case False
  then have "remove_node_rq False h q t = Inr (h, q, False)"
    by (intro remove_node_rq_absent [OF rep]) auto
  with run rep have "h' = h" "queue_rep h q' xs" by auto
  moreover from False have "remove1 t (map snd xs) = map snd xs" by (rule remove1_idem)
  ultimately show ?thesis by (auto simp: qop_effect_def)
next
  case True
  then obtain us vs where m: "map snd xs = us @ t # vs" and us: "t \<notin> set us"
    by (rule split_first)
  then obtain ys a zs where xs: "xs = ys @ (a, t) # zs" and ys: "map snd ys = us" "map snd zs = vs"
    by (auto simp: map_eq_append_conv)
  have n: "t \<notin> snd ` set ys" using us by (simp flip: ys(1))
  have r1: "remove1 t (map snd xs) = map snd (ys @ zs)"
    using remove1_append_first [OF us, of vs] m ys by simp
  from remove_node_rq_rep [OF rep [unfolded xs] n] run
  have "queue_rep h' q' (ys @ zs)" "policy h' = policy h"
    "\<forall>c. c \<notin> footprint xs \<longrightarrow> cells h' c = cells h c" by (auto simp: xs)
  then show ?thesis using r1 xs by (auto simp: qop_effect_def intro!: exI [of _ "ys @ zs"])
qed

lemma run_qop_effect:
  assumes "queue_rep h q xs" and "fresh_policy (policy h)" and "run_qop op h q = Inr (h', q')"
  shows "qop_effect h xs h' q' (qop_list op (map snd xs))"
proof (cases op)
  case (Push t)
  with assms show ?thesis by (simp add: push_effect)
next
  case Pop
  with assms show ?thesis by (auto simp: result_simps intro: pop_effect)
next
  case (Remove t)
  with assms show ?thesis by (auto simp: result_simps intro: remove_effect)
next
  case Delete
  with assms(3) delete_queue_rq_rep [OF assms(1)]
  have "q' = empty_queue" "policy h' = policy h"
    "\<forall>b. b \<notin> footprint xs \<longrightarrow> cells h' b = cells h b" by (auto simp: delete_queue_rq_def)
  with Delete show ?thesis unfolding qop_effect_def by (intro conjI exI [of _ "[]"]) auto
qed

text \<open>
  A family of queues that share the heap: the ready queue, the wait queue of every thread,
  lock and condition variable. Their nodes are disjoint.
\<close>

definition queues_rep :: "node_heap \<Rightarrow> ('k \<Rightarrow> fifo_queue) \<Rightarrow> ('k \<Rightarrow> int list) \<Rightarrow> bool" where
  "queues_rep h qs ls \<longleftrightarrow>
     fresh_policy (policy h) \<and>
     (\<exists>fs. (\<forall>k. queue_rep h (qs k) (fs k) \<and> map snd (fs k) = ls k) \<and>
        (\<forall>j k. j \<noteq> k \<longrightarrow> footprint (fs j) \<inter> footprint (fs k) = {}))"

lemma queues_rep_step:
  assumes rep: "queues_rep h qs ls" and run: "run_qop op h (qs k) = Inr (h', q')"
  shows "queues_rep h' (qs(k := q')) (ls(k := qop_list op (ls k)))"
proof -
  from rep obtain fs where fresh: "fresh_policy (policy h)"
    and r: "\<And>j. queue_rep h (qs j) (fs j)" "\<And>j. map snd (fs j) = ls j"
    and d: "\<And>i j. i \<noteq> j \<Longrightarrow> footprint (fs i) \<inter> footprint (fs j) = {}"
    by (auto simp: queues_rep_def)
  obtain xs where
    x: "queue_rep h' q' xs" "map snd xs = qop_list op (map snd (fs k))"
      "footprint xs \<inter> dom (cells h) \<subseteq> footprint (fs k)"
    and keep: "\<forall>b. b \<in> dom (cells h) - footprint (fs k) \<longrightarrow> cells h' b = cells h b"
    and p: "policy h' = policy h" using run_qop_effect [OF r(1) fresh run] by (rule qop_effectE)
  have sub: "footprint (fs j) \<subseteq> dom (cells h)" for j using queue_rep_allocated [OF r(1)] .
  let ?fs = "fs(k := xs)"
  have other: "queue_rep h' (qs j) (fs j)" if "j \<noteq> k" for j
  proof (rule queue_rep_agree [OF r(1)], rule ballI)
    fix a
    assume a: "a \<in> footprint (fs j)"
    then have "a \<in> dom (cells h)" by (rule subsetD [OF sub])
    moreover from a have "a \<notin> footprint (fs k)" using d [OF that] by (metis disjoint_iff)
    ultimately show "cells h' a = cells h a" using keep by simp
  qed
  have dis: "footprint xs \<inter> footprint (fs j) = {}" if "j \<noteq> k" for j
  proof -
    have "footprint xs \<inter> footprint (fs j) \<subseteq> footprint (fs k) \<inter> footprint (fs j)"
      using x(3) sub [of j] by (rule inter_through)
    then show ?thesis using d [of k j] that by simp
  qed
  have "\<forall>j. queue_rep h' ((qs(k := q')) j) (?fs j) \<and>
      map snd (?fs j) = (ls(k := qop_list op (ls k))) j"
    using x other r(2) by simp
  moreover have "\<forall>i j. i \<noteq> j \<longrightarrow> footprint (?fs i) \<inter> footprint (?fs j) = {}"
  proof (intro allI impI)
    fix i j :: 'a
    assume ij: "i \<noteq> j"
    show "footprint (?fs i) \<inter> footprint (?fs j) = {}"
      using dis [of i] dis [of j] d [OF ij] ij by (cases "i = k"; cases "j = k") auto
  qed
  ultimately show ?thesis using fresh p unfolding queues_rep_def by (metis (no_types, lifting))
qed

lemma run_qop_fails:
  assumes rep: "queue_rep h q xs" and fresh: "fresh_policy (policy h)"
    and run: "run_qop op h q = Inl e"
  shows "e = Assertion \<and> (\<exists>t. op = Push t \<and> (\<not> valid_tid t \<or> fst (malloc h) = NULL))"
proof -
  have r: "rq_rep (h, q) (map snd xs)" using rep fresh by (auto simp: rq_rep_def)
  show ?thesis
  proof (cases op)
    case (Push t)
    with push_pair_rq_cases [OF r, of t] run show ?thesis by (auto simp: push_pair_rq_def)
  next
    case Pop
    with run rep show ?thesis
      by (cases xs) (auto simp: pop_front_rq_empty dest!: pop_front_rq_rep)
  next
    case (Remove t)
    with run rq.remove_rep [OF r, of t] show ?thesis
      by (auto simp: remove_pair_rq_def result_simps)
  next
    case Delete
    with run delete_queue_rq_rep [OF rep] show ?thesis by (auto simp: delete_queue_rq_def)
  qed
qed

end
