(* ===== verification/Queue_Properties.thy ===== *)
theory Queue_Properties
  imports Thread_Queue
begin

text \<open>
  Properties of the pointer code of threads_3/queue.c, for any number of queues that share
  the heap, each with a witness on a concrete heap.
\<close>

text \<open>A run of operations, each on the queue that its index names.\<close>

fun run_qops ::
  "('k \<times> qop) list \<Rightarrow> node_heap \<times> ('k \<Rightarrow> fifo_queue) \<Rightarrow> (node_heap \<times> ('k \<Rightarrow> fifo_queue)) result" where
  "run_qops [] s = Inr s"
| "run_qops ((k, op) # ops) (h, qs) =
     bindE (run_qop op h (qs k)) (\<lambda>(h', q'). run_qops ops (h', qs(k := q')))"

fun list_qops :: "('k \<times> qop) list \<Rightarrow> ('k \<Rightarrow> int list) \<Rightarrow> 'k \<Rightarrow> int list" where
  "list_qops [] ls = ls"
| "list_qops ((k, op) # ops) ls = list_qops ops (ls(k := qop_list op (ls k)))"

lemma run_qops_refine:
  "queues_rep h qs ls \<Longrightarrow> run_qops ops (h, qs) = Inr (h', qs') \<Longrightarrow> queues_rep h' qs' (list_qops ops ls)"
proof (induction ops arbitrary: h qs ls)
  case (Cons x ops)
  obtain k op where x: "x = (k, op)" by (cases x)
  with Cons.prems(2) obtain h1 q1 where r: "run_qop op h (qs k) = Inr (h1, q1)"
    and rest: "run_qops ops (h1, qs(k := q1)) = Inr (h', qs')"
    by (auto simp: result_simps)
  from Cons.IH [OF queues_rep_step [OF Cons.prems(1) r] rest] show ?case
    unfolding x list_qops.simps .
qed simp

definition fresh_queues :: "nat \<Rightarrow> fifo_queue" where
  "fresh_queues k = empty_queue"

definition fresh_nodes :: node_heap where
  "fresh_nodes = new_heap \<lparr>nxt = Addr 77, val = 99\<rparr>"

lemma fresh_queues_rep: "queues_rep fresh_nodes fresh_queues (\<lambda>_. [])"
  by (auto simp: queues_rep_def fresh_nodes_def new_heap_def fresh_queues_def queue_rep_def empty_queue_def
      intro!: exI [of _ "\<lambda>_. []"])

text \<open>The equations that run the queue code on a concrete heap.\<close>

lemmas queue_evaluation = push_back_rq_def push_back_helper_def malloc_def store_def load_def
  fresh_nodes_def new_heap_def counting_policy_def fresh_queues_def empty_queue_def link_back_def
  THREAD_MAX_THREADS_def remove_node_rq_def find_node.simps pop_front_rq_def pop_front_helper_def
  take_front_def free_def unlink_after_def Let_def



text \<open>
  Property C24. On a well-formed queue, with interrupts off, the operations fail only where
  the code asserts: \<open>push_back\<close> of an id outside 0 .. 1023, or when \<open>malloc\<close> returns NULL.
  No operation follows a NULL or dangling pointer, frees a node twice or loops for ever.
\<close>

theorem queue_operations_memory_safe:
  assumes "queues_rep h qs ls" and "run_qop op h (qs k) = Inl e"
  shows "e = Assertion \<and> (\<exists>t. op = Push t \<and> (\<not> valid_tid t \<or> fst (malloc h) = NULL))"
proof -
  obtain xs where "queue_rep h (qs k) xs" and "fresh_policy (policy h)"
    using assms(1) by (auto simp: queues_rep_def)
  then show ?thesis using assms(2) by (rule run_qop_fails)
qed

theorem queue_operations_memory_safe_witness:
  "run_qop (Push 1024) fresh_nodes (fresh_queues 0) = Inl Assertion \<and> \<not> valid_tid 1024"
proof -
  have "run_qop (Push 1024) fresh_nodes (fresh_queues 0) = Inl Assertion" by (simp add: queue_evaluation)
  from queue_operations_memory_safe [OF fresh_queues_rep this] this show ?thesis
    by (simp add: valid_tid_def THREAD_MAX_THREADS_def)
qed

text \<open>
  First in, first out: after pushing the threads \<open>us\<close> on a ready queue that
  holds \<open>ts\<close>, popping as many times as there are threads returns \<open>ts\<close> and then \<open>us\<close>, in
  order, and leaves the queue empty.
\<close>

theorem ready_queue_is_fifo:
  assumes "rq_rep s ts" and "foldE push_pair_rq s us = Inr s'"
  shows "\<exists>s''. pop_times (pop_pair_rq False) (length ts + length us) s' = Inr (s'', ts @ us) \<and> rq_rep s'' []"
  by (rule rq.push_then_pop [OF assms])

theorem ready_queue_is_fifo_witness:
  "\<exists>s s'. foldE push_pair_rq (fresh_nodes, empty_queue) [7, 3, 7] = Inr s \<and>
     pop_times (pop_pair_rq False) 3 s = Inr (s', [7, 3, 7])"
proof -
  have r: "rq_rep (fresh_nodes, empty_queue) []"
    by (auto simp: rq_rep_def queue_rep_def empty_queue_def fresh_nodes_def new_heap_def)
  obtain s where p: "foldE push_pair_rq (fresh_nodes, empty_queue) [7, 3, 7] = Inr s"
    by (auto simp: push_pair_rq_def queue_evaluation)
  obtain s' where w: "pop_times (pop_pair_rq False) (length ([]::int list) + length [7, 3, 7::int]) s =
      Inr (s', [] @ [7, 3, 7])" using ready_queue_is_fifo [OF r p] by blast
  have "length ([]::int list) + length [7, 3, 7::int] = 3" by simp
  with w p show ?thesis by (metis append_Nil)
qed

text \<open>
  Property C31. \<open>delete_queue\<close> terminates, frees every node of the queue and nothing else,
  and leaves the queue empty.
\<close>

theorem delete_queue_frees_exactly_its_nodes:
  assumes "queue_rep h q xs"
  shows "\<exists>h' q'. delete_queue_rq False h q = Inr (h', q') \<and> queue_rep h' q' [] \<and>
    dom (cells h') = dom (cells h) - fst ` set xs \<and>
    (\<forall>b. b \<notin> fst ` set xs \<longrightarrow> cells h' b = cells h b)"
  using delete_queue_rq_rep [OF assms] by (auto simp: delete_queue_rq_def queue_rep_def empty_queue_def)

theorem delete_queue_frees_exactly_its_nodes_witness:
  "\<exists>h q h' q'. run_qops [((), Push 4), ((), Push 5)] (fresh_nodes, \<lambda>_. empty_queue) = Inr (h, q) \<and>
     delete_queue_rq False h (q ()) = Inr (h', q') \<and> dom (cells h') = {}"
proof -
  obtain h q where r: "run_qops [((), Push 4), ((), Push 5)] (fresh_nodes, \<lambda>_. empty_queue) = Inr (h, q)"
    and d: "dom (cells h) = {0, 1}" and rep: "queue_rep h (q ()) [(0, 4), (1, 5)]"
    by (auto simp: queue_evaluation queue_rep_def)
  from delete_queue_frees_exactly_its_nodes [OF rep] obtain h' q' where
    "delete_queue_rq False h (q ()) = Inr (h', q')" "dom (cells h') = dom (cells h) - {0, 1}" by auto
  then show ?thesis using r d by auto
qed

text \<open>
  \<open>pop_front\<close> answers false exactly on an empty queue and otherwise returns
  the oldest thread; \<open>remove_node\<close> answers whether the thread was in the queue and takes out
  its first occurrence.
\<close>

theorem pop_and_remove_answers:
  assumes "rq_rep s ts"
  shows "\<exists>s1 s2. pop_pair_rq False s = Inr (s1, case ts of [] \<Rightarrow> None | t # _ \<Rightarrow> Some t) \<and> rq_rep s1 (tl ts) \<and>
    remove_pair_rq s t = Inr (s2, t \<in> set ts) \<and> rq_rep s2 (remove1 t ts)"
proof -
  obtain s2 where "remove_pair_rq s t = Inr (s2, t \<in> set ts)" "rq_rep s2 (remove1 t ts)"
    using rq.remove_rep [OF assms] by blast
  moreover have "\<exists>s1. pop_pair_rq False s = Inr (s1, case ts of [] \<Rightarrow> None | t # _ \<Rightarrow> Some t) \<and> rq_rep s1 (tl ts)"
    using rq.pop_front_none rq.pop_front_some assms by (cases ts) fastforce+
  ultimately show ?thesis by blast
qed

theorem pop_and_remove_answers_witness:
  "\<exists>s s2. foldE push_pair_rq (fresh_nodes, empty_queue) [7, 3] = Inr s \<and>
     remove_pair_rq s 3 = Inr (s2, True) \<and> rq_rep s2 [7]"
proof -
  have r: "rq_rep (fresh_nodes, empty_queue) []"
    by (auto simp: rq_rep_def queue_rep_def empty_queue_def fresh_nodes_def new_heap_def)
  obtain s where p: "foldE push_pair_rq (fresh_nodes, empty_queue) [7, 3] = Inr s"
    by (auto simp: push_pair_rq_def queue_evaluation)
  have "rq_rep s [7, 3]" using rq.push_all_rep [OF r p] by simp
  from pop_and_remove_answers [OF this, of 3] p show ?thesis by auto
qed

end
