(* ===== verification/Thread_State.thy ===== *)
theory Thread_State
  imports Thread_Queue
begin

text \<open>
  The data of threads_3/thread.c: thread control blocks, the global variables, locks and
  condition variables.

  The scheduler's model keeps every queue as the list of thread ids it holds; the theory
  Thread_Queue shows that the pointer code of queue.c acts on any family of queues exactly
  like that, and fails only where \<open>push_q\<close> below fails or \<open>malloc\<close> returns NULL. A
  struct wait_queue that the code never initialises (\<open>lock_create\<close>, \<open>cv_create\<close>) is
  \<open>Garbage\<close> unless the bytes that \<open>malloc\<close> found happen to be zero.

  A context switch leaves C calls unfinished on the stack of the thread that is switched
  out. The unfinished calls are a list of frames, innermost first; each names the point at
  which the call continues and the local variables it still needs (\<open>prev_sig_stat\<close>,
  \<open>new_tid\<close>, \<open>tid\<close>, \<open>lock\<close>). The empty list is user code.
\<close>

section \<open>Return codes\<close>

definition THREAD_ANY :: int where "THREAD_ANY = -1"
definition THREAD_SELF :: int where "THREAD_SELF = -2"
definition THREAD_INVALID :: int where "THREAD_INVALID = -3"
definition THREAD_NONE :: int where "THREAD_NONE = -4"
definition THREAD_NOMORE :: int where "THREAD_NOMORE = -5"
definition THREAD_NOMEMORY :: int where "THREAD_NOMEMORY = -6"
definition THREAD_FAILED :: int where "THREAD_FAILED = -7"
definition THREAD_MIN_STACK :: int where "THREAD_MIN_STACK = 32768"

lemmas thread_codes = THREAD_ANY_def THREAD_SELF_def THREAD_INVALID_def THREAD_NONE_def
  THREAD_NOMORE_def THREAD_NOMEMORY_def THREAD_FAILED_def

definition thread_ret_ok :: "int \<Rightarrow> int" where
  "thread_ret_ok ret = (if ret \<ge> 0 then 1 else 0)"

section \<open>Queues as lists\<close>

definition push_q :: "bool \<Rightarrow> int list \<Rightarrow> int \<Rightarrow> int list result" where
  "push_q ie ts t = bindE (assertE (\<not> ie)) (\<lambda>_. bindE (assertE (valid_tid t)) (\<lambda>_. Inr (ts @ [t])))"

definition pop_q :: "bool \<Rightarrow> int list \<Rightarrow> (int list \<times> int option) result" where
  "pop_q ie ts =
     bindE (assertE (\<not> ie)) (\<lambda>_. case ts of [] \<Rightarrow> Inr ([], None) | t # us \<Rightarrow> Inr (us, Some t))"

definition remove_q :: "bool \<Rightarrow> int list \<Rightarrow> int \<Rightarrow> (int list \<times> bool) result" where
  "remove_q ie ts t =
     bindE (assertE (\<not> ie)) (\<lambda>_. if t \<in> set ts then Inr (remove1 t ts, True) else Inr (ts, False))"

definition empty_q :: "bool \<Rightarrow> int list \<Rightarrow> bool result" where
  "empty_q ie ts = bindE (assertE (\<not> ie)) (\<lambda>_. Inr (ts = []))"

lemma push_q_off [simp]: "valid_tid t \<Longrightarrow> push_q False ts t = Inr (ts @ [t])"
  by (simp add: push_q_def)

lemma pop_q_off [simp]:
  "pop_q False [] = Inr ([], None)" "pop_q False (t # ts) = Inr (ts, Some t)"
  by (simp_all add: pop_q_def)

lemma remove_q_off [simp]:
  "remove_q False ts t = (if t \<in> set ts then Inr (remove1 t ts, True) else Inr (ts, False))"
  by (simp add: remove_q_def)

lemma empty_q_off [simp]: "empty_q False ts = Inr (ts = [])"
  by (simp add: empty_q_def)

interpretation lq: fifo_remove "push_q False" "pop_q False" "(=)" "remove_q False"
  by unfold_locales (auto simp: push_q_def result_simps)

text \<open>The pointer code and the list agree on every operation of the ready queue.\<close>

lemma push_agrees:
  assumes "rq_rep s ts" and "push_pair_rq s t = Inr s'"
  shows "\<exists>us. push_q False ts t = Inr us \<and> rq_rep s' us"
  using push_pair_rq_cases [OF assms(1), of t] assms(2) by auto

lemma pop_agrees:
  assumes "rq_rep s ts"
  shows "\<exists>s' us r. pop_pair_rq False s = Inr (s', r) \<and> pop_q False ts = Inr (us, r) \<and> rq_rep s' us"
proof (cases ts)
  case Nil
  with assms show ?thesis using rq.pop_front_none by auto
next
  case (Cons u us)
  with assms show ?thesis using rq.pop_front_some by fastforce
qed

lemma remove_agrees:
  assumes "rq_rep s ts"
  shows "\<exists>s' us b. remove_pair_rq s t = Inr (s', b) \<and> remove_q False ts t = Inr (us, b) \<and>
           rq_rep s' us"
  using rq.remove_rep [OF assms, of t] assms by (auto simp: remove1_idem)

section \<open>Thread control blocks, locks, globals\<close>

datatype THREAD_STATE = NOT_INITIALIZED | RUNNING | READY | EXITED | KILLED | SLEEPING

datatype wait_queue = Garbage | Wq "int list"

text \<open>
  The points at which a thread continues. \<open>Yield_return\<close> is the return of
  \<open>getcontext\<close> in \<open>thread_yield\<close>; \<open>At_stub\<close> and \<open>At_thread_exit\<close> are the
  values that the code writes to \<open>REG_RIP\<close>; \<open>Cv_sleep\<close> is the call of
  \<open>thread_sleep\<close> in \<open>cv_wait\<close> and \<open>Exit_yield\<close> that of \<open>thread_yield\<close>
  in \<open>thread_exit\<close>, both made with the caller's signal mask; the others follow the
  return of the call they wait for.
\<close>

datatype frame =
    At_stub nat nat
  | At_thread_exit
  | Yield_return bool int
  | Sleep_return bool
  | Wait_return bool int
  | Acquire_loop bool ptr
  | Cv_sleep ptr ptr
  | Cv_acquire ptr
  | Exit_yield
  | After_exit
  | Handler_return

record thread =
  ucontext :: "frame list"
  context_mask :: bool
  orig_stack_begin :: ptr
  state :: THREAD_STATE
  wqueue :: wait_queue

record lock =
  lock_wqueue :: wait_queue
  acquired :: bool
  acquiring_thread :: int

text \<open>
  The globals. \<open>interrupts\<close> says whether SIGALRM is unblocked for the running thread;
  \<open>result\<close> and \<open>result_ptr\<close> hold the value returned by the last call.
\<close>

record sys =
  thread_array :: "int \<Rightarrow> thread"
  thread_queue :: "int list"
  running_thread_id :: int
  thread_exit_cleanup_needs_to_run :: bool
  interrupts :: bool
  stacks :: "unit heap"
  wait_queues :: "wait_queue heap"
  locks :: "lock heap"
  cvs :: "wait_queue heap"
  result :: int
  result_ptr :: ptr

definition state_of :: "sys \<Rightarrow> int \<Rightarrow> THREAD_STATE" where
  "state_of s t = state (thread_array s t)"

definition frames_of :: "sys \<Rightarrow> int \<Rightarrow> frame list" where
  "frames_of s t = ucontext (thread_array s t)"

definition upd_thread :: "int \<Rightarrow> (thread \<Rightarrow> thread) \<Rightarrow> sys \<Rightarrow> sys" where
  "upd_thread t f s = s\<lparr>thread_array := (thread_array s)(t := f (thread_array s t))\<rparr>"

definition set_state :: "int \<Rightarrow> THREAD_STATE \<Rightarrow> sys \<Rightarrow> sys" where
  "set_state t st s = upd_thread t (\<lambda>th. th\<lparr>state := st\<rparr>) s"

definition push_frame :: "frame \<Rightarrow> sys \<Rightarrow> sys" where
  "push_frame f s = upd_thread (running_thread_id s) (\<lambda>th. th\<lparr>ucontext := f # ucontext th\<rparr>) s"

section \<open>Where a wait queue lives\<close>

datatype wq_ref =
    WQ_NULL
  | WQ_obj ptr \<comment> \<open>made by wait_queue_create\<close>
  | WQ_thread int \<comment> \<open>field of a thread control block\<close>
  | WQ_lock ptr
  | WQ_cv ptr

definition get_wq :: "sys \<Rightarrow> wq_ref \<Rightarrow> wait_queue result" where
  "get_wq s r = (case r of
      WQ_NULL \<Rightarrow> Inl Undefined
    | WQ_obj p \<Rightarrow> load (wait_queues s) p
    | WQ_thread t \<Rightarrow> (if valid_tid t then Inr (wqueue (thread_array s t)) else Inl Undefined)
    | WQ_lock p \<Rightarrow> bindE (load (locks s) p) (\<lambda>l. Inr (lock_wqueue l))
    | WQ_cv p \<Rightarrow> load (cvs s) p)"

definition put_wq :: "sys \<Rightarrow> wq_ref \<Rightarrow> wait_queue \<Rightarrow> sys result" where
  "put_wq s r w = (case r of
      WQ_NULL \<Rightarrow> Inl Undefined
    | WQ_obj p \<Rightarrow> bindE (store (wait_queues s) p w) (\<lambda>h. Inr (s\<lparr>wait_queues := h\<rparr>))
    | WQ_thread t \<Rightarrow> (if valid_tid t then Inr (upd_thread t (\<lambda>th. th\<lparr>wqueue := w\<rparr>) s)
                     else Inl Undefined)
    | WQ_lock p \<Rightarrow> bindE (load (locks s) p) (\<lambda>l.
        bindE (store (locks s) p (l\<lparr>lock_wqueue := w\<rparr>)) (\<lambda>h. Inr (s\<lparr>locks := h\<rparr>)))
    | WQ_cv p \<Rightarrow> bindE (store (cvs s) p w) (\<lambda>h. Inr (s\<lparr>cvs := h\<rparr>)))"

text \<open>Using an uninitialised wait queue follows indeterminate pointers.\<close>

definition wq_threads :: "wait_queue \<Rightarrow> int list result" where
  "wq_threads w = (case w of Garbage \<Rightarrow> Inl Undefined | Wq ts \<Rightarrow> Inr ts)"

text \<open>The threads asleep in a wait queue, for the invariants.\<close>

definition sleepers :: "sys \<Rightarrow> wq_ref \<Rightarrow> int list" where
  "sleepers s r = (case get_wq s r of Inr (Wq ts) \<Rightarrow> ts | _ \<Rightarrow> [])"

end
