(* ===== verification/Thread_Lib.thy ===== *)
theory Thread_Lib
  imports Thread_State
begin

text \<open>
  The operations of threads_3/thread.c and the interrupt primitives of threads_3/interrupt.c,
  one definition per C function. A call takes the state and returns the state in which it
  returned, with its value in \<open>result\<close>, or in which it switched to another thread, with
  its unfinished part on the caller's list of frames; \<open>resume\<close> continues from a frame.
\<close>

section \<open>Interrupts\<close>

text \<open>The previous setting and the new state, as \<open>sigprocmask\<close> gives them atomically.\<close>

definition interrupts_set :: "bool \<Rightarrow> sys \<Rightarrow> bool \<times> sys" where
  "interrupts_set enabled s = (interrupts s, s\<lparr>interrupts := enabled\<rparr>)"

definition interrupts_on :: "sys \<Rightarrow> bool \<times> sys" where
  "interrupts_on s = interrupts_set True s"

definition interrupts_off :: "sys \<Rightarrow> bool \<times> sys" where
  "interrupts_off s = interrupts_set False s"

definition interrupts_enabled :: "sys \<Rightarrow> bool" where
  "interrupts_enabled s = interrupts s"

definition thread_id :: "sys \<Rightarrow> int" where
  "thread_id s = running_thread_id s"

text \<open>Leave a critical section with a value.\<close>

definition leave :: "bool \<Rightarrow> int \<Rightarrow> sys \<Rightarrow> sys" where
  "leave prev_sig_stat v s = s\<lparr>interrupts := prev_sig_stat, result := v\<rparr>"

section \<open>Lab 2\<close>

fun init_loop :: "nat \<Rightarrow> int \<Rightarrow> sys \<Rightarrow> sys" where
  "init_loop 0 i s = s"
| "init_loop (Suc n) i s = init_loop n (i + 1)
     (upd_thread i (\<lambda>th. th\<lparr>orig_stack_begin := NULL, state := NOT_INITIALIZED\<rparr>) s)"

definition thread_init :: "sys \<Rightarrow> sys" where
  "thread_init s =
     (let s1 = init_loop (nat THREAD_MAX_THREADS) 0 s;
          s2 = upd_thread 0 (\<lambda>th. th\<lparr>context_mask := interrupts s1\<rparr>) s1;
          s3 = set_state 0 RUNNING s2
      in s3\<lparr>running_thread_id := 0, thread_queue := []\<rparr>)"

fun cleanup_loop :: "nat \<Rightarrow> int \<Rightarrow> sys \<Rightarrow> sys result" where
  "cleanup_loop 0 i s = Inr s"
| "cleanup_loop (Suc n) i s =
     (if state_of s i = EXITED then
        let s1 = set_state i NOT_INITIALIZED s in
        bindE (free (stacks s1) (orig_stack_begin (thread_array s1 i))) (\<lambda>h.
        cleanup_loop n (i + 1) (s1\<lparr>stacks := h\<rparr>))
      else cleanup_loop n (i + 1) s)"

definition thread_exit_cleanup :: "sys \<Rightarrow> sys result" where
  "thread_exit_cleanup s =
     bindE (assertE (\<not> interrupts_enabled s)) (\<lambda>_.
     if thread_exit_cleanup_needs_to_run s then
       bindE (cleanup_loop (nat THREAD_MAX_THREADS) 0 s) (\<lambda>s1.
       Inr (s1\<lparr>thread_exit_cleanup_needs_to_run := False\<rparr>))
     else Inr s)"

fun find_slot :: "nat \<Rightarrow> int \<Rightarrow> sys \<Rightarrow> int option" where
  "find_slot 0 i s = None"
| "find_slot (Suc n) i s =
     (if state_of s i = NOT_INITIALIZED then Some i else find_slot n (i + 1) s)"

text \<open>
  The initial stack pointer: 8 bytes off a 16-byte boundary, below the upper end of the
  stack. \<open>None\<close> when the code's own check of it fails.
\<close>

definition rip_addr :: "int \<Rightarrow> int" where
  "rip_addr stack =
     (let upper_bound = stack + THREAD_MIN_STACK;
          offset = c_rem upper_bound 16;
          return_address_offset = (if offset < 8 then 8 + offset else offset - 8)
      in upper_bound - return_address_offset)"

definition rip_addr_ok :: "int \<Rightarrow> bool" where
  "rip_addr_ok stack \<longleftrightarrow>
     rip_addr stack \<le> stack + THREAD_MIN_STACK \<and> c_rem (rip_addr stack - 8) 16 = 0"

definition ptr_value :: "ptr \<Rightarrow> int" where
  "ptr_value p = (case p of NULL \<Rightarrow> 0 | Addr a \<Rightarrow> int a)"

definition thread_create :: "nat \<Rightarrow> nat \<Rightarrow> sys \<Rightarrow> sys result" where
  "thread_create fn parg s =
     (let (prev, s0) = interrupts_set False s in
      bindE (thread_exit_cleanup s0) (\<lambda>s1.
      case find_slot (nat THREAD_MAX_THREADS) 0 s1 of
        None \<Rightarrow> Inr (leave prev THREAD_NOMORE s1)
      | Some i \<Rightarrow>
         let s2 = upd_thread i (\<lambda>th. th\<lparr>state := READY, context_mask := interrupts s1\<rparr>) s1;
             (stack, h) = malloc (stacks s2);
             s3 = s2\<lparr>stacks := h\<rparr> in
         if stack = NULL then
           Inr (leave prev THREAD_NOMEMORY (set_state i NOT_INITIALIZED s3))
         else
           let s4 = upd_thread i (\<lambda>th. th\<lparr>orig_stack_begin := stack\<rparr>) s3 in
           bindE (assertE (rip_addr_ok (ptr_value stack))) (\<lambda>_.
           let s5 = upd_thread i (\<lambda>th. th\<lparr>ucontext := [At_stub fn parg]\<rparr>) s4 in
           bindE (push_q (interrupts s5) (thread_queue s5) i) (\<lambda>q.
           Inr (leave prev i (s5\<lparr>thread_queue := q\<rparr>))))))"

text \<open>
  The second half of \<open>thread_yield\<close>: save the context of the current thread, fix the
  states and load the context of the next one. A killed thread is sent to
  \<open>thread_exit\<close> by overwriting its instruction pointer.
\<close>

definition switch_to :: "bool \<Rightarrow> int \<Rightarrow> int \<Rightarrow> sys \<Rightarrow> sys result" where
  "switch_to prev current_tid new_tid s =
     bindE (assertE (new_tid \<ge> 0)) (\<lambda>_.
     let s1 = s\<lparr>running_thread_id := new_tid\<rparr>;
         s2 = upd_thread current_tid
                (\<lambda>th. th\<lparr>ucontext := Yield_return prev new_tid # ucontext th,
                        context_mask := interrupts s1\<rparr>) s1 in
     bindE (assertE (\<not> interrupts_enabled s2)) (\<lambda>_.
     let s3 = (if state_of s2 new_tid = KILLED
               then upd_thread new_tid (\<lambda>th. th\<lparr>ucontext := [At_thread_exit]\<rparr>) s2 else s2);
         c = state_of s3 current_tid;
         s4 = set_state current_tid (if c = EXITED \<or> c = SLEEPING then c else READY) s3;
         s5 = set_state new_tid RUNNING s4
     in Inr (s5\<lparr>interrupts := context_mask (thread_array s5 new_tid)\<rparr>)))"

definition thread_yield :: "int \<Rightarrow> sys \<Rightarrow> sys result" where
  "thread_yield want_tid s =
     (let (prev, s0) = interrupts_set False s;
          current_tid = thread_id s0;
          new_tid = (if want_tid = THREAD_SELF then current_tid else want_tid) in
      if want_tid = THREAD_ANY \<or> new_tid = current_tid \<or>
         (want_tid \<ge> 0 \<and> want_tid < THREAD_MAX_THREADS \<and>
          (state_of s0 new_tid = READY \<or> state_of s0 new_tid = KILLED))
      then
        bindE (if state_of s0 current_tid \<noteq> EXITED \<and> state_of s0 current_tid \<noteq> SLEEPING
               then push_q (interrupts s0) (thread_queue s0) current_tid
               else Inr (thread_queue s0)) (\<lambda>q.
        if want_tid = THREAD_ANY then
          bindE (pop_q (interrupts s0) q) (\<lambda>(q1, popped).
          case popped of
            None \<Rightarrow> Inl Assertion
          | Some t \<Rightarrow>
              if t = current_tid then Inr (leave prev THREAD_NONE (s0\<lparr>thread_queue := q1\<rparr>))
              else switch_to prev current_tid t (s0\<lparr>thread_queue := q1\<rparr>))
        else
          bindE (remove_q (interrupts s0) q new_tid) (\<lambda>(q1, found).
          bindE (assertE found) (\<lambda>_.
          switch_to prev current_tid new_tid (s0\<lparr>thread_queue := q1\<rparr>))))
      else Inr (leave prev THREAD_INVALID s0))"

definition thread_kill :: "int \<Rightarrow> sys \<Rightarrow> sys result" where
  "thread_kill tid s =
     (let (prev, s0) = interrupts_set False s in
      bindE (thread_exit_cleanup s0) (\<lambda>s1.
      if tid < 0 \<or> tid \<ge> THREAD_MAX_THREADS \<or> tid = thread_id s1 \<or>
         state_of s1 tid = NOT_INITIALIZED
      then Inr (leave prev THREAD_INVALID s1)
      else Inr (leave prev tid (set_state tid KILLED s1))))"

definition ready_queue_empty :: "sys \<Rightarrow> (bool \<times> sys) result" where
  "ready_queue_empty s =
     (let (prev, s0) = interrupts_set False s in
      bindE (empty_q (interrupts s0) (thread_queue s0)) (\<lambda>b.
      Inr (b, s0\<lparr>interrupts := prev\<rparr>)))"

section \<open>Lab 3: sleeping and waking\<close>

fun wake_loop :: "int \<Rightarrow> int list \<Rightarrow> sys \<Rightarrow> int \<Rightarrow> (int list \<times> sys \<times> int) result" where
  "wake_loop all [] s n = Inr ([], s, n)"
| "wake_loop all (t # ts) s n =
     bindE (push_q (interrupts s) (thread_queue s) t) (\<lambda>q.
     let s1 = s\<lparr>thread_queue := q\<rparr>;
         s2 = (if state_of s1 t = SLEEPING then set_state t READY s1 else s1) in
     if all = 0 then Inr (ts, s2, n + 1) else wake_loop all ts s2 (n + 1))"

definition thread_wakeup :: "wq_ref \<Rightarrow> int \<Rightarrow> sys \<Rightarrow> sys result" where
  "thread_wakeup queue all s =
     (let (prev, s0) = interrupts_set False s in
      if queue = WQ_NULL then Inr (leave prev 0 s0)
      else
        bindE (get_wq s0 queue) (\<lambda>w.
        bindE (wq_threads w) (\<lambda>ts.
        bindE (empty_q (interrupts s0) ts) (\<lambda>e.
        if \<not> e \<and> (all = 0 \<or> all = 1) then
          bindE (wake_loop all ts s0 0) (\<lambda>(us, s1, n).
          bindE (put_wq s1 queue (Wq us)) (\<lambda>s2.
          Inr (leave prev n s2)))
        else Inr (leave prev 0 s0)))))"

definition thread_exit :: "sys \<Rightarrow> sys result" where
  "thread_exit s =
     (let (prev, s0) = interrupts_set False s;
          cur_tid = thread_id s0 in
      bindE (thread_exit_cleanup s0) (\<lambda>s1.
      let s2 = (set_state cur_tid EXITED s1)\<lparr>thread_exit_cleanup_needs_to_run := True\<rparr> in
      bindE (thread_wakeup (WQ_thread cur_tid) 1 s2) (\<lambda>s3.
      bindE (empty_q (interrupts s3) (thread_queue s3)) (\<lambda>e.
      if \<not> e then Inr (push_frame Exit_yield (s3\<lparr>interrupts := prev\<rparr>))
      else Inl (Exit_with 0)))))"

definition thread_sleep :: "wq_ref \<Rightarrow> sys \<Rightarrow> sys result" where
  "thread_sleep queue s =
     (let (prev, s0) = interrupts_set False s in
      if queue = WQ_NULL then Inr (leave prev THREAD_INVALID s0)
      else
        bindE (empty_q (interrupts s0) (thread_queue s0)) (\<lambda>e.
        if e then Inr (leave prev THREAD_NONE s0)
        else
          bindE (get_wq s0 queue) (\<lambda>w.
          bindE (wq_threads w) (\<lambda>ts.
          bindE (push_q (interrupts s0) ts (thread_id s0)) (\<lambda>us.
          bindE (put_wq s0 queue (Wq us)) (\<lambda>s1.
          thread_yield THREAD_ANY
            (push_frame (Sleep_return prev) (set_state (thread_id s1) SLEEPING s1))))))))"

definition thread_wait :: "int \<Rightarrow> sys \<Rightarrow> sys result" where
  "thread_wait tid s =
     (let (prev, s0) = interrupts_set False s in
      if tid < 0 \<or> tid \<ge> THREAD_MAX_THREADS \<or> state_of s0 tid = NOT_INITIALIZED \<or>
         tid = thread_id s0
      then Inr (leave prev THREAD_INVALID s0)
      else thread_sleep (WQ_thread tid) (push_frame (Wait_return prev tid) s0))"

definition wait_queue_create :: "sys \<Rightarrow> sys result" where
  "wait_queue_create s =
     (let (prev, s0) = interrupts_set False s;
          (wq, h) = malloc (wait_queues s0) in
      bindE (assertE (wq \<noteq> NULL)) (\<lambda>_.
      bindE (store h wq (Wq [])) (\<lambda>h1.
      Inr (s0\<lparr>wait_queues := h1, interrupts := prev, result_ptr := wq\<rparr>))))"

definition wait_queue_destroy :: "ptr \<Rightarrow> sys \<Rightarrow> sys result" where
  "wait_queue_destroy wq s =
     (let (prev, s0) = interrupts_set False s in
      bindE (get_wq s0 (WQ_obj wq)) (\<lambda>w.
      bindE (wq_threads w) (\<lambda>ts.
      bindE (put_wq s0 (WQ_obj wq) (Wq [])) (\<lambda>s1.
      bindE (free (wait_queues s1) wq) (\<lambda>h.
      Inr (s1\<lparr>wait_queues := h, interrupts := prev\<rparr>))))))"

section \<open>Lab 3: locks and condition variables\<close>

text \<open>
  The block keeps the bytes that \<open>malloc\<close> found in the place of its wait queue.
\<close>

definition lock_create :: "sys \<Rightarrow> sys result" where
  "lock_create s =
     (let (lock, h) = malloc (locks s) in
      bindE (assertE (lock \<noteq> NULL)) (\<lambda>_.
      bindE (load h lock) (\<lambda>junk.
      bindE (store h lock (junk\<lparr>acquired := False, acquiring_thread := THREAD_NONE\<rparr>)) (\<lambda>h1.
      Inr (s\<lparr>locks := h1, result_ptr := lock\<rparr>)))))"

definition lock_destroy :: "ptr \<Rightarrow> sys \<Rightarrow> sys result" where
  "lock_destroy lock s =
     (let (prev, s0) = interrupts_set False s in
      bindE (assertE (lock \<noteq> NULL)) (\<lambda>_.
      bindE (load (locks s0) lock) (\<lambda>l.
      bindE (assertE (\<not> acquired l)) (\<lambda>_.
      bindE (wq_threads (lock_wqueue l)) (\<lambda>ts.
      bindE (empty_q (interrupts s0) ts) (\<lambda>e.
      bindE (assertE e) (\<lambda>_.
      bindE (free (locks s0) lock) (\<lambda>h.
      Inr (s0\<lparr>locks := h, interrupts := prev\<rparr>)))))))))"

text \<open>The head of the while loop of \<open>lock_acquire\<close>, with interrupts disabled.\<close>

definition acquire_loop :: "bool \<Rightarrow> ptr \<Rightarrow> sys \<Rightarrow> sys result" where
  "acquire_loop prev lock s =
     bindE (load (locks s) lock) (\<lambda>l.
     if acquired l then thread_sleep (WQ_lock lock) (push_frame (Acquire_loop prev lock) s)
     else
       bindE (store (locks s) lock
                (l\<lparr>acquired := True, acquiring_thread := thread_id s\<rparr>)) (\<lambda>h.
       Inr (s\<lparr>locks := h, interrupts := prev\<rparr>)))"

definition lock_acquire :: "ptr \<Rightarrow> sys \<Rightarrow> sys result" where
  "lock_acquire lock s =
     (let (prev, s0) = interrupts_set False s in
      bindE (assertE (lock \<noteq> NULL)) (\<lambda>_. acquire_loop prev lock s0))"

definition lock_release :: "ptr \<Rightarrow> sys \<Rightarrow> sys result" where
  "lock_release lock s =
     (let (prev, s0) = interrupts_set False s in
      bindE (assertE (lock \<noteq> NULL)) (\<lambda>_.
      bindE (load (locks s0) lock) (\<lambda>l.
      bindE (assertE (acquiring_thread l = thread_id s0)) (\<lambda>_.
      bindE (store (locks s0) lock (l\<lparr>acquired := False\<rparr>)) (\<lambda>h.
      bindE (thread_wakeup (WQ_lock lock) 1 (s0\<lparr>locks := h\<rparr>)) (\<lambda>s1.
      Inr (s1\<lparr>interrupts := prev\<rparr>)))))))"

definition cv_create :: "sys \<Rightarrow> sys result" where
  "cv_create s =
     (let (cv, h) = malloc (cvs s) in
      bindE (assertE (cv \<noteq> NULL)) (\<lambda>_. Inr (s\<lparr>cvs := h, result_ptr := cv\<rparr>)))"

definition cv_destroy :: "ptr \<Rightarrow> sys \<Rightarrow> sys result" where
  "cv_destroy cv s =
     (let (prev, s0) = interrupts_set False s in
      bindE (assertE (cv \<noteq> NULL)) (\<lambda>_.
      bindE (load (cvs s0) cv) (\<lambda>w.
      bindE (wq_threads w) (\<lambda>ts.
      bindE (empty_q (interrupts s0) ts) (\<lambda>e.
      bindE (assertE e) (\<lambda>_.
      bindE (free (cvs s0) cv) (\<lambda>h.
      Inr (s0\<lparr>cvs := h, interrupts := prev\<rparr>))))))))"

text \<open>\<open>assert(lock->acquiring_thread == thread_id())\<close> in a critical section of its own.\<close>

definition assert_owner :: "ptr \<Rightarrow> sys \<Rightarrow> unit result" where
  "assert_owner lock s =
     bindE (load (locks s) lock) (\<lambda>l. assertE (acquiring_thread l = thread_id s))"

text \<open>
  Up to the return of \<open>lock_release\<close>; the frame continues with \<open>thread_sleep\<close>, and
  interrupts are as the caller had them at this point.
\<close>

definition cv_wait :: "ptr \<Rightarrow> ptr \<Rightarrow> sys \<Rightarrow> sys result" where
  "cv_wait cv lock s =
     bindE (assertE (cv \<noteq> NULL)) (\<lambda>_.
     bindE (assertE (lock \<noteq> NULL)) (\<lambda>_.
     bindE (assert_owner lock s) (\<lambda>_.
     bindE (lock_release lock s) (\<lambda>s1.
     Inr (push_frame (Cv_sleep cv lock) s1)))))"

definition cv_signal :: "ptr \<Rightarrow> ptr \<Rightarrow> sys \<Rightarrow> sys result" where
  "cv_signal cv lock s =
     bindE (assertE (cv \<noteq> NULL)) (\<lambda>_.
     bindE (assertE (lock \<noteq> NULL)) (\<lambda>_.
     bindE (assert_owner lock s) (\<lambda>_. thread_wakeup (WQ_cv cv) 0 s)))"

definition cv_broadcast :: "ptr \<Rightarrow> ptr \<Rightarrow> sys \<Rightarrow> sys result" where
  "cv_broadcast cv lock s =
     bindE (assertE (cv \<noteq> NULL)) (\<lambda>_.
     bindE (assertE (lock \<noteq> NULL)) (\<lambda>_.
     bindE (assert_owner lock s) (\<lambda>_. thread_wakeup (WQ_cv cv) 1 s)))"

section \<open>The interrupt handler and unfinished calls\<close>

text \<open>
  SIGALRM arrives while it is unblocked; the kernel blocks it for the handler, and the
  return from the handler unblocks it again.
\<close>

definition interrupt_handler :: "sys \<Rightarrow> sys result" where
  "interrupt_handler s =
     (let s0 = s\<lparr>interrupts := False\<rparr> in
      bindE (assertE (\<not> interrupts_enabled s0)) (\<lambda>_.
      thread_yield THREAD_ANY (push_frame Handler_return s0)))"

definition thread_stub :: "nat \<Rightarrow> nat \<Rightarrow> sys \<Rightarrow> sys" where
  "thread_stub thread_main arg s = snd (interrupts_on s)"

text \<open>Continue the running thread at a frame that has been taken off its list.\<close>

definition resume :: "frame \<Rightarrow> sys \<Rightarrow> sys result" where
  "resume f s = (case f of
      At_stub fn arg \<Rightarrow> Inr (thread_stub fn arg s)
    | At_thread_exit \<Rightarrow> thread_exit s
    | Yield_return prev new_tid \<Rightarrow> Inr (leave prev new_tid s)
    | Sleep_return prev \<Rightarrow> Inr (s\<lparr>interrupts := prev\<rparr>)
    | Wait_return prev tid \<Rightarrow> Inr (leave prev tid s)
    | Acquire_loop prev lock \<Rightarrow> acquire_loop prev lock s
    | Cv_sleep cv lock \<Rightarrow> thread_sleep (WQ_cv cv) (push_frame (Cv_acquire lock) s)
    | Cv_acquire lock \<Rightarrow> lock_acquire lock s
    | Exit_yield \<Rightarrow> thread_yield THREAD_ANY (push_frame After_exit s)
    | After_exit \<Rightarrow> Inl Assertion
    | Handler_return \<Rightarrow> Inr (s\<lparr>interrupts := True\<rparr>))"

definition pop_frame :: "sys \<Rightarrow> sys" where
  "pop_frame s = upd_thread (running_thread_id s) (\<lambda>th. th\<lparr>ucontext := tl (ucontext th)\<rparr>) s"

text \<open>What user code can do: the functions of thread.h and interrupt.h.\<close>

datatype api =
    Api_yield int | Api_create nat nat | Api_exit | Api_kill int
  | Api_sleep wq_ref | Api_wakeup wq_ref int | Api_wait int
  | Api_wq_create | Api_wq_destroy ptr
  | Api_lock_create | Api_lock_destroy ptr | Api_acquire ptr | Api_release ptr
  | Api_cv_create | Api_cv_destroy ptr | Api_cv_wait ptr ptr | Api_cv_signal ptr ptr
  | Api_cv_broadcast ptr ptr | Api_interrupts bool

fun api_call :: "api \<Rightarrow> sys \<Rightarrow> sys result" where
  "api_call (Api_yield t) s = thread_yield t s"
| "api_call (Api_create fn arg) s = thread_create fn arg s"
| "api_call Api_exit s = thread_exit s"
| "api_call (Api_kill t) s = thread_kill t s"
| "api_call (Api_sleep r) s = thread_sleep r s"
| "api_call (Api_wakeup r n) s = thread_wakeup r n s"
| "api_call (Api_wait t) s = thread_wait t s"
| "api_call Api_wq_create s = wait_queue_create s"
| "api_call (Api_wq_destroy p) s = wait_queue_destroy p s"
| "api_call Api_lock_create s = lock_create s"
| "api_call (Api_lock_destroy p) s = lock_destroy p s"
| "api_call (Api_acquire p) s = lock_acquire p s"
| "api_call (Api_release p) s = lock_release p s"
| "api_call Api_cv_create s = cv_create s"
| "api_call (Api_cv_destroy p) s = cv_destroy p s"
| "api_call (Api_cv_wait c l) s = cv_wait c l s"
| "api_call (Api_cv_signal c l) s = cv_signal c l s"
| "api_call (Api_cv_broadcast c l) s = cv_broadcast c l s"
| "api_call (Api_interrupts b) s = Inr (snd (interrupts_set b s))"

text \<open>
  One step of the process: user code calls the library, an unfinished call continues, or a
  timer interrupt arrives. Between steps nothing happens; inside a step interrupts are off.
\<close>

inductive sys_step :: "sys \<Rightarrow> sys \<Rightarrow> bool" where
  call: "frames_of s (running_thread_id s) = [] \<Longrightarrow> api_call a s = Inr s' \<Longrightarrow> sys_step s s'"
| continue: "frames_of s (running_thread_id s) = f # fs \<Longrightarrow> resume f (pop_frame s) = Inr s' \<Longrightarrow>
     sys_step s s'"
| tick: "interrupts s \<Longrightarrow> interrupt_handler s = Inr s' \<Longrightarrow> sys_step s s'"

end
