(* ===== verification/Sched_Core.thy ===== *)
theory Sched_Core
  imports Thread_Lib
begin

text \<open>
  The invariant of the scheduler, over the four things it is about: the running thread
  \<open>r\<close>, the ready queue \<open>q\<close>, the state of every thread \<open>st\<close> and the threads asleep
  in every wait queue \<open>w\<close>. Each lemma is one way in which an operation of thread.c
  moves threads between these; the theory Sched_Inv shows that the operations do just this.
\<close>

definition asleep :: "(wq_ref \<Rightarrow> int list) \<Rightarrow> int \<Rightarrow> bool" where
  "asleep w t \<longleftrightarrow> (\<exists>x. t \<in> set (w x))"

definition separate :: "(wq_ref \<Rightarrow> int list) \<Rightarrow> bool" where
  "separate w \<longleftrightarrow>
     (\<forall>x. distinct (w x)) \<and> (\<forall>x y t. x \<noteq> y \<longrightarrow> t \<in> set (w x) \<longrightarrow> t \<notin> set (w y))"

definition thread_ok ::
  "int \<Rightarrow> int list \<Rightarrow> (int \<Rightarrow> THREAD_STATE) \<Rightarrow> (wq_ref \<Rightarrow> int list) \<Rightarrow> int \<Rightarrow> bool" where
  "thread_ok r q st w t \<longleftrightarrow>
     (t \<in> set q \<longrightarrow> valid_tid t \<and> (st t = READY \<or> st t = KILLED) \<and> \<not> asleep w t) \<and>
     (asleep w t \<longrightarrow> valid_tid t \<and> (st t = SLEEPING \<or> st t = KILLED)) \<and>
     (t \<noteq> r \<longrightarrow> valid_tid t \<longrightarrow> st t \<noteq> RUNNING) \<and>
     (t \<notin> set q \<longrightarrow> valid_tid t \<longrightarrow> st t \<noteq> READY)"

definition core_inv ::
  "int \<Rightarrow> int list \<Rightarrow> (int \<Rightarrow> THREAD_STATE) \<Rightarrow> (wq_ref \<Rightarrow> int list) \<Rightarrow> bool" where
  "core_inv r q st w \<longleftrightarrow>
     valid_tid r \<and> (st r = RUNNING \<or> st r = EXITED) \<and> distinct q \<and> separate w \<and>
     (\<forall>t. thread_ok r q st w t)"

lemma core_invI:
  assumes "valid_tid r" and "st r = RUNNING \<or> st r = EXITED" and "distinct q" and "separate w"
    and "\<And>t. thread_ok r q st w t"
  shows "core_inv r q st w"
  using assms by (simp add: core_inv_def)

lemma core_running: "core_inv r q st w \<Longrightarrow> valid_tid r \<and> (st r = RUNNING \<or> st r = EXITED)"
  by (simp add: core_inv_def)

lemma core_distinct: "core_inv r q st w \<Longrightarrow> distinct q"
  by (simp add: core_inv_def)

lemma core_separate: "core_inv r q st w \<Longrightarrow> separate w"
  by (simp add: core_inv_def)

lemma core_thread_ok: "core_inv r q st w \<Longrightarrow> thread_ok r q st w t"
  by (simp add: core_inv_def)

lemma core_queued:
  "core_inv r q st w \<Longrightarrow> t \<in> set q \<Longrightarrow>
   valid_tid t \<and> (st t = READY \<or> st t = KILLED) \<and> \<not> asleep w t \<and> t \<noteq> r"
  using core_thread_ok [of r q st w t] core_running [of r q st w] by (auto simp: thread_ok_def)

lemma core_asleep:
  "core_inv r q st w \<Longrightarrow> asleep w t \<Longrightarrow>
   valid_tid t \<and> (st t = SLEEPING \<or> st t = KILLED) \<and> t \<notin> set q \<and> t \<noteq> r"
  using core_thread_ok [of r q st w t] core_running [of r q st w] by (auto simp: thread_ok_def)

lemma core_READY: "core_inv r q st w \<Longrightarrow> valid_tid t \<Longrightarrow> st t = READY \<Longrightarrow> t \<in> set q"
  using core_thread_ok [of r q st w t] by (simp add: thread_ok_def)

lemma core_RUNNING: "core_inv r q st w \<Longrightarrow> valid_tid t \<Longrightarrow> st t = RUNNING \<Longrightarrow> t = r"
  using core_thread_ok [of r q st w t] unfolding thread_ok_def by blast

lemma asleep_snoc: "asleep (w(x := w x @ [r])) t \<longleftrightarrow> t = r \<or> asleep w t"
  by (auto simp: asleep_def)

lemma asleep_tl:
  assumes "separate w" and "w x = u # us"
  shows "asleep (w(x := us)) t \<longleftrightarrow> asleep w t \<and> t \<noteq> u"
proof
  assume "asleep (w(x := us)) t"
  then obtain y where y: "t \<in> set ((w(x := us)) y)" by (auto simp: asleep_def)
  have "distinct (w x)" using assms(1) by (simp add: separate_def)
  moreover have "t \<noteq> u" if "y \<noteq> x"
    using assms y that unfolding separate_def by (metis fun_upd_other list.set_intros(1))
  moreover have "t \<in> set (w y)" using y assms(2) by (cases "y = x") auto
  moreover have "t \<noteq> u" if "y = x" using y assms(2) that \<open>distinct (w x)\<close> by auto
  ultimately show "asleep w t \<and> t \<noteq> u" unfolding asleep_def by blast
next
  assume "asleep w t \<and> t \<noteq> u"
  then obtain y where "t \<in> set (w y)" "t \<noteq> u" by (auto simp: asleep_def)
  then have "t \<in> set ((w(x := us)) y)" using assms(2) by (cases "y = x") auto
  then show "asleep (w(x := us)) t" unfolding asleep_def by blast
qed

lemma asleep_forget: "asleep (w(x := [])) t \<Longrightarrow> asleep w t"
  by (auto simp: asleep_def split: if_splits)

lemma separateD: "separate w \<Longrightarrow> t \<in> set (w x) \<Longrightarrow> t \<in> set (w y) \<Longrightarrow> x = y"
  unfolding separate_def by blast

lemma separateI:
  assumes "\<And>x. distinct (w x)" and "\<And>x y t. t \<in> set (w x) \<Longrightarrow> t \<in> set (w y) \<Longrightarrow> x = y"
  shows "separate w"
  unfolding separate_def using assms by blast

lemma separate_smaller:
  assumes w: "separate w" and "distinct us" and us: "set us \<subseteq> set (w x)"
  shows "separate (w(x := us))"
proof (rule separateI)
  show "distinct ((w(x := us)) y)" for y using assms by (simp add: separate_def)
  fix y z t
  assume "t \<in> set ((w(x := us)) y)" "t \<in> set ((w(x := us)) z)"
  then have "t \<in> set (w y)" "t \<in> set (w z)" using us by (auto split: if_splits)
  with w show "y = z" by (rule separateD)
qed

lemma separate_snoc:
  assumes w: "separate w" and r: "\<not> asleep w r"
  shows "separate (w(x := w x @ [r]))"
proof (rule separateI)
  have n: "r \<notin> set (w y)" for y using r by (simp add: asleep_def)
  show "distinct ((w(x := w x @ [r])) y)" for y using w n by (simp add: separate_def)
  fix y z t
  assume t: "t \<in> set ((w(x := w x @ [r])) y)" "t \<in> set ((w(x := w x @ [r])) z)"
  show "y = z"
  proof (cases "t = r")
    case True
    have "y = x" using t(1) True n [of y] by (cases "y = x") simp_all
    moreover have "z = x" using t(2) True n [of z] by (cases "z = x") simp_all
    ultimately show ?thesis by simp
  next
    case False
    with t have "t \<in> set (w y)" "t \<in> set (w z)" by (auto split: if_splits)
    with w show ?thesis by (rule separateD)
  qed
qed

section \<open>The moves\<close>

text \<open>The running thread goes behind the others and thread \<open>n\<close> of the queue runs.\<close>

lemma core_pick:
  assumes c: "core_inv r q st w" and n: "n \<in> set q"
  shows "core_inv n (remove1 n q @ [r]) (st(r := READY, n := RUNNING)) w"
proof (rule core_invI)
  note q = core_queued [OF c n] and d = core_distinct [OF c]
  show "valid_tid n" using q by simp
  show "distinct (remove1 n q @ [r])" using d core_queued [OF c, of r] by auto
  show "separate w" using c by (rule core_separate)
  show "thread_ok n (remove1 n q @ [r]) (st(r := READY, n := RUNNING)) w t" for t
    using core_thread_ok [OF c, of t] core_running [OF c] core_asleep [OF c, of t] q d
    by (auto simp: thread_ok_def split: if_splits)
qed simp

lemma core_rotate:
  "core_inv r (n # q) st w \<Longrightarrow> core_inv n (q @ [r]) (st(r := READY, n := RUNNING)) w"
  using core_pick [of r "n # q" st w n] by simp

lemma core_after_exit:
  assumes c: "core_inv r (n # q) st w" and r: "st r = EXITED"
  shows "core_inv n q (st(n := RUNNING)) w"
proof (rule core_invI)
  note q = core_queued [OF c, of n] and d = core_distinct [OF c]
  show "valid_tid n" using q by simp
  show "distinct q" using d by simp
  show "separate w" using c by (rule core_separate)
  show "thread_ok n q (st(n := RUNNING)) w t" for t
    using core_thread_ok [OF c, of t] core_running [OF c] q d r
    by (auto simp: thread_ok_def split: if_splits)
qed simp

lemma core_sleep:
  assumes c: "core_inv r (n # q) st w" and r: "st r = RUNNING"
  shows "core_inv n q (st(r := SLEEPING, n := RUNNING)) (w(x := w x @ [r]))"
proof (rule core_invI)
  note q = core_queued [OF c, of n] and d = core_distinct [OF c]
  show "valid_tid n" using q by simp
  show "distinct q" using d by simp
  have nr: "\<not> asleep w r" using core_asleep [OF c, of r] by auto
  show "separate (w(x := w x @ [r]))" using core_separate [OF c] nr by (rule separate_snoc)
  show "thread_ok n q (st(r := SLEEPING, n := RUNNING)) (w(x := w x @ [r])) t" for t
    using core_thread_ok [OF c, of t] core_running [OF c] q d r core_queued [OF c, of r]
    by (auto simp: thread_ok_def asleep_snoc split: if_splits)
qed simp

lemma core_kill:
  assumes c: "core_inv r q st w" and t: "t \<noteq> r" "st t \<in> {READY, KILLED, SLEEPING}"
  shows "core_inv r q (st(t := KILLED)) w"
proof (rule core_invI)
  show "thread_ok r q (st(t := KILLED)) w u" for u
    using core_thread_ok [OF c, of u] t by (auto simp: thread_ok_def)
qed (use core_running [OF c] core_distinct [OF c] core_separate [OF c] t in auto)

lemma core_create:
  assumes c: "core_inv r q st w" and t: "valid_tid t" "st t = NOT_INITIALIZED"
  shows "core_inv r (q @ [t]) (st(t := READY)) w"
proof (rule core_invI)
  show "thread_ok r (q @ [t]) (st(t := READY)) w u" for u
    using core_thread_ok [OF c, of u] t by (auto simp: thread_ok_def)
  show "distinct (q @ [t])" using core_distinct [OF c] core_queued [OF c, of t] t by auto
qed (use core_running [OF c] core_separate [OF c] t in auto)

lemma core_reap:
  assumes c: "core_inv r q st w" and r: "st r = RUNNING"
    and st': "\<And>t. st' t = (if valid_tid t \<and> st t = EXITED then NOT_INITIALIZED else st t)"
  shows "core_inv r q st' w"
proof (rule core_invI)
  show "thread_ok r q st' w t" for t
    using core_thread_ok [OF c, of t] st' [of t] by (auto simp: thread_ok_def)
qed (use core_running [OF c] core_distinct [OF c] core_separate [OF c] r st' [of r] in auto)

lemma core_exit:
  assumes c: "core_inv r q st w"
  shows "core_inv r q (st(r := EXITED)) w"
proof (rule core_invI)
  show "thread_ok r q (st(r := EXITED)) w t" for t
    using core_thread_ok [OF c, of t] core_queued [OF c, of r] core_asleep [OF c, of r]
    by (auto simp: thread_ok_def)
qed (use core_running [OF c] core_distinct [OF c] core_separate [OF c] in auto)

lemma core_wake:
  assumes c: "core_inv r q st w" and w: "w x = u # us"
  shows "core_inv r (q @ [u]) (if st u = SLEEPING then st(u := READY) else st) (w(x := us))"
proof (rule core_invI)
  have "asleep w u" using w unfolding asleep_def by (intro exI [of _ x]) simp
  note u = core_asleep [OF c this] and tl = asleep_tl [OF core_separate [OF c] w]
  show "thread_ok r (q @ [u]) (if st u = SLEEPING then st(u := READY) else st) (w(x := us)) t" for t
    using core_thread_ok [OF c, of t] u by (auto simp: thread_ok_def tl)
  have "distinct (w x)" using core_separate [OF c] by (simp add: separate_def)
  then show "separate (w(x := us))"
    using w by (intro separate_smaller [OF core_separate [OF c]]) auto
  show "distinct (q @ [u])" using core_distinct [OF c] u by simp
qed (use core_running [OF c] in auto)

text \<open>Waking a prefix of a wait queue, in order; a killed thread keeps its state.\<close>

definition wake_states :: "int list \<Rightarrow> (int \<Rightarrow> THREAD_STATE) \<Rightarrow> int \<Rightarrow> THREAD_STATE" where
  "wake_states ts st t = (if t \<in> set ts \<and> st t = SLEEPING then READY else st t)"

lemma wake_states_Nil [simp]: "wake_states [] st = st"
  by (simp add: fun_eq_iff wake_states_def)

lemma wake_states_Cons:
  "wake_states (t # ts) st = wake_states ts (if st t = SLEEPING then st(t := READY) else st)"
  by (auto simp: fun_eq_iff wake_states_def)

lemma wake_states_neq [simp]:
  "wake_states ts st t = RUNNING \<longleftrightarrow> st t = RUNNING" "wake_states ts st t = EXITED \<longleftrightarrow> st t = EXITED"
  by (auto simp: wake_states_def)

lemma core_wake_many:
  "core_inv r q st w \<Longrightarrow> w x = ts @ us \<Longrightarrow> core_inv r (q @ ts) (wake_states ts st) (w(x := us))"
proof (induction ts arbitrary: q st w)
  case Nil
  then show ?case by (metis append_Nil append_Nil2 fun_upd_triv wake_states_Nil)
next
  case (Cons t ts)
  have "core_inv r (q @ [t]) (if st t = SLEEPING then st(t := READY) else st) (w(x := ts @ us))"
    using core_wake [OF Cons.prems(1), of x t "ts @ us"] Cons.prems(2) by simp
  moreover have "(w(x := ts @ us)) x = ts @ us" by simp
  ultimately have "core_inv r ((q @ [t]) @ ts)
      (wake_states ts (if st t = SLEEPING then st(t := READY) else st)) ((w(x := ts @ us))(x := us))"
    by (rule Cons.IH)
  then show ?case by (simp only: wake_states_Cons fun_upd_upd append_assoc append.simps)
qed

lemma core_forget:
  assumes c: "core_inv r q st w"
  shows "core_inv r q st (w(x := []))"
proof (rule core_invI)
  show "thread_ok r q st (w(x := [])) t" for t
    using core_thread_ok [OF c, of t] asleep_forget [of w x t] by (auto simp: thread_ok_def)
  show "separate (w(x := []))" by (rule separate_smaller [OF core_separate [OF c]]) auto
qed (use core_running [OF c] core_distinct [OF c] in auto)

end
