(* ===== verification/Sched_Inv.thy ===== *)
theory Sched_Inv
  imports Sched_Core
begin

text \<open>
  Every operation of threads_3/thread.c keeps the scheduler's invariant. First the effect
  of the building blocks (field updates, a write to a wait queue, a context switch) on the
  four components of the invariant, then one lemma per operation, then the step relation
  and the reachable states.
\<close>

named_theorems sys_simps \<open>effect of field updates on the scheduler's view\<close>

lemma thread_array_upd_thread [sys_simps]:
  "thread_array (upd_thread t f s) = (thread_array s)(t := f (thread_array s t))"
  by (simp add: upd_thread_def)

lemma fields_upd_thread [sys_simps]:
  "thread_queue (upd_thread t f s) = thread_queue s"
  "running_thread_id (upd_thread t f s) = running_thread_id s"
  "interrupts (upd_thread t f s) = interrupts s"
  "thread_exit_cleanup_needs_to_run (upd_thread t f s) = thread_exit_cleanup_needs_to_run s"
  "stacks (upd_thread t f s) = stacks s" "wait_queues (upd_thread t f s) = wait_queues s"
  "locks (upd_thread t f s) = locks s" "cvs (upd_thread t f s) = cvs s"
  "result (upd_thread t f s) = result s" "result_ptr (upd_thread t f s) = result_ptr s"
  by (simp_all add: upd_thread_def)

lemma state_of_upd_thread [sys_simps]:
  "(\<And>th. state (f th) = state th) \<Longrightarrow> state_of (upd_thread t f s) = state_of s"
  by (auto simp: state_of_def upd_thread_def)

lemma state_of_set_state [sys_simps]: "state_of (set_state t st s) = (state_of s)(t := st)"
  by (auto simp: state_of_def upd_thread_def set_state_def)

lemma state_of_fields [sys_simps]:
  "state_of (s\<lparr>interrupts := b\<rparr>) = state_of s" "state_of (s\<lparr>result := v\<rparr>) = state_of s"
  "state_of (s\<lparr>result_ptr := p\<rparr>) = state_of s" "state_of (s\<lparr>thread_queue := q\<rparr>) = state_of s"
  "state_of (s\<lparr>running_thread_id := t\<rparr>) = state_of s"
  "state_of (s\<lparr>thread_exit_cleanup_needs_to_run := b\<rparr>) = state_of s"
  "state_of (s\<lparr>stacks := hs\<rparr>) = state_of s" "state_of (s\<lparr>wait_queues := hw\<rparr>) = state_of s"
  "state_of (s\<lparr>locks := hl\<rparr>) = state_of s" "state_of (s\<lparr>cvs := hw\<rparr>) = state_of s"
  by (simp_all add: state_of_def fun_eq_iff)

lemma frames_of_fields [sys_simps]:
  "frames_of (s\<lparr>interrupts := b\<rparr>) = frames_of s" "frames_of (s\<lparr>result := v\<rparr>) = frames_of s"
  "frames_of (s\<lparr>result_ptr := p\<rparr>) = frames_of s" "frames_of (s\<lparr>thread_queue := q\<rparr>) = frames_of s"
  "frames_of (s\<lparr>running_thread_id := t\<rparr>) = frames_of s"
  "frames_of (s\<lparr>thread_exit_cleanup_needs_to_run := b\<rparr>) = frames_of s"
  "frames_of (s\<lparr>stacks := hs\<rparr>) = frames_of s" "frames_of (s\<lparr>wait_queues := hw\<rparr>) = frames_of s"
  "frames_of (s\<lparr>locks := hl\<rparr>) = frames_of s" "frames_of (s\<lparr>cvs := hw\<rparr>) = frames_of s"
  by (simp_all add: frames_of_def fun_eq_iff)

lemma fields_set_state [sys_simps]:
  "thread_queue (set_state t st s) = thread_queue s"
  "running_thread_id (set_state t st s) = running_thread_id s"
  "interrupts (set_state t st s) = interrupts s" "stacks (set_state t st s) = stacks s"
  "wait_queues (set_state t st s) = wait_queues s" "locks (set_state t st s) = locks s"
  "cvs (set_state t st s) = cvs s" "frames_of (set_state t st s) = frames_of s"
  "thread_exit_cleanup_needs_to_run (set_state t st s) = thread_exit_cleanup_needs_to_run s"
  by (auto simp: set_state_def upd_thread_def frames_of_def)

lemma fields_push_frame [sys_simps]:
  "thread_queue (push_frame f s) = thread_queue s"
  "running_thread_id (push_frame f s) = running_thread_id s"
  "interrupts (push_frame f s) = interrupts s" "state_of (push_frame f s) = state_of s"
  "locks (push_frame f s) = locks s" "cvs (push_frame f s) = cvs s"
  "wait_queues (push_frame f s) = wait_queues s" "stacks (push_frame f s) = stacks s"
  "thread_exit_cleanup_needs_to_run (push_frame f s) = thread_exit_cleanup_needs_to_run s"
  "frames_of (push_frame f s) = (frames_of s)
     (running_thread_id s := f # frames_of s (running_thread_id s))"
  by (auto simp: push_frame_def upd_thread_def frames_of_def state_of_def)

lemma fields_pop_frame [sys_simps]:
  "thread_queue (pop_frame s) = thread_queue s"
  "running_thread_id (pop_frame s) = running_thread_id s"
  "interrupts (pop_frame s) = interrupts s" "state_of (pop_frame s) = state_of s"
  "locks (pop_frame s) = locks s" "cvs (pop_frame s) = cvs s"
  "wait_queues (pop_frame s) = wait_queues s" "stacks (pop_frame s) = stacks s"
  "thread_exit_cleanup_needs_to_run (pop_frame s) = thread_exit_cleanup_needs_to_run s"
  "frames_of (pop_frame s) = (frames_of s)
     (running_thread_id s := tl (frames_of s (running_thread_id s)))"
  by (auto simp: pop_frame_def upd_thread_def frames_of_def state_of_def)

lemmas set_simps = interrupts_set_def leave_def
  thread_id_def interrupts_enabled_def

text \<open>The threads asleep depend on the wait queues only.\<close>

lemma sleepers_cong:
  assumes "\<And>t. wqueue (thread_array s' t) = wqueue (thread_array s t)"
    and "wait_queues s' = wait_queues s" and "locks s' = locks s" and "cvs s' = cvs s"
  shows "sleepers s' = sleepers s"
  by (intro ext) (simp add: sleepers_def get_wq_def assms split: wq_ref.split)

lemma sleepers_upd_thread [sys_simps]:
  "(\<And>th. wqueue (f th) = wqueue th) \<Longrightarrow> sleepers (upd_thread t f s) = sleepers s"
  by (rule sleepers_cong) (simp_all add: sys_simps)

lemma sleepers_fields [sys_simps]:
  "sleepers (s\<lparr>interrupts := b\<rparr>) = sleepers s"
  "sleepers (s\<lparr>result := v\<rparr>) = sleepers s"
  "sleepers (s\<lparr>result_ptr := p\<rparr>) = sleepers s"
  "sleepers (s\<lparr>thread_queue := q\<rparr>) = sleepers s"
  "sleepers (s\<lparr>running_thread_id := t\<rparr>) = sleepers s"
  "sleepers (s\<lparr>thread_exit_cleanup_needs_to_run := b\<rparr>) = sleepers s"
  "sleepers (s\<lparr>stacks := h\<rparr>) = sleepers s"
  by (rule sleepers_cong; simp)+

lemma sleepers_set_state [sys_simps]: "sleepers (set_state t st s) = sleepers s"
  by (simp add: set_state_def sys_simps)

lemma sleepers_push_frame [sys_simps]: "sleepers (push_frame f s) = sleepers s"
  by (simp add: push_frame_def sys_simps)

lemma sleepers_pop_frame [sys_simps]: "sleepers (pop_frame s) = sleepers s"
  by (simp add: pop_frame_def sys_simps)

lemma sleepers_get_wq: "get_wq s r = Inr w \<Longrightarrow> wq_threads w = Inr ts \<Longrightarrow> sleepers s r = ts"
  by (auto simp: sleepers_def wq_threads_def split: wait_queue.splits)

text \<open>The environment: what \<open>malloc\<close> may answer, and what it may find in a block.\<close>

definition junk_ok :: "wait_queue \<Rightarrow> bool" where
  "junk_ok w \<longleftrightarrow> w = Garbage \<or> w = Wq []"

definition env_ok :: "sys \<Rightarrow> bool" where
  "env_ok s \<longleftrightarrow>
     fresh_policy (policy (stacks s)) \<and> fresh_policy (policy (wait_queues s)) \<and>
     fresh_policy (policy (locks s)) \<and> fresh_policy (policy (cvs s)) \<and>
     (\<forall>n m a l. policy (locks s) n m = Some (a, l) \<longrightarrow> junk_ok (lock_wqueue l)) \<and>
     (\<forall>n m a w. policy (cvs s) n m = Some (a, w) \<longrightarrow> junk_ok w)"

definition policies where
  "policies s = (policy (stacks s), policy (wait_queues s), policy (locks s), policy (cvs s))"

lemma env_ok_policies: "policies s' = policies s \<Longrightarrow> env_ok s' = env_ok s"
  by (simp add: env_ok_def policies_def)

lemma policies_set_state [sys_simps]: "policies (set_state t st s) = policies s"
  by (simp add: policies_def sys_simps)

lemma policies_upd [sys_simps]:
  "policies (upd_thread t f s) = policies s"
  "policies (s\<lparr>interrupts := b\<rparr>) = policies s" "policies (s\<lparr>result := v\<rparr>) = policies s"
  "policies (s\<lparr>result_ptr := p\<rparr>) = policies s" "policies (s\<lparr>thread_queue := q\<rparr>) = policies s"
  "policies (s\<lparr>running_thread_id := t'\<rparr>) = policies s"
  "policies (s\<lparr>thread_exit_cleanup_needs_to_run := b\<rparr>) = policies s"
  by (simp_all add: policies_def upd_thread_def)

lemma heap_policies:
  "free h p = Inr h' \<Longrightarrow> policy h' = policy h" "store h p c = Inr h' \<Longrightarrow> policy h' = policy h"
  "malloc h = (p, h') \<Longrightarrow> policy h' = policy h"
  by (auto simp: free_def store_def malloc_def split: ptr.splits if_splits option.splits)

lemma env_ok_fields [sys_simps]:
  "env_ok (s\<lparr>interrupts := b\<rparr>) = env_ok s" "env_ok (s\<lparr>thread_queue := q\<rparr>) = env_ok s"
  "env_ok (set_state t st s) = env_ok s" "env_ok (push_frame f s) = env_ok s"
  by (rule env_ok_policies; simp add: sys_simps push_frame_def)+

text \<open>What only \<open>thread_create\<close> and the clean-up change: the stacks and who has which.\<close>

definition stack_frame :: "sys \<Rightarrow> unit heap \<times> (int \<Rightarrow> ptr)" where
  "stack_frame s = (stacks s, \<lambda>t. orig_stack_begin (thread_array s t))"

lemma stack_frame_upd [sys_simps]:
  "(\<And>th. orig_stack_begin (f th) = orig_stack_begin th) \<Longrightarrow>
     stack_frame (upd_thread t f s) = stack_frame s"
  "stack_frame (s\<lparr>interrupts := b\<rparr>) = stack_frame s" "stack_frame (s\<lparr>result := v\<rparr>) = stack_frame s"
  "stack_frame (s\<lparr>result_ptr := p\<rparr>) = stack_frame s" "stack_frame (s\<lparr>thread_queue := q\<rparr>) = stack_frame s"
  "stack_frame (s\<lparr>running_thread_id := t'\<rparr>) = stack_frame s"
  "stack_frame (s\<lparr>thread_exit_cleanup_needs_to_run := b\<rparr>) = stack_frame s"
  "stack_frame (s\<lparr>locks := hl\<rparr>) = stack_frame s" "stack_frame (s\<lparr>cvs := hw\<rparr>) = stack_frame s"
  "stack_frame (s\<lparr>wait_queues := hw\<rparr>) = stack_frame s"
  by (simp_all add: stack_frame_def upd_thread_def fun_eq_iff)

lemma stack_frame_ops [sys_simps]:
  "stack_frame (set_state t st s) = stack_frame s" "stack_frame (push_frame f s) = stack_frame s"
  "stack_frame (pop_frame s) = stack_frame s"
  by (simp_all add: set_state_def push_frame_def pop_frame_def sys_simps)

text \<open>A write to a wait queue changes that queue and nothing else the scheduler sees.\<close>

lemma put_wq_effect:
  assumes "put_wq s r (Wq ts) = Inr s'"
  shows "sleepers s' = (sleepers s)(r := ts)" and "state_of s' = state_of s"
    and "thread_queue s' = thread_queue s" and "running_thread_id s' = running_thread_id s"
    and "interrupts s' = interrupts s" and "policies s' = policies s"
    and "frames_of s' = frames_of s"
    and "thread_exit_cleanup_needs_to_run s' = thread_exit_cleanup_needs_to_run s"
    and "stack_frame s' = stack_frame s"
proof -
  have "sleepers s' = (sleepers s)(r := ts) \<and> state_of s' = state_of s \<and>
    thread_queue s' = thread_queue s \<and> running_thread_id s' = running_thread_id s \<and>
    interrupts s' = interrupts s \<and> policies s' = policies s \<and> frames_of s' = frames_of s \<and>
    thread_exit_cleanup_needs_to_run s' = thread_exit_cleanup_needs_to_run s \<and>
    stack_frame s' = stack_frame s"
    using assms
    by (cases r)
      (auto simp: put_wq_def result_simps load_def store_def policies_def upd_thread_def
        sleepers_def get_wq_def fun_eq_iff state_of_def frames_of_def stack_frame_def
        split: ptr.splits option.splits if_splits wq_ref.splits)
  then show "sleepers s' = (sleepers s)(r := ts)" and "state_of s' = state_of s"
    and "thread_queue s' = thread_queue s" and "running_thread_id s' = running_thread_id s"
    and "interrupts s' = interrupts s" and "policies s' = policies s"
    and "frames_of s' = frames_of s"
    and "thread_exit_cleanup_needs_to_run s' = thread_exit_cleanup_needs_to_run s"
    and "stack_frame s' = stack_frame s" by simp_all
qed

section \<open>The invariant\<close>

text \<open>An exited thread is only left behind while the clean-up is pending.\<close>

definition reap_ok :: "bool \<Rightarrow> (int \<Rightarrow> THREAD_STATE) \<Rightarrow> bool" where
  "reap_ok pending st \<longleftrightarrow> pending \<or> (\<forall>t. valid_tid t \<longrightarrow> st t \<noteq> EXITED)"

lemma reap_ok_upd: "reap_ok b st \<Longrightarrow> v \<noteq> EXITED \<Longrightarrow> reap_ok b (st(t := v))"
  by (auto simp: reap_ok_def)

lemma reap_ok_True [simp]: "reap_ok True st"
  by (simp add: reap_ok_def)

lemma reap_okD: "reap_ok False st \<Longrightarrow> valid_tid t \<Longrightarrow> st t \<noteq> EXITED"
  by (simp add: reap_ok_def)

definition sched_core :: "sys \<Rightarrow> bool" where
  "sched_core s \<longleftrightarrow>
     core_inv (running_thread_id s) (thread_queue s) (state_of s) (sleepers s) \<and> env_ok s \<and>
     reap_ok (thread_exit_cleanup_needs_to_run s) (state_of s)"

text \<open>The running thread executes user code or a call, and is not about to exit.\<close>

definition active :: "sys \<Rightarrow> bool" where
  "active s \<longleftrightarrow> sched_core s \<and> state_of s (running_thread_id s) = RUNNING"

text \<open>An exited thread runs only to give the processor away, and there is a thread to take it.\<close>

definition sched_inv :: "sys \<Rightarrow> bool" where
  "sched_inv s \<longleftrightarrow> sched_core s \<and>
     (state_of s (running_thread_id s) = EXITED \<longrightarrow>
        thread_queue s \<noteq> [] \<and> (\<exists>fs. frames_of s (running_thread_id s) = Exit_yield # fs))"

lemma active_inv: "active s \<Longrightarrow> sched_inv s"
  by (simp add: active_def sched_inv_def)

text \<open>Changes outside the scheduler's view.\<close>

definition same_view :: "sys \<Rightarrow> sys \<Rightarrow> bool" where
  "same_view s s' \<longleftrightarrow>
     running_thread_id s' = running_thread_id s \<and> thread_queue s' = thread_queue s \<and>
     state_of s' = state_of s \<and> sleepers s' = sleepers s \<and> policies s' = policies s \<and>
     thread_exit_cleanup_needs_to_run s' = thread_exit_cleanup_needs_to_run s"

lemma same_view_core: "same_view s s' \<Longrightarrow> sched_core s' = sched_core s"
  using env_ok_policies [of s' s] by (simp add: same_view_def sched_core_def)

lemma same_view_active: "same_view s s' \<Longrightarrow> active s' = active s"
  using same_view_core [of s s'] by (auto simp: active_def same_view_def)

lemma same_view_upd [sys_simps]:
  "same_view s (s'\<lparr>interrupts := b\<rparr>) = same_view s s'"
  "same_view s (s'\<lparr>result := v\<rparr>) = same_view s s'"
  "same_view s (s'\<lparr>result_ptr := p\<rparr>) = same_view s s'"
  by (auto simp: same_view_def sys_simps)

lemma same_view_refl [sys_simps]: "same_view s s"
  by (simp add: same_view_def)

lemma same_view_upd_thread [sys_simps]:
  "(\<And>th. state (f th) = state th) \<Longrightarrow> (\<And>th. wqueue (f th) = wqueue th) \<Longrightarrow>
   same_view s (upd_thread t f s') = same_view s s'"
  by (simp add: same_view_def sys_simps)

lemma same_view_leave [sys_simps]: "same_view s (leave b v s') = same_view s s'"
  by (simp add: leave_def sys_simps)

lemma same_view_push_frame [sys_simps]: "same_view s (push_frame f s') = same_view s s'"
  by (simp add: push_frame_def sys_simps)

lemma same_view_pop_frame [sys_simps]: "same_view s (pop_frame s') = same_view s s'"
  by (simp add: pop_frame_def sys_simps)

lemma same_view_trans: "same_view s s' \<Longrightarrow> same_view s' s'' \<Longrightarrow> same_view s s''"
  by (simp add: same_view_def)

lemma active_upd [sys_simps]:
  "active (s\<lparr>interrupts := b\<rparr>) = active s" "active (leave b v s) = active s"
  "active (push_frame f s) = active s" "active (pop_frame s) = active s"
  "active (s\<lparr>result_ptr := p\<rparr>) = active s"
  by (rule same_view_active; simp add: sys_simps)+

section \<open>Switching threads\<close>

lemma switch_to_effect:
  assumes "switch_to prev cur new s = Inr s'"
  shows "running_thread_id s' = new" and "thread_queue s' = thread_queue s"
    and "state_of s' = (state_of s)
           (cur := (if state_of s cur = EXITED \<or> state_of s cur = SLEEPING
                    then state_of s cur else READY), new := RUNNING)"
    and "sleepers s' = sleepers s" and "policies s' = policies s"
    and "thread_exit_cleanup_needs_to_run s' = thread_exit_cleanup_needs_to_run s"
    and "stack_frame s' = stack_frame s" and "locks s' = locks s" and "cvs s' = cvs s"
    and "wait_queues s' = wait_queues s"
proof -
  define s0 where "s0 = s\<lparr>running_thread_id := new\<rparr>"
  define s1 where "s1 = upd_thread cur
    (\<lambda>th. th\<lparr>ucontext := Yield_return prev new # ucontext th, context_mask := interrupts s0\<rparr>) s0"
  define s2 where "s2 = (if state_of s1 new = KILLED
    then upd_thread new (\<lambda>th. th\<lparr>ucontext := [At_thread_exit]\<rparr>) s1 else s1)"
  define s3 where "s3 = set_state new RUNNING (set_state cur
    (if state_of s2 cur = EXITED \<or> state_of s2 cur = SLEEPING then state_of s2 cur else READY) s2)"
  have s': "s' = s3\<lparr>interrupts := context_mask (thread_array s3 new)\<rparr>"
    using assms unfolding switch_to_def Let_def s3_def s2_def s1_def s0_def
    by (elim bindE_eq_Inr [THEN iffD1, elim_format] exE conjE) (simp only: sum.inject)
  have v: "same_view s0 s2"
    unfolding s2_def s1_def by (simp add: sys_simps)
  have s0: "running_thread_id s0 = new" "thread_queue s0 = thread_queue s" "sleepers s0 = sleepers s"
    "policies s0 = policies s" "state_of s0 = state_of s"
    "thread_exit_cleanup_needs_to_run s0 = thread_exit_cleanup_needs_to_run s"
    by (simp_all add: s0_def sys_simps)
  have st: "state_of s2 = state_of s" using v s0(5) by (simp add: same_view_def)
  show "running_thread_id s' = new" "thread_queue s' = thread_queue s"
    "sleepers s' = sleepers s" "policies s' = policies s"
    "thread_exit_cleanup_needs_to_run s' = thread_exit_cleanup_needs_to_run s"
    using v s0 by (simp_all add: s' s3_def sys_simps same_view_def)
  show "stack_frame s' = stack_frame s" "locks s' = locks s" "cvs s' = cvs s"
    "wait_queues s' = wait_queues s"
    by (simp_all add: s' s3_def s2_def s1_def s0_def sys_simps)
  show "state_of s' = (state_of s)
           (cur := (if state_of s cur = EXITED \<or> state_of s cur = SLEEPING
                    then state_of s cur else READY), new := RUNNING)"
    by (simp add: s' s3_def sys_simps st)
qed

lemma switch_to_succeeds: "0 \<le> new \<Longrightarrow> \<not> interrupts s \<Longrightarrow> \<exists>s'. switch_to prev cur new s = Inr s'"
  by (auto simp: switch_to_def Let_def interrupts_enabled_def sys_simps)

lemma yield_any_empty:
  assumes "state_of s (running_thread_id s) = RUNNING" and "valid_tid (running_thread_id s)"
    and "thread_queue s = []"
  shows "thread_yield THREAD_ANY s = Inr (leave (interrupts s) THREAD_NONE (s\<lparr>interrupts := False, thread_queue := []\<rparr>))"
  using assms by (simp add: thread_yield_def set_simps sys_simps thread_codes Let_def)

lemma yield_any_switch:
  assumes "state_of s (running_thread_id s) = RUNNING" and "valid_tid (running_thread_id s)"
    and "thread_queue s = t # q" and "t \<noteq> running_thread_id s"
  shows "thread_yield THREAD_ANY s =
    switch_to (interrupts s) (running_thread_id s) t
      (s\<lparr>interrupts := False, thread_queue := q @ [running_thread_id s]\<rparr>)"
  using assms by (simp add: thread_yield_def set_simps sys_simps thread_codes Let_def)

lemma yield_any_leave:
  assumes "state_of s (running_thread_id s) \<in> {EXITED, SLEEPING}"
    and "thread_queue s = t # q" and "t \<noteq> running_thread_id s"
  shows "thread_yield THREAD_ANY s =
    switch_to (interrupts s) (running_thread_id s) t
      (s\<lparr>interrupts := False, thread_queue := q\<rparr>)"
  using assms by (auto simp: thread_yield_def set_simps sys_simps thread_codes Let_def)

lemma switch_to_active:
  assumes "switch_to prev cur new s = Inr s'" and "env_ok s"
    and "reap_ok (thread_exit_cleanup_needs_to_run s) (state_of s)"
    and "core_inv new (thread_queue s) ((state_of s)
           (cur := (if state_of s cur = EXITED \<or> state_of s cur = SLEEPING
                    then state_of s cur else READY), new := RUNNING)) (sleepers s)"
  shows "active s'"
proof -
  note e = switch_to_effect [OF assms(1)]
  have "reap_ok (thread_exit_cleanup_needs_to_run s) (state_of s')"
    using assms(3) unfolding e(3) by (auto simp: reap_ok_def)
  then show ?thesis
    using assms(2,4) e env_ok_policies [of s' s] by (simp add: active_def sched_core_def)
qed

lemma activeD:
  assumes "active s"
  shows "core_inv (running_thread_id s) (thread_queue s) (state_of s) (sleepers s)"
    and "env_ok s" and "state_of s (running_thread_id s) = RUNNING"
    and "valid_tid (running_thread_id s)"
    and "running_thread_id s \<notin> set (thread_queue s)"
    and "reap_ok (thread_exit_cleanup_needs_to_run s) (state_of s)"
  using assms core_running core_queued by (fastforce simp: active_def sched_core_def)+

section \<open>thread_yield\<close>

lemma yield_any_active:
  assumes a: "active s" and y: "thread_yield THREAD_ANY s = Inr s'"
  shows "active s'"
proof (cases "thread_queue s")
  case Nil
  with y yield_any_empty [OF activeD(3,4) [OF a] Nil]
  have "s' = leave (interrupts s) THREAD_NONE (s\<lparr>interrupts := False, thread_queue := []\<rparr>)" by simp
  with Nil have "same_view s s'" by (simp add: sys_simps) (simp add: same_view_def sys_simps)
  then show ?thesis using a by (simp add: same_view_active)
next
  case (Cons t q)
  have t: "t \<noteq> running_thread_id s" using activeD(5) [OF a] Cons by auto
  have c: "core_inv t (q @ [running_thread_id s])
      ((state_of s)(running_thread_id s := READY, t := RUNNING)) (sleepers s)"
    using activeD(1) [OF a] Cons by (simp add: core_rotate)
  have sw: "switch_to (interrupts s) (running_thread_id s) t
      (s\<lparr>interrupts := False, thread_queue := q @ [running_thread_id s]\<rparr>) = Inr s'"
    using y yield_any_switch [OF activeD(3,4) [OF a] Cons t] by simp
  show ?thesis
    by (rule switch_to_active [OF sw]) (use c activeD(2,3,6) [OF a] in \<open>simp_all add: sys_simps\<close>)
qed

lemma remove_other: "t \<noteq> u \<Longrightarrow> remove1 t (q @ [u]) = remove1 t q @ [u]"
  by (induction q) auto

text \<open>The thread asked for, and the check that it can run.\<close>

definition target :: "int \<Rightarrow> sys \<Rightarrow> int" where
  "target want s = (if want = THREAD_SELF then running_thread_id s else want)"

definition can_yield_to :: "int \<Rightarrow> sys \<Rightarrow> bool" where
  "can_yield_to want s \<longleftrightarrow> target want s = running_thread_id s \<or>
     (valid_tid want \<and> (state_of s (target want s) = READY \<or> state_of s (target want s) = KILLED))"

lemma yield_tid_invalid:
  "want \<noteq> THREAD_ANY \<Longrightarrow> \<not> can_yield_to want s \<Longrightarrow>
   thread_yield want s = Inr (leave (interrupts s) THREAD_INVALID (s\<lparr>interrupts := False\<rparr>))"
  by (auto simp: thread_yield_def can_yield_to_def target_def set_simps sys_simps Let_def
      valid_tid_def)

lemma yield_tid_eq:
  assumes "want \<noteq> THREAD_ANY" and "can_yield_to want s"
    and "state_of s (running_thread_id s) = RUNNING" and "valid_tid (running_thread_id s)"
  shows "thread_yield want s =
    bindE (assertE (target want s \<in> set (thread_queue s @ [running_thread_id s]))) (\<lambda>_.
    switch_to (interrupts s) (running_thread_id s) (target want s)
      (s\<lparr>interrupts := False,
        thread_queue := remove1 (target want s) (thread_queue s @ [running_thread_id s])\<rparr>))"
proof -
  define n where "n = target want s"
  have "thread_yield want s = bindE (remove_q False (thread_queue s @ [running_thread_id s]) n)
      (\<lambda>(q1, found). bindE (assertE found) (\<lambda>_.
        switch_to (interrupts s) (running_thread_id s) n
          (s\<lparr>interrupts := False, thread_queue := q1\<rparr>)))"
    using assms
    by (auto simp: thread_yield_def can_yield_to_def target_def n_def set_simps sys_simps Let_def
        valid_tid_def push_q_def THREAD_SELF_def)
  then show ?thesis by (auto simp: n_def [symmetric] assertE_def)
qed

lemma yield_tid_active:
  assumes a: "active s" and y: "thread_yield want s = Inr s'" and w: "want \<noteq> THREAD_ANY"
  shows "active s'"
proof (cases "can_yield_to want s")
  case False
  with y yield_tid_invalid [OF w False]
  have "s' = leave (interrupts s) THREAD_INVALID (s\<lparr>interrupts := False\<rparr>)" by simp
  then show ?thesis using a by (simp add: sys_simps)
next
  case True
  define r where "r = running_thread_id s"
  define n where "n = target want s"
  note core = activeD(1) [OF a, folded r_def] and run = activeD(3) [OF a, folded r_def]
    and notin = activeD(5) [OF a, folded r_def]
  from y yield_tid_eq [OF w True activeD(3,4) [OF a]]
  have mem: "n \<in> set (thread_queue s @ [r])" and sw: "switch_to (interrupts s) r n
      (s\<lparr>interrupts := False, thread_queue := remove1 n (thread_queue s @ [r])\<rparr>) = Inr s'"
    by (auto simp: result_simps n_def r_def)
  have c: "core_inv n (remove1 n (thread_queue s @ [r]))
      ((state_of s)(r := READY, n := RUNNING)) (sleepers s)"
  proof (cases "n = r")
    case True
    have "remove1 r (thread_queue s @ [r]) = thread_queue s"
      using notin by (simp add: remove1_append)
    moreover have "(state_of s)(r := READY, r := RUNNING) = state_of s" using run by auto
    ultimately show ?thesis using core True by simp
  next
    case False
    then show ?thesis using core_pick [OF core, of n] mem by (simp add: remove_other)
  qed
  show ?thesis
    by (rule switch_to_active [OF sw]) (use activeD(2,6) [OF a] c run in \<open>simp_all add: sys_simps\<close>)
qed

lemma yield_active: "active s \<Longrightarrow> thread_yield want s = Inr s' \<Longrightarrow> active s'"
  using yield_any_active yield_tid_active by blast

text \<open>A thread that has exited gives the processor to the head of the queue for good.\<close>

lemma yield_exited_active:
  assumes c: "sched_core s" and e: "state_of s (running_thread_id s) = EXITED"
    and q: "thread_queue s = t # q" and y: "thread_yield THREAD_ANY s = Inr s'"
  shows "active s'"
proof -
  have core: "core_inv (running_thread_id s) (t # q) (state_of s) (sleepers s)" and env: "env_ok s"
    and reap: "reap_ok (thread_exit_cleanup_needs_to_run s) (state_of s)"
    using c q by (simp_all add: sched_core_def)
  have t: "t \<noteq> running_thread_id s" using core_queued [OF core, of t] by simp
  have "(state_of s)(running_thread_id s := EXITED) = state_of s" using e by auto
  then have c': "core_inv t q ((state_of s)(running_thread_id s := EXITED, t := RUNNING)) (sleepers s)"
    using core_after_exit [OF core e] by simp
  have sw: "switch_to (interrupts s) (running_thread_id s) t
      (s\<lparr>interrupts := False, thread_queue := q\<rparr>) = Inr s'"
    using y yield_any_leave [OF _ q t] e by simp
  show ?thesis
    by (rule switch_to_active [OF sw]) (use c' env e reap in \<open>simp_all add: sys_simps\<close>)
qed

end
