(* ===== verification/Sched_Ops.thy ===== *)
theory Sched_Ops
  imports Sched_Inv
begin

text \<open>
  The other operations of threads_3/thread.c keep the scheduler's invariant: an active
  state (the running thread is RUNNING) leads to an active one, except for
  \<open>thread_exit\<close>, which leads to a state in which the thread that exits has only to give
  the processor away.
\<close>

section \<open>Reaping, creating and killing threads\<close>

lemma activeI:
  assumes "core_inv (running_thread_id s) (thread_queue s) (state_of s) (sleepers s)"
    and "policies s = policies s0" and "env_ok s0"
    and "reap_ok (thread_exit_cleanup_needs_to_run s) (state_of s)"
    and "state_of s (running_thread_id s) = RUNNING"
  shows "active s"
  using assms env_ok_policies [of s s0] by (simp add: active_def sched_core_def)

lemma cleanup_loop_effect:
  assumes "cleanup_loop n i s = Inr s'"
  shows "thread_queue s' = thread_queue s" and "running_thread_id s' = running_thread_id s"
    and "sleepers s' = sleepers s" and "policies s' = policies s"
    and "interrupts s' = interrupts s" and "frames_of s' = frames_of s"
    and "locks s' = locks s" and "cvs s' = cvs s" and "wait_queues s' = wait_queues s"
    and "state_of s' t =
           (if i \<le> t \<and> t < i + int n \<and> state_of s t = EXITED then NOT_INITIALIZED else state_of s t)"
proof -
  have "thread_queue s' = thread_queue s \<and> running_thread_id s' = running_thread_id s \<and>
    sleepers s' = sleepers s \<and> policies s' = policies s \<and> interrupts s' = interrupts s \<and>
    frames_of s' = frames_of s \<and> locks s' = locks s \<and> cvs s' = cvs s \<and>
    wait_queues s' = wait_queues s \<and>
    (\<forall>t. state_of s' t =
       (if i \<le> t \<and> t < i + int n \<and> state_of s t = EXITED then NOT_INITIALIZED else state_of s t))"
    using assms
  proof (induction n i s rule: cleanup_loop.induct)
    case (1 i s)
    then show ?case by auto
  next
    case (2 n i s)
    show ?case
    proof (cases "state_of s i = EXITED")
      case True
      then obtain h where h: "free (stacks s) (orig_stack_begin (thread_array (set_state i NOT_INITIALIZED s) i)) = Inr h"
        and l: "cleanup_loop n (i + 1) ((set_state i NOT_INITIALIZED s)\<lparr>stacks := h\<rparr>) = Inr s'"
        using 2 by (auto simp: Let_def result_simps sys_simps)
      have "policies ((set_state i NOT_INITIALIZED s)\<lparr>stacks := h\<rparr>) = policies s"
        using heap_policies(1) [OF h] by (simp add: policies_def sys_simps)
      then show ?thesis using 2(1) [OF True refl l] True by (auto simp: sys_simps)
    next
      case False
      have "(i + 1 \<le> t) = (i \<le> t \<and> t \<noteq> i)" for t by auto
      then show ?thesis using 2(2) [OF False] 2(3) False by auto
    qed
  qed
  then show "thread_queue s' = thread_queue s" and "running_thread_id s' = running_thread_id s"
    and "sleepers s' = sleepers s" and "policies s' = policies s"
    and "interrupts s' = interrupts s" and "frames_of s' = frames_of s"
    and "locks s' = locks s" and "cvs s' = cvs s" and "wait_queues s' = wait_queues s"
    and "state_of s' t =
           (if i \<le> t \<and> t < i + int n \<and> state_of s t = EXITED then NOT_INITIALIZED else state_of s t)"
    by simp_all
qed

lemma thread_exit_cleanup_effect:
  assumes "thread_exit_cleanup s = Inr s'"
  shows "thread_queue s' = thread_queue s" and "running_thread_id s' = running_thread_id s"
    and "sleepers s' = sleepers s" and "policies s' = policies s"
    and "interrupts s' = interrupts s" and "frames_of s' = frames_of s"
    and "locks s' = locks s" and "cvs s' = cvs s" and "wait_queues s' = wait_queues s"
    and "\<not> thread_exit_cleanup_needs_to_run s'"
    and "state_of s' t = (if thread_exit_cleanup_needs_to_run s \<and> valid_tid t \<and>
           state_of s t = EXITED then NOT_INITIALIZED else state_of s t)"
proof -
  consider "\<not> thread_exit_cleanup_needs_to_run s" "s' = s"
    | s1 where "thread_exit_cleanup_needs_to_run s" "cleanup_loop (nat THREAD_MAX_THREADS) 0 s = Inr s1"
      "s' = s1\<lparr>thread_exit_cleanup_needs_to_run := False\<rparr>"
    using assms by (auto simp: thread_exit_cleanup_def result_simps split: if_splits)
  then have "thread_queue s' = thread_queue s \<and> running_thread_id s' = running_thread_id s \<and>
    sleepers s' = sleepers s \<and> policies s' = policies s \<and> interrupts s' = interrupts s \<and>
    frames_of s' = frames_of s \<and> locks s' = locks s \<and> cvs s' = cvs s \<and>
    wait_queues s' = wait_queues s \<and> \<not> thread_exit_cleanup_needs_to_run s' \<and>
    state_of s' t = (if thread_exit_cleanup_needs_to_run s \<and> valid_tid t \<and>
      state_of s t = EXITED then NOT_INITIALIZED else state_of s t)"
  proof cases
    case 2
    note e = cleanup_loop_effect [OF 2(2)]
    show ?thesis using 2(1) e by (simp add: 2(3) sys_simps valid_tid_def THREAD_MAX_THREADS_def)
  qed simp
  then show "thread_queue s' = thread_queue s" and "running_thread_id s' = running_thread_id s"
    and "sleepers s' = sleepers s" and "policies s' = policies s"
    and "interrupts s' = interrupts s" and "frames_of s' = frames_of s"
    and "locks s' = locks s" and "cvs s' = cvs s" and "wait_queues s' = wait_queues s"
    and "\<not> thread_exit_cleanup_needs_to_run s'"
    and "state_of s' t = (if thread_exit_cleanup_needs_to_run s \<and> valid_tid t \<and>
           state_of s t = EXITED then NOT_INITIALIZED else state_of s t)" by simp_all
qed

text \<open>After the clean-up no thread is EXITED: every slot is free, live or killed.\<close>

lemma cleanup_active:
  assumes a: "active s" and c: "thread_exit_cleanup s = Inr s'"
  shows "active s'" and "valid_tid t \<Longrightarrow> state_of s' t \<noteq> EXITED"
proof -
  note e = thread_exit_cleanup_effect [OF c]
  have r: "reap_ok (thread_exit_cleanup_needs_to_run s) (state_of s)" using activeD(6) [OF a] .
  show x: "state_of s' t \<noteq> EXITED" if "valid_tid t" for t
    using that r e(11) [of t] by (cases "thread_exit_cleanup_needs_to_run s") (auto simp: reap_ok_def)
  have "core_inv (running_thread_id s) (thread_queue s) (state_of s') (sleepers s)"
  proof (cases "thread_exit_cleanup_needs_to_run s")
    case False
    then have "state_of s' = state_of s" using e(11) by auto
    then show ?thesis using activeD(1) [OF a] by simp
  next
    case True
    have "core_inv (running_thread_id s) (thread_queue s) (state_of s') (sleepers s)"
      by (rule core_reap [OF activeD(1,3) [OF a]]) (use True e(11) in simp)
    then show ?thesis .
  qed
  then show "active s'"
    by (intro activeI [of _ s]) (use e activeD(2,3) [OF a] x in \<open>auto simp: reap_ok_def\<close>)
qed

text \<open>The slot that \<open>thread_create\<close> takes is the lowest free one.\<close>

lemma find_slot_Some:
  "find_slot n i s = Some j \<longleftrightarrow>
   i \<le> j \<and> j < i + int n \<and> state_of s j = NOT_INITIALIZED \<and>
   (\<forall>k. i \<le> k \<longrightarrow> k < j \<longrightarrow> state_of s k \<noteq> NOT_INITIALIZED)"
proof (induction n arbitrary: i)
  case (Suc n)
  have ne: "(i + 1 \<le> k) = (i \<le> k \<and> k \<noteq> i)" for k by auto
  show ?case
  proof (cases "state_of s i = NOT_INITIALIZED")
    case True
    then show ?thesis by (auto simp: order_le_less)
  next
    case False
    then show ?thesis by (auto simp: Suc.IH ne)
  qed
qed auto

lemma find_slot_None:
  "find_slot n i s = None \<longleftrightarrow> (\<forall>k. i \<le> k \<longrightarrow> k < i + int n \<longrightarrow> state_of s k \<noteq> NOT_INITIALIZED)"
proof (induction n arbitrary: i)
  case (Suc n)
  have ne: "(i + 1 \<le> k) = (i \<le> k \<and> k \<noteq> i)" for k by auto
  show ?case by (auto simp: Suc.IH ne)
qed auto

lemma find_slot_valid: "find_slot (nat THREAD_MAX_THREADS) 0 s = Some i \<Longrightarrow> valid_tid i"
  by (simp add: find_slot_Some valid_tid_def THREAD_MAX_THREADS_def)

text \<open>The alignment computed for the initial stack pointer always passes the code's check.\<close>

lemma rip_addr_ok_always:
  assumes "0 \<le> stack"
  shows "rip_addr_ok stack"
proof -
  define u where "u = stack + 32768"
  define off where "off = (if u mod 16 < 8 then 8 + u mod 16 else u mod 16 - 8)"
  have u: "u \<ge> 32768" using assms by (simp add: u_def)
  have m: "0 \<le> u mod 16" "u mod 16 < 16" by simp_all
  have r: "rip_addr stack = u - off"
    using u by (simp add: rip_addr_def THREAD_MIN_STACK_def u_def [symmetric] c_rem_nonneg off_def)
  have "(u - off - 8) mod 16 = 0" using m unfolding off_def by presburger
  moreover have "0 \<le> off" "off < 16" using m by (auto simp: off_def)
  ultimately show ?thesis
    using u by (simp add: rip_addr_ok_def r c_rem_nonneg THREAD_MIN_STACK_def u_def)
qed

lemma thread_kill_active:
  assumes a: "active s" and k: "thread_kill tid s = Inr s'"
  shows "active s'"
proof -
  have a0: "active (s\<lparr>interrupts := False\<rparr>)" using a by (simp add: sys_simps)
  obtain s1 where c: "thread_exit_cleanup (s\<lparr>interrupts := False\<rparr>) = Inr s1"
    and s': "s' = leave (interrupts s) THREAD_INVALID s1 \<or>
      (valid_tid tid \<and> tid \<noteq> running_thread_id s1 \<and> state_of s1 tid \<noteq> NOT_INITIALIZED \<and>
       s' = leave (interrupts s) tid (set_state tid KILLED s1))"
    using k by (auto simp: thread_kill_def set_simps result_simps Let_def valid_tid_def split: if_splits)
  note a1 = cleanup_active [OF a0 c]
  show ?thesis
  proof (cases "s' = leave (interrupts s) THREAD_INVALID s1")
    case True
    then show ?thesis using a1(1) by (simp add: sys_simps)
  next
    case False
    with s' have t: "valid_tid tid" "tid \<noteq> running_thread_id s1" "state_of s1 tid \<noteq> NOT_INITIALIZED"
      and s'': "s' = leave (interrupts s) tid (set_state tid KILLED s1)" by auto
    have "state_of s1 tid \<in> {READY, KILLED, SLEEPING}"
      using t a1(2) [OF t(1)] core_RUNNING [OF activeD(1) [OF a1(1)] t(1)]
      by (cases "state_of s1 tid") auto
    with t have "active (set_state tid KILLED s1)"
      by (intro activeI [of _ s1])
        (use activeD [OF a1(1)] in \<open>auto simp: sys_simps intro!: core_kill reap_ok_upd\<close>)
    then show ?thesis by (simp add: s'' sys_simps)
  qed
qed

lemma fields_leave [sys_simps]:
  "thread_queue (leave b v s) = thread_queue s" "state_of (leave b v s) = state_of s"
  "running_thread_id (leave b v s) = running_thread_id s" "frames_of (leave b v s) = frames_of s"
  "sleepers (leave b v s) = sleepers s" "policies (leave b v s) = policies s"
  "thread_exit_cleanup_needs_to_run (leave b v s) = thread_exit_cleanup_needs_to_run s"
  "interrupts (leave b v s) = b" "result (leave b v s) = v" "stacks (leave b v s) = stacks s"
  "thread_array (leave b v s) = thread_array s" "locks (leave b v s) = locks s"
  "cvs (leave b v s) = cvs s" "wait_queues (leave b v s) = wait_queues s"
  "stack_frame (leave b v s) = stack_frame s"
  by (simp_all add: leave_def sys_simps)

lemma policies_stacks: "policy h = policy (stacks s) \<Longrightarrow> policies (s\<lparr>stacks := h\<rparr>) = policies s"
  by (simp add: policies_def)

text \<open>The three outcomes of \<open>thread_create\<close> after the clean-up.\<close>

lemma thread_create_cases:
  assumes "thread_create fn parg s = Inr s'"
  obtains (full) s1 where "thread_exit_cleanup (s\<lparr>interrupts := False\<rparr>) = Inr s1"
      and "find_slot (nat THREAD_MAX_THREADS) 0 s1 = None"
      and "s' = leave (interrupts s) THREAD_NOMORE s1"
  | (no_memory) s1 i s2 where "thread_exit_cleanup (s\<lparr>interrupts := False\<rparr>) = Inr s1"
      and "find_slot (nat THREAD_MAX_THREADS) 0 s1 = Some i" and "fst (malloc (stacks s1)) = NULL"
      and "same_view s1 s2" and "frames_of s2 = frames_of s1" and "locks s2 = locks s1"
      and "s' = leave (interrupts s) THREAD_NOMEMORY s2"
  | (ok) s1 i s2 where "thread_exit_cleanup (s\<lparr>interrupts := False\<rparr>) = Inr s1"
      and "find_slot (nat THREAD_MAX_THREADS) 0 s1 = Some i" and "fst (malloc (stacks s1)) \<noteq> NULL"
      and "running_thread_id s2 = running_thread_id s1"
      and "thread_queue s2 = thread_queue s1 @ [i]" and "state_of s2 = (state_of s1)(i := READY)"
      and "sleepers s2 = sleepers s1" and "policies s2 = policies s1"
      and "thread_exit_cleanup_needs_to_run s2 = thread_exit_cleanup_needs_to_run s1"
      and "frames_of s2 = (frames_of s1)(i := [At_stub fn parg])" and "locks s2 = locks s1"
      and "s' = leave (interrupts s) i s2"
proof -
  obtain s1 where c: "thread_exit_cleanup (s\<lparr>interrupts := False\<rparr>) = Inr s1"
    using assms by (auto simp: thread_create_def set_simps result_simps)
  note off = thread_exit_cleanup_effect(5) [OF c]
  obtain stack h where m: "malloc (stacks s1) = (stack, h)" by (cases "malloc (stacks s1)")
  note pol = heap_policies(3) [OF m]
  show ?thesis
  proof (cases "find_slot (nat THREAD_MAX_THREADS) 0 s1")
    case None
    then show ?thesis using full [OF c None] assms c by (simp add: thread_create_def set_simps)
  next
    case (Some i)
    have v: "valid_tid i" and free: "state_of s1 i = NOT_INITIALIZED"
      using find_slot_valid [OF Some] Some by (simp_all add: find_slot_Some)
    define s2 where "s2 = upd_thread i (\<lambda>th. th\<lparr>state := READY, context_mask := interrupts s1\<rparr>) s1"
    show ?thesis
    proof (cases "stack = NULL")
      case True
      define s3 where "s3 = set_state i NOT_INITIALIZED (s2\<lparr>stacks := h\<rparr>)"
      have "s' = leave (interrupts s) THREAD_NOMEMORY s3"
        using assms c Some m True
        by (simp add: thread_create_def set_simps Let_def s3_def s2_def sys_simps)
      moreover have "frames_of s3 = frames_of s1"
        by (simp add: s3_def s2_def sys_simps) (auto simp: frames_of_def sys_simps)
      moreover have "state_of s3 = state_of s1"
        using free by (auto simp: s3_def s2_def sys_simps state_of_def fun_eq_iff)
      moreover have "sleepers s3 = sleepers s1" "policies s3 = policies s1"
        using pol by (simp_all add: s3_def s2_def sys_simps policies_def)
      ultimately show ?thesis
        using no_memory [OF c Some, of s3] m True
        by (simp add: same_view_def s3_def s2_def sys_simps)
    next
      case False
      define s4 where "s4 = (upd_thread i (\<lambda>th. th\<lparr>ucontext := [At_stub fn parg]\<rparr>)
        (upd_thread i (\<lambda>th. th\<lparr>orig_stack_begin := stack\<rparr>) (s2\<lparr>stacks := h\<rparr>)))
        \<lparr>thread_queue := thread_queue s1 @ [i]\<rparr>"
      have "rip_addr_ok (ptr_value stack)"
        by (rule rip_addr_ok_always) (simp add: ptr_value_def split: ptr.split)
      then have "s' = leave (interrupts s) i s4"
        using assms c Some m False v off
        by (simp add: thread_create_def set_simps Let_def s4_def s2_def sys_simps)
      moreover have "frames_of s4 = (frames_of s1)(i := [At_stub fn parg])"
        by (auto simp: s4_def s2_def sys_simps frames_of_def)
      moreover have "state_of s4 = (state_of s1)(i := READY)"
        by (auto simp: s4_def s2_def sys_simps state_of_def fun_eq_iff)
      moreover have "sleepers s4 = sleepers s1" "policies s4 = policies s1"
        using pol by (simp_all add: s4_def s2_def sys_simps policies_def)
      ultimately show ?thesis
        using ok [OF c Some, of s4] m False by (simp add: s4_def s2_def sys_simps)
    qed
  qed
qed

lemma thread_create_active:
  assumes a: "active s" and k: "thread_create fn parg s = Inr s'"
  shows "active s'"
proof -
  have a0: "active (s\<lparr>interrupts := False\<rparr>)" using a by (simp add: sys_simps)
  from k show ?thesis
  proof (cases rule: thread_create_cases)
    case (full s1)
    then show ?thesis using cleanup_active(1) [OF a0 full(1)] by (simp add: sys_simps)
  next
    case (no_memory s1 i s2)
    then show ?thesis
      using cleanup_active(1) [OF a0 no_memory(1)] by (simp add: sys_simps same_view_active)
  next
    case (ok s1 i s2)
    note a1 = cleanup_active(1) [OF a0 ok(1)]
    have i: "valid_tid i" "state_of s1 i = NOT_INITIALIZED"
      using find_slot_valid [OF ok(2)] ok(2) by (simp_all add: find_slot_Some)
    have "active s2"
    proof (rule activeI [OF _ ok(8) activeD(2) [OF a1]])
      show "core_inv (running_thread_id s2) (thread_queue s2) (state_of s2) (sleepers s2)"
        using core_create [OF activeD(1) [OF a1] i] by (simp add: ok)
      show "reap_ok (thread_exit_cleanup_needs_to_run s2) (state_of s2)"
        using activeD(6) [OF a1] by (simp add: ok reap_ok_upd)
      show "state_of s2 (running_thread_id s2) = RUNNING"
        using activeD(3) [OF a1] i by (auto simp: ok)
    qed
    then show ?thesis by (simp add: ok sys_simps)
  qed
qed

section \<open>Waking threads\<close>

text \<open>The threads that a call of \<open>thread_wakeup\<close> takes off a wait queue.\<close>

definition woken :: "int \<Rightarrow> int list \<Rightarrow> int list" where
  "woken all ts = (if all = 0 then take 1 ts else if all = 1 then ts else [])"

lemma woken_prefix: "ts = woken all ts @ drop (length (woken all ts)) ts"
  by (cases ts) (auto simp: woken_def)

lemma push_q_Inr: "push_q ie ts t = Inr us \<longleftrightarrow> \<not> ie \<and> valid_tid t \<and> us = ts @ [t]"
  by (auto simp: push_q_def result_simps)

text \<open>What the loop of \<open>thread_wakeup\<close> does not touch.\<close>

definition only_wakes :: "sys \<Rightarrow> sys \<Rightarrow> bool" where
  "only_wakes s s' \<longleftrightarrow>
     running_thread_id s' = running_thread_id s \<and> sleepers s' = sleepers s \<and>
     policies s' = policies s \<and> interrupts s' = interrupts s \<and> frames_of s' = frames_of s \<and>
     thread_exit_cleanup_needs_to_run s' = thread_exit_cleanup_needs_to_run s \<and>
     locks s' = locks s \<and> stack_frame s' = stack_frame s"

lemma only_wakes_refl [simp]: "only_wakes s s"
  by (simp add: only_wakes_def)

lemma only_wakes_trans: "only_wakes s s' \<Longrightarrow> only_wakes s' s'' \<Longrightarrow> only_wakes s s''"
  by (simp add: only_wakes_def)

lemma wake_loop_effect:
  assumes "wake_loop all ts s n = Inr (us, s', m)" and "all = 0 \<or> all = 1"
  shows "only_wakes s s'" and "us = drop (length (woken all ts)) ts"
    and "thread_queue s' = thread_queue s @ woken all ts"
    and "state_of s' = wake_states (woken all ts) (state_of s)"
    and "m = n + int (length (woken all ts))"
proof -
  have "only_wakes s s' \<and> us = drop (length (woken all ts)) ts \<and>
    thread_queue s' = thread_queue s @ woken all ts \<and>
    state_of s' = wake_states (woken all ts) (state_of s) \<and> m = n + int (length (woken all ts))"
    using assms
  proof (induction all ts s n rule: wake_loop.induct)
    case (1 all s n)
    then show ?case by (auto simp: woken_def)
  next
    case (2 all t ts s n)
    define s1 where "s1 = s\<lparr>thread_queue := thread_queue s @ [t]\<rparr>"
    define s2 where "s2 = (if state_of s1 t = SLEEPING then set_state t READY s1 else s1)"
    have p: "push_q (interrupts s) (thread_queue s) t = Inr (thread_queue s @ [t])"
      using 2(2) by (auto simp: bindE_eq_Inr push_q_Inr)
    have o: "only_wakes s s2" by (simp add: only_wakes_def s2_def s1_def sys_simps)
    have st: "state_of s2 = (if state_of s t = SLEEPING then (state_of s)(t := READY) else state_of s)"
      and q: "thread_queue s2 = thread_queue s @ [t]"
      by (simp_all add: s2_def s1_def sys_simps)
    have body: "(if all = 0 then Inr (ts, s2, n + 1) else wake_loop all ts s2 (n + 1)) = Inr (us, s', m)"
      using 2(2) p by (simp add: Let_def s2_def s1_def split del: if_split cong: if_cong)
    show ?case
    proof (cases "all = 0")
      case True
      then have "us = ts" "s' = s2" "m = n + 1" using body by simp_all
      then show ?thesis using True o st q by (simp add: woken_def wake_states_Cons)
    next
      case False
      then have "all = 1" using 2(3) by simp
      have "wake_loop all ts s2 (n + 1) = Inr (us, s', m)"
        using body False by simp
      from 2(1) [OF s1_def s2_def False this 2(3)] show ?thesis
        using \<open>all = 1\<close> o only_wakes_trans [OF o] st q by (simp add: woken_def wake_states_Cons)
    qed
  qed
  then show "only_wakes s s'" and "us = drop (length (woken all ts)) ts"
    and "thread_queue s' = thread_queue s @ woken all ts"
    and "state_of s' = wake_states (woken all ts) (state_of s)"
    and "m = n + int (length (woken all ts))" by simp_all
qed

lemma get_wq_interrupts [sys_simps]: "get_wq (s\<lparr>interrupts := b\<rparr>) x = get_wq s x"
  by (simp add: get_wq_def split: wq_ref.split)

lemma policies_put_wq: "put_wq s x (Wq ts) = Inr s' \<Longrightarrow> policies s' = policies s"
  by (rule put_wq_effect(6))

text \<open>The owner of every lock, whatever is in its wait queue.\<close>

definition owners :: "sys \<Rightarrow> nat \<Rightarrow> (bool \<times> int) option" where
  "owners s a = map_option (\<lambda>l. (acquired l, acquiring_thread l)) (cells (locks s) a)"

lemma put_wq_owners: "put_wq s x w = Inr s' \<Longrightarrow> owners s' = owners s"
  by (auto simp: put_wq_def owners_def load_def store_def upd_thread_def result_simps fun_eq_iff
      split: wq_ref.splits ptr.splits option.splits if_splits)

lemma owners_cong: "locks s' = locks s \<Longrightarrow> owners s' = owners s"
  by (simp add: owners_def fun_eq_iff)

text \<open>
  The whole of \<open>thread_wakeup\<close>: a prefix of the wait queue moves to the end of the ready
  queue in order, and its length is the value returned.
\<close>

lemma thread_wakeup_effect:
  assumes "thread_wakeup x all s = Inr s'"
  shows "thread_queue s' = thread_queue s @ woken all (sleepers s x)"
    and "sleepers s' = (sleepers s)
           (x := drop (length (woken all (sleepers s x))) (sleepers s x))"
    and "state_of s' = wake_states (woken all (sleepers s x)) (state_of s)"
    and "result s' = int (length (woken all (sleepers s x)))"
    and "running_thread_id s' = running_thread_id s" and "policies s' = policies s"
    and "interrupts s' = interrupts s" and "frames_of s' = frames_of s"
    and "thread_exit_cleanup_needs_to_run s' = thread_exit_cleanup_needs_to_run s"
    and "owners s' = owners s" and "stack_frame s' = stack_frame s"
proof -
  define s0 where "s0 = s\<lparr>interrupts := False\<rparr>"
  have o0: "owners s0 = owners s" by (rule owners_cong) (simp add: s0_def)
  have "thread_queue s' = thread_queue s @ woken all (sleepers s x) \<and>
    sleepers s' = (sleepers s)(x := drop (length (woken all (sleepers s x))) (sleepers s x)) \<and>
    state_of s' = wake_states (woken all (sleepers s x)) (state_of s) \<and>
    result s' = int (length (woken all (sleepers s x))) \<and>
    running_thread_id s' = running_thread_id s \<and> policies s' = policies s \<and>
    interrupts s' = interrupts s \<and> frames_of s' = frames_of s \<and>
    thread_exit_cleanup_needs_to_run s' = thread_exit_cleanup_needs_to_run s \<and>
    owners s' = owners s \<and> stack_frame s' = stack_frame s"
  proof (cases "x = WQ_NULL")
    case True
    then have "s' = leave (interrupts s) 0 s0"
      using assms by (simp add: thread_wakeup_def set_simps s0_def)
    moreover have "sleepers s WQ_NULL = []" by (simp add: sleepers_def get_wq_def)
    moreover have "owners (leave (interrupts s) 0 s0) = owners s0"
      by (rule owners_cong) (simp add: leave_def)
    ultimately show ?thesis using True o0
      by (auto simp: sys_simps s0_def woken_def)
  next
    case False
    obtain w where w1: "get_wq s x = Inr w"
      using assms False
      by (cases "get_wq s x") (simp_all add: thread_wakeup_def set_simps sys_simps)
    obtain ts where w2: "wq_threads w = Inr ts"
      using assms False w1
      by (cases "wq_threads w") (simp_all add: thread_wakeup_def set_simps sys_simps)
    have body: "(if ts \<noteq> [] \<and> (all = 0 \<or> all = 1)
        then bindE (wake_loop all ts s0 0)
          (\<lambda>(us, s1, n). bindE (put_wq s1 x (Wq us)) (\<lambda>s2. Inr (leave (interrupts s) n s2)))
        else Inr (leave (interrupts s) 0 s0)) = Inr s'"
      using assms False w1 w2
      by (simp add: thread_wakeup_def interrupts_set_def s0_def sys_simps cong: if_cong split del: if_split)
    have ts: "sleepers s x = ts" using sleepers_get_wq [OF w1 w2] .
    show ?thesis
    proof (cases "ts \<noteq> [] \<and> (all = 0 \<or> all = 1)")
      case True
      then obtain us s1 n s2 where l: "wake_loop all ts s0 0 = Inr (us, s1, n)"
        and p: "put_wq s1 x (Wq us) = Inr s2" and s': "s' = leave (interrupts s) n s2"
        using body by (auto simp: result_simps)
      note e = wake_loop_effect [OF l conjunct2 [OF True]] and pe = put_wq_effect [OF p]
      have "owners s' = owners s2" by (rule owners_cong) (simp add: s' leave_def)
      also have "\<dots> = owners s1" by (rule put_wq_owners [OF p])
      also have "\<dots> = owners s0" by (rule owners_cong) (use e(1) in \<open>simp add: only_wakes_def\<close>)
      finally show ?thesis
        using e pe o0 by (simp add: s' sys_simps ts only_wakes_def s0_def)
    next
      case F: False
      then have "s' = leave (interrupts s) 0 s0" using body by (simp split: if_splits)
      moreover have "owners (leave (interrupts s) 0 s0) = owners s0"
        by (rule owners_cong) (simp add: leave_def)
      moreover have "woken all ts = []" using F by (auto simp: woken_def)
      ultimately show ?thesis using o0 by (auto simp: sys_simps s0_def ts)
    qed
  qed
  then show "thread_queue s' = thread_queue s @ woken all (sleepers s x)"
    and "sleepers s' = (sleepers s)
           (x := drop (length (woken all (sleepers s x))) (sleepers s x))"
    and "state_of s' = wake_states (woken all (sleepers s x)) (state_of s)"
    and "result s' = int (length (woken all (sleepers s x)))"
    and "running_thread_id s' = running_thread_id s" and "policies s' = policies s"
    and "interrupts s' = interrupts s" and "frames_of s' = frames_of s"
    and "thread_exit_cleanup_needs_to_run s' = thread_exit_cleanup_needs_to_run s"
    and "owners s' = owners s" and "stack_frame s' = stack_frame s" by simp_all
qed

lemma wakeup_core:
  assumes c: "sched_core s" and k: "thread_wakeup x all s = Inr s'"
  shows "sched_core s'"
proof -
  note e = thread_wakeup_effect [OF k]
  have "core_inv (running_thread_id s) (thread_queue s) (state_of s) (sleepers s)"
    using c by (simp add: sched_core_def)
  from core_wake_many [OF this woken_prefix]
  have "core_inv (running_thread_id s') (thread_queue s') (state_of s') (sleepers s')"
    using e by simp
  moreover have "reap_ok (thread_exit_cleanup_needs_to_run s) (wake_states ts (state_of s))" for ts
    using c by (simp add: sched_core_def reap_ok_def)
  ultimately show ?thesis
    using c e env_ok_policies [of s' s] by (simp add: sched_core_def)
qed

lemma thread_wakeup_active: "active s \<Longrightarrow> thread_wakeup x all s = Inr s' \<Longrightarrow> active s'"
  using wakeup_core [of s x all s'] thread_wakeup_effect(3,5) [of x all s s']
  by (simp add: active_def)

section \<open>Exiting and sleeping\<close>

lemma active_core: "active s \<Longrightarrow> sched_core s"
  by (simp add: active_def)

lemma sched_core_upd [sys_simps]:
  "sched_core (s\<lparr>interrupts := b\<rparr>) = sched_core s" "sched_core (push_frame f s) = sched_core s"
  "sched_core (pop_frame s) = sched_core s" "sched_core (leave b v s) = sched_core s"
  by (rule same_view_core; simp add: sys_simps)+

lemma thread_exit_inv:
  assumes a: "active s" and k: "thread_exit s = Inr s'"
  shows "sched_inv s'"
proof -
  have a0: "active (s\<lparr>interrupts := False\<rparr>)" using a by (simp add: sys_simps)
  define r where "r = running_thread_id s"
  obtain s1 where c: "thread_exit_cleanup (s\<lparr>interrupts := False\<rparr>) = Inr s1"
    using k by (auto simp: thread_exit_def set_simps result_simps Let_def)
  define s2 where "s2 = (set_state r EXITED s1)\<lparr>thread_exit_cleanup_needs_to_run := True\<rparr>"
  obtain s3 where w: "thread_wakeup (WQ_thread r) 1 s2 = Inr s3"
    using k c by (auto simp: thread_exit_def set_simps result_simps s2_def r_def Let_def)
  note a1 = cleanup_active(1) [OF a0 c]
  have r1: "running_thread_id s1 = r" using thread_exit_cleanup_effect(2) [OF c] by (simp add: r_def)
  have i1: "\<not> interrupts s1" using thread_exit_cleanup_effect(5) [OF c] by simp
  have "policies s2 = policies s1" by (simp add: s2_def sys_simps)
  then have "sched_core s2"
    using core_exit [OF activeD(1) [OF a1]] activeD(2) [OF a1] env_ok_policies [of s2 s1]
    by (simp add: sched_core_def s2_def sys_simps r1)
  then have c3: "sched_core s3" using w by (rule wakeup_core)
  note e = thread_wakeup_effect [OF w]
  have i3: "\<not> interrupts s3" using e(7) i1 by (simp add: s2_def sys_simps)
  have q: "thread_queue s3 \<noteq> []" and s': "s' = push_frame Exit_yield (s3\<lparr>interrupts := interrupts s\<rparr>)"
    using k c w i3 by (auto simp: thread_exit_def set_simps s2_def r_def Let_def split: if_splits)
  have "running_thread_id s3 = r" using e(5) by (simp add: s2_def sys_simps r1)
  with q c3 show ?thesis by (simp add: sched_inv_def s' sys_simps)
qed

text \<open>
  When a call of \<open>thread_sleep\<close> does not refuse, the running thread is now last in the wait
  queue and the head of the ready queue runs.
\<close>

lemma thread_sleep_cases:
  assumes "thread_sleep x s = Inr s'" and "active s"
  obtains (null) "x = WQ_NULL" and "s' = leave (interrupts s) THREAD_INVALID (s\<lparr>interrupts := False\<rparr>)"
  | (alone) "x \<noteq> WQ_NULL" and "thread_queue s = []"
      and "s' = leave (interrupts s) THREAD_NONE (s\<lparr>interrupts := False\<rparr>)"
  | (switch) t q s1 where "x \<noteq> WQ_NULL" and "thread_queue s = t # q"
      and "put_wq (s\<lparr>interrupts := False\<rparr>) x (Wq (sleepers s x @ [running_thread_id s])) = Inr s1"
      and "switch_to False (running_thread_id s) t
             ((push_frame (Sleep_return (interrupts s))
                (set_state (running_thread_id s) SLEEPING s1))\<lparr>interrupts := False, thread_queue := q\<rparr>)
           = Inr s'"
proof -
  define r where "r = running_thread_id s"
  have v: "valid_tid r" using activeD(4) [OF assms(2)] by (simp add: r_def)
  show ?thesis
  proof (cases "x = WQ_NULL")
    case True
    then show ?thesis using null assms(1) by (simp add: thread_sleep_def set_simps)
  next
    case x: False
    show ?thesis
    proof (cases "thread_queue s")
      case Nil
      then show ?thesis using alone x assms(1) by (simp add: thread_sleep_def set_simps)
    next
      case (Cons t q)
      have t: "t \<noteq> r" using activeD(5) [OF assms(2)] Cons by (auto simp: r_def)
      obtain w where w1: "get_wq s x = Inr w"
        using assms(1) x Cons by (cases "get_wq s x") (simp_all add: thread_sleep_def set_simps sys_simps)
      obtain ts where w2: "wq_threads w = Inr ts"
        using assms(1) x Cons w1
        by (cases "wq_threads w") (simp_all add: thread_sleep_def set_simps sys_simps)
      have ts: "sleepers s x = ts" using sleepers_get_wq [OF w1 w2] .
      obtain s1 where p: "put_wq (s\<lparr>interrupts := False\<rparr>) x (Wq (ts @ [r])) = Inr s1"
        using assms(1) x Cons w1 w2 v
        by (cases "put_wq (s\<lparr>interrupts := False\<rparr>) x (Wq (ts @ [r]))")
          (simp_all add: thread_sleep_def set_simps sys_simps r_def)
      note e = put_wq_effect [OF p]
      define s2 where "s2 = push_frame (Sleep_return (interrupts s)) (set_state r SLEEPING s1)"
      have "thread_yield THREAD_ANY s2 = Inr s'"
        using assms(1) x Cons w1 w2 v p e(4)
        by (simp add: thread_sleep_def set_simps sys_simps r_def s2_def)
      moreover have "thread_yield THREAD_ANY s2 = switch_to False r t (s2\<lparr>interrupts := False, thread_queue := q\<rparr>)"
        using yield_any_leave [of s2 t q] e Cons t by (simp add: s2_def sys_simps r_def)
      ultimately show ?thesis
        using switch [OF x Cons] p by (simp add: ts r_def s2_def)
    qed
  qed
qed

lemma core_sleep_state:
  "((st(r := SLEEPING))(r := (if (st(r := SLEEPING)) r = EXITED \<or> (st(r := SLEEPING)) r = SLEEPING
      then (st(r := SLEEPING)) r else READY), t := RUNNING)) = st(r := SLEEPING, t := RUNNING)"
  by simp

lemma thread_sleep_active:
  assumes a: "active s" and k: "thread_sleep x s = Inr s'"
  shows "active s'"
  using k a
proof (cases rule: thread_sleep_cases)
  case (switch t q s1)
  define r where "r = running_thread_id s"
  note e = put_wq_effect [OF switch(3)]
  have core: "core_inv t q ((state_of s)(r := SLEEPING, t := RUNNING)) ((sleepers s)(x := sleepers s x @ [r]))"
    using activeD(1,3) [OF a] switch(2) by (intro core_sleep) (simp_all add: r_def)
  have env: "env_ok s1" using activeD(2) [OF a] env_ok_policies [of s1 s] e(6) by (simp add: sys_simps)
  have reap: "reap_ok (thread_exit_cleanup_needs_to_run s) ((state_of s)(r := SLEEPING))"
    using activeD(6) [OF a] by (simp add: reap_ok_upd)
  show ?thesis
    by (rule switch_to_active [OF switch(4)])
      (use core env reap e in \<open>simp_all add: sys_simps r_def [symmetric]\<close>)
qed (use a in \<open>simp_all add: sys_simps\<close>)

lemma thread_wait_active:
  assumes "active s" and "thread_wait tid s = Inr s'"
  shows "active s'"
  using assms thread_sleep_active [of "push_frame (Wait_return (interrupts s) tid) (s\<lparr>interrupts := False\<rparr>)"]
  by (auto simp: thread_wait_def interrupts_set_def sys_simps split: if_splits)

section \<open>Wait queues, locks and condition variables\<close>

text \<open>The threads asleep in a block of one of the three heaps.\<close>

definition cell_threads :: "wait_queue option \<Rightarrow> int list" where
  "cell_threads c = (case c of Some (Wq ts) \<Rightarrow> ts | _ \<Rightarrow> [])"

lemma cell_threads_simps [simp]:
  "cell_threads None = []" "cell_threads (Some Garbage) = []" "cell_threads (Some (Wq ts)) = ts"
  by (simp_all add: cell_threads_def)

lemma cell_threads_junk: "junk_ok w \<Longrightarrow> cell_threads (Some w) = []"
  by (auto simp: junk_ok_def)

lemma sleepers_obj: "sleepers s (WQ_obj (Addr a)) = cell_threads (cells (wait_queues s) a)"
  and sleepers_lock: "sleepers s (WQ_lock (Addr a)) = cell_threads (map_option lock_wqueue (cells (locks s) a))"
  and sleepers_cv: "sleepers s (WQ_cv (Addr a)) = cell_threads (cells (cvs s) a)"
  by (auto simp: sleepers_def get_wq_def load_def cell_threads_def result_simps
      split: option.splits wait_queue.splits)

lemma sleepers_NULL:
  "sleepers s WQ_NULL = []" "sleepers s (WQ_obj NULL) = []" "sleepers s (WQ_lock NULL) = []"
  "sleepers s (WQ_cv NULL) = []"
  by (simp_all add: sleepers_def get_wq_def load_def)

lemma sleepers_wait_queues:
  assumes "\<And>a. cell_threads (cells h a) = cell_threads (cells (wait_queues s) a)"
  shows "sleepers (s\<lparr>wait_queues := h\<rparr>) = sleepers s"
proof (rule ext)
  fix x show "sleepers (s\<lparr>wait_queues := h\<rparr>) x = sleepers s x"
  proof (cases x)
    case (WQ_obj p)
    then show ?thesis using assms by (cases p) (simp_all add: sleepers_obj sleepers_NULL)
  qed (simp_all add: sleepers_def get_wq_def)
qed

lemma sleepers_locks:
  assumes "\<And>a. cell_threads (map_option lock_wqueue (cells h a)) =
    cell_threads (map_option lock_wqueue (cells (locks s) a))"
  shows "sleepers (s\<lparr>locks := h\<rparr>) = sleepers s"
proof (rule ext)
  fix x show "sleepers (s\<lparr>locks := h\<rparr>) x = sleepers s x"
  proof (cases x)
    case (WQ_lock p)
    then show ?thesis using assms by (cases p) (simp_all add: sleepers_lock sleepers_NULL)
  qed (simp_all add: sleepers_def get_wq_def)
qed

lemma sleepers_cvs:
  assumes "\<And>a. cell_threads (cells h a) = cell_threads (cells (cvs s) a)"
  shows "sleepers (s\<lparr>cvs := h\<rparr>) = sleepers s"
proof (rule ext)
  fix x show "sleepers (s\<lparr>cvs := h\<rparr>) x = sleepers s x"
  proof (cases x)
    case (WQ_cv p)
    then show ?thesis using assms by (cases p) (simp_all add: sleepers_cv sleepers_NULL)
  qed (simp_all add: sleepers_def get_wq_def)
qed

lemma heap_effects:
  "malloc h = (Addr a, h') \<Longrightarrow> \<exists>c. policy h (calls h) (cells h) = Some (a, c) \<and>
     cells h' = (cells h)(a \<mapsto> c)"
  "store h (Addr a) c = Inr h' \<Longrightarrow> cells h a \<noteq> None \<and> cells h' = (cells h)(a \<mapsto> c)"
  "load h (Addr a) = Inr c \<Longrightarrow> cells h a = Some c"
  "free h (Addr a) = Inr h' \<Longrightarrow> cells h a \<noteq> None \<and> cells h' = (cells h)(a := None)"
  "load h NULL = Inr c \<Longrightarrow> False" "store h NULL c = Inr h' \<Longrightarrow> False"
  by (auto simp: malloc_def store_def load_def free_def split: option.splits if_splits)

lemma fresh_cells: "fresh_policy p \<Longrightarrow> p n m = Some (a, c) \<Longrightarrow> m a = None"
  unfolding fresh_policy_def by blast

lemma wait_queue_create_active:
  assumes a: "active s" and k: "wait_queue_create s = Inr s'"
  shows "active s'"
proof -
  obtain p h where m: "malloc (wait_queues s) = (p, h)" by (cases "malloc (wait_queues s)")
  then obtain h1 where p: "p \<noteq> NULL" and st: "store h p (Wq []) = Inr h1"
    and s': "s' = s\<lparr>wait_queues := h1, interrupts := interrupts s, result_ptr := p\<rparr>"
    using k by (auto simp: wait_queue_create_def set_simps result_simps)
  obtain a where pa: "p = Addr a" using p by (cases p) auto
  have "fresh_policy (policy (wait_queues s))" using activeD(2) [OF a] by (simp add: env_ok_def)
  then have "cells (wait_queues s) a = None" "cells h1 = (cells (wait_queues s))(a \<mapsto> Wq [])"
    using heap_effects(1) [OF m [unfolded pa]] heap_effects(2) [OF st [unfolded pa]]
    by (auto dest: fresh_cells)
  then have "sleepers (s\<lparr>wait_queues := h1\<rparr>) = sleepers s" by (intro sleepers_wait_queues) auto
  moreover have "policy h1 = policy (wait_queues s)"
    using heap_policies(2) [OF st] heap_policies(3) [OF m] by simp
  ultimately have "same_view s (s\<lparr>wait_queues := h1\<rparr>)"
    by (simp add: same_view_def policies_def sys_simps)
  then have "active (s\<lparr>wait_queues := h1\<rparr>)" using a same_view_active by blast
  moreover have "same_view (s\<lparr>wait_queues := h1\<rparr>) s'" by (simp add: s' same_view_def sys_simps)
  ultimately show ?thesis using same_view_active by blast
qed

lemma wait_queue_destroy_active:
  assumes a: "active s" and k: "wait_queue_destroy p s = Inr s'"
  shows "active s'"
proof -
  define s0 where "s0 = s\<lparr>interrupts := False\<rparr>"
  obtain s1 h where w: "put_wq s0 (WQ_obj p) (Wq []) = Inr s1" and f: "free (wait_queues s1) p = Inr h"
    and s': "s' = s1\<lparr>wait_queues := h, interrupts := interrupts s\<rparr>"
    using k by (auto simp: wait_queue_destroy_def set_simps result_simps s0_def)
  note e = put_wq_effect [OF w]
  obtain a where p: "p = Addr a"
    using w by (cases p) (auto simp: put_wq_def store_def)
  have a0: "active s0" using a by (simp add: s0_def sys_simps)
  have "core_inv (running_thread_id s1) (thread_queue s1) (state_of s1) (sleepers s1)"
    using core_forget [OF activeD(1) [OF a0]] by (simp add: e)
  then have a1: "active s1"
    by (rule activeI [OF _ e(6) activeD(2) [OF a0]]) (use activeD [OF a0] e in simp_all)
  have "cell_threads (cells (wait_queues s1) a) = []"
    using e(1) sleepers_obj [of s1 a] by (simp add: p)
  then have "sleepers (s1\<lparr>wait_queues := h\<rparr>) = sleepers s1"
    using heap_effects(4) [OF f [unfolded p]] by (intro sleepers_wait_queues) auto
  then have "same_view s1 s'"
    using heap_policies(1) [OF f] by (simp add: s' same_view_def policies_def sys_simps)
  then show ?thesis using a1 same_view_active by blast
qed

end
