(* ===== verification/Sched_Locks.thy ===== *)
theory Sched_Locks
  imports Sched_Ops
begin

text \<open>
  Locks and condition variables of threads_3/thread.c keep the scheduler's invariant, and
  so does every step of the process. The last section defines the reachable states.
\<close>

section \<open>Locks\<close>

lemma same_view_locks:
  assumes "policy h = policy (locks s)"
    and "\<And>a. cell_threads (map_option lock_wqueue (cells h a)) =
      cell_threads (map_option lock_wqueue (cells (locks s) a))"
  shows "same_view s (s\<lparr>locks := h\<rparr>)"
  using assms sleepers_locks [of h s] by (simp add: same_view_def policies_def sys_simps)

lemma same_view_cvs:
  assumes "policy h = policy (cvs s)"
    and "\<And>a. cell_threads (cells h a) = cell_threads (cells (cvs s) a)"
  shows "same_view s (s\<lparr>cvs := h\<rparr>)"
  using assms sleepers_cvs [of h s] by (simp add: same_view_def policies_def sys_simps)

lemma lock_create_active:
  assumes a: "active s" and k: "lock_create s = Inr s'"
  shows "active s'"
proof -
  obtain p h where m: "malloc (locks s) = (p, h)" by (cases "malloc (locks s)")
  with k obtain junk h1 where p: "p \<noteq> NULL" and l: "load h p = Inr junk"
    and st: "store h p (junk\<lparr>acquired := False, acquiring_thread := THREAD_NONE\<rparr>) = Inr h1"
    and s': "s' = s\<lparr>locks := h1, result_ptr := p\<rparr>"
    by (auto simp: lock_create_def result_simps)
  obtain a where pa: "p = Addr a" using p by (cases p) auto
  obtain c where c: "policy (locks s) (calls (locks s)) (cells (locks s)) = Some (a, c)"
    "cells h = (cells (locks s))(a \<mapsto> c)" using heap_effects(1) [OF m [unfolded pa]] by auto
  have env: "fresh_policy (policy (locks s))" "junk_ok (lock_wqueue c)"
    using activeD(2) [OF a] c(1) by (auto simp: env_ok_def)
  have "cells (locks s) a = None" using fresh_cells [OF env(1) c(1)] .
  moreover have "junk = c" using heap_effects(3) [OF l [unfolded pa]] c(2) by simp
  moreover have "cells h1 = (cells h)(a \<mapsto> junk\<lparr>acquired := False, acquiring_thread := THREAD_NONE\<rparr>)"
    using heap_effects(2) [OF st [unfolded pa]] by simp
  ultimately have "same_view s (s\<lparr>locks := h1\<rparr>)"
    using c(2) cell_threads_junk [OF env(2)] heap_policies(2) [OF st] heap_policies(3) [OF m]
    by (intro same_view_locks) auto
  then show ?thesis using a same_view_active [of s s'] by (simp add: s' sys_simps)
qed

lemma lock_destroy_active:
  assumes a: "active s" and k: "lock_destroy p s = Inr s'"
  shows "active s'"
proof -
  obtain l h where ld: "load (locks s) p = Inr l" and w: "wq_threads (lock_wqueue l) = Inr []"
    and f: "free (locks s) p = Inr h" and s': "s' = s\<lparr>locks := h, interrupts := interrupts s\<rparr>"
    using k by (auto simp: lock_destroy_def set_simps result_simps)
  obtain a where p: "p = Addr a" using ld by (cases p) auto
  have "cell_threads (map_option lock_wqueue (cells (locks s) a)) = []"
    using heap_effects(3) [OF ld [unfolded p]] w
    by (auto simp: wq_threads_def split: wait_queue.splits)
  then have "same_view s (s\<lparr>locks := h\<rparr>)"
    using heap_effects(4) [OF f [unfolded p]] heap_policies(1) [OF f] by (intro same_view_locks) auto
  then show ?thesis using a same_view_active [of s s'] by (simp add: s' sys_simps)
qed

lemma set_owner_view:
  assumes l: "load (locks s) p = Inr l" and st: "store (locks s) p (l\<lparr>acquired := b, acquiring_thread := t\<rparr>) = Inr h"
  shows "same_view s (s\<lparr>locks := h\<rparr>)"
proof -
  obtain a where p: "p = Addr a" using l by (cases p) auto
  show ?thesis
    using heap_effects(2) [OF st [unfolded p]] heap_effects(3) [OF l [unfolded p]] heap_policies(2) [OF st]
    by (intro same_view_locks) auto
qed

lemma acquire_loop_active:
  assumes a: "active s" and k: "acquire_loop prev p s = Inr s'"
  shows "active s'"
proof -
  obtain l where l: "load (locks s) p = Inr l" using k by (auto simp: acquire_loop_def result_simps)
  show ?thesis
  proof (cases "acquired l")
    case True
    then show ?thesis
      using k l a thread_sleep_active [of "push_frame (Acquire_loop prev p) s"]
      by (simp add: acquire_loop_def sys_simps)
  next
    case False
    then obtain h where st: "store (locks s) p (l\<lparr>acquired := True, acquiring_thread := running_thread_id s\<rparr>) = Inr h"
      and s': "s' = s\<lparr>locks := h, interrupts := prev\<rparr>"
      using k l by (auto simp: acquire_loop_def result_simps thread_id_def)
    show ?thesis using set_owner_view [OF l st] a same_view_active [of s s'] by (simp add: s' sys_simps)
  qed
qed

lemma lock_acquire_active:
  "active s \<Longrightarrow> lock_acquire p s = Inr s' \<Longrightarrow> active s'"
  using acquire_loop_active [of "s\<lparr>interrupts := False\<rparr>"]
  by (auto simp: lock_acquire_def interrupts_set_def result_simps sys_simps)

lemma lock_release_active:
  assumes a: "active s" and k: "lock_release p s = Inr s'"
  shows "active s'"
proof -
  define s0 where "s0 = s\<lparr>interrupts := False\<rparr>"
  obtain l h s1 where l: "load (locks s0) p = Inr l"
    and st: "store (locks s0) p (l\<lparr>acquired := False, acquiring_thread := acquiring_thread l\<rparr>) = Inr h"
    and w: "thread_wakeup (WQ_lock p) 1 (s0\<lparr>locks := h\<rparr>) = Inr s1"
    and s': "s' = s1\<lparr>interrupts := interrupts s\<rparr>"
    using k by (auto simp: lock_release_def interrupts_set_def result_simps s0_def)
  have "active (s0\<lparr>locks := h\<rparr>)"
    using set_owner_view [OF l st] a same_view_active [of s0 "s0\<lparr>locks := h\<rparr>"]
    by (simp add: s0_def sys_simps)
  then have "active s1" using w by (rule thread_wakeup_active)
  then show ?thesis by (simp add: s' sys_simps)
qed

section \<open>Condition variables\<close>

lemma cv_create_active:
  assumes a: "active s" and k: "cv_create s = Inr s'"
  shows "active s'"
proof -
  obtain p h where m: "malloc (cvs s) = (p, h)" by (cases "malloc (cvs s)")
  with k have p: "p \<noteq> NULL" and s': "s' = s\<lparr>cvs := h, result_ptr := p\<rparr>"
    by (auto simp: cv_create_def result_simps)
  obtain a where pa: "p = Addr a" using p by (cases p) auto
  obtain c where c: "policy (cvs s) (calls (cvs s)) (cells (cvs s)) = Some (a, c)"
    "cells h = (cells (cvs s))(a \<mapsto> c)" using heap_effects(1) [OF m [unfolded pa]] by auto
  have env: "fresh_policy (policy (cvs s))" "junk_ok c"
    using activeD(2) [OF a] c(1) by (auto simp: env_ok_def)
  then have "same_view s (s\<lparr>cvs := h\<rparr>)"
    using c(2) cell_threads_junk [OF env(2)] fresh_cells [OF env(1) c(1)] heap_policies(3) [OF m]
    by (intro same_view_cvs) auto
  then show ?thesis using a same_view_active [of s s'] by (simp add: s' sys_simps)
qed

lemma cv_destroy_active:
  assumes a: "active s" and k: "cv_destroy p s = Inr s'"
  shows "active s'"
proof -
  obtain w h where ld: "load (cvs s) p = Inr w" and w: "wq_threads w = Inr []"
    and f: "free (cvs s) p = Inr h" and s': "s' = s\<lparr>cvs := h, interrupts := interrupts s\<rparr>"
    using k by (auto simp: cv_destroy_def set_simps result_simps)
  obtain a where p: "p = Addr a" using ld by (cases p) auto
  have "cell_threads (cells (cvs s) a) = []"
    using heap_effects(3) [OF ld [unfolded p]] w by (auto simp: wq_threads_def split: wait_queue.splits)
  then have "same_view s (s\<lparr>cvs := h\<rparr>)"
    using heap_effects(4) [OF f [unfolded p]] heap_policies(1) [OF f] by (intro same_view_cvs) auto
  then show ?thesis using a same_view_active [of s s'] by (simp add: s' sys_simps)
qed

lemma cv_wait_active:
  "active s \<Longrightarrow> cv_wait cv l s = Inr s' \<Longrightarrow> active s'"
  using lock_release_active by (auto simp: cv_wait_def result_simps sys_simps)

lemma cv_signal_active: "active s \<Longrightarrow> cv_signal cv l s = Inr s' \<Longrightarrow> active s'"
  using thread_wakeup_active by (auto simp: cv_signal_def result_simps)

lemma cv_broadcast_active: "active s \<Longrightarrow> cv_broadcast cv l s = Inr s' \<Longrightarrow> active s'"
  using thread_wakeup_active by (auto simp: cv_broadcast_def result_simps)

section \<open>Every step\<close>

lemma interrupts_set_active: "active s \<Longrightarrow> active (snd (interrupts_set b s))"
  by (simp add: interrupts_set_def sys_simps)

lemmas op_active = yield_active thread_create_active thread_kill_active thread_sleep_active
  thread_wakeup_active thread_wait_active wait_queue_create_active wait_queue_destroy_active
  lock_create_active lock_destroy_active lock_acquire_active lock_release_active cv_create_active
  cv_destroy_active cv_wait_active cv_signal_active cv_broadcast_active interrupts_set_active

lemma api_call_inv:
  assumes "active s" and "api_call a s = Inr s'"
  shows "sched_inv s'"
  using assms by (cases a) (auto intro: thread_exit_inv active_inv op_active)

lemma interrupt_handler_inv:
  assumes i: "sched_inv s" and k: "interrupt_handler s = Inr s'"
  shows "sched_inv s'"
proof -
  define s0 where "s0 = push_frame Handler_return (s\<lparr>interrupts := False\<rparr>)"
  have y: "thread_yield THREAD_ANY s0 = Inr s'"
    using k by (simp add: interrupt_handler_def interrupts_enabled_def s0_def)
  have c: "sched_core s0" using i by (simp add: sched_inv_def s0_def sys_simps)
  show ?thesis
  proof (cases "state_of s (running_thread_id s) = EXITED")
    case True
    then obtain t q where "thread_queue s0 = t # q"
      using i by (cases "thread_queue s") (auto simp: sched_inv_def s0_def sys_simps)
    then show ?thesis
      using yield_exited_active [OF c _ _ y] True by (intro active_inv) (simp add: s0_def sys_simps)
  next
    case False
    then have "state_of s (running_thread_id s) = RUNNING"
      using i core_running by (auto simp: sched_inv_def sched_core_def)
    then have "active s0" using c by (simp add: active_def s0_def sys_simps)
    then show ?thesis using yield_active y by (blast intro: active_inv)
  qed
qed

lemma resume_inv:
  assumes i: "sched_inv s" and f: "frames_of s (running_thread_id s) = f # fs"
    and k: "resume f (pop_frame s) = Inr s'"
  shows "sched_inv s'"
proof (cases "state_of s (running_thread_id s) = EXITED")
  case True
  then have e: "f = Exit_yield" and "thread_queue s \<noteq> []" using i f by (auto simp: sched_inv_def)
  then obtain t q where q: "thread_queue s = t # q" by (cases "thread_queue s") auto
  have "sched_core (push_frame After_exit (pop_frame s))"
    using i by (simp add: sched_inv_def sys_simps)
  then show ?thesis
    using yield_exited_active [of "push_frame After_exit (pop_frame s)" t q s'] k True q e
    by (intro active_inv) (simp add: resume_def sys_simps)
next
  case False
  then have "active s"
    using i core_running by (auto simp: sched_inv_def sched_core_def active_def)
  then have a: "active (pop_frame s)" by (simp add: sys_simps)
  show ?thesis
  proof (cases f)
    case At_thread_exit
    then show ?thesis using k a thread_exit_inv by (simp add: resume_def)
  next
    case (Acquire_loop prev l)
    then show ?thesis using k a acquire_loop_active by (auto simp: resume_def intro: active_inv)
  next
    case (Cv_sleep cv l)
    then show ?thesis
      using k a thread_sleep_active [of "push_frame (Cv_acquire l) (pop_frame s)" _ s']
      by (intro active_inv) (simp add: resume_def sys_simps)
  next
    case (Cv_acquire l)
    then show ?thesis using k a lock_acquire_active by (auto simp: resume_def intro: active_inv)
  next
    case Exit_yield
    then show ?thesis
      using k a yield_active [of "push_frame After_exit (pop_frame s)" _ s']
      by (intro active_inv) (simp add: resume_def sys_simps)
  qed (use k a in \<open>auto simp: resume_def thread_stub_def interrupts_on_def interrupts_set_def sys_simps
         intro!: active_inv\<close>)
qed

lemma sys_step_inv: "sys_step s s' \<Longrightarrow> sched_inv s \<Longrightarrow> sched_inv s'"
proof (induction rule: sys_step.induct)
  case (call s a s')
  then have "active s"
    using core_running by (auto simp: sched_inv_def sched_core_def active_def)
  then show ?case using call(2) by (rule api_call_inv)
next
  case (continue s f fs s')
  then show ?case using resume_inv by blast
next
  case (tick s s')
  then show ?case using interrupt_handler_inv by blast
qed

end
