(* ===== verification/Sched_Reach.thy ===== *)
theory Sched_Reach
  imports Sched_Locks
begin

text \<open>
  The process from \<open>thread_init\<close> on: the boot state, the reachable states, and the
  invariant of every one of them.
\<close>

section \<open>Boot\<close>

text \<open>
  Before \<open>thread_init\<close> the globals are zero and nothing is allocated; the four functions are
  the answers of \<open>malloc\<close> for stacks, wait queues, locks and condition variables.
\<close>

definition zero_thread :: thread where
  "zero_thread = \<lparr>ucontext = [], context_mask = False, orig_stack_begin = NULL,
     state = NOT_INITIALIZED, wqueue = Wq []\<rparr>"

definition zero_heap :: "(nat \<Rightarrow> (nat \<rightharpoonup> 'c) \<Rightarrow> (nat \<times> 'c) option) \<Rightarrow> 'c heap" where
  "zero_heap p = \<lparr>cells = Map.empty, calls = 0, policy = p\<rparr>"

definition zero_sys where
  "zero_sys ps pw pl pc enabled =
     \<lparr>thread_array = (\<lambda>_. zero_thread), thread_queue = [], running_thread_id = 0,
      thread_exit_cleanup_needs_to_run = False, interrupts = enabled, stacks = zero_heap ps,
      wait_queues = zero_heap pw, locks = zero_heap pl, cvs = zero_heap pc, result = 0,
      result_ptr = NULL\<rparr>"

definition boot where
  "boot ps pw pl pc enabled = thread_init (zero_sys ps pw pl pc enabled)"

text \<open>What the code relies on: \<open>malloc\<close> returns unused blocks, and what it finds there is
  not a wait queue in use.\<close>

definition good_malloc where
  "good_malloc ps pw pl pc \<longleftrightarrow>
     fresh_policy ps \<and> fresh_policy pw \<and> fresh_policy pl \<and> fresh_policy pc \<and>
     (\<forall>n m a l. pl n m = Some (a, l) \<longrightarrow> junk_ok (lock_wqueue l)) \<and>
     (\<forall>n m a w. pc n m = Some (a, w) \<longrightarrow> junk_ok w)"

lemma init_loop_effect:
  "thread_array (init_loop n i s) t =
     (if i \<le> t \<and> t < i + int n then (thread_array s t)\<lparr>orig_stack_begin := NULL, state := NOT_INITIALIZED\<rparr>
      else thread_array s t)"
  "interrupts (init_loop n i s) = interrupts s" "stacks (init_loop n i s) = stacks s"
  "wait_queues (init_loop n i s) = wait_queues s" "locks (init_loop n i s) = locks s"
  "cvs (init_loop n i s) = cvs s"
  "thread_exit_cleanup_needs_to_run (init_loop n i s) = thread_exit_cleanup_needs_to_run s"
proof (induction n arbitrary: i s)
  case (Suc n)
  have ne: "(i + 1 \<le> t) = (i \<le> t \<and> t \<noteq> i)" by auto
  { case 1 show ?case using Suc(1) by (auto simp: sys_simps ne)
  next case 2 show ?case using Suc(2) by (simp add: sys_simps)
  next case 3 show ?case using Suc(3) by (simp add: sys_simps)
  next case 4 show ?case using Suc(4) by (simp add: sys_simps)
  next case 5 show ?case using Suc(5) by (simp add: sys_simps)
  next case 6 show ?case using Suc(6) by (simp add: sys_simps)
  next case 7 show ?case using Suc(7) by (simp add: sys_simps) }
qed auto

lemma boot_effect:
  "thread_queue (boot ps pw pl pc b) = []" "running_thread_id (boot ps pw pl pc b) = 0"
  "interrupts (boot ps pw pl pc b) = b"
  "\<not> thread_exit_cleanup_needs_to_run (boot ps pw pl pc b)"
  "stacks (boot ps pw pl pc b) = zero_heap ps" "wait_queues (boot ps pw pl pc b) = zero_heap pw"
  "locks (boot ps pw pl pc b) = zero_heap pl" "cvs (boot ps pw pl pc b) = zero_heap pc"
  "state_of (boot ps pw pl pc b) = (\<lambda>t. if t = 0 then RUNNING else NOT_INITIALIZED)"
  "frames_of (boot ps pw pl pc b) = (\<lambda>t. [])" "wqueue (thread_array (boot ps pw pl pc b) t) = Wq []"
  "orig_stack_begin (thread_array (boot ps pw pl pc b) t) = NULL"
  by (simp_all add: boot_def thread_init_def Let_def sys_simps init_loop_effect zero_sys_def
      zero_thread_def state_of_def frames_of_def set_state_def fun_eq_iff)

lemma boot_sleepers: "sleepers (boot ps pw pl pc b) x = []"
  by (cases x)
    (auto simp: sleepers_def get_wq_def load_def boot_effect zero_heap_def split: ptr.splits)

lemma boot_active:
  assumes "good_malloc ps pw pl pc"
  shows "active (boot ps pw pl pc b)"
proof -
  let ?s = "boot ps pw pl pc b"
  have s: "sleepers ?s = (\<lambda>_. [])" by (rule ext) (rule boot_sleepers)
  have "core_inv 0 [] (state_of ?s) (\<lambda>_. [])"
    by (rule core_invI)
      (auto simp: valid_tid_def THREAD_MAX_THREADS_def boot_effect separate_def thread_ok_def asleep_def)
  moreover have "env_ok ?s"
    using assms unfolding env_ok_def good_malloc_def boot_effect zero_heap_def by simp
  ultimately show ?thesis
    by (simp add: active_def sched_core_def boot_effect s reap_ok_def)
qed

section \<open>Reachable states\<close>

inductive reachable :: "sys \<Rightarrow> sys \<Rightarrow> bool" for s0 where
  start: "reachable s0 s0"
| step: "reachable s0 s \<Longrightarrow> sys_step s s' \<Longrightarrow> reachable s0 s'"

inductive_cases sys_step_cases: "sys_step s s'"

lemma reachable_sched_inv: "reachable s0 s \<Longrightarrow> sched_inv s0 \<Longrightarrow> sched_inv s"
  by (induction rule: reachable.induct) (auto intro: sys_step_inv)

lemma reachable_boot_inv:
  "good_malloc ps pw pl pc \<Longrightarrow> reachable (boot ps pw pl pc b) s \<Longrightarrow> sched_inv s"
  by (rule reachable_sched_inv) (auto intro: active_inv boot_active)

lemma sched_invD:
  assumes "sched_inv s"
  shows "core_inv (running_thread_id s) (thread_queue s) (state_of s) (sleepers s)" and "env_ok s"
    and "reap_ok (thread_exit_cleanup_needs_to_run s) (state_of s)"
  using assms by (simp_all add: sched_inv_def sched_core_def)

lemma sched_inv_cases:
  assumes "sched_inv s"
  obtains (active) "active s"
  | (exiting) t q fs where "state_of s (running_thread_id s) = EXITED" and "thread_queue s = t # q"
      and "frames_of s (running_thread_id s) = Exit_yield # fs"
proof (cases "state_of s (running_thread_id s) = EXITED")
  case True
  then show ?thesis
    using assms that(2) by (cases "thread_queue s") (auto simp: sched_inv_def)
next
  case False
  then have "active s"
    using assms core_running by (auto simp: sched_inv_def sched_core_def active_def)
  then show ?thesis by (rule that(1))
qed

text \<open>
  Every thread slot in words: free, running, ready in the queue exactly once, asleep in
  exactly one wait queue, killed in one of these two places, or exited and waiting to be reaped.
\<close>

definition place_ok :: "sys \<Rightarrow> int \<Rightarrow> bool" where
  "place_ok s t = (case state_of s t of
      NOT_INITIALIZED \<Rightarrow> t \<notin> set (thread_queue s) \<and> \<not> asleep (sleepers s) t
    | RUNNING \<Rightarrow> t = running_thread_id s \<and> t \<notin> set (thread_queue s) \<and> \<not> asleep (sleepers s) t
    | READY \<Rightarrow> t \<in> set (thread_queue s) \<and> \<not> asleep (sleepers s) t
    | EXITED \<Rightarrow> t \<notin> set (thread_queue s) \<and> \<not> asleep (sleepers s) t \<and>
         thread_exit_cleanup_needs_to_run s
    | KILLED \<Rightarrow> t \<noteq> running_thread_id s \<and> (t \<in> set (thread_queue s) \<longrightarrow> \<not> asleep (sleepers s) t)
    | SLEEPING \<Rightarrow> t \<notin> set (thread_queue s) \<and> t \<noteq> running_thread_id s)"

lemma sched_inv_place:
  assumes i: "sched_inv s" and t: "valid_tid t"
  shows "place_ok s t"
  using core_thread_ok [OF sched_invD(1) [OF i], of t] core_running [OF sched_invD(1) [OF i]]
    sched_invD(3) [OF i] t
  by (cases "state_of s t") (auto simp: place_ok_def thread_ok_def reap_ok_def)

end
