(* ===== verification/Sched_Stacks.thy ===== *)
theory Sched_Stacks
  imports Sched_Reach
begin

text \<open>
  Memory safety of threads_3/thread.c: the allocated stacks are exactly those of the live
  threads, so \<open>thread_exit_cleanup\<close> frees each stack once, and none is lost.
\<close>

section \<open>The two outcomes of thread_yield\<close>

lemma yield_cases:
  assumes a: "active s" and y: "thread_yield want s = Inr s'"
  obtains (stay) v where "s' = leave (interrupts s) v (s\<lparr>interrupts := False\<rparr>)"
  | (switch) n where "n \<in> set (thread_queue s @ [running_thread_id s])"
      and "want = THREAD_ANY \<Longrightarrow> thread_queue s \<noteq> [] \<and> n = hd (thread_queue s)"
      and "want \<noteq> THREAD_ANY \<Longrightarrow> can_yield_to want s \<and> n = target want s"
      and "switch_to (interrupts s) (running_thread_id s) n
             (s\<lparr>interrupts := False,
               thread_queue := remove1 n (thread_queue s @ [running_thread_id s])\<rparr>) = Inr s'"
proof (cases "want = THREAD_ANY")
  case any: True
  show ?thesis
  proof (cases "thread_queue s")
    case Nil
    have "s\<lparr>interrupts := False, thread_queue := []\<rparr> = s\<lparr>interrupts := False\<rparr>"
      using Nil by (cases s) simp
    then have "s' = leave (interrupts s) THREAD_NONE (s\<lparr>interrupts := False\<rparr>)"
      using y any yield_any_empty [OF activeD(3,4) [OF a] Nil] by simp
    then show ?thesis by (rule stay)
  next
    case (Cons t q)
    have ne: "t \<noteq> running_thread_id s" using activeD(5) [OF a] Cons by auto
    have "remove1 t (thread_queue s @ [running_thread_id s]) = tl (thread_queue s) @ [running_thread_id s]"
      using Cons by simp
    moreover have "switch_to (interrupts s) (running_thread_id s) t
        (s\<lparr>interrupts := False, thread_queue := tl (thread_queue s) @ [running_thread_id s]\<rparr>) = Inr s'"
      using y unfolding any yield_any_switch [OF activeD(3,4) [OF a] Cons ne] by (simp add: Cons)
    ultimately show ?thesis using Cons any by (intro switch [of t]) simp_all
  qed
next
  case tid: False
  show ?thesis
  proof (cases "can_yield_to want s")
    case True
    then show ?thesis
      using switch [of "target want s"] y tid yield_tid_eq [OF tid True activeD(3,4) [OF a]]
      by (auto simp: result_simps)
  next
    case False
    have "s' = leave (interrupts s) THREAD_INVALID (s\<lparr>interrupts := False\<rparr>)"
      using y yield_tid_invalid [OF tid False] by simp
    then show ?thesis by (rule stay)
  qed
qed

section \<open>What every call but create and the clean-up keeps\<close>

definition keeps :: "sys \<Rightarrow> sys \<Rightarrow> bool" where
  "keeps s s' \<longleftrightarrow> stack_frame s' = stack_frame s \<and>
     (\<forall>t. (state_of s' t = NOT_INITIALIZED) = (state_of s t = NOT_INITIALIZED))"

lemma keeps_refl [simp]: "keeps s s"
  by (simp add: keeps_def)

lemma keeps_trans: "keeps s s' \<Longrightarrow> keeps s' s'' \<Longrightarrow> keeps s s''"
  by (simp add: keeps_def)

lemma keeps_upd [sys_simps]:
  "keeps s (s'\<lparr>interrupts := b\<rparr>) = keeps s s'" "keeps s (leave b v s') = keeps s s'"
  "keeps s (push_frame f s') = keeps s s'" "keeps s (pop_frame s') = keeps s s'"
  "keeps (s\<lparr>interrupts := b\<rparr>) s' = keeps s s'" "keeps (push_frame f s) s' = keeps s s'"
  "keeps (pop_frame s) s' = keeps s s'" "keeps s (s'\<lparr>result_ptr := p\<rparr>) = keeps s s'"
  "keeps s (s'\<lparr>locks := hl\<rparr>) = keeps s s'" "keeps (s\<lparr>locks := hl\<rparr>) s' = keeps s s'"
  "keeps s (s'\<lparr>cvs := hw\<rparr>) = keeps s s'" "keeps s (s'\<lparr>wait_queues := hw\<rparr>) = keeps s s'"
  by (simp_all add: keeps_def sys_simps)

lemma switch_to_keeps:
  assumes "switch_to prev cur new s = Inr s'"
    and "state_of s cur \<noteq> NOT_INITIALIZED" and "state_of s new \<noteq> NOT_INITIALIZED"
  shows "keeps s s'"
  using assms(2,3) switch_to_effect(3,7) [OF assms(1)] by (auto simp: keeps_def)

lemma put_wq_keeps: "put_wq s x (Wq ts) = Inr s' \<Longrightarrow> keeps s s'"
  using put_wq_effect [of s x ts s'] by (simp add: keeps_def)

lemma thread_wakeup_keeps: "thread_wakeup x all s = Inr s' \<Longrightarrow> keeps s s'"
  using thread_wakeup_effect(3,11) [of x all s s'] by (simp add: keeps_def wake_states_def)

lemma yield_keeps:
  assumes a: "active s" and y: "thread_yield want s = Inr s'"
  shows "keeps s s'"
  using a y
proof (cases rule: yield_cases)
  case (switch n)
  have "state_of s n \<noteq> NOT_INITIALIZED"
    using switch(1) core_queued [OF activeD(1) [OF a], of n] activeD(3) [OF a] by auto
  moreover have "state_of s (running_thread_id s) \<noteq> NOT_INITIALIZED" using activeD(3) [OF a] by simp
  ultimately have "keeps (s\<lparr>interrupts := False,
      thread_queue := remove1 n (thread_queue s @ [running_thread_id s])\<rparr>) s'"
    using switch_to_keeps [OF switch(4)] by (simp add: sys_simps)
  then show ?thesis by (simp add: keeps_def sys_simps)
qed (simp add: sys_simps)

lemma yield_exited_keeps:
  assumes c: "sched_core s" and e: "state_of s (running_thread_id s) = EXITED"
    and q: "thread_queue s = t # q" and y: "thread_yield THREAD_ANY s = Inr s'"
  shows "keeps s s'"
proof -
  have "core_inv (running_thread_id s) (t # q) (state_of s) (sleepers s)"
    using c q by (simp add: sched_core_def)
  then have t: "t \<noteq> running_thread_id s" "state_of s t \<noteq> NOT_INITIALIZED"
    using core_queued [of _ "t # q" _ _ t] by fastforce+
  have sw: "switch_to (interrupts s) (running_thread_id s) t
      (s\<lparr>interrupts := False, thread_queue := q\<rparr>) = Inr s'"
    using y yield_any_leave [OF _ q t(1)] e by simp
  have "keeps (s\<lparr>interrupts := False, thread_queue := q\<rparr>) s'"
    using switch_to_keeps [OF sw] e t(2) by (simp add: sys_simps)
  then show ?thesis by (simp add: keeps_def sys_simps)
qed

lemma thread_sleep_keeps:
  assumes k: "thread_sleep x s = Inr s'" and a: "active s"
  shows "keeps s s'"
  using k a
proof (cases rule: thread_sleep_cases)
  case (switch t q s1)
  define r where "r = running_thread_id s"
  note e = put_wq_effect [OF switch(3)]
  have run: "state_of s r \<noteq> NOT_INITIALIZED" using activeD(3) [OF a] by (simp add: r_def)
  have t: "state_of s t \<noteq> NOT_INITIALIZED"
    using core_queued [OF activeD(1) [OF a], of t] switch(2) by auto
  have "keeps s (set_state r SLEEPING s1)"
    using put_wq_keeps [OF switch(3)] run by (auto simp: keeps_def sys_simps)
  moreover have "keeps (set_state r SLEEPING s1) s'"
    using switch_to_keeps [OF switch(4)] e t run
    by (auto simp: keeps_def sys_simps r_def)
  ultimately show ?thesis by (rule keeps_trans)
qed (simp_all add: sys_simps)

lemma thread_wait_keeps: "thread_wait tid s = Inr s' \<Longrightarrow> active s \<Longrightarrow> keeps s s'"
  using thread_sleep_keeps [of _ "push_frame (Wait_return (interrupts s) tid) (s\<lparr>interrupts := False\<rparr>)" s']
  by (auto simp: thread_wait_def interrupts_set_def sys_simps split: if_splits)

lemma wait_queue_keeps:
  "wait_queue_create s = Inr s' \<Longrightarrow> keeps s s'" "wait_queue_destroy p s = Inr s' \<Longrightarrow> keeps s s'"
  by (auto simp: wait_queue_create_def wait_queue_destroy_def interrupts_set_def result_simps
      sys_simps split: prod.splits dest: put_wq_keeps)

lemma cv_keeps:
  "cv_create s = Inr s' \<Longrightarrow> keeps s s'" "cv_destroy p s = Inr s' \<Longrightarrow> keeps s s'"
  "cv_signal p l s = Inr s' \<Longrightarrow> keeps s s'" "cv_broadcast p l s = Inr s' \<Longrightarrow> keeps s s'"
  by (auto simp: cv_create_def cv_destroy_def cv_signal_def cv_broadcast_def interrupts_set_def
      result_simps sys_simps split: prod.splits dest: thread_wakeup_keeps)

lemma lock_keeps:
  "lock_create s = Inr s' \<Longrightarrow> keeps s s'" "lock_destroy p s = Inr s' \<Longrightarrow> keeps s s'"
  "lock_release p s = Inr s' \<Longrightarrow> keeps s s'"
  by (auto simp: lock_create_def lock_destroy_def lock_release_def interrupts_set_def
      result_simps sys_simps split: prod.splits dest!: thread_wakeup_keeps)

lemma cv_wait_keeps: "cv_wait p l s = Inr s' \<Longrightarrow> keeps s s'"
  by (auto simp: cv_wait_def result_simps sys_simps dest: lock_keeps)

lemma acquire_loop_keeps: "acquire_loop prev p s = Inr s' \<Longrightarrow> active s \<Longrightarrow> keeps s s'"
  using thread_sleep_keeps [of "WQ_lock p" "push_frame (Acquire_loop prev p) s" s']
  by (auto simp: acquire_loop_def result_simps sys_simps split: if_splits)

lemma lock_acquire_keeps: "lock_acquire p s = Inr s' \<Longrightarrow> active s \<Longrightarrow> keeps s s'"
  using acquire_loop_keeps [of "interrupts s" p "s\<lparr>interrupts := False\<rparr>" s']
  by (auto simp: lock_acquire_def interrupts_set_def result_simps sys_simps)

lemmas op_keeps = yield_keeps thread_sleep_keeps thread_wakeup_keeps thread_wait_keeps
  wait_queue_keeps lock_keeps lock_acquire_keeps cv_keeps cv_wait_keeps

section \<open>The stacks\<close>

definition stack_of :: "sys \<Rightarrow> int \<Rightarrow> ptr" where
  "stack_of s t = (if valid_tid t \<and> state_of s t \<noteq> NOT_INITIALIZED
                   then orig_stack_begin (thread_array s t) else NULL)"

text \<open>Every allocated stack belongs to one live thread, every live thread's stack is allocated.\<close>

definition stack_inv :: "sys \<Rightarrow> bool" where
  "stack_inv s \<longleftrightarrow>
     (\<forall>a. cells (stacks s) a \<noteq> None \<longleftrightarrow> (\<exists>t. stack_of s t = Addr a)) \<and>
     (\<forall>t u a. stack_of s t = Addr a \<longrightarrow> stack_of s u = Addr a \<longrightarrow> t = u)"

lemma stack_invD:
  assumes "stack_inv s"
  shows "stack_of s t = Addr a \<Longrightarrow> cells (stacks s) a \<noteq> None"
    and "cells (stacks s) a \<noteq> None \<Longrightarrow> \<exists>t. stack_of s t = Addr a"
    and "stack_of s t = Addr a \<Longrightarrow> stack_of s u = Addr a \<Longrightarrow> t = u"
  using assms unfolding stack_inv_def by blast+

lemma keeps_stack_inv:
  assumes "keeps s s'"
  shows "stack_inv s' = stack_inv s"
proof -
  have "orig_stack_begin (thread_array s' t) = orig_stack_begin (thread_array s t)" for t
    using assms by (auto simp: keeps_def stack_frame_def dest: fun_cong)
  then have "stack_of s' = stack_of s" using assms by (simp add: keeps_def stack_of_def fun_eq_iff)
  moreover have "stacks s' = stacks s" using assms by (simp add: keeps_def stack_frame_def)
  ultimately show ?thesis by (simp add: stack_inv_def)
qed

text \<open>One round of the clean-up loop.\<close>

lemma reap_one:
  assumes i: "stack_inv s" and t: "valid_tid t" "state_of s t \<noteq> NOT_INITIALIZED"
  shows "\<exists>h. free (stacks s) (orig_stack_begin (thread_array s t)) = Inr h \<and>
           stack_inv ((set_state t NOT_INITIALIZED s)\<lparr>stacks := h\<rparr>)"
proof -
  have st: "stack_of s t = orig_stack_begin (thread_array s t)" using t by (simp add: stack_of_def)
  have so: "stack_of ((set_state t NOT_INITIALIZED s)\<lparr>stacks := h\<rparr>) u = (if u = t then NULL else stack_of s u)"
    for h u by (auto simp: stack_of_def sys_simps) (auto simp: set_state_def sys_simps)
  show ?thesis
  proof (cases "stack_of s t")
    case NULL
    then have "stack_of ((set_state t NOT_INITIALIZED s)\<lparr>stacks := stacks s\<rparr>) = stack_of s"
      by (simp add: so fun_eq_iff)
    then have "stack_inv ((set_state t NOT_INITIALIZED s)\<lparr>stacks := stacks s\<rparr>)"
      using i by (simp add: stack_inv_def)
    then show ?thesis using NULL st by simp
  next
    case (Addr a)
    have ca: "cells (stacks s) a \<noteq> None" using stack_invD(1) [OF i Addr] .
    define h where "h = (stacks s)\<lparr>cells := (cells (stacks s))(a := None)\<rparr>"
    have un: "u \<noteq> t \<Longrightarrow> stack_of s u \<noteq> Addr a" for u using stack_invD(3) [OF i Addr] by blast
    have "(cells h b \<noteq> None) = (\<exists>u. u \<noteq> t \<and> stack_of s u = Addr b)" for b
    proof (cases "b = a")
      case True
      then show ?thesis using un by (auto simp: h_def)
    next
      case False
      then have "(\<exists>u. u \<noteq> t \<and> stack_of s u = Addr b) = (\<exists>u. stack_of s u = Addr b)"
        using Addr by (metis ptr.inject)
      then show ?thesis using False i by (simp add: h_def stack_inv_def)
    qed
    moreover have "u \<noteq> t \<Longrightarrow> v \<noteq> t \<Longrightarrow> stack_of s u = Addr b \<Longrightarrow> stack_of s v = Addr b \<Longrightarrow> u = v" for u v b
      using stack_invD(3) [OF i] by blast
    moreover have "((if u = t then NULL else stack_of s u) = Addr b) = (u \<noteq> t \<and> stack_of s u = Addr b)"
      for u b by simp
    ultimately have "stack_inv ((set_state t NOT_INITIALIZED s)\<lparr>stacks := h\<rparr>)"
      unfolding stack_inv_def so by (simp only: heap.select_convs sys.select_convs sys.update_convs) auto
    moreover have "free (stacks s) (orig_stack_begin (thread_array s t)) = Inr h"
      using Addr st ca by (simp add: free_def h_def)
    ultimately show ?thesis by blast
  qed
qed

lemma cleanup_loop_stacks:
  "stack_inv s \<Longrightarrow> 0 \<le> i \<Longrightarrow> i + int n \<le> THREAD_MAX_THREADS \<Longrightarrow>
   \<exists>s'. cleanup_loop n i s = Inr s' \<and> stack_inv s'"
proof (induction n i s rule: cleanup_loop.induct)
  case (2 n i s)
  show ?case
  proof (cases "state_of s i = EXITED")
    case True
    define s1 where "s1 = set_state i NOT_INITIALIZED s"
    obtain h where h: "free (stacks s) (orig_stack_begin (thread_array s i)) = Inr h"
      and si: "stack_inv (s1\<lparr>stacks := h\<rparr>)"
      using reap_one [OF 2(3), of i] 2(4,5) True by (auto simp: valid_tid_def s1_def)
    have o: "orig_stack_begin (thread_array s1 i) = orig_stack_begin (thread_array s i)"
      by (simp add: s1_def set_state_def sys_simps)
    have st: "stacks s1 = stacks s" by (simp add: s1_def sys_simps)
    have "\<exists>s'. cleanup_loop n (i + 1) (s1\<lparr>stacks := h\<rparr>) = Inr s' \<and> stack_inv s'"
      using 2(1) [OF True s1_def si] 2(4,5) by simp
    then show ?thesis using True h o st by (simp add: Let_def s1_def [symmetric])
  next
    case False
    then show ?thesis using 2(2) [OF False 2(3)] 2(4,5) by simp
  qed
qed simp

text \<open>With interrupts off the clean-up never fails: no stack is freed twice.\<close>

lemma cleanup_total:
  assumes i: "stack_inv s" and off: "\<not> interrupts s"
  shows "\<exists>s'. thread_exit_cleanup s = Inr s' \<and> stack_inv s'"
proof -
  obtain s1 where "cleanup_loop (nat THREAD_MAX_THREADS) 0 s = Inr s1" "stack_inv s1"
    using cleanup_loop_stacks [OF i, of 0 "nat THREAD_MAX_THREADS"] by (auto simp: THREAD_MAX_THREADS_def)
  moreover have "stack_inv (s1\<lparr>thread_exit_cleanup_needs_to_run := False\<rparr>) = stack_inv s1"
    by (rule keeps_stack_inv) (simp add: keeps_def sys_simps)
  ultimately show ?thesis
    using i off by (cases "thread_exit_cleanup_needs_to_run s")
      (simp_all add: thread_exit_cleanup_def interrupts_enabled_def)
qed

lemma stack_inv_off: "stack_inv (s\<lparr>interrupts := b\<rparr>) = stack_inv s"
  by (rule keeps_stack_inv) (simp add: sys_simps)

lemma cleanup_stacks:
  assumes "stack_inv s" and "thread_exit_cleanup (s\<lparr>interrupts := False\<rparr>) = Inr s'"
  shows "stack_inv s'"
  using cleanup_total [of "s\<lparr>interrupts := False\<rparr>"] assms by (simp add: stack_inv_off)

text \<open>
  \<open>thread_create\<close> never fails: it has a slot and a stack, or it says which is missing.
\<close>

lemma thread_create_stacks:
  assumes a: "active s" and i: "stack_inv s"
  shows "\<exists>s'. thread_create fn parg s = Inr s' \<and> stack_inv s'"
proof -
  obtain s1 where c: "thread_exit_cleanup (s\<lparr>interrupts := False\<rparr>) = Inr s1" and i1: "stack_inv s1"
    using cleanup_total [of "s\<lparr>interrupts := False\<rparr>"] i by (auto simp: stack_inv_off)
  note off = thread_exit_cleanup_effect(5) [OF c]
  have a1: "active s1" using cleanup_active(1) [OF _ c] a by (simp add: sys_simps)
  obtain stack h where m: "malloc (stacks s1) = (stack, h)" by (cases "malloc (stacks s1)")
  have lv: "stack_inv (leave b v x) = stack_inv x" for b v x
    by (rule keeps_stack_inv) (simp add: sys_simps)
  show ?thesis
  proof (cases "find_slot (nat THREAD_MAX_THREADS) 0 s1")
    case None
    then show ?thesis using c i1 by (simp add: thread_create_def set_simps lv [unfolded leave_def])
  next
    case (Some j)
    have v: "valid_tid j" and free: "state_of s1 j = NOT_INITIALIZED"
      using find_slot_valid [OF Some] Some by (simp_all add: find_slot_Some)
    have none: "stack_of s1 j = NULL" using free by (simp add: stack_of_def)
    define s2 where "s2 = upd_thread j (\<lambda>th. th\<lparr>state := READY, context_mask := interrupts s1\<rparr>) s1"
    show ?thesis
    proof (cases stack)
      case NULL
      define s3 where "s3 = set_state j NOT_INITIALIZED (s2\<lparr>stacks := h\<rparr>)"
      have cr: "thread_create fn parg s = Inr (leave (interrupts s) THREAD_NOMEMORY s3)"
        using c Some m NULL by (simp add: thread_create_def set_simps Let_def s3_def s2_def sys_simps)
      have "cells h = cells (stacks s1)"
        using m NULL by (auto simp: malloc_def split: option.splits)
      moreover have "stack_of s3 = stack_of s1"
        using free by (auto simp: s3_def s2_def stack_of_def state_of_def set_state_def sys_simps fun_eq_iff)
      ultimately have "stack_inv s3" using i1 by (simp add: stack_inv_def s3_def sys_simps)
      then show ?thesis using cr lv by blast
    next
      case (Addr b)
      define s4 where "s4 = (upd_thread j (\<lambda>th. th\<lparr>ucontext := [At_stub fn parg]\<rparr>)
        (upd_thread j (\<lambda>th. th\<lparr>orig_stack_begin := stack\<rparr>) (s2\<lparr>stacks := h\<rparr>)))
        \<lparr>thread_queue := thread_queue s1 @ [j]\<rparr>"
      have "rip_addr_ok (ptr_value stack)"
        by (rule rip_addr_ok_always) (simp add: ptr_value_def split: ptr.split)
      then have cr: "thread_create fn parg s = Inr (leave (interrupts s) j s4)"
        using c Some m Addr v off
        by (simp add: thread_create_def set_simps Let_def s4_def s2_def sys_simps)
      have so: "stack_of s4 = (stack_of s1)(j := Addr b)"
        using v Addr by (auto simp: s4_def s2_def stack_of_def state_of_def sys_simps fun_eq_iff)
      obtain u where u: "policy (stacks s1) (calls (stacks s1)) (cells (stacks s1)) = Some (b, u)"
        and hc: "cells h = (cells (stacks s1))(b \<mapsto> u)"
        using heap_effects(1) [OF m [unfolded Addr]] by auto
      have new: "cells (stacks s1) b = None"
        using activeD(2) [OF a1] u unfolding env_ok_def by (meson fresh_cells)
      have nb: "stack_of s1 t \<noteq> Addr b" for t using stack_invD(1) [OF i1] new by blast
      have "(cells h d \<noteq> None) = (\<exists>t. stack_of s4 t = Addr d)" for d
      proof (cases "d = b")
        case True
        then show ?thesis unfolding hc so by auto
      next
        case False
        then have "(\<exists>t. stack_of s4 t = Addr d) = (\<exists>t. stack_of s1 t = Addr d)"
          unfolding so using none by (metis fun_upd_apply ptr.distinct(1) ptr.inject)
        then show ?thesis using False i1 by (simp add: hc stack_inv_def)
      qed
      moreover have "t = w" if "stack_of s4 t = Addr d" "stack_of s4 w = Addr d" for t w d
        using that nb stack_invD(3) [OF i1] unfolding so by (metis fun_upd_apply ptr.inject)
      moreover have "stacks s4 = h" by (simp add: s4_def sys_simps)
      ultimately have "stack_inv s4" unfolding stack_inv_def by blast
      then show ?thesis using cr lv by blast
    qed
  qed
qed

lemma thread_kill_stacks:
  assumes a: "active s" and i: "stack_inv s" and k: "thread_kill tid s = Inr s'"
  shows "stack_inv s'"
proof -
  have lv: "stack_inv (leave b v x) = stack_inv x" for b v x
    by (rule keeps_stack_inv) (simp add: sys_simps)
  obtain s1 where c: "thread_exit_cleanup (s\<lparr>interrupts := False\<rparr>) = Inr s1"
    and s': "s' = leave (interrupts s) THREAD_INVALID s1 \<or>
      (state_of s1 tid \<noteq> NOT_INITIALIZED \<and> s' = leave (interrupts s) tid (set_state tid KILLED s1))"
    using k by (auto simp: thread_kill_def set_simps result_simps Let_def split: if_splits)
  have "keeps s1 (set_state tid KILLED s1)" if "state_of s1 tid \<noteq> NOT_INITIALIZED"
    using that by (simp add: keeps_def sys_simps)
  then show ?thesis
    using s' cleanup_stacks [OF i c] keeps_stack_inv [of s1 "set_state tid KILLED s1"] by (auto simp: lv)
qed

lemma thread_exit_stacks:
  assumes a: "active s" and i: "stack_inv s" and k: "thread_exit s = Inr s'"
  shows "stack_inv s'"
proof -
  define r where "r = running_thread_id s"
  obtain s1 s3 where c: "thread_exit_cleanup (s\<lparr>interrupts := False\<rparr>) = Inr s1"
    and w: "thread_wakeup (WQ_thread r) 1
      ((set_state r EXITED s1)\<lparr>thread_exit_cleanup_needs_to_run := True\<rparr>) = Inr s3"
    and s': "s' = push_frame Exit_yield (s3\<lparr>interrupts := interrupts s\<rparr>)"
    using k by (auto simp: thread_exit_def set_simps result_simps r_def Let_def split: if_splits)
  have "active s1" using cleanup_active(1) [OF _ c] a by (simp add: sys_simps)
  then have "state_of s1 r \<noteq> NOT_INITIALIZED"
    using activeD(3) thread_exit_cleanup_effect(2) [OF c] by (fastforce simp: r_def)
  then have "keeps s1 ((set_state r EXITED s1)\<lparr>thread_exit_cleanup_needs_to_run := True\<rparr>)"
    by (simp add: keeps_def sys_simps)
  then have "keeps s1 s'"
    using thread_wakeup_keeps [OF w] by (simp add: s' sys_simps keeps_trans)
  then show ?thesis using cleanup_stacks [OF i c] by (simp add: keeps_stack_inv)
qed

end
