(* ===== verification/Sched_Progress.thy ===== *)
theory Sched_Progress
  imports Sched_Stacks
begin

text \<open>
  How one step of the process changes the ready queue and the owners of the locks: a thread
  in the ready queue never loses its place to another one, and a lock is given up only by
  the thread that holds it.
\<close>

section \<open>The ready queue only moves forward\<close>

definition advance :: "sys \<Rightarrow> sys \<Rightarrow> bool" where
  "advance s s' \<longleftrightarrow>
     (\<exists>xs. running_thread_id s' = running_thread_id s \<and> thread_queue s' = thread_queue s @ xs) \<or>
     (\<exists>n xs. n \<in> set (thread_queue s) \<and> running_thread_id s' = n \<and>
        thread_queue s' = remove1 n (thread_queue s) @ xs)"

text \<open>The threads in front of a thread in the queue.\<close>

definition ahead :: "int list \<Rightarrow> int \<Rightarrow> int list" where
  "ahead q t = takeWhile (\<lambda>u. u \<noteq> t) q"

lemma ahead_append: "t \<in> set q \<Longrightarrow> ahead (q @ xs) t = ahead q t"
  by (auto simp: ahead_def takeWhile_append1)

lemma ahead_remove1: "n \<noteq> t \<Longrightarrow> length (ahead (remove1 n q) t) \<le> length (ahead q t)"
  by (induction q) (auto simp: ahead_def)

lemma ahead_tl: "t \<noteq> n \<Longrightarrow> length (ahead (n # q) t) = Suc (length (ahead q t))"
  by (simp add: ahead_def)

lemma advance_position:
  assumes "advance s s'" and t: "t \<in> set (thread_queue s)"
  shows "t = running_thread_id s' \<or> (t \<in> set (thread_queue s') \<and>
           length (ahead (thread_queue s') t) \<le> length (ahead (thread_queue s) t))"
  using assms(1) unfolding advance_def
proof (elim disjE exE conjE)
  fix xs assume "thread_queue s' = thread_queue s @ xs"
  then show ?thesis using t by (simp add: ahead_append)
next
  fix n xs
  assume n: "running_thread_id s' = n" and q: "thread_queue s' = remove1 n (thread_queue s) @ xs"
  show ?thesis
  proof (cases "t = n")
    case False
    then have "t \<in> set (remove1 n (thread_queue s))" using t by simp
    then show ?thesis using False ahead_remove1 [of n t "thread_queue s"] by (simp add: q ahead_append)
  qed (simp add: n)
qed

lemma advance_same:
  "running_thread_id s' = running_thread_id s \<Longrightarrow> thread_queue s' = thread_queue s \<Longrightarrow> advance s s'"
  unfolding advance_def by simp

lemma advance_append:
  "running_thread_id s' = running_thread_id s \<Longrightarrow> thread_queue s' = thread_queue s @ xs \<Longrightarrow> advance s s'"
  unfolding advance_def by simp

lemma advance_upd [sys_simps]:
  "advance s (s'\<lparr>interrupts := b\<rparr>) = advance s s'" "advance s (leave b v s') = advance s s'"
  "advance s (push_frame f s') = advance s s'" "advance (s\<lparr>interrupts := b\<rparr>) s' = advance s s'"
  "advance (push_frame f s) s' = advance s s'" "advance (pop_frame s) s' = advance s s'"
  "advance s (set_state t st s') = advance s s'" "advance (set_state t st s) s' = advance s s'"
  "advance s (s'\<lparr>result_ptr := p\<rparr>) = advance s s'" "advance s (pop_frame s') = advance s s'"
  "advance s (s'\<lparr>locks := hl\<rparr>) = advance s s'" "advance (s\<lparr>locks := hl\<rparr>) s' = advance s s'"
  "advance s (s'\<lparr>cvs := hw\<rparr>) = advance s s'" "advance s (s'\<lparr>wait_queues := hw\<rparr>) = advance s s'"
  by (simp_all add: advance_def sys_simps)

lemma advance_refl [simp]: "advance s s"
  by (rule advance_same) simp_all

lemma yield_advance:
  assumes a: "active s" and y: "thread_yield want s = Inr s'"
  shows "advance s s'"
  using a y
proof (cases rule: yield_cases)
  case (switch n)
  define r where "r = running_thread_id s"
  have e: "running_thread_id s' = n" "thread_queue s' = remove1 n (thread_queue s @ [r])"
    using switch_to_effect(1,2) [OF switch(4)] by (simp_all add: r_def)
  have r: "r \<notin> set (thread_queue s)" using activeD(5) [OF a] by (simp add: r_def)
  show ?thesis
  proof (cases "n = r")
    case True
    then show ?thesis using e r by (intro advance_same) (simp_all add: r_def remove1_append)
  next
    case False
    then show ?thesis using e switch(1) unfolding advance_def by (auto simp: r_def remove_other)
  qed
qed (simp add: sys_simps)

lemma yield_exited_advance:
  assumes c: "sched_core s" and e: "state_of s (running_thread_id s) = EXITED"
    and q: "thread_queue s = t # q" and y: "thread_yield THREAD_ANY s = Inr s'"
  shows "advance s s'"
proof -
  have "core_inv (running_thread_id s) (t # q) (state_of s) (sleepers s)"
    using c q by (simp add: sched_core_def)
  then have t: "t \<noteq> running_thread_id s"
    using core_queued [of _ "t # q" _ _ t] by fastforce
  have sw: "switch_to (interrupts s) (running_thread_id s) t
      (s\<lparr>interrupts := False, thread_queue := q\<rparr>) = Inr s'"
    using y yield_any_leave [OF _ q t(1)] e by simp
  show ?thesis using switch_to_effect(1,2) [OF sw] q unfolding advance_def by auto
qed

lemma thread_sleep_advance:
  assumes k: "thread_sleep x s = Inr s'" and a: "active s"
  shows "advance s s'"
  using k a
proof (cases rule: thread_sleep_cases)
  case (switch t q s1)
  show ?thesis
    using switch_to_effect(1,2) [OF switch(4)] switch(2) unfolding advance_def by (auto simp: sys_simps)
qed (simp_all add: sys_simps)

lemma thread_wakeup_advance: "thread_wakeup x all s = Inr s' \<Longrightarrow> advance s s'"
  using thread_wakeup_effect(1,5) [of x all s s'] by (intro advance_append)

lemma thread_wait_advance: "thread_wait tid s = Inr s' \<Longrightarrow> active s \<Longrightarrow> advance s s'"
  using thread_sleep_advance [of _ "push_frame (Wait_return (interrupts s) tid) (s\<lparr>interrupts := False\<rparr>)" s']
  by (auto simp: thread_wait_def interrupts_set_def sys_simps split: if_splits)

lemma thread_create_advance:
  assumes "thread_create fn parg s = Inr s'"
  shows "advance s s'"
  using assms
proof (cases rule: thread_create_cases)
  case (full s1)
  then show ?thesis
    using thread_exit_cleanup_effect(1,2) [OF full(1)] by (simp add: sys_simps advance_same)
next
  case (no_memory s1 i s2)
  then show ?thesis
    using thread_exit_cleanup_effect(1,2) [OF no_memory(1)]
    by (simp add: sys_simps advance_same same_view_def)
next
  case (ok s1 i s2)
  then show ?thesis
    using thread_exit_cleanup_effect(1,2) [OF ok(1)] by (intro advance_append) (simp_all add: sys_simps)
qed

lemma thread_kill_advance:
  assumes "thread_kill tid s = Inr s'"
  shows "advance s s'"
proof -
  obtain s1 where "thread_exit_cleanup (s\<lparr>interrupts := False\<rparr>) = Inr s1"
    and "s' = leave (interrupts s) THREAD_INVALID s1 \<or>
      s' = leave (interrupts s) tid (set_state tid KILLED s1)"
    using assms by (auto simp: thread_kill_def set_simps result_simps Let_def split: if_splits)
  then show ?thesis
    using thread_exit_cleanup_effect(1,2) [of "s\<lparr>interrupts := False\<rparr>" s1]
    by (auto simp: sys_simps intro: advance_same)
qed

lemma thread_exit_advance:
  assumes "thread_exit s = Inr s'"
  shows "advance s s'"
proof -
  obtain s1 s3 where c: "thread_exit_cleanup (s\<lparr>interrupts := False\<rparr>) = Inr s1"
    and w: "thread_wakeup (WQ_thread (running_thread_id s)) 1
      ((set_state (running_thread_id s) EXITED s1)\<lparr>thread_exit_cleanup_needs_to_run := True\<rparr>) = Inr s3"
    and s': "s' = push_frame Exit_yield (s3\<lparr>interrupts := interrupts s\<rparr>)"
    using assms by (auto simp: thread_exit_def set_simps result_simps Let_def split: if_splits)
  show ?thesis
    using thread_exit_cleanup_effect(1,2) [OF c] thread_wakeup_effect(1,5) [OF w]
    by (intro advance_append) (simp_all add: s' sys_simps)
qed

lemma put_wq_advance: "put_wq s x (Wq ts) = Inr s' \<Longrightarrow> advance s s'"
  using put_wq_effect(3,4) [of s x ts s'] by (intro advance_same)

lemma wait_queue_advance:
  "wait_queue_create s = Inr s' \<Longrightarrow> advance s s'" "wait_queue_destroy p s = Inr s' \<Longrightarrow> advance s s'"
  by (auto simp: wait_queue_create_def wait_queue_destroy_def interrupts_set_def result_simps
      sys_simps split: prod.splits dest: put_wq_advance)

lemma cv_advance:
  "cv_create s = Inr s' \<Longrightarrow> advance s s'" "cv_destroy p s = Inr s' \<Longrightarrow> advance s s'"
  "cv_signal p l s = Inr s' \<Longrightarrow> advance s s'" "cv_broadcast p l s = Inr s' \<Longrightarrow> advance s s'"
  by (auto simp: cv_create_def cv_destroy_def cv_signal_def cv_broadcast_def interrupts_set_def
      result_simps sys_simps split: prod.splits dest: thread_wakeup_advance)

lemma lock_advance:
  "lock_create s = Inr s' \<Longrightarrow> advance s s'" "lock_destroy p s = Inr s' \<Longrightarrow> advance s s'"
  "lock_release p s = Inr s' \<Longrightarrow> advance s s'"
  by (auto simp: lock_create_def lock_destroy_def lock_release_def interrupts_set_def
      result_simps sys_simps split: prod.splits dest!: thread_wakeup_advance)

lemma cv_wait_advance: "cv_wait p l s = Inr s' \<Longrightarrow> advance s s'"
  by (auto simp: cv_wait_def result_simps sys_simps dest: lock_advance)

lemma acquire_loop_advance: "acquire_loop prev p s = Inr s' \<Longrightarrow> active s \<Longrightarrow> advance s s'"
  using thread_sleep_advance [of "WQ_lock p" "push_frame (Acquire_loop prev p) s" s']
  by (auto simp: acquire_loop_def result_simps sys_simps split: if_splits)

lemma lock_acquire_advance: "lock_acquire p s = Inr s' \<Longrightarrow> active s \<Longrightarrow> advance s s'"
  using acquire_loop_advance [of "interrupts s" p "s\<lparr>interrupts := False\<rparr>" s']
  by (auto simp: lock_acquire_def interrupts_set_def result_simps sys_simps)

lemmas op_advance = yield_advance thread_sleep_advance thread_wakeup_advance thread_wait_advance
  thread_create_advance thread_kill_advance thread_exit_advance wait_queue_advance lock_advance
  lock_acquire_advance cv_advance cv_wait_advance

lemma api_call_advance: "active s \<Longrightarrow> api_call a s = Inr s' \<Longrightarrow> advance s s'"
  by (cases a) (auto intro: op_advance simp: interrupts_set_def sys_simps)

section \<open>From calls to steps\<close>

text \<open>
  A relation between states that does not look at frames, signal masks and returned values,
  and holds for every library call, holds for every step of the process.
\<close>

locale step_relation =
  fixes R :: "sys \<Rightarrow> sys \<Rightarrow> bool"
  assumes same: "R s s"
    and left_interrupts: "R (s\<lparr>interrupts := b\<rparr>) s' \<Longrightarrow> R s s'"
    and left_push: "R (push_frame f s) s' \<Longrightarrow> R s s'"
    and left_pop: "R (pop_frame s) s' \<Longrightarrow> R s s'"
    and masking: "R s (s\<lparr>interrupts := b\<rparr>)"
    and leaving: "R s (leave b v s)"
    and calls: "active s \<Longrightarrow> api_call a s = Inr s' \<Longrightarrow> R s s'"
    and acquires: "active s \<Longrightarrow> acquire_loop prev p s = Inr s' \<Longrightarrow> R s s'"
    and exits: "sched_core s \<Longrightarrow> state_of s (running_thread_id s) = EXITED \<Longrightarrow>
      thread_queue s = t # q \<Longrightarrow> thread_yield THREAD_ANY s = Inr s' \<Longrightarrow> R s s'"
begin

lemma handler:
  assumes i: "sched_inv s" and k: "interrupt_handler s = Inr s'"
  shows "R s s'"
proof -
  define s0 where "s0 = push_frame Handler_return (s\<lparr>interrupts := False\<rparr>)"
  have y: "thread_yield THREAD_ANY s0 = Inr s'"
    using k by (simp add: interrupt_handler_def interrupts_enabled_def s0_def)
  have "R s0 s'"
    using i
  proof (cases rule: sched_inv_cases)
    case active
    then show ?thesis using calls [of s0 "Api_yield THREAD_ANY" s'] y by (simp add: s0_def sys_simps)
  next
    case (exiting t q fs)
    moreover have "sched_core s0" using i by (simp add: s0_def sched_inv_def sys_simps)
    ultimately show ?thesis using exits [of s0 t q s'] y by (simp add: s0_def sys_simps)
  qed
  then show ?thesis unfolding s0_def by (rule left_interrupts [OF left_push])
qed

lemma resumed:
  assumes i: "sched_inv s" and f: "frames_of s (running_thread_id s) = f # fs"
    and k: "resume f (pop_frame s) = Inr s'"
  shows "R s s'"
  using i
proof (cases rule: sched_inv_cases)
  case (exiting t q fs')
  then have "f = Exit_yield" using f by simp
  moreover have "sched_core (push_frame After_exit (pop_frame s))"
    using i by (simp add: sched_inv_def sys_simps)
  ultimately show ?thesis
    using exits [of "push_frame After_exit (pop_frame s)" t q s'] k exiting
    by - (rule left_pop [OF left_push], simp add: resume_def sys_simps)
next
  case active
  then have a: "active (pop_frame s)" by (simp add: sys_simps)
  have "R (pop_frame s) s'"
  proof (cases f)
    case At_thread_exit
    then show ?thesis using k calls [OF a, of Api_exit] by (simp add: resume_def)
  next
    case (Acquire_loop prev l)
    then show ?thesis using k acquires [OF a] by (simp add: resume_def)
  next
    case (Cv_sleep cv l)
    then show ?thesis
      using k a calls [of "push_frame (Cv_acquire l) (pop_frame s)" "Api_sleep (WQ_cv cv)"]
      by - (rule left_push, simp add: resume_def sys_simps)
  next
    case (Cv_acquire l)
    then show ?thesis using k calls [OF a, of "Api_acquire l"] by (simp add: resume_def)
  next
    case Exit_yield
    then show ?thesis
      using k a calls [of "push_frame After_exit (pop_frame s)" "Api_yield THREAD_ANY"]
      by - (rule left_push, simp add: resume_def sys_simps)
  qed (use k in \<open>auto simp: resume_def thread_stub_def interrupts_on_def interrupts_set_def
         intro!: masking leaving same\<close>)
  then show ?thesis by (rule left_pop)
qed

lemma every_step: "sys_step s s' \<Longrightarrow> sched_inv s \<Longrightarrow> R s s'"
proof (induction rule: sys_step.induct)
  case (call s a s')
  from call(3) show ?case
  proof (cases rule: sched_inv_cases)
    case active
    then show ?thesis using calls call by blast
  qed (use call(1) in simp)
next
  case (continue s f fs s')
  then show ?case using resumed by blast
next
  case (tick s s')
  then show ?case using handler by blast
qed

end

interpretation adv: step_relation advance
  by unfold_locales
    (auto simp: sys_simps intro: api_call_advance acquire_loop_advance yield_exited_advance)

section \<open>Stacks along the steps\<close>

lemma stack_inv_upd [sys_simps]:
  "stack_inv (push_frame f s) = stack_inv s" "stack_inv (pop_frame s) = stack_inv s"
  "stack_inv (leave b v s) = stack_inv s" "stack_inv (s\<lparr>interrupts := b\<rparr>) = stack_inv s"
  by (rule keeps_stack_inv; simp add: sys_simps)+

lemma api_call_stacks:
  assumes a: "active s" and k: "api_call c s = Inr s'" and i: "stack_inv s"
  shows "stack_inv s'"
proof (cases "keeps s s'")
  case True
  then show ?thesis using i by (simp add: keeps_stack_inv)
next
  case False
  show ?thesis
  proof (cases c)
    case (Api_create fn arg)
    then show ?thesis using k thread_create_stacks [OF a i, of fn arg] by auto
  next
    case (Api_kill t)
    then show ?thesis using k thread_kill_stacks [OF a i] by simp
  next
    case Api_exit
    then show ?thesis using k thread_exit_stacks [OF a i] by simp
  next
    case (Api_interrupts b)
    then show ?thesis using k i by (auto simp: interrupts_set_def sys_simps)
  qed (use k a False in \<open>auto dest: op_keeps\<close>)
qed

definition stacks_kept :: "sys \<Rightarrow> sys \<Rightarrow> bool" where
  "stacks_kept s s' \<longleftrightarrow> (stack_inv s \<longrightarrow> stack_inv s')"

interpretation stk: step_relation stacks_kept
  by unfold_locales
    (auto simp: stacks_kept_def sys_simps intro: api_call_stacks
      dest: acquire_loop_keeps keeps_stack_inv yield_exited_keeps)

lemma boot_stacks: "stack_inv (boot ps pw pl pc b)"
  by (simp add: stack_inv_def stack_of_def boot_effect zero_heap_def)

lemma reachable_stacks:
  assumes "good_malloc ps pw pl pc" and "reachable (boot ps pw pl pc b) s"
  shows "stack_inv s"
  using assms(2)
proof (induction rule: reachable.induct)
  case (step s s')
  then show ?case
    using stk.every_step reachable_boot_inv [OF assms(1) step(1)] by (simp add: stacks_kept_def)
qed (rule boot_stacks)

section \<open>Owners of locks\<close>

definition lock_safe :: "sys \<Rightarrow> sys \<Rightarrow> bool" where
  "lock_safe s s' \<longleftrightarrow>
     (\<forall>a t. owners s a = Some (True, t) \<longrightarrow> t \<noteq> running_thread_id s \<longrightarrow> owners s' a = Some (True, t))"

lemma owners_upd [sys_simps]:
  "owners (push_frame f s) = owners s" "owners (pop_frame s) = owners s"
  "owners (leave b v s) = owners s" "owners (s\<lparr>interrupts := b\<rparr>) = owners s"
  "owners (set_state t st s) = owners s" "owners (s\<lparr>thread_queue := q\<rparr>) = owners s"
  "owners (s\<lparr>result_ptr := p\<rparr>) = owners s" "owners (s\<lparr>cvs := hw\<rparr>) = owners s"
  "owners (s\<lparr>wait_queues := hw\<rparr>) = owners s"
  "owners (s\<lparr>thread_exit_cleanup_needs_to_run := b\<rparr>) = owners s"
  by (rule owners_cong; simp add: sys_simps)+

lemma lock_safeI: "owners s' = owners s \<Longrightarrow> lock_safe s s'"
  by (simp add: lock_safe_def)

lemma yield_owners: "active s \<Longrightarrow> thread_yield want s = Inr s' \<Longrightarrow> owners s' = owners s"
  by (erule (1) yield_cases) (auto simp: sys_simps dest: switch_to_effect(8) intro!: owners_cong)

lemma yield_exited_owners:
  assumes c: "sched_core s" and e: "state_of s (running_thread_id s) = EXITED"
    and q: "thread_queue s = t # q" and y: "thread_yield THREAD_ANY s = Inr s'"
  shows "owners s' = owners s"
proof -
  have "core_inv (running_thread_id s) (t # q) (state_of s) (sleepers s)"
    using c q by (simp add: sched_core_def)
  then have t: "t \<noteq> running_thread_id s"
    using core_queued [of _ "t # q" _ _ t] by fastforce
  have "switch_to (interrupts s) (running_thread_id s) t
      (s\<lparr>interrupts := False, thread_queue := q\<rparr>) = Inr s'"
    using y yield_any_leave [OF _ q t(1)] e by simp
  from switch_to_effect(8) [OF this] show ?thesis by (intro owners_cong) simp
qed

lemma thread_sleep_owners:
  assumes k: "thread_sleep x s = Inr s'" and a: "active s"
  shows "owners s' = owners s"
  using k a
proof (cases rule: thread_sleep_cases)
  case (switch t q s1)
  have "owners s' = owners s1"
    using switch_to_effect(8) [OF switch(4)] by (intro owners_cong) (simp add: sys_simps)
  then show ?thesis using put_wq_owners [OF switch(3)] by (simp add: sys_simps)
qed (simp_all add: sys_simps)

lemma thread_wait_owners: "thread_wait tid s = Inr s' \<Longrightarrow> active s \<Longrightarrow> owners s' = owners s"
  using thread_sleep_owners [of _ "push_frame (Wait_return (interrupts s) tid) (s\<lparr>interrupts := False\<rparr>)" s']
  by (auto simp: thread_wait_def interrupts_set_def sys_simps split: if_splits)

lemma thread_wakeup_owners: "thread_wakeup x all s = Inr s' \<Longrightarrow> owners s' = owners s"
  by (rule thread_wakeup_effect(10))

lemma cleanup_owners: "thread_exit_cleanup s = Inr s' \<Longrightarrow> owners s' = owners s"
  by (rule owners_cong) (rule thread_exit_cleanup_effect(7))

lemma thread_exit_owners: "thread_exit s = Inr s' \<Longrightarrow> owners s' = owners s"
  by (auto simp: thread_exit_def interrupts_set_def result_simps sys_simps Let_def split: if_splits
      dest!: cleanup_owners thread_wakeup_owners)

lemma thread_kill_owners: "thread_kill tid s = Inr s' \<Longrightarrow> owners s' = owners s"
  by (auto simp: thread_kill_def interrupts_set_def result_simps sys_simps Let_def split: if_splits
      dest!: cleanup_owners)

lemma put_array_locks [sys_simps]: "owners (upd_thread t f s) = owners s"
  "owners (s\<lparr>stacks := hs\<rparr>) = owners s"
  by (rule owners_cong; simp add: sys_simps)+

lemma thread_create_owners:
  assumes "thread_create fn parg s = Inr s'"
  shows "owners s' = owners s"
  using assms
proof (cases rule: thread_create_cases)
  case (full s1)
  then show ?thesis using cleanup_owners [OF full(1)] by (simp add: sys_simps)
next
  case (no_memory s1 i s2)
  then show ?thesis using cleanup_owners [OF no_memory(1)] owners_cong [OF no_memory(6)] by (simp add: sys_simps)
next
  case (ok s1 i s2)
  then show ?thesis using cleanup_owners [OF ok(1)] owners_cong [OF ok(11)] by (simp add: sys_simps)
qed

lemma wait_queue_owners:
  "wait_queue_create s = Inr s' \<Longrightarrow> owners s' = owners s"
  "wait_queue_destroy p s = Inr s' \<Longrightarrow> owners s' = owners s"
  by (auto simp: wait_queue_create_def wait_queue_destroy_def interrupts_set_def result_simps
      sys_simps split: prod.splits dest!: put_wq_owners)

lemma cv_owners:
  "cv_create s = Inr s' \<Longrightarrow> owners s' = owners s" "cv_destroy p s = Inr s' \<Longrightarrow> owners s' = owners s"
  "cv_signal p l s = Inr s' \<Longrightarrow> owners s' = owners s"
  "cv_broadcast p l s = Inr s' \<Longrightarrow> owners s' = owners s"
  by (auto simp: cv_create_def cv_destroy_def cv_signal_def cv_broadcast_def interrupts_set_def
      result_simps sys_simps split: prod.splits dest!: thread_wakeup_owners)

lemma owners_store:
  assumes "store (locks s) (Addr a) l = Inr h"
  shows "owners (s\<lparr>locks := h\<rparr>) = (owners s)(a \<mapsto> (acquired l, acquiring_thread l))"
  using heap_effects(2) [OF assms] by (auto simp: owners_def fun_eq_iff)

lemma owners_load: "load (locks s) (Addr a) = Inr l \<Longrightarrow> owners s a = Some (acquired l, acquiring_thread l)"
  using heap_effects(3) [of "locks s" a l] by (simp add: owners_def)

lemma lock_create_safe:
  assumes a: "active s" and k: "lock_create s = Inr s'"
  shows "lock_safe s s'"
proof -
  obtain p h where m: "malloc (locks s) = (p, h)" by (cases "malloc (locks s)")
  with k obtain junk h1 where p: "p \<noteq> NULL"
    and st: "store h p (junk\<lparr>acquired := False, acquiring_thread := THREAD_NONE\<rparr>) = Inr h1"
    and s': "s' = s\<lparr>locks := h1, result_ptr := p\<rparr>"
    by (auto simp: lock_create_def result_simps)
  obtain a where pa: "p = Addr a" using p by (cases p) auto
  obtain c where c: "policy (locks s) (calls (locks s)) (cells (locks s)) = Some (a, c)"
    "cells h = (cells (locks s))(a \<mapsto> c)" using heap_effects(1) [OF m [unfolded pa]] by auto
  have "cells (locks s) a = None"
    using activeD(2) [OF a] c(1) unfolding env_ok_def by (meson fresh_cells)
  then show ?thesis
    using c(2) heap_effects(2) [OF st [unfolded pa]] by (auto simp: lock_safe_def owners_def s')
qed

lemma lock_destroy_safe:
  assumes "lock_destroy p s = Inr s'"
  shows "lock_safe s s'"
proof -
  obtain l h where ld: "load (locks s) p = Inr l" and na: "\<not> acquired l"
    and f: "free (locks s) p = Inr h" and s': "s' = s\<lparr>locks := h, interrupts := interrupts s\<rparr>"
    using assms by (auto simp: lock_destroy_def interrupts_set_def result_simps)
  obtain a where p: "p = Addr a" using ld by (cases p) auto
  show ?thesis
    using heap_effects(3) [OF ld [unfolded p]] heap_effects(4) [OF f [unfolded p]] na
    by (auto simp: lock_safe_def owners_def s')
qed

lemma acquire_loop_safe:
  assumes k: "acquire_loop prev p s = Inr s'" and a: "active s"
  shows "lock_safe s s'"
proof -
  obtain l where l: "load (locks s) p = Inr l" using k by (auto simp: acquire_loop_def result_simps)
  then obtain b where p: "p = Addr b" by (cases p) auto
  show ?thesis
  proof (cases "acquired l")
    case True
    then have "owners s' = owners (push_frame (Acquire_loop prev p) s)"
      using k l a by (intro thread_sleep_owners) (simp_all add: acquire_loop_def sys_simps)
    then show ?thesis by (intro lock_safeI) (simp add: sys_simps)
  next
    case False
    then obtain h where st: "store (locks s) p (l\<lparr>acquired := True, acquiring_thread := running_thread_id s\<rparr>) = Inr h"
      and s': "s' = s\<lparr>locks := h, interrupts := prev\<rparr>"
      using k l by (auto simp: acquire_loop_def result_simps thread_id_def)
    show ?thesis
      using owners_store [OF st [unfolded p]] owners_load [OF l [unfolded p]] False
      by (auto simp: lock_safe_def s' sys_simps)
  qed
qed

lemma lock_acquire_safe: "lock_acquire p s = Inr s' \<Longrightarrow> active s \<Longrightarrow> lock_safe s s'"
  using acquire_loop_safe [of "interrupts s" p "s\<lparr>interrupts := False\<rparr>" s']
  by (auto simp: lock_acquire_def interrupts_set_def result_simps sys_simps lock_safe_def)

lemma lock_release_effect:
  assumes "lock_release p s = Inr s'"
  obtains a l where "p = Addr a" and "load (locks s) p = Inr l" and "acquiring_thread l = running_thread_id s"
    and "owners s' = (owners s)(a \<mapsto> (False, running_thread_id s))"
    and "thread_queue s' = thread_queue s @ sleepers s (WQ_lock p)"
    and "sleepers s' = (sleepers s)(WQ_lock p := [])"
    and "state_of s' = wake_states (sleepers s (WQ_lock p)) (state_of s)"
    and "running_thread_id s' = running_thread_id s" and "interrupts s' = interrupts s"
    and "frames_of s' = frames_of s"
proof -
  define s0 where "s0 = s\<lparr>interrupts := False\<rparr>"
  obtain l h s1 where l: "load (locks s0) p = Inr l" and own: "acquiring_thread l = running_thread_id s"
    and st: "store (locks s0) p (l\<lparr>acquired := False\<rparr>) = Inr h"
    and w: "thread_wakeup (WQ_lock p) 1 (s0\<lparr>locks := h\<rparr>) = Inr s1"
    and s': "s' = s1\<lparr>interrupts := interrupts s\<rparr>"
    using assms by (auto simp: lock_release_def interrupts_set_def result_simps s0_def thread_id_def)
  obtain a where p: "p = Addr a" using l by (cases p) auto
  have "owners s' = (owners s)(a \<mapsto> (False, running_thread_id s))"
    using thread_wakeup_owners [OF w] owners_store [OF st [unfolded p]] own
    by (simp add: s' sys_simps s0_def)
  moreover have sl: "sleepers (s0\<lparr>locks := h\<rparr>) = sleepers s"
    using heap_effects(2) [OF st [unfolded p]] heap_effects(3) [OF l [unfolded p]]
    by (subst sleepers_locks) (auto simp: s0_def sys_simps)
  ultimately show ?thesis
    using that [OF p l [unfolded s0_def, simplified] own] thread_wakeup_effect [OF w]
    by (simp add: s' sys_simps s0_def woken_def)
qed

lemma lock_release_safe: "lock_release p s = Inr s' \<Longrightarrow> lock_safe s s'"
  by (erule lock_release_effect) (auto simp: lock_safe_def dest: owners_load)

lemma cv_wait_safe: "cv_wait p l s = Inr s' \<Longrightarrow> lock_safe s s'"
  by (auto simp: cv_wait_def result_simps lock_safe_def sys_simps dest!: lock_release_safe)

lemmas op_owners = yield_owners thread_sleep_owners thread_wakeup_owners thread_wait_owners
  thread_exit_owners thread_kill_owners thread_create_owners wait_queue_owners cv_owners

lemmas op_lock_safe = lock_create_safe lock_destroy_safe lock_acquire_safe lock_release_safe cv_wait_safe

lemma api_call_lock_safe: "active s \<Longrightarrow> api_call a s = Inr s' \<Longrightarrow> lock_safe s s'"
  by (cases a) (auto intro: op_lock_safe lock_safeI op_owners simp: interrupts_set_def sys_simps)

interpretation lck: step_relation lock_safe
  by unfold_locales
    (auto simp: lock_safe_def sys_simps yield_exited_owners
      dest: api_call_lock_safe acquire_loop_safe)

end
