(* ===== verification/Sched_Masks.thy ===== *)
theory Sched_Masks
  imports Sched_Progress
begin

text \<open>
  Two more facts about every step: the wait queue inside a thread control block is always
  initialised, and the saved context of a thread that is not running has interrupts off.
\<close>

section \<open>The wait queues of the threads\<close>

definition tq_ok :: "sys \<Rightarrow> bool" where
  "tq_ok s \<longleftrightarrow> (\<forall>t. wqueue (thread_array s t) \<noteq> Garbage)"

lemma tq_ok_cong: "(\<And>t. wqueue (thread_array s' t) = wqueue (thread_array s t)) \<Longrightarrow> tq_ok s' = tq_ok s"
  by (simp add: tq_ok_def)

lemma tq_ok_upd [sys_simps]:
  "(\<And>th. wqueue (f th) = wqueue th) \<Longrightarrow> tq_ok (upd_thread t f s) = tq_ok s"
  "tq_ok (push_frame f' s) = tq_ok s" "tq_ok (pop_frame s) = tq_ok s"
  "tq_ok (leave b v s) = tq_ok s" "tq_ok (s\<lparr>interrupts := b\<rparr>) = tq_ok s"
  "tq_ok (set_state t st s) = tq_ok s" "tq_ok (s\<lparr>thread_queue := q\<rparr>) = tq_ok s"
  "tq_ok (s\<lparr>result_ptr := p\<rparr>) = tq_ok s" "tq_ok (s\<lparr>cvs := hw\<rparr>) = tq_ok s"
  "tq_ok (s\<lparr>wait_queues := hw\<rparr>) = tq_ok s" "tq_ok (s\<lparr>locks := hl\<rparr>) = tq_ok s"
  "tq_ok (s\<lparr>stacks := hs\<rparr>) = tq_ok s" "tq_ok (s\<lparr>running_thread_id := r\<rparr>) = tq_ok s"
  "tq_ok (s\<lparr>thread_exit_cleanup_needs_to_run := b\<rparr>) = tq_ok s"
  by (rule tq_ok_cong; simp add: sys_simps push_frame_def pop_frame_def set_state_def)+

lemma put_wq_tq: "put_wq s x (Wq ts) = Inr s' \<Longrightarrow> tq_ok s \<Longrightarrow> tq_ok s'"
  by (auto simp: put_wq_def tq_ok_def sys_simps result_simps split: wq_ref.splits if_splits)

lemma cleanup_loop_tq: "cleanup_loop n i s = Inr s' \<Longrightarrow> tq_ok s \<Longrightarrow> tq_ok s'"
  by (induction n i s rule: cleanup_loop.induct)
    (auto simp: Let_def result_simps sys_simps split: if_splits)

lemma cleanup_tq: "thread_exit_cleanup s = Inr s' \<Longrightarrow> tq_ok s \<Longrightarrow> tq_ok s'"
  by (auto simp: thread_exit_cleanup_def result_simps sys_simps dest: cleanup_loop_tq split: if_splits)

lemma wake_loop_tq: "wake_loop all ts s n = Inr (us, s', m) \<Longrightarrow> tq_ok s \<Longrightarrow> tq_ok s'"
  by (induction all ts s n rule: wake_loop.induct)
    (auto simp: Let_def result_simps sys_simps split: if_splits)

lemma thread_wakeup_tq: "thread_wakeup x all s = Inr s' \<Longrightarrow> tq_ok s \<Longrightarrow> tq_ok s'"
  by (auto simp: thread_wakeup_def interrupts_set_def result_simps sys_simps split: if_splits
      dest!: wake_loop_tq put_wq_tq)

lemma switch_to_tq: "switch_to prev r n s = Inr s' \<Longrightarrow> tq_ok s \<Longrightarrow> tq_ok s'"
  by (auto simp: switch_to_def Let_def result_simps sys_simps split: if_splits)

lemma yield_tq: "thread_yield want s = Inr s' \<Longrightarrow> tq_ok s \<Longrightarrow> tq_ok s'"
  by (auto simp: thread_yield_def interrupts_set_def result_simps sys_simps Let_def
      split: if_splits option.splits dest!: switch_to_tq)

lemma thread_sleep_tq: "thread_sleep x s = Inr s' \<Longrightarrow> tq_ok s \<Longrightarrow> tq_ok s'"
  by (auto simp: thread_sleep_def interrupts_set_def result_simps sys_simps split: if_splits
      dest!: put_wq_tq yield_tq)

lemma thread_create_tq: "thread_create fn parg s = Inr s' \<Longrightarrow> tq_ok s \<Longrightarrow> tq_ok s'"
  by (auto simp: thread_create_def interrupts_set_def result_simps sys_simps Let_def split_beta
      split: if_splits option.splits dest!: cleanup_tq)

lemma thread_wait_tq: "thread_wait tid s = Inr s' \<Longrightarrow> tq_ok s \<Longrightarrow> tq_ok s'"
  by (auto simp: thread_wait_def interrupts_set_def sys_simps split: if_splits dest!: thread_sleep_tq)

lemma thread_kill_tq: "thread_kill tid s = Inr s' \<Longrightarrow> tq_ok s \<Longrightarrow> tq_ok s'"
  by (auto simp: thread_kill_def interrupts_set_def result_simps sys_simps Let_def split: if_splits
      dest!: cleanup_tq)

lemma thread_exit_tq: "thread_exit s = Inr s' \<Longrightarrow> tq_ok s \<Longrightarrow> tq_ok s'"
  by (auto simp: thread_exit_def interrupts_set_def result_simps sys_simps Let_def split: if_splits
      dest!: cleanup_tq thread_wakeup_tq)

lemma wait_queue_tq:
  "wait_queue_create s = Inr s' \<Longrightarrow> tq_ok s \<Longrightarrow> tq_ok s'"
  "wait_queue_destroy p s = Inr s' \<Longrightarrow> tq_ok s \<Longrightarrow> tq_ok s'"
  by (auto simp: wait_queue_create_def wait_queue_destroy_def interrupts_set_def result_simps
      sys_simps split: prod.splits dest!: put_wq_tq)

lemma lock_tq:
  "lock_create s = Inr s' \<Longrightarrow> tq_ok s \<Longrightarrow> tq_ok s'" "lock_destroy p s = Inr s' \<Longrightarrow> tq_ok s \<Longrightarrow> tq_ok s'"
  "lock_release p s = Inr s' \<Longrightarrow> tq_ok s \<Longrightarrow> tq_ok s'"
  "acquire_loop prev p s = Inr s' \<Longrightarrow> tq_ok s \<Longrightarrow> tq_ok s'"
  by (auto simp: lock_create_def lock_destroy_def lock_release_def acquire_loop_def interrupts_set_def
      result_simps sys_simps split: prod.splits if_splits dest!: thread_wakeup_tq thread_sleep_tq)

lemma lock_acquire_tq: "lock_acquire p s = Inr s' \<Longrightarrow> tq_ok s \<Longrightarrow> tq_ok s'"
  by (auto simp: lock_acquire_def interrupts_set_def result_simps sys_simps dest!: lock_tq)

lemma cv_tq:
  "cv_create s = Inr s' \<Longrightarrow> tq_ok s \<Longrightarrow> tq_ok s'" "cv_destroy p s = Inr s' \<Longrightarrow> tq_ok s \<Longrightarrow> tq_ok s'"
  "cv_signal p l s = Inr s' \<Longrightarrow> tq_ok s \<Longrightarrow> tq_ok s'"
  "cv_broadcast p l s = Inr s' \<Longrightarrow> tq_ok s \<Longrightarrow> tq_ok s'"
  "cv_wait p l s = Inr s' \<Longrightarrow> tq_ok s \<Longrightarrow> tq_ok s'"
  by (auto simp: cv_create_def cv_destroy_def cv_signal_def cv_broadcast_def cv_wait_def
      interrupts_set_def result_simps sys_simps split: prod.splits dest!: thread_wakeup_tq lock_tq)

lemmas op_tq = yield_tq thread_sleep_tq thread_create_tq thread_wait_tq thread_kill_tq thread_exit_tq
  wait_queue_tq lock_tq lock_acquire_tq cv_tq thread_wakeup_tq

lemma api_call_tq: "api_call a s = Inr s' \<Longrightarrow> tq_ok s \<Longrightarrow> tq_ok s'"
  by (cases a) (auto dest: op_tq simp: interrupts_set_def sys_simps)

definition tq_kept :: "sys \<Rightarrow> sys \<Rightarrow> bool" where
  "tq_kept s s' \<longleftrightarrow> (tq_ok s \<longrightarrow> tq_ok s')"

interpretation tqk: step_relation tq_kept
  by unfold_locales (auto simp: tq_kept_def sys_simps dest: api_call_tq lock_tq yield_tq)

section \<open>Saved signal masks\<close>

definition masks_ok :: "sys \<Rightarrow> bool" where
  "masks_ok s \<longleftrightarrow> (\<forall>t. t \<noteq> running_thread_id s \<longrightarrow> \<not> context_mask (thread_array s t))"

lemma masks_ok_cong:
  "running_thread_id s' = running_thread_id s \<Longrightarrow>
   (\<And>t. context_mask (thread_array s' t) = context_mask (thread_array s t)) \<Longrightarrow> masks_ok s' = masks_ok s"
  by (simp add: masks_ok_def)

lemma masks_ok_upd [sys_simps]:
  "(\<And>th. context_mask (f th) = context_mask th) \<Longrightarrow> masks_ok (upd_thread t f s) = masks_ok s"
  "masks_ok (push_frame f' s) = masks_ok s" "masks_ok (pop_frame s) = masks_ok s"
  "masks_ok (leave b v s) = masks_ok s" "masks_ok (s\<lparr>interrupts := b\<rparr>) = masks_ok s"
  "masks_ok (set_state t st s) = masks_ok s" "masks_ok (s\<lparr>thread_queue := q\<rparr>) = masks_ok s"
  "masks_ok (s\<lparr>result_ptr := p\<rparr>) = masks_ok s" "masks_ok (s\<lparr>cvs := hw\<rparr>) = masks_ok s"
  "masks_ok (s\<lparr>wait_queues := hw\<rparr>) = masks_ok s" "masks_ok (s\<lparr>locks := hl\<rparr>) = masks_ok s"
  "masks_ok (s\<lparr>stacks := hs\<rparr>) = masks_ok s"
  "masks_ok (s\<lparr>thread_exit_cleanup_needs_to_run := b\<rparr>) = masks_ok s"
  by (rule masks_ok_cong; simp add: sys_simps push_frame_def pop_frame_def set_state_def)+

text \<open>A call that does not switch threads, and a call that may.\<close>

definition quiet :: "sys \<Rightarrow> sys \<Rightarrow> bool" where
  "quiet s s' \<longleftrightarrow> running_thread_id s' = running_thread_id s \<and> (masks_ok s \<longrightarrow> masks_ok s')"

definition mask_step :: "sys \<Rightarrow> sys \<Rightarrow> bool" where
  "mask_step s s' \<longleftrightarrow>
     (masks_ok s \<longrightarrow> masks_ok s' \<and> (running_thread_id s' = running_thread_id s \<or> \<not> interrupts s'))"

lemma quiet_step: "quiet s s' \<Longrightarrow> mask_step s s'"
  by (simp add: quiet_def mask_step_def)

lemma quiet_upd [sys_simps]:
  "quiet s (push_frame f s') = quiet s s'" "quiet s (leave b v s') = quiet s s'"
  "quiet s (s'\<lparr>interrupts := b\<rparr>) = quiet s s'" "quiet (s\<lparr>interrupts := b\<rparr>) s' = quiet s s'"
  "quiet s (set_state t st s') = quiet s s'" "quiet (set_state t st s) s' = quiet s s'"
  "quiet s (s'\<lparr>thread_queue := q\<rparr>) = quiet s s'" "quiet (s\<lparr>thread_queue := q\<rparr>) s' = quiet s s'"
  "quiet s (s'\<lparr>result_ptr := p\<rparr>) = quiet s s'" "quiet s (s'\<lparr>cvs := hw\<rparr>) = quiet s s'"
  "quiet s (s'\<lparr>wait_queues := hw\<rparr>) = quiet s s'" "quiet s (s'\<lparr>locks := hl\<rparr>) = quiet s s'"
  "quiet s (s'\<lparr>stacks := hs\<rparr>) = quiet s s'" "quiet (s\<lparr>locks := hl\<rparr>) s' = quiet s s'"
  "quiet s (s'\<lparr>thread_exit_cleanup_needs_to_run := b\<rparr>) = quiet s s'"
  "quiet (s\<lparr>stacks := hs\<rparr>) s' = quiet s s'"
  "quiet (s\<lparr>thread_exit_cleanup_needs_to_run := b\<rparr>) s' = quiet s s'"
  by (simp_all add: quiet_def sys_simps)

lemma quiet_refl [simp]: "quiet s s"
  by (simp add: quiet_def)

lemma quiet_trans: "quiet s s' \<Longrightarrow> quiet s' s'' \<Longrightarrow> quiet s s''"
  by (simp add: quiet_def)

lemma mask_step_upd [sys_simps]:
  "mask_step (s\<lparr>interrupts := b\<rparr>) s' = mask_step s s'" "mask_step (push_frame f s) s' = mask_step s s'"
  "mask_step (pop_frame s) s' = mask_step s s'" "mask_step (set_state t st s) s' = mask_step s s'"
  "mask_step (s\<lparr>thread_queue := q\<rparr>) s' = mask_step s s'"
  by (simp_all add: mask_step_def sys_simps)

lemma quiet_mask_step: "quiet s s' \<Longrightarrow> mask_step s' s'' \<Longrightarrow> mask_step s s''"
  by (auto simp: quiet_def mask_step_def)

lemma put_wq_quiet: "put_wq s x (Wq ts) = Inr s' \<Longrightarrow> quiet s s'"
  by (auto simp: put_wq_def sys_simps result_simps split: wq_ref.splits if_splits)
    (auto simp: quiet_def sys_simps)

lemma cleanup_loop_quiet: "cleanup_loop n i s = Inr s' \<Longrightarrow> quiet s s'"
  by (induction n i s rule: cleanup_loop.induct)
    (auto simp: Let_def result_simps sys_simps split: if_splits)

lemma cleanup_quiet: "thread_exit_cleanup s = Inr s' \<Longrightarrow> quiet s s'"
  by (auto simp: thread_exit_cleanup_def result_simps sys_simps dest: cleanup_loop_quiet split: if_splits)

lemma wake_loop_quiet: "wake_loop all ts s n = Inr (us, s', m) \<Longrightarrow> quiet s s'"
  by (induction all ts s n rule: wake_loop.induct)
    (auto simp: Let_def result_simps sys_simps split: if_splits)

lemma thread_wakeup_quiet: "thread_wakeup x all s = Inr s' \<Longrightarrow> quiet s s'"
  by (auto simp: thread_wakeup_def interrupts_set_def result_simps sys_simps split: if_splits
      dest!: wake_loop_quiet put_wq_quiet intro: quiet_trans)

lemma switch_to_mask_step:
  assumes "switch_to prev (running_thread_id s) n s = Inr s'"
  shows "mask_step s s'"
  using assms
  by (auto simp: switch_to_def Let_def result_simps sys_simps mask_step_def masks_ok_def
      interrupts_enabled_def set_state_def split: if_splits)

lemma yield_mask_step: "thread_yield want s = Inr s' \<Longrightarrow> mask_step s s'"
proof -
  assume y: "thread_yield want s = Inr s'"
  define s0 where "s0 = s\<lparr>interrupts := False\<rparr>"
  have sw: "mask_step s s'"
    if "switch_to (interrupts s) (running_thread_id s) n (s0\<lparr>thread_queue := q\<rparr>) = Inr s'" for n q
  proof -
    have "mask_step (s0\<lparr>thread_queue := q\<rparr>) s'"
      using that by (intro switch_to_mask_step) (simp add: s0_def)
    then show ?thesis by (simp add: s0_def sys_simps)
  qed
  have stay: "mask_step s (leave (interrupts s) v (s0\<lparr>thread_queue := q\<rparr>))"
    "mask_step s (leave (interrupts s) v s0)" for v q
    by (rule quiet_step, simp add: s0_def sys_simps)+
  show ?thesis
  proof (cases "want = THREAD_ANY")
    case True
    then obtain q q1 popped where "pop_q False q = Inr (q1, popped)"
      and "(case popped of None \<Rightarrow> Inl Assertion
            | Some t \<Rightarrow> if t = running_thread_id s
                then Inr (leave (interrupts s) THREAD_NONE (s0\<lparr>thread_queue := q1\<rparr>))
                else switch_to (interrupts s) (running_thread_id s) t (s0\<lparr>thread_queue := q1\<rparr>)) = Inr s'"
      using y by (auto simp: thread_yield_def interrupts_set_def Let_def thread_id_def s0_def
          bindE_eq_Inr split del: if_split cong: option.case_cong if_cong)
    then show ?thesis using sw stay by (auto split: option.splits if_splits)
  next
    case False
    then show ?thesis
      using y sw stay by (auto simp: thread_yield_def interrupts_set_def result_simps Let_def
          thread_id_def s0_def split: if_splits)
  qed
qed

lemma thread_sleep_mask_step:
  assumes "thread_sleep x s = Inr s'"
  shows "mask_step s s'"
proof -
  define s0 where "s0 = s\<lparr>interrupts := False\<rparr>"
  have "(\<exists>v. s' = leave (interrupts s) v s0) \<or>
    (\<exists>us s1. put_wq s0 x (Wq us) = Inr s1 \<and>
       thread_yield THREAD_ANY (push_frame (Sleep_return (interrupts s))
         (set_state (thread_id s1) SLEEPING s1)) = Inr s')"
    using assms by (auto simp: thread_sleep_def interrupts_set_def result_simps s0_def split: if_splits)
  then show ?thesis
  proof (elim disjE exE conjE)
    fix us s1 assume p: "put_wq s0 x (Wq us) = Inr s1"
      and y: "thread_yield THREAD_ANY (push_frame (Sleep_return (interrupts s))
         (set_state (thread_id s1) SLEEPING s1)) = Inr s'"
    have "mask_step s1 s'" using yield_mask_step [OF y] by (simp add: sys_simps)
    then show ?thesis
      using quiet_mask_step [OF put_wq_quiet [OF p]] by (simp add: s0_def sys_simps)
  qed (auto simp: s0_def sys_simps intro!: quiet_step)
qed

lemma thread_wait_mask_step: "thread_wait tid s = Inr s' \<Longrightarrow> mask_step s s'"
  by (auto simp: thread_wait_def interrupts_set_def sys_simps split: if_splits
      dest!: thread_sleep_mask_step intro: quiet_step)

lemma acquire_loop_mask_step: "acquire_loop prev p s = Inr s' \<Longrightarrow> mask_step s s'"
  by (auto simp: acquire_loop_def result_simps sys_simps split: if_splits
      dest!: thread_sleep_mask_step intro: quiet_step)

lemma lock_acquire_mask_step: "lock_acquire p s = Inr s' \<Longrightarrow> mask_step s s'"
  by (auto simp: lock_acquire_def interrupts_set_def result_simps sys_simps dest!: acquire_loop_mask_step)

lemma quiet_upd_thread:
  "(\<And>th. context_mask (f th) = context_mask th) \<Longrightarrow> quiet s (upd_thread t f s') = quiet s s'"
  by (simp add: quiet_def sys_simps)

lemma create_mask_quiet:
  "\<not> interrupts s' \<Longrightarrow> quiet s s' \<Longrightarrow>
   quiet s (upd_thread i (\<lambda>th. th\<lparr>state := READY, context_mask := interrupts s'\<rparr>) s')"
  by (auto simp: quiet_def sys_simps masks_ok_def)

lemma thread_create_quiet: "thread_create fn parg s = Inr s' \<Longrightarrow> quiet s s'"
proof -
  assume k: "thread_create fn parg s = Inr s'"
  then obtain s1 where c: "thread_exit_cleanup (s\<lparr>interrupts := False\<rparr>) = Inr s1"
    by (auto simp: thread_create_def interrupts_set_def result_simps)
  have "\<not> interrupts s1" "quiet s s1"
    using thread_exit_cleanup_effect(5) [OF c] cleanup_quiet [OF c] by (simp_all add: sys_simps)
  note q = this(2) create_mask_quiet [OF this]
  show ?thesis
    using k c q(1) q(2)
    by (auto simp: thread_create_def interrupts_set_def result_simps sys_simps Let_def split_beta
        quiet_upd_thread split: if_splits option.splits)
qed

lemma quiet_calls:
  "thread_kill tid s = Inr s' \<Longrightarrow> quiet s s'" "thread_exit s = Inr s' \<Longrightarrow> quiet s s'"
  "wait_queue_create s = Inr s' \<Longrightarrow> quiet s s'" "wait_queue_destroy p s = Inr s' \<Longrightarrow> quiet s s'"
  "lock_create s = Inr s' \<Longrightarrow> quiet s s'" "lock_destroy p s = Inr s' \<Longrightarrow> quiet s s'"
  "lock_release p s = Inr s' \<Longrightarrow> quiet s s'" "cv_create s = Inr s' \<Longrightarrow> quiet s s'"
  "cv_destroy p s = Inr s' \<Longrightarrow> quiet s s'" "cv_signal p l s = Inr s' \<Longrightarrow> quiet s s'"
  "cv_broadcast p l s = Inr s' \<Longrightarrow> quiet s s'"
  by (auto simp: thread_kill_def thread_exit_def wait_queue_create_def wait_queue_destroy_def
      lock_create_def lock_destroy_def lock_release_def cv_create_def cv_destroy_def cv_signal_def
      cv_broadcast_def interrupts_set_def result_simps sys_simps Let_def split: prod.splits if_splits
      dest!: cleanup_quiet thread_wakeup_quiet put_wq_quiet intro: quiet_trans)

lemma cv_wait_quiet: "cv_wait p l s = Inr s' \<Longrightarrow> quiet s s'"
  by (auto simp: cv_wait_def result_simps sys_simps dest!: quiet_calls)

lemma api_call_mask_step: "api_call a s = Inr s' \<Longrightarrow> mask_step s s'"
  by (cases a)
    (auto dest: yield_mask_step thread_sleep_mask_step thread_wait_mask_step lock_acquire_mask_step
      intro: quiet_step quiet_calls cv_wait_quiet thread_create_quiet thread_wakeup_quiet
      simp: interrupts_set_def sys_simps)

interpretation msk: step_relation mask_step
  by unfold_locales
    (auto simp: sys_simps dest: api_call_mask_step acquire_loop_mask_step yield_mask_step
      intro: quiet_step)

section \<open>Reachable states\<close>

lemma boot_masks: "masks_ok (boot ps pw pl pc b)" "tq_ok (boot ps pw pl pc b)"
  by (simp_all add: masks_ok_def tq_ok_def boot_def thread_init_def Let_def sys_simps
      init_loop_effect zero_sys_def zero_thread_def set_state_def)

lemma reachable_masks:
  assumes "good_malloc ps pw pl pc" and "reachable (boot ps pw pl pc b) s"
  shows "masks_ok s" and "tq_ok s"
proof -
  have "masks_ok s \<and> tq_ok s"
    using assms(2)
  proof (induction rule: reachable.induct)
    case (step s s')
    then show ?case
      using msk.every_step tqk.every_step reachable_boot_inv [OF assms(1) step(1)]
      by (simp add: mask_step_def tq_kept_def)
  qed (simp add: boot_masks)
  then show "masks_ok s" and "tq_ok s" by simp_all
qed

text \<open>Sleeping in the queue of a valid thread never fails.\<close>

lemma thread_sleep_on_thread:
  assumes a: "active s" and q: "tq_ok s" and t: "valid_tid t"
  shows "\<exists>s'. thread_sleep (WQ_thread t) s = Inr s'"
proof (cases "thread_queue s")
  case Nil
  then show ?thesis by (simp add: thread_sleep_def set_simps)
next
  case (Cons n ns)
  define r where "r = running_thread_id s"
  obtain ts where w: "wqueue (thread_array s t) = Wq ts"
    using q by (cases "wqueue (thread_array s t)") (auto simp: tq_ok_def)
  define s1 where "s1 = push_frame (Sleep_return (interrupts s)) (set_state r SLEEPING
    (upd_thread t (\<lambda>th. th\<lparr>wqueue := Wq (ts @ [r])\<rparr>) (s\<lparr>interrupts := False\<rparr>)))"
  have "n \<noteq> r" "0 \<le> n"
    using activeD(5) [OF a] core_queued [OF activeD(1) [OF a], of n] Cons by (auto simp: r_def valid_tid_def)
  then have "thread_yield THREAD_ANY s1 =
      switch_to False r n (s1\<lparr>interrupts := False, thread_queue := ns\<rparr>)"
    using Cons yield_any_leave [of s1 n ns] by (simp add: s1_def sys_simps r_def)
  moreover obtain s' where "switch_to False r n (s1\<lparr>interrupts := False, thread_queue := ns\<rparr>) = Inr s'"
    using switch_to_succeeds [OF \<open>0 \<le> n\<close>] by fastforce
  ultimately have "thread_yield THREAD_ANY s1 = Inr s'" by simp
  moreover have "thread_sleep (WQ_thread t) s = thread_yield THREAD_ANY s1"
    using Cons w t activeD(4) [OF a]
    by (simp add: thread_sleep_def interrupts_set_def thread_id_def get_wq_def put_wq_def wq_threads_def
        sys_simps s1_def r_def)
  ultimately show ?thesis by auto
qed

lemma wake_loop_total:
  "\<forall>u\<in>set ts. valid_tid u \<Longrightarrow> \<not> interrupts s \<Longrightarrow> \<exists>us s' m. wake_loop all ts s n = Inr (us, s', m)"
proof (induction ts arbitrary: s n)
  case (Cons t ts)
  have "\<exists>us s' m. wake_loop all ts s2 (n + 1) = Inr (us, s', m)" if "\<not> interrupts s2" for s2
    using Cons.IH [of s2 "n + 1"] Cons.prems(1) that by simp
  then show ?case using Cons.prems by (simp add: Let_def sys_simps)
qed simp

text \<open>Nor does waking the threads that wait for a thread.\<close>

lemma wakeup_thread_total:
  assumes q: "tq_ok s" and t: "valid_tid t" and v: "\<And>u. asleep (sleepers s) u \<Longrightarrow> valid_tid u"
  shows "\<exists>s'. thread_wakeup (WQ_thread t) all s = Inr s'"
proof -
  obtain ts where w: "wqueue (thread_array s t) = Wq ts"
    using q by (cases "wqueue (thread_array s t)") (auto simp: tq_ok_def)
  have "sleepers s (WQ_thread t) = ts" using w t by (simp add: sleepers_def get_wq_def)
  then have vs: "\<forall>u\<in>set ts. valid_tid u" using v by (auto simp: asleep_def)
  obtain us s1 m where "wake_loop all ts (s\<lparr>interrupts := False\<rparr>) 0 = Inr (us, s1, m)"
    using wake_loop_total [OF vs, of "s\<lparr>interrupts := False\<rparr>"] by fastforce
  then show ?thesis
    using w t by (simp add: thread_wakeup_def interrupts_set_def get_wq_def wq_threads_def put_wq_def)
qed

end
