(* ===== verification/Thread_Properties.thy ===== *)
theory Thread_Properties
  imports Sched_Masks
begin

text \<open>
  The properties of the preemptive thread library (threads_3), each with a witness that
  applies it at a concrete run from \<open>thread_init\<close>.
\<close>

section \<open>A concrete run\<close>

text \<open>
  Thread 0 creates thread 1; thread 1 runs, waits for thread 0 and so falls asleep; thread 0
  kills it.
\<close>

definition demo_boot :: sys where
  "demo_boot = boot (counting_policy ()) (counting_policy (Wq []))
     (counting_policy \<lparr>lock_wqueue = Garbage, acquired = True, acquiring_thread = 9\<rparr>)
     (counting_policy Garbage) True"

lemma demo_malloc:
  "good_malloc (counting_policy ()) (counting_policy (Wq []))
     (counting_policy \<lparr>lock_wqueue = Garbage, acquired = True, acquiring_thread = 9\<rparr>)
     (counting_policy Garbage)"
  by (simp add: good_malloc_def) (auto simp: counting_policy_def junk_ok_def split: option.splits)

lemma demo_active: "active demo_boot"
  unfolding demo_boot_def by (rule boot_active [OF demo_malloc])

lemma demo_inv: "reachable demo_boot s \<Longrightarrow> sched_inv s"
  unfolding demo_boot_def by (rule reachable_boot_inv [OF demo_malloc])

lemma spawn:
  assumes a: "active s" and i: "stack_inv s" and s: "running_thread_id s = 0" "thread_queue s = []"
    "state_of s = (\<lambda>_. NOT_INITIALIZED)(0 := RUNNING)" "\<not> thread_exit_cleanup_needs_to_run s"
    and m: "fst (malloc (stacks s)) \<noteq> NULL"
  obtains s' where "thread_create 7 9 s = Inr s'" and "running_thread_id s' = 0"
    and "thread_queue s' = [1]" and "state_of s' = (\<lambda>_. NOT_INITIALIZED)(0 := RUNNING, 1 := READY)"
    and "frames_of s' = (frames_of s)(1 := [At_stub 7 9])" and "interrupts s' = interrupts s"
    and "sleepers s' = sleepers s" and "active s'" and "\<not> thread_exit_cleanup_needs_to_run s'"
    and "owners s' = owners s"
proof -
  obtain s' where k: "thread_create 7 9 s = Inr s'" using thread_create_stacks [OF a i] by blast
  have c: "thread_exit_cleanup (s\<lparr>interrupts := False\<rparr>) = Inr (s\<lparr>interrupts := False\<rparr>)"
    using s by (simp add: thread_exit_cleanup_def interrupts_enabled_def)
  have f: "find_slot (nat THREAD_MAX_THREADS) 0 (s\<lparr>interrupts := False\<rparr>) = Some 1"
    using s by (auto simp: find_slot_Some THREAD_MAX_THREADS_def sys_simps)
  from k show ?thesis
  proof (cases rule: thread_create_cases)
    case (full s1)
    then show ?thesis using c f by simp
  next
    case (no_memory s1 i s2)
    then have "s1 = s\<lparr>interrupts := False\<rparr>" using c by simp
    then show ?thesis using m no_memory(3) by simp
  next
    case (ok s1 i s2)
    have s1: "s1 = s\<lparr>interrupts := False\<rparr>" using ok(1) c by simp
    have i: "i = 1" using ok(2) f s1 by simp
    show ?thesis
      by (rule that [OF k])
        (use ok(4-12) s i thread_create_active [OF a k] thread_create_owners [OF k] in
          \<open>auto simp: s1 sys_simps fun_eq_iff\<close>)
  qed
qed

lemma demo_create:
  obtains s where "reachable demo_boot s" and "running_thread_id s = 0" and "thread_queue s = [1]"
    and "state_of s = (\<lambda>_. NOT_INITIALIZED)(0 := RUNNING, 1 := READY)"
    and "frames_of s = (\<lambda>_. [])(1 := [At_stub 7 9])" and "interrupts s"
    and "sleepers s = (\<lambda>_. [])" and "active s" and "\<not> thread_exit_cleanup_needs_to_run s"
proof -
  note b = boot_effect [of "counting_policy ()" "counting_policy (Wq [])"
      "counting_policy \<lparr>lock_wqueue = Garbage, acquired = True, acquiring_thread = 9\<rparr>"
      "counting_policy Garbage" True, folded demo_boot_def]
  have sl: "sleepers demo_boot = (\<lambda>_. [])"
    by (rule ext) (simp add: demo_boot_def boot_sleepers)
  have i: "stack_inv demo_boot" by (simp add: demo_boot_def boot_stacks)
  have m: "fst (malloc (stacks demo_boot)) \<noteq> NULL"
    using b by (simp add: malloc_def zero_heap_def counting_policy_def)
  show ?thesis
  proof (rule spawn [OF demo_active i _ _ _ _ m])
    fix s assume s: "thread_create 7 9 demo_boot = Inr s" "running_thread_id s = 0"
      "thread_queue s = [1]" "state_of s = (\<lambda>_. NOT_INITIALIZED)(0 := RUNNING, 1 := READY)"
      "frames_of s = (frames_of demo_boot)(1 := [At_stub 7 9])" "interrupts s = interrupts demo_boot"
      "sleepers s = sleepers demo_boot" "active s" "\<not> thread_exit_cleanup_needs_to_run s"
    have "reachable demo_boot s"
      using s b by (intro reachable.step [OF reachable.start] sys_step.call [of _ "Api_create 7 9"]) simp_all
    then show ?thesis using that [of s] s b sl by simp
  qed (use b in \<open>auto simp: fun_eq_iff\<close>)
qed

text \<open>The effect of a switch on frames and masks.\<close>

lemma switch_to_frames:
  assumes "switch_to prev r n s = Inr s'" and "n \<noteq> r" and "state_of s n \<noteq> KILLED"
  shows "frames_of s' = (frames_of s)(r := Yield_return prev n # frames_of s r)"
    and "interrupts s' = context_mask (thread_array s n)"
  using assms
  by (auto simp: switch_to_def Let_def result_simps sys_simps set_state_def frames_of_def state_of_def)

lemma demo_wait:
  obtains s where "reachable demo_boot s" and "running_thread_id s = 0" and "thread_queue s = []"
    and "state_of s = (\<lambda>_. NOT_INITIALIZED)(0 := RUNNING, 1 := SLEEPING)"
    and "frames_of s 0 = []" and "interrupts s"
    and "sleepers s = (\<lambda>_. [])(WQ_thread 0 := [1])" and "active s"
    and "\<not> thread_exit_cleanup_needs_to_run s"
proof -
  obtain s1 where s1: "reachable demo_boot s1" "running_thread_id s1 = 0" "thread_queue s1 = [1]"
      "state_of s1 = (\<lambda>_. NOT_INITIALIZED)(0 := RUNNING, 1 := READY)"
      "frames_of s1 = (\<lambda>_. [])(1 := [At_stub 7 9])" "interrupts s1"
      "sleepers s1 = (\<lambda>_. [])" "active s1" "\<not> thread_exit_cleanup_needs_to_run s1"
    by (rule demo_create)
  obtain s2 where y: "thread_yield THREAD_ANY s1 = Inr s2"
    and sw: "switch_to True 0 1 (s1\<lparr>interrupts := False, thread_queue := [0]\<rparr>) = Inr s2"
    using yield_any_switch [of s1 1 "[]"] s1 switch_to_succeeds [of 1 "s1\<lparr>interrupts := False, thread_queue := [0]\<rparr>" True 0]
    by (auto simp: valid_tid_def THREAD_MAX_THREADS_def)
  note e2 = switch_to_effect [OF sw] and f2 = switch_to_frames [OF sw]
  have r2: "reachable demo_boot s2"
    using y s1 by (intro reachable.step [OF s1(1)] sys_step.call [of _ "Api_yield THREAD_ANY"]) simp_all
  have a2: "active s2" using yield_active [OF s1(8) y] .
  define s3 where "s3 = (pop_frame s2)\<lparr>interrupts := True\<rparr>"
  have r3: "reachable demo_boot s3"
    using f2 s1 e2(1)
    by (intro reachable.step [OF r2] sys_step.continue [of _ "At_stub 7 9" "[]"])
      (simp_all add: sys_simps resume_def s3_def thread_stub_def interrupts_on_def interrupts_set_def)
  have s3: "running_thread_id s3 = 1" "thread_queue s3 = [0]" "active s3"
      "state_of s3 = (\<lambda>_. NOT_INITIALIZED)(0 := READY, 1 := RUNNING)" "sleepers s3 = (\<lambda>_. [])"
      "frames_of s3 = (\<lambda>_. [])(0 := [Yield_return True 1])" "interrupts s3"
      "\<not> thread_exit_cleanup_needs_to_run s3"
    using e2 f2 s1 a2 by (auto simp: s3_def sys_simps fun_eq_iff)
  define s4 where "s4 = push_frame (Wait_return True 0) (s3\<lparr>interrupts := False\<rparr>)"
  have w: "thread_wait 0 s3 = thread_sleep (WQ_thread 0) s4"
    using s3 by (simp add: thread_wait_def set_simps sys_simps s4_def THREAD_MAX_THREADS_def)
  have a4: "active s4" using s3 by (simp add: s4_def sys_simps)
  have "tq_ok s4"
    using reachable_masks(2) [OF demo_malloc r3 [unfolded demo_boot_def]] by (simp add: s4_def sys_simps)
  then obtain s5 where k: "thread_sleep (WQ_thread 0) s4 = Inr s5"
    using thread_sleep_on_thread [OF a4, of 0] by (auto simp: valid_tid_def THREAD_MAX_THREADS_def)
  have r5: "reachable demo_boot s5"
    using w k s3 by (intro reachable.step [OF r3] sys_step.call [of _ "Api_wait 0"]) simp_all
  have a5: "active s5" using thread_sleep_active [OF a4 k] .
  have s5: "running_thread_id s5 = 0" "thread_queue s5 = []"
      "state_of s5 = (\<lambda>_. NOT_INITIALIZED)(0 := RUNNING, 1 := SLEEPING)"
      "sleepers s5 = (\<lambda>_. [])(WQ_thread 0 := [1])" "frames_of s5 0 = [Yield_return True 1]"
      "\<not> thread_exit_cleanup_needs_to_run s5"
  proof -
    have "thread_queue s4 = [0]" "WQ_thread 0 \<noteq> WQ_NULL" using s3 by (simp_all add: s4_def sys_simps)
    then obtain x where p: "put_wq (s4\<lparr>interrupts := False\<rparr>) (WQ_thread 0)
        (Wq (sleepers s4 (WQ_thread 0) @ [running_thread_id s4])) = Inr x"
      and sw: "switch_to False (running_thread_id s4) 0
        ((push_frame (Sleep_return (interrupts s4)) (set_state (running_thread_id s4) SLEEPING x))
          \<lparr>interrupts := False, thread_queue := []\<rparr>) = Inr s5"
      using k a4 by (elim thread_sleep_cases) simp_all
    note pe = put_wq_effect [OF p] and e = switch_to_effect [OF sw] and f = switch_to_frames(1) [OF sw]
    have r4: "running_thread_id s4 = 1" "state_of s4 = state_of s3" "sleepers s4 = sleepers s3"
        "thread_exit_cleanup_needs_to_run s4 = thread_exit_cleanup_needs_to_run s3"
        "frames_of s4 0 = frames_of s3 0"
      using s3 by (simp_all add: s4_def sys_simps)
    show "running_thread_id s5 = 0" "thread_queue s5 = []" using e(1,2) by simp_all
    show "state_of s5 = (\<lambda>_. NOT_INITIALIZED)(0 := RUNNING, 1 := SLEEPING)"
      using e(3) pe(2) s3(4) r4 by (auto simp: sys_simps fun_eq_iff)
    show "sleepers s5 = (\<lambda>_. [])(WQ_thread 0 := [1])"
      using e(4) pe(1) s3(5) r4 by (auto simp: sys_simps)
    show "frames_of s5 0 = [Yield_return True 1]"
      using f pe(2,4,7) r4 s3(4,6) by (simp add: sys_simps)
    show "\<not> thread_exit_cleanup_needs_to_run s5" using e(6) pe(8) r4 s3(8) by (simp add: sys_simps)
  qed
  define s6 where "s6 = leave True 1 (pop_frame s5)"
  show ?thesis
  proof (rule that [of s6])
    show "reachable demo_boot s6"
      using s5 by (intro reachable.step [OF r5] sys_step.continue [of _ "Yield_return True 1" "[]"])
        (simp_all add: resume_def s6_def)
  qed (use s5 a5 in \<open>simp_all add: s6_def sys_simps\<close>)
qed

section \<open>Scheduling\<close>


lemma demo_reachable:
  "reachable demo_boot s \<Longrightarrow>
   reachable (boot (counting_policy ()) (counting_policy (Wq []))
     (counting_policy \<lparr>lock_wqueue = Garbage, acquired = True, acquiring_thread = 9\<rparr>)
     (counting_policy Garbage) True) s"
  by (simp add: demo_boot_def)


text \<open>
  Property C8. In every reachable state the allocated stacks are exactly those of the live
  threads, one each: no stack is leaked, and the clean-up, run with interrupts off, returns
  without freeing a block twice.
\<close>

theorem stacks_never_leak_or_double_free:
  assumes "good_malloc ps pw pl pc" and "reachable (boot ps pw pl pc b) s"
  shows "stack_inv s \<and> (\<exists>s'. thread_exit_cleanup (s\<lparr>interrupts := False\<rparr>) = Inr s' \<and> stack_inv s')"
  using reachable_stacks [OF assms] cleanup_total [of "s\<lparr>interrupts := False\<rparr>"] by (simp add: sys_simps)

theorem stacks_never_leak_or_double_free_witness:
  "\<exists>s a. reachable demo_boot s \<and> state_of s 1 = SLEEPING \<and> stack_inv s"
proof (rule demo_wait)
  fix s assume r: "reachable demo_boot s" "state_of s = (\<lambda>_. NOT_INITIALIZED)(0 := RUNNING, 1 := SLEEPING)"
  from stacks_never_leak_or_double_free [OF demo_malloc demo_reachable [OF r(1)]] r
  show ?thesis by (intro exI [of _ s]) simp
qed







definition slot_free :: "sys \<Rightarrow> int \<Rightarrow> bool" where
  "slot_free s t \<longleftrightarrow> valid_tid t \<and> (state_of s t = NOT_INITIALIZED \<or>
     (thread_exit_cleanup_needs_to_run s \<and> state_of s t = EXITED))"



section \<open>Sleeping and waking\<close>

text \<open>
  \<open>thread_wakeup\<close> moves the first thread (all = 0) or all threads (all = 1)
  of the wait queue to the end of the ready queue in the order in which they fell asleep,
  makes them READY unless they have been killed, returns their number, and touches no other
  wait queue; for another value of \<open>all\<close> it does nothing.
\<close>

theorem wakeup_is_fifo:
  assumes "thread_wakeup x all s = Inr s'"
  defines "ts \<equiv> sleepers s x"
  defines "n \<equiv> (if all = 0 then min 1 (length ts) else if all = 1 then length ts else 0)"
  shows "thread_queue s' = thread_queue s @ take n ts \<and> sleepers s' = (sleepers s)(x := drop n ts) \<and>
    result s' = int n \<and> interrupts s' = interrupts s \<and>
    (\<forall>t. state_of s' t = (if t \<in> set (take n ts) \<and> state_of s t = SLEEPING then READY else state_of s t))"
proof -
  have w: "woken all ts = take n ts" and l: "length (woken all ts) = n"
    by (cases ts; simp add: n_def woken_def)+
  note e = thread_wakeup_effect [OF assms(1), folded ts_def, unfolded l]
  show ?thesis using e(1-4,7) by (simp only: w wake_states_def) simp
qed

theorem wakeup_is_fifo_witness:
  "\<exists>s s'. reachable demo_boot s \<and> thread_wakeup (WQ_thread 0) 0 s = Inr s' \<and>
    thread_queue s' = [1] \<and> result s' = 1 \<and> state_of s' 1 = READY"
proof (rule demo_wait)
  fix s assume r: "reachable demo_boot s" "thread_queue s = []"
    "state_of s = (\<lambda>_. NOT_INITIALIZED)(0 := RUNNING, 1 := SLEEPING)"
    "sleepers s = (\<lambda>_. [])(WQ_thread 0 := [1])"
  have v: "valid_tid 0" "valid_tid 1" by (simp_all add: valid_tid_def THREAD_MAX_THREADS_def)
  have "tq_ok s" using reachable_masks(2) [OF demo_malloc demo_reachable [OF r(1)]] .
  moreover have "valid_tid u" if "asleep (sleepers s) u" for u
    using that v by (auto simp: asleep_def r(4) split: if_splits)
  ultimately obtain s' where k: "thread_wakeup (WQ_thread 0) 0 s = Inr s'"
    using wakeup_thread_total [OF _ v(1)] by blast
  from wakeup_is_fifo [OF k] r k show ?thesis
    by (intro exI [of _ s] exI [of _ s']) (simp add: r(4))
qed

text \<open>
  \<open>thread_wait\<close> and \<open>thread_sleep\<close> on a thread's own queue never fail on a
  reachable state. A thread that is alone is not put to sleep; otherwise it becomes the last
  sleeper of the queue, the head of the ready queue runs, and the ready queue shrinks by one.
\<close>

theorem thread_wait_never_fails:
  assumes "good_malloc ps pw pl pc" and "reachable (boot ps pw pl pc b) s"
    and "state_of s (running_thread_id s) = RUNNING"
  shows "\<exists>s'. thread_wait tid s = Inr s' \<and>
    (if \<not> valid_tid tid \<or> state_of s tid = NOT_INITIALIZED \<or> tid = running_thread_id s
     then result s' = THREAD_INVALID \<and> interrupts s' = interrupts s
     else case thread_queue s of
         [] \<Rightarrow> result s' = THREAD_NONE \<and> running_thread_id s' = running_thread_id s
       | n # q \<Rightarrow> running_thread_id s' = n \<and> thread_queue s' = q \<and>
           sleepers s' = (sleepers s)(WQ_thread tid := sleepers s (WQ_thread tid) @ [running_thread_id s]) \<and>
           state_of s' = (state_of s)(running_thread_id s := SLEEPING, n := RUNNING))"
proof (cases "\<not> valid_tid tid \<or> state_of s tid = NOT_INITIALIZED \<or> tid = running_thread_id s")
  case True
  then show ?thesis
    by (auto simp: thread_wait_def set_simps sys_simps valid_tid_def)
next
  case False
  define s0 where "s0 = push_frame (Wait_return (interrupts s) tid) (s\<lparr>interrupts := False\<rparr>)"
  have i: "sched_inv s" using assms(1,2) by (rule reachable_boot_inv)
  then have "active s" using assms(3) by (simp add: sched_inv_def active_def)
  then have a: "active s0" by (simp add: s0_def sys_simps)
  have "tq_ok s0" using reachable_masks(2) [OF assms(1,2)] by (simp add: s0_def sys_simps)
  then obtain s' where k: "thread_sleep (WQ_thread tid) s0 = Inr s'"
    using thread_sleep_on_thread [OF a] False by blast
  have w: "thread_wait tid s = Inr s'"
    using False k by (simp add: thread_wait_def set_simps sys_simps valid_tid_def s0_def)
  have s0: "thread_queue s0 = thread_queue s" "running_thread_id s0 = running_thread_id s"
    "sleepers s0 = sleepers s" "state_of s0 = state_of s" by (simp_all add: s0_def sys_simps)
  from k a show ?thesis
  proof (cases rule: thread_sleep_cases)
    case alone
    then show ?thesis using False w s0 by (simp add: sys_simps)
  next
    case (switch t q s1)
    note p = put_wq_effect [OF switch(3)] and e = switch_to_effect [OF switch(4)]
    have "thread_queue s = t # q" using switch(2) s0 by simp
    moreover have "state_of s' = (state_of s)(running_thread_id s := SLEEPING, t := RUNNING)"
      using e(3) p(2) s0 by (auto simp: sys_simps)
    ultimately show ?thesis using False w e(1,2,4) p(1) s0 by (simp add: sys_simps)
  qed simp
qed

theorem thread_wait_never_fails_witness:
  "\<exists>s s'. reachable demo_boot s \<and> thread_wait 1 s = Inr s' \<and> state_of s' 0 = SLEEPING"
proof (rule demo_create)
  fix s assume r: "reachable demo_boot s" "running_thread_id s = 0" "thread_queue s = [1]"
    "state_of s = (\<lambda>_. NOT_INITIALIZED)(0 := RUNNING, 1 := READY)"
  have run: "state_of s (running_thread_id s) = RUNNING" using r by simp
  from thread_wait_never_fails [OF demo_malloc demo_reachable [OF r(1)] run, of 1]
  obtain s' where "thread_wait 1 s = Inr s'" "state_of s' = (state_of s)(0 := SLEEPING, 1 := RUNNING)"
    using r by (auto simp: valid_tid_def THREAD_MAX_THREADS_def)
  then show ?thesis using r(1) by (intro exI [of _ s] exI [of _ s']) simp
qed

text \<open>
  Property C29. When a thread exits while others are ready, every thread that waits for it is
  put behind them in the ready queue and the thread is left EXITED with the clean-up pending;
  when no thread is ready and none waits for it, the whole program exits with status 0, even
  if other threads are asleep.
\<close>

theorem thread_exit_wakes_waiters:
  assumes a: "active s" and k: "thread_exit s = r" and i: "stack_inv s" and q: "tq_ok s"
  shows "if thread_queue s @ sleepers s (WQ_thread (running_thread_id s)) = [] then r = Inl (Exit_with 0)
    else \<exists>s'. r = Inr s' \<and>
      thread_queue s' = thread_queue s @ sleepers s (WQ_thread (running_thread_id s)) \<and>
      sleepers s' = (sleepers s)(WQ_thread (running_thread_id s) := []) \<and>
      state_of s' (running_thread_id s) = EXITED \<and> thread_exit_cleanup_needs_to_run s' \<and>
      frames_of s' (running_thread_id s) = Exit_yield # frames_of s (running_thread_id s)"
proof -
  define t where "t = running_thread_id s"
  have v: "valid_tid t" using activeD(4) [OF a] by (simp add: t_def)
  obtain s1 where c: "thread_exit_cleanup (s\<lparr>interrupts := False\<rparr>) = Inr s1"
    using cleanup_total [of "s\<lparr>interrupts := False\<rparr>"] i by (auto simp: sys_simps)
  note e1 = thread_exit_cleanup_effect [OF c]
  define s2 where "s2 = (set_state t EXITED s1)\<lparr>thread_exit_cleanup_needs_to_run := True\<rparr>"
  have a1: "active s1" using cleanup_active(1) [OF _ c] a by (simp add: sys_simps)
  have off: "\<not> interrupts s2" using e1(5) by (simp add: s2_def sys_simps)
  have "tq_ok s2" using cleanup_tq [OF c] q by (simp add: s2_def sys_simps)
  moreover have "sleepers s2 = sleepers s1" by (simp add: s2_def sys_simps)
  then have "valid_tid u" if "asleep (sleepers s2) u" for u
    using that core_asleep [OF activeD(1) [OF a1], of u] by simp
  ultimately obtain s3 where w: "thread_wakeup (WQ_thread t) 1 s2 = Inr s3"
    using wakeup_thread_total [OF _ v] by blast
  note e3 = thread_wakeup_effect [OF w]
  have off3: "\<not> interrupts s3" using e3(7) off by simp
  have q3: "thread_queue s3 = thread_queue s @ sleepers s (WQ_thread t)"
    using e3(1) e1(1,3) by (simp add: s2_def sys_simps woken_def)
  have "thread_exit s = (if thread_queue s3 = [] then Inl (Exit_with 0)
      else Inr (push_frame Exit_yield (s3\<lparr>interrupts := interrupts s\<rparr>)))"
    using c w off3 by (simp add: thread_exit_def set_simps Let_def s2_def t_def)
  moreover have "state_of s3 t = EXITED"
    using e3(3) by (simp add: wake_states_def s2_def sys_simps)
  moreover have "running_thread_id s3 = t" using e3(5) e1(2) by (simp add: s2_def sys_simps t_def)
  moreover have "frames_of s3 = frames_of s" using e3(8) e1(6) by (simp add: s2_def sys_simps)
  moreover have "sleepers s3 = (sleepers s)(WQ_thread t := [])"
    using e3(2) e1(3) by (simp add: s2_def sys_simps woken_def)
  moreover have "thread_exit_cleanup_needs_to_run s3" using e3(9) by (simp add: s2_def sys_simps)
  ultimately show ?thesis using k q3 by (simp add: t_def sys_simps)
qed

theorem thread_exit_wakes_waiters_witness:
  "\<exists>s s'. reachable demo_boot s \<and> thread_exit s = Inr s' \<and> thread_queue s' = [1] \<and>
     state_of s' 0 = EXITED"
proof (rule demo_wait)
  fix s assume r: "reachable demo_boot s" "running_thread_id s = 0" "thread_queue s = []"
    "sleepers s = (\<lambda>_. [])(WQ_thread 0 := [1])" "active s"
  have i: "stack_inv s" using reachable_stacks [OF demo_malloc demo_reachable [OF r(1)]] .
  have q: "tq_ok s" using reachable_masks(2) [OF demo_malloc demo_reachable [OF r(1)]] .
  from thread_exit_wakes_waiters [OF r(5) refl i q] r(2-4)
  obtain s' where "thread_exit s = Inr s'" "thread_queue s' = [1]" "state_of s' 0 = EXITED" by auto
  then show ?thesis using r(1) by (intro exI [of _ s] exI [of _ s']) simp
qed

end
