(* ===== verification/Lock_Properties.thy ===== *)
theory Lock_Properties
  imports Thread_Properties
begin

text \<open>
  Properties of the locks, the condition variables and the interrupt discipline of threads_3.
\<close>

text \<open>Boot states for the witnesses: what \<open>malloc\<close> finds in the block of a lock is \<open>w\<close>.\<close>

definition lock_boot :: "wait_queue \<Rightarrow> sys" where
  "lock_boot w = boot (counting_policy ()) (counting_policy (Wq []))
     (counting_policy \<lparr>lock_wqueue = w, acquired = True, acquiring_thread = 9\<rparr>)
     (counting_policy (Wq [])) True"

lemma lock_malloc:
  "junk_ok w \<Longrightarrow> good_malloc (counting_policy ()) (counting_policy (Wq []))
     (counting_policy \<lparr>lock_wqueue = w, acquired = True, acquiring_thread = 9\<rparr>) (counting_policy (Wq []))"
  by (simp add: good_malloc_def) (auto simp: counting_policy_def junk_ok_def split: option.splits)

lemma lock_boot_active: "junk_ok w \<Longrightarrow> active (lock_boot w)"
  unfolding lock_boot_def by (rule boot_active [OF lock_malloc])

text \<open>Thread 0 creates a lock and acquires it.\<close>

lemma lock_demo:
  assumes "junk_ok w"
  obtains s where "reachable (lock_boot w) s" and "result_ptr s = Addr 0"
    and "locks s = \<lparr>cells = [0 \<mapsto> \<lparr>lock_wqueue = w, acquired = False, acquiring_thread = THREAD_NONE\<rparr>],
           calls = 1, policy = counting_policy \<lparr>lock_wqueue = w, acquired = True, acquiring_thread = 9\<rparr>\<rparr>"
    and "running_thread_id s = 0" and "frames_of s = (\<lambda>_. [])" and "interrupts s" and "thread_queue s = []"
    and "active s" and "state_of s = (\<lambda>_. NOT_INITIALIZED)(0 := RUNNING)"
    and "\<not> thread_exit_cleanup_needs_to_run s" and "stacks s = zero_heap (counting_policy ())"
proof -
  note b = boot_effect [of "counting_policy ()" "counting_policy (Wq [])"
      "counting_policy \<lparr>lock_wqueue = w, acquired = True, acquiring_thread = 9\<rparr>"
      "counting_policy (Wq [])" True, folded lock_boot_def]
  define s where "s = (lock_boot w)\<lparr>locks := \<lparr>cells = [0 \<mapsto>
      \<lparr>lock_wqueue = w, acquired = False, acquiring_thread = THREAD_NONE\<rparr>], calls = 1,
      policy = counting_policy \<lparr>lock_wqueue = w, acquired = True, acquiring_thread = 9\<rparr>\<rparr>, result_ptr := Addr 0\<rparr>"
  have k: "lock_create (lock_boot w) = Inr s"
    using b by (simp add: lock_create_def malloc_def zero_heap_def counting_policy_def load_def store_def s_def)
  show ?thesis
    by (rule that [of s])
      (use b k lock_create_active [OF lock_boot_active [OF assms] k] in
        \<open>auto simp: s_def sys_simps intro!: reachable.step [OF reachable.start] sys_step.call [of _ Api_lock_create]\<close>)
qed

lemma lock_demo_acquired:
  assumes "junk_ok w"
  obtains s where "reachable (lock_boot w) s" and "running_thread_id s = 0" and "frames_of s = (\<lambda>_. [])"
    and "interrupts s" and "thread_queue s = []" and "active s"
    and "state_of s = (\<lambda>_. NOT_INITIALIZED)(0 := RUNNING)"
    and "\<not> thread_exit_cleanup_needs_to_run s" and "stacks s = zero_heap (counting_policy ())"
    and "cells (locks s) 0 = Some \<lparr>lock_wqueue = w, acquired = True, acquiring_thread = 0\<rparr>"
proof (rule lock_demo [OF assms])
  fix s assume s: "reachable (lock_boot w) s" "running_thread_id s = 0" "frames_of s = (\<lambda>_. [])"
      "interrupts s" "thread_queue s = []" "active s"
      "state_of s = (\<lambda>_. NOT_INITIALIZED)(0 := RUNNING)"
      "\<not> thread_exit_cleanup_needs_to_run s" "stacks s = zero_heap (counting_policy ())"
      "locks s = \<lparr>cells = [0 \<mapsto> \<lparr>lock_wqueue = w, acquired = False, acquiring_thread = THREAD_NONE\<rparr>],
         calls = 1, policy = counting_policy \<lparr>lock_wqueue = w, acquired = True, acquiring_thread = 9\<rparr>\<rparr>"
  define s' where "s' = s\<lparr>interrupts := True, locks := (locks s)\<lparr>cells := (cells (locks s))
      (0 \<mapsto> \<lparr>lock_wqueue = w, acquired = True, acquiring_thread = 0\<rparr>)\<rparr>\<rparr>"
  have k: "lock_acquire (Addr 0) s = Inr s'"
    using s by (simp add: lock_acquire_def acquire_loop_def interrupts_set_def load_def store_def
        thread_id_def s'_def)
  show ?thesis
    by (rule that [of s'])
      (use s k lock_acquire_active [OF s(6) k] in
        \<open>auto simp: s'_def sys_simps intro!: reachable.step [OF s(1)] sys_step.call [of _ "Api_acquire (Addr 0)"]\<close>)
qed

text \<open>Thread 1 runs while thread 0 holds the lock.\<close>

lemma lock_demo_contended:
  assumes "junk_ok w"
  obtains s where "reachable (lock_boot w) s" and "running_thread_id s = 1"
    and "frames_of s 1 = [At_stub 7 9]" and "owners s 0 = Some (True, 0)" and "thread_queue s = [0]"
    and "active s"
proof (rule lock_demo_acquired [OF assms])
  fix s assume s: "reachable (lock_boot w) s" "running_thread_id s = 0" "frames_of s = (\<lambda>_. [])"
    "thread_queue s = []" "active s" "state_of s = (\<lambda>_. NOT_INITIALIZED)(0 := RUNNING)"
    "\<not> thread_exit_cleanup_needs_to_run s" "stacks s = zero_heap (counting_policy ())"
    "cells (locks s) 0 = Some \<lparr>lock_wqueue = w, acquired = True, acquiring_thread = 0\<rparr>"
  have i: "stack_inv s" using reachable_stacks [OF lock_malloc [OF assms] s(1) [unfolded lock_boot_def]] .
  have m: "fst (malloc (stacks s)) \<noteq> NULL"
    using s(8) by (simp add: malloc_def zero_heap_def counting_policy_def)
  show ?thesis
  proof (rule spawn [OF s(5) i s(2,4,6,7) m])
    fix s1 assume s1: "thread_create 7 9 s = Inr s1" "running_thread_id s1 = 0" "thread_queue s1 = [1]"
      "state_of s1 = (\<lambda>_. NOT_INITIALIZED)(0 := RUNNING, 1 := READY)"
      "frames_of s1 = (frames_of s)(1 := [At_stub 7 9])" "active s1" "owners s1 = owners s"
    have r1: "reachable (lock_boot w) s1"
      using s s1 by (intro reachable.step [OF s(1)] sys_step.call [of _ "Api_create 7 9"]) simp_all
    obtain s2 where y: "thread_yield THREAD_ANY s1 = Inr s2"
      and sw: "switch_to (interrupts s1) 0 1 (s1\<lparr>interrupts := False, thread_queue := [0]\<rparr>) = Inr s2"
      using yield_any_switch [of s1 1 "[]"] s1
        switch_to_succeeds [of 1 "s1\<lparr>interrupts := False, thread_queue := [0]\<rparr>" "interrupts s1" 0]
      by (auto simp: valid_tid_def THREAD_MAX_THREADS_def)
    have "reachable (lock_boot w) s2"
      using y s s1 by (intro reachable.step [OF r1] sys_step.call [of _ "Api_yield THREAD_ANY"]) simp_all
    moreover have "owners s2 0 = Some (True, 0)"
      using yield_owners [OF s1(6) y] s1(7) s(9) by (simp add: owners_def)
    moreover have "frames_of s2 1 = [At_stub 7 9]"
      using switch_to_frames(1) [OF sw] s1(4,5) by (simp add: sys_simps)
    ultimately show ?thesis
      using that switch_to_effect(1,2) [OF sw] yield_active [OF s1(6) y] by simp
  qed
qed

text \<open>
  Property C9. Mutual exclusion: while a thread holds a lock, no step of another thread,
  and no timer interrupt, gives the lock to anyone else or frees it.
\<close>

theorem lock_held_until_released:
  assumes "good_malloc ps pw pl pc" and "reachable (boot ps pw pl pc b) s" and "sys_step s s'"
    and "owners s a = Some (True, t)" and "t \<noteq> running_thread_id s"
  shows "owners s' a = Some (True, t)"
  using lck.every_step [OF assms(3) reachable_boot_inv [OF assms(1,2)]] assms(4,5)
  by (simp add: lock_safe_def)



theorem lock_held_until_released_witness:
  "\<exists>s s'. reachable (lock_boot (Wq [])) s \<and> sys_step s s' \<and> running_thread_id s = 1 \<and>
     owners s' 0 = Some (True, 0)"
proof (rule lock_demo_contended [of "Wq []"])
  fix s assume s: "reachable (lock_boot (Wq [])) s" "running_thread_id s = 1" "frames_of s 1 = [At_stub 7 9]"
    "owners s 0 = Some (True, 0)"
  define s' where "s' = (pop_frame s)\<lparr>interrupts := True\<rparr>"
  have st: "sys_step s s'"
    using s by (intro sys_step.continue [of _ "At_stub 7 9" "[]"])
      (simp_all add: s'_def resume_def thread_stub_def interrupts_on_def interrupts_set_def)
  from lock_held_until_released [OF lock_malloc s(1) [unfolded lock_boot_def] st s(4)] s
  show ?thesis by (intro exI [of _ s] exI [of _ s']) (simp add: st junk_ok_def)
qed (simp add: junk_ok_def)



text \<open>
  \<open>lock_create\<close> does not initialise the wait queue of the lock: when the
  block that \<open>malloc\<close> returns does not happen to be zero, the lock can be acquired, but the
  first release of it follows indeterminate pointers.
\<close>

theorem lock_create_leaves_wait_queue_uninitialised:
  assumes "policy (locks s) (calls (locks s)) (cells (locks s)) = Some (a, junk)"
    and "lock_wqueue junk = Garbage"
  shows "\<exists>s1 s2. lock_create s = Inr s1 \<and> result_ptr s1 = Addr a \<and> lock_acquire (Addr a) s1 = Inr s2 \<and>
    owners s2 a = Some (True, running_thread_id s) \<and> lock_release (Addr a) s2 = Inl Undefined"
  using assms
  by (simp add: lock_create_def lock_acquire_def acquire_loop_def lock_release_def thread_wakeup_def
      interrupts_set_def thread_id_def malloc_def load_def store_def get_wq_def wq_threads_def owners_def)

theorem lock_create_leaves_wait_queue_uninitialised_witness:
  "\<exists>s1 s2. lock_create (lock_boot Garbage) = Inr s1 \<and> lock_acquire (Addr 0) s1 = Inr s2 \<and>
    lock_release (Addr 0) s2 = Inl Undefined"
proof -
  have "policy (locks (lock_boot Garbage)) (calls (locks (lock_boot Garbage))) (cells (locks (lock_boot Garbage)))
      = Some (0, \<lparr>lock_wqueue = Garbage, acquired = True, acquiring_thread = 9\<rparr>)"
    by (simp add: lock_boot_def boot_effect zero_heap_def counting_policy_def)
  from lock_create_leaves_wait_queue_uninitialised [OF this] show ?thesis by auto
qed

text \<open>
  The wait of \<open>cv_wait\<close> is not atomic: when it has released the lock the
  caller is still running, with its own signal mask, the lock is free, and the caller is not
  yet in the queue of the condition variable, so a \<open>cv_signal\<close> from the next owner of the
  lock can find the queue empty and wake nobody.
\<close>

theorem cv_wait_has_a_window:
  assumes a: "active s" and k: "cv_wait (Addr c) (Addr l) s = Inr s'"
  shows "running_thread_id s' = running_thread_id s \<and> interrupts s' = interrupts s \<and>
    owners s' l = Some (False, running_thread_id s) \<and>
    sleepers s' (WQ_cv (Addr c)) = sleepers s (WQ_cv (Addr c)) \<and>
    running_thread_id s \<notin> set (sleepers s (WQ_cv (Addr c))) \<and>
    frames_of s' (running_thread_id s) = Cv_sleep (Addr c) (Addr l) # frames_of s (running_thread_id s)"
proof -
  obtain s1 where r: "lock_release (Addr l) s = Inr s1" and s': "s' = push_frame (Cv_sleep (Addr c) (Addr l)) s1"
    using k by (auto simp: cv_wait_def result_simps)
  have n: "running_thread_id s \<notin> set (sleepers s (WQ_cv (Addr c)))"
    using core_asleep [OF activeD(1) [OF a], of "running_thread_id s"] unfolding asleep_def by blast
  from r show ?thesis
    by (rule lock_release_effect) (use n in \<open>simp add: s' sys_simps\<close>)
qed

theorem cv_wait_has_a_window_witness:
  "\<exists>s s'. reachable (lock_boot (Wq [])) s \<and> cv_wait (Addr 3) (Addr 0) s = Inr s' \<and>
     owners s' 0 = Some (False, 0) \<and> interrupts s' \<and> 0 \<notin> set (sleepers s' (WQ_cv (Addr 3)))"
proof (rule lock_demo_acquired [of "Wq []"])
  fix s assume s: "reachable (lock_boot (Wq [])) s" "running_thread_id s = 0" "interrupts s" "active s"
    "cells (locks s) 0 = Some \<lparr>lock_wqueue = Wq [], acquired = True, acquiring_thread = 0\<rparr>"
  obtain s' where k: "cv_wait (Addr 3) (Addr 0) s = Inr s'"
    using s by (auto simp: cv_wait_def assert_owner_def lock_release_def thread_wakeup_def set_simps
        load_def store_def get_wq_def wq_threads_def)
  have "owners s' 0 = Some (False, 0) \<and> interrupts s' \<and> 0 \<notin> set (sleepers s' (WQ_cv (Addr 3)))"
    using cv_wait_has_a_window [OF s(4) k] s(2,3) by simp
  then show ?thesis using s(1) k by blast
qed (simp add: junk_ok_def)

section \<open>Interrupts\<close>

text \<open>
  Property C27. Whenever a step of the process makes another thread the running one, signals
  are blocked in the state that thread starts from: it leaves its own critical section itself,
  by restoring the mask saved in its frame. The masks saved for threads that are not running
  are all "blocked".
\<close>

theorem switch_happens_with_interrupts_off:
  assumes "good_malloc ps pw pl pc" and "reachable (boot ps pw pl pc b) s" and "sys_step s s'"
  shows "(running_thread_id s' = running_thread_id s \<or> \<not> interrupts s') \<and>
    (\<forall>t. t \<noteq> running_thread_id s' \<longrightarrow> \<not> context_mask (thread_array s' t))"
  using msk.every_step [OF assms(3) reachable_boot_inv [OF assms(1,2)]] reachable_masks(1) [OF assms(1,2)]
  by (simp add: mask_step_def masks_ok_def)

theorem switch_happens_with_interrupts_off_witness:
  "\<exists>s s'. reachable demo_boot s \<and> interrupts s \<and> sys_step s s' \<and> running_thread_id s' = 1 \<and>
     \<not> interrupts s'"
proof (rule demo_create)
  fix s assume r: "reachable demo_boot s" "running_thread_id s = 0" "thread_queue s = [1]"
    "frames_of s = (\<lambda>_. [])(1 := [At_stub 7 9])" "interrupts s" "active s"
  obtain s' where y: "thread_yield THREAD_ANY s = Inr s'"
    and sw: "switch_to True 0 1 (s\<lparr>interrupts := False, thread_queue := [0]\<rparr>) = Inr s'"
    using yield_any_switch [of s 1 "[]"] r activeD(3,4) [OF r(6)]
      switch_to_succeeds [of 1 "s\<lparr>interrupts := False, thread_queue := [0]\<rparr>" True 0] by auto
  have st: "sys_step s s'"
    using r y by (intro sys_step.call [of _ "Api_yield THREAD_ANY"]) simp_all
  from switch_happens_with_interrupts_off [OF demo_malloc demo_reachable [OF r(1)] st] st r
    switch_to_effect(1) [OF sw]
  show ?thesis by (intro exI [of _ s] exI [of _ s']) simp
qed

section \<open>Killed threads and new threads\<close>

text \<open>
  A thread that was killed never returns to its own code: when a yield gives it
  the processor, its only continuation is \<open>thread_exit\<close>, whatever calls it had unfinished,
  and it runs it as the RUNNING thread.
\<close>

theorem killed_thread_resumes_in_thread_exit:
  assumes a: "active s" and y: "thread_yield want s = Inr s'" and n: "running_thread_id s' = n"
    and d: "n \<noteq> running_thread_id s" and k: "state_of s n = KILLED"
  shows "frames_of s' n = [At_thread_exit] \<and> state_of s' n = RUNNING \<and>
    resume (hd (frames_of s' n)) (pop_frame s') = thread_exit (pop_frame s')"
proof -
  from a y obtain q where sw: "switch_to (interrupts s) (running_thread_id s) n
      (s\<lparr>interrupts := False, thread_queue := q\<rparr>) = Inr s'"
  proof (cases rule: yield_cases)
    case (stay v)
    then show ?thesis using n d by (simp add: sys_simps)
  next
    case (switch m)
    then have "m = n" using switch_to_effect(1) [OF switch(4)] n by simp
    then show ?thesis using that switch(4) by blast
  qed
  have "frames_of s' n = [At_thread_exit]"
    using sw k d by (auto simp: switch_to_def Let_def result_simps sys_simps set_state_def
        frames_of_def state_of_def)
  then show ?thesis using switch_to_effect(3) [OF sw] by (simp add: resume_def)
qed

theorem killed_thread_resumes_in_thread_exit_witness:
  "\<exists>s s'. reachable demo_boot s \<and> state_of s 1 = KILLED \<and> thread_yield THREAD_ANY s = Inr s' \<and>
     frames_of s' 1 = [At_thread_exit]"
proof (rule demo_create)
  fix s assume r: "reachable demo_boot s" "running_thread_id s = 0" "thread_queue s = [1]"
    "state_of s = (\<lambda>_. NOT_INITIALIZED)(0 := RUNNING, 1 := READY)"
    "frames_of s = (\<lambda>_. [])(1 := [At_stub 7 9])" "active s" "\<not> thread_exit_cleanup_needs_to_run s"
  define s1 where "s1 = leave (interrupts s) 1 (set_state 1 KILLED (s\<lparr>interrupts := False\<rparr>))"
  have k: "thread_kill 1 s = Inr s1"
    using r by (simp add: thread_kill_def thread_exit_cleanup_def set_simps s1_def sys_simps
        THREAD_MAX_THREADS_def)
  have r1: "reachable demo_boot s1"
    using k r by (intro reachable.step [OF r(1)] sys_step.call [of _ "Api_kill 1"]) simp_all
  have a1: "active s1" using thread_kill_active [OF r(6) k] .
  have q1: "thread_queue s1 = [1]" "running_thread_id s1 = 0" "state_of s1 1 = KILLED"
    using r by (simp_all add: s1_def sys_simps)
  obtain s' where y: "thread_yield THREAD_ANY s1 = Inr s'"
    and sw: "switch_to (interrupts s1) 0 1 (s1\<lparr>interrupts := False, thread_queue := [0]\<rparr>) = Inr s'"
    using yield_any_switch [OF activeD(3,4) [OF a1] q1(1)] q1
      switch_to_succeeds [of 1 "s1\<lparr>interrupts := False, thread_queue := [0]\<rparr>" "interrupts s1" 0] by auto
  have "frames_of s' 1 = [At_thread_exit]"
    using killed_thread_resumes_in_thread_exit [OF a1 y, of 1] switch_to_effect(1) [OF sw] q1 by simp
  then show ?thesis using r1 q1 y by blast
qed

text \<open>
  The stack pointer that \<open>thread_create\<close> computes lies in the upper 16 bytes
  of the stack, 8 bytes off a 16-byte boundary, wherever \<open>malloc\<close> puts the stack: the
  assertion of the code never fails.
\<close>

theorem initial_stack_pointer_aligned:
  assumes "0 \<le> stack"
  shows "rip_addr_ok stack \<and> stack + THREAD_MIN_STACK - 16 < rip_addr stack \<and>
    rip_addr stack \<le> stack + THREAD_MIN_STACK \<and> rip_addr stack mod 16 = 8"
proof -
  define u where "u = stack + 32768"
  have u: "u \<ge> 32768" using assms by (simp add: u_def)
  have r: "rip_addr stack = u - (if u mod 16 < 8 then 8 + u mod 16 else u mod 16 - 8)"
    using u by (simp add: rip_addr_def THREAD_MIN_STACK_def u_def [symmetric] c_rem_nonneg)
  have m: "0 \<le> u mod 16" "u mod 16 < 16" by simp_all
  have "(u - (if u mod 16 < 8 then 8 + u mod 16 else u mod 16 - 8)) mod 16 = 8" by presburger
  then show ?thesis
    using rip_addr_ok_always [OF assms] r m by (auto simp: THREAD_MIN_STACK_def u_def)
qed

theorem initial_stack_pointer_aligned_witness:
  "rip_addr 94407 = 127160"
  using initial_stack_pointer_aligned [of 94407] by (simp add: rip_addr_def THREAD_MIN_STACK_def c_rem_def)

end
