(* ===== verification/Lab2_Queue.thy ===== *)
theory Lab2_Queue
  imports Thread_Queue
begin

text \<open>
  threads_2/queue.c: the ready queue of the cooperative thread library. It has the pointer
  manipulations of the Lab 3 queue (Node_Queue) without its checks: there are no interrupts,
  thread ids are not tested, and the result of \<open>malloc\<close> is used unchecked. Its own
  operations rotate the queue and move a chosen thread to the front.
  The last section interprets the queue contract on these operations.
\<close>

type_synonym FIFO_QUEUE = fifo_queue

definition initialize_queue :: "FIFO_QUEUE option \<Rightarrow> FIFO_QUEUE result" where
  "initialize_queue queue =
     (case queue of None \<Rightarrow> Inl Assertion | Some q \<Rightarrow> Inr (q\<lparr>head := NULL, tail := NULL\<rparr>))"

definition one_element_in_queue :: "FIFO_QUEUE \<Rightarrow> bool" where
  "one_element_in_queue queue \<longleftrightarrow> head queue = tail queue"

definition queue_empty :: "FIFO_QUEUE \<Rightarrow> bool" where
  "queue_empty queue \<longleftrightarrow> head queue = NULL \<and> tail queue = NULL"

definition push_back :: "node_heap \<Rightarrow> FIFO_QUEUE \<Rightarrow> int \<Rightarrow> (node_heap \<times> FIFO_QUEUE) result" where
  "push_back h queue thread_id =
     (let (node, h1) = malloc h in
      bindE (store h1 node \<lparr>nxt = NULL, val = thread_id\<rparr>) (\<lambda>h2.
      link_back h2 queue node))"

definition pop_front :: "node_heap \<Rightarrow> FIFO_QUEUE \<Rightarrow> (node_heap \<times> FIFO_QUEUE \<times> int option) result" where
  "pop_front h queue =
     (if head queue = NULL \<and> tail queue = NULL then Inr (h, queue, None)
      else if head queue \<noteq> NULL \<and> tail queue \<noteq> NULL then
        bindE (take_front h queue) (\<lambda>(h', q', t). Inr (h', q', Some t))
      else Inl Assertion)"

definition remove_node :: "node_heap \<Rightarrow> FIFO_QUEUE \<Rightarrow> int \<Rightarrow> (node_heap \<times> FIFO_QUEUE \<times> bool) result" where
  "remove_node h queue thread_id =
     bindE (loopE (find_node h thread_id (head queue) NULL)) (\<lambda>(cur, prev).
     if cur = NULL then Inr (h, queue, False)
     else if prev = NULL then
       bindE (pop_front h queue) (\<lambda>(h', q', _). Inr (h', q', True))
     else bindE (unlink_after h queue prev cur) (\<lambda>(h', q'). Inr (h', q', True)))"

text \<open>The third branch of \<open>move_front_to_back\<close>: the first node becomes the last one.\<close>

definition rotate_nodes :: "node_heap \<Rightarrow> FIFO_QUEUE \<Rightarrow> (node_heap \<times> FIFO_QUEUE) result" where
  "rotate_nodes h queue =
     bindE (load h (head queue)) (\<lambda>first.
     let new_front = nxt first in
     bindE (load h (tail queue)) (\<lambda>last.
     bindE (store h (tail queue) (last\<lparr>nxt := head queue\<rparr>)) (\<lambda>h1.
     let q1 = \<lparr>head = new_front, tail = head queue\<rparr> in
     bindE (load h1 (tail q1)) (\<lambda>n.
     bindE (store h1 (tail q1) (n\<lparr>nxt := NULL\<rparr>)) (\<lambda>h2.
     Inr (h2, q1))))))"

definition move_front_to_back ::
  "node_heap \<Rightarrow> FIFO_QUEUE \<Rightarrow> (node_heap \<times> FIFO_QUEUE \<times> int option) result" where
  "move_front_to_back h queue =
     (if head queue = NULL \<and> tail queue = NULL then Inr (h, queue, None)
      else if one_element_in_queue queue then
        bindE (load h (head queue)) (\<lambda>n. Inr (h, queue, Some (val n)))
      else if head queue \<noteq> NULL \<and> tail queue \<noteq> NULL then
        bindE (rotate_nodes h queue) (\<lambda>(h2, q1).
        bindE (load h2 (head q1)) (\<lambda>n.
        bindE (assertE (head q1 \<noteq> NULL \<and> tail q1 \<noteq> NULL)) (\<lambda>_.
        Inr (h2, q1, Some (val n)))))
      else Inl Assertion)"

definition pop_pair :: "node_heap \<times> FIFO_QUEUE \<Rightarrow> ((node_heap \<times> FIFO_QUEUE) \<times> int option) result" where
  "pop_pair s = bindE (pop_front (fst s) (snd s)) (\<lambda>(h, q, r). Inr ((h, q), r))"

definition delete_queue :: "node_heap \<Rightarrow> FIFO_QUEUE \<Rightarrow> (node_heap \<times> FIFO_QUEUE) result" where
  "delete_queue h queue = loopE (drain pop_pair (h, queue))"

definition peek_queue :: "node_heap \<Rightarrow> FIFO_QUEUE \<Rightarrow> int option result" where
  "peek_queue h queue =
     (if head queue = NULL \<and> tail queue = NULL then Inr None
      else bindE (load h (head queue)) (\<lambda>n. Inr (Some (val n))))"

text \<open>Unhook \<open>cur\<close>, which follows \<open>prev\<close>, and hang it before the first node.\<close>

definition relink_front ::
  "node_heap \<Rightarrow> FIFO_QUEUE \<Rightarrow> ptr \<Rightarrow> ptr \<Rightarrow> (node_heap \<times> FIFO_QUEUE) result" where
  "relink_front h queue prev cur =
     bindE (load h cur) (\<lambda>c.
     let q1 = (if nxt c = NULL then queue\<lparr>tail := prev\<rparr> else queue) in
     bindE (load h prev) (\<lambda>p.
     bindE (store h prev (p\<lparr>nxt := nxt c\<rparr>)) (\<lambda>h1.
     bindE (load h1 cur) (\<lambda>c1.
     bindE (store h1 cur (c1\<lparr>nxt := head q1\<rparr>)) (\<lambda>h2.
     Inr (h2, q1\<lparr>head := cur\<rparr>))))))"

definition move_selected_thread_to_front ::
  "node_heap \<Rightarrow> FIFO_QUEUE \<Rightarrow> int \<Rightarrow> (node_heap \<times> FIFO_QUEUE \<times> bool) result" where
  "move_selected_thread_to_front h queue requested =
     bindE (move_front_to_back h queue) (\<lambda>(h1, q1, temp).
     case temp of
       None \<Rightarrow> Inr (h1, q1, False)
     | Some _ \<Rightarrow>
         bindE (loopE (find_node h1 requested (head q1) NULL)) (\<lambda>(cur, prev).
         bindE (assertE (cur \<noteq> NULL)) (\<lambda>_.
         if prev = NULL then Inr (h1, q1, True)
         else bindE (relink_front h1 q1 prev cur) (\<lambda>(h2, q2). Inr (h2, q2, True)))))"

section \<open>The operations that Lab 3 has too\<close>

lemma lab2_is_lab3:
  "pop_front = pop_front_rq False" "remove_node = remove_node_rq False"
  "pop_pair = pop_pair_rq False" "delete_queue = delete_queue_rq False"
  "queue_empty_rq False q = Inr (queue_empty q)"
proof -
  show p: "pop_front = pop_front_rq False"
    by (intro ext) (simp add: pop_front_def pop_front_rq_def pop_front_helper_def)
  show "remove_node = remove_node_rq False"
    by (intro ext) (simp only: remove_node_def remove_node_rq_def p assertE_True simp_thms bindE_Inr)
  show d: "pop_pair = pop_pair_rq False"
    by (intro ext) (simp add: pop_pair_def pop_pair_rq_def p)
  show "delete_queue = delete_queue_rq False"
    by (intro ext) (simp add: delete_queue_def delete_queue_rq_def d)
qed (simp add: queue_empty_rq_def queue_empty_def)

text \<open>A push that finds memory does what the Lab 3 push does; without memory it follows NULL.\<close>

lemma push_back_cases:
  assumes "valid_tid t"
  shows "fst (malloc h) = NULL \<and> push_back h q t = Inl Undefined \<or>
    fst (malloc h) \<noteq> NULL \<and> push_back h q t = push_back_rq False h q t"
  using assms
  by (cases "malloc h"; cases "fst (malloc h)")
    (auto simp: push_back_def push_back_rq_def push_back_helper_def valid_tid_def store_def)

lemma push_back_any_tid:
  assumes "queue_rep h q xs" and "fresh_policy (policy h)" and "push_back h q t = Inr (h', q')"
  shows "\<exists>a. queue_rep h' q' (xs @ [(a, t)]) \<and> cells h a = None \<and> policy h' = policy h"
proof -
  from assms(3) obtain a c where m: "policy h (calls h) (cells h) = Some (a, c)"
    by (cases "policy h (calls h) (cells h)") (auto simp: push_back_def heap_simps store_def)
  have a: "cells h a = None" using assms(2) m by (rule fresh_policyD)
  let ?h = "h\<lparr>calls := Suc (calls h), cells := (cells h)(a \<mapsto> \<lparr>nxt = NULL, val = t\<rparr>)\<rparr>"
  have new: "a \<notin> footprint xs" using queue_rep_allocated [OF assms(1)] a by auto
  have "queue_rep ?h q xs" by (rule queue_rep_agree [OF assms(1)]) (use new in auto)
  from link_back_rep [OF this _ new, of t] m assms(3) a show ?thesis
    by (auto simp: push_back_def heap_simps)
qed

section \<open>Rotation\<close>

lemma rotate_nodes_rep:
  assumes rep: "queue_rep h q ((a, v) # xs @ [(b, w)])"
  shows "\<exists>h' q'. rotate_nodes h q = Inr (h', q') \<and> queue_rep h' q' (xs @ [(b, w), (a, v)]) \<and>
    dom (cells h') = dom (cells h) \<and> calls h' = calls h \<and> policy h' = policy h \<and>
    (\<forall>c. c \<noteq> a \<longrightarrow> c \<noteq> b \<longrightarrow> cells h' c = cells h c)"
proof -
  from rep obtain n where q: "q = \<lparr>head = Addr a, tail = Addr b\<rparr>"
    and ca: "cells h a = Some \<lparr>nxt = n, val = v\<rparr>" and c: "chain (cells h) n xs (Addr b)"
    and cb: "cells h b = Some \<lparr>nxt = NULL, val = w\<rparr>"
    and d: "distinct (map fst (xs @ [(b, w), (a, v)]))"
    by (cases q) (auto simp: queue_rep_def chain_append)
  have ab: "a \<noteq> b" using d by auto
  let ?m = "(cells h)(b \<mapsto> \<lparr>nxt = Addr a, val = w\<rparr>, a \<mapsto> \<lparr>nxt = NULL, val = v\<rparr>)"
  have "rotate_nodes h q = Inr (h\<lparr>cells := ?m\<rparr>, \<lparr>head = n, tail = Addr a\<rparr>)"
    using ca cb ab q by (simp add: rotate_nodes_def heap_simps)
  moreover have "chain ?m n xs (Addr b)" using c d by auto
  then have "queue_rep (h\<lparr>cells := ?m\<rparr>) \<lparr>head = n, tail = Addr a\<rparr> (xs @ [(b, w), (a, v)])"
    using d ab by (auto simp: queue_rep_def chain_append)
  ultimately show ?thesis using ca cb by auto
qed

lemma move_front_to_back_rep:
  assumes rep: "queue_rep h q (x # xs)"
  shows "\<exists>h' q'. move_front_to_back h q = Inr (h', q', Some (snd (hd (xs @ [x])))) \<and>
    queue_rep h' q' (xs @ [x]) \<and> dom (cells h') = dom (cells h) \<and> policy h' = policy h"
proof (cases xs rule: rev_cases)
  case Nil
  with rep show ?thesis
    by (cases x) (auto simp: move_front_to_back_def queue_rep_def one_element_in_queue_def heap_simps)
next
  case (snoc ys y)
  obtain a v b w where x: "x = (a, v)" "y = (b, w)" by (cases x; cases y)
  from rep snoc x have r: "queue_rep h q ((a, v) # ys @ [(b, w)])" by simp
  from rotate_nodes_rep [OF r] obtain h' q' where rot: "rotate_nodes h q = Inr (h', q')"
    and new: "queue_rep h' q' (ys @ [(b, w), (a, v)])" "dom (cells h') = dom (cells h)" "policy h' = policy h"
    by blast
  have "head q \<noteq> NULL" "tail q \<noteq> NULL" "head q \<noteq> tail q" using r by (auto simp: queue_rep_def)
  moreover have "head q' \<noteq> NULL" "tail q' \<noteq> NULL"
    using new(1) queue_rep_head_NULL queue_rep_tail_NULL by blast+
  moreover have "\<exists>n. load h' (head q') = Inr n \<and> val n = snd (hd (ys @ [(b, w), (a, v)]))"
    using new(1) by (cases ys) (auto simp: queue_rep_def heap_simps)
  ultimately have "move_front_to_back h q = Inr (h', q', Some (snd (hd (ys @ [(b, w), (a, v)]))))"
    using rot by (auto simp: move_front_to_back_def one_element_in_queue_def)
  with new show ?thesis by (simp add: snoc x)
qed

lemma relink_front_rep:
  assumes rep: "queue_rep h q (ys @ (b, w) # (a, v) # zs)"
  shows "\<exists>h' q'. relink_front h q (Addr b) (Addr a) = Inr (h', q') \<and>
    queue_rep h' q' ((a, v) # ys @ (b, w) # zs) \<and> dom (cells h') = dom (cells h) \<and> policy h' = policy h"
proof -
  from rep have c: "chain (cells h) (head q) (ys @ (b, w) # (a, v) # zs) NULL"
    and d: "distinct (map fst (ys @ (b, w) # (a, v) # zs))"
    and t: "tail q = Addr (fst (last ((b, w) # (a, v) # zs)))"
    by (auto simp: queue_rep_def)
  from c obtain n where c1: "chain (cells h) (head q) ys (Addr b)"
    and cb: "cells h b = Some \<lparr>nxt = Addr a, val = w\<rparr>"
    and ca: "cells h a = Some \<lparr>nxt = n, val = v\<rparr>" and c2: "chain (cells h) n zs NULL"
    by (auto simp: chain_append)
  let ?m = "(cells h)(b \<mapsto> \<lparr>nxt = n, val = w\<rparr>, a \<mapsto> \<lparr>nxt = head q, val = v\<rparr>)"
  let ?q = "if n = NULL then q\<lparr>tail := Addr b, head := Addr a\<rparr> else q\<lparr>head := Addr a\<rparr>"
  have nz: "n = NULL \<longleftrightarrow> zs = []" using c2 by (cases zs) auto
  have ab: "a \<noteq> b" using d by auto
  have "relink_front h q (Addr b) (Addr a) = Inr (h\<lparr>cells := ?m\<rparr>, ?q)"
    using ca cb ab by (simp add: relink_front_def heap_simps Let_def)
  moreover have "chain ?m (head q) ys (Addr b)" "chain ?m n zs NULL" using c1 c2 d by auto
  then have "queue_rep (h\<lparr>cells := ?m\<rparr>) ?q ((a, v) # ys @ (b, w) # zs)"
    using d t nz ab by (auto simp: queue_rep_def chain_append)
  moreover have "dom ?m = dom (cells h)" using cb ca by auto
  ultimately show ?thesis by auto
qed

lemma move_selected_rep:
  assumes rep: "queue_rep h q xs" and r: "requested \<in> snd ` set xs"
  shows "\<exists>h' q' ys. move_selected_thread_to_front h q requested = Inr (h', q', True) \<and>
    queue_rep h' q' ys \<and> map snd ys = requested # remove1 requested (rotate1 (map snd xs)) \<and>
    dom (cells h') = dom (cells h) \<and> policy h' = policy h"
proof -
  obtain x us where xs: "xs = x # us" using r by (cases xs) auto
  from move_front_to_back_rep [OF rep [unfolded xs]] obtain h1 q1 where
    m: "move_front_to_back h q = Inr (h1, q1, Some (snd (hd (us @ [x]))))"
    and r1: "queue_rep h1 q1 (us @ [x])" and h1: "dom (cells h1) = dom (cells h)" "policy h1 = policy h"
    by blast
  have "requested \<in> set (map snd (us @ [x]))" using r by (auto simp: xs)
  then obtain as bs where ab: "map snd (us @ [x]) = as @ requested # bs" "requested \<notin> set as"
    by (rule split_first)
  from map_eq_append_conv [THEN iffD1, OF ab(1)] obtain ys ws where yw: "us @ [x] = ys @ ws"
    and s1: "map snd ys = as" and "map snd ws = requested # bs" by (elim exE conjE) (rule that; simp)
  then obtain a zs where ws: "ws = (a, requested) # zs" and s2: "map snd zs = bs" by auto
  note yz = yw [unfolded ws] and s = s1 s2
  have n: "requested \<notin> snd ` set ys" using ab(2) by (simp flip: s(1))
  have rot: "requested # remove1 requested (rotate1 (map snd xs)) = map snd ((a, requested) # ys @ zs)"
    using ab s by (simp add: xs remove1_append_first)
  have f: "find_node h1 requested (head q1) NULL =
      Some (Inr (Addr a, if ys = [] then NULL else Addr (fst (last ys))))"
    using r1 n find_node_first [of h1 "head q1" ys a requested zs NULL] by (simp add: queue_rep_def yz)
  show ?thesis
  proof (cases ys rule: rev_cases)
    case Nil
    with m f r1 h1 rot yz show ?thesis
      by (auto simp: move_selected_thread_to_front_def intro!: exI [of _ "us @ [x]"])
  next
    case (snoc vs y)
    obtain b w where y: "y = (b, w)" by (cases y)
    from r1 yz snoc y have "queue_rep h1 q1 (vs @ (b, w) # (a, requested) # zs)" by simp
    from relink_front_rep [OF this] obtain h2 q2 where
      l: "relink_front h1 q1 (Addr b) (Addr a) = Inr (h2, q2)"
      and r2: "queue_rep h2 q2 ((a, requested) # vs @ (b, w) # zs)"
      and h2: "dom (cells h2) = dom (cells h1)" "policy h2 = policy h1" by blast
    have "move_selected_thread_to_front h q requested = Inr (h2, q2, True)"
      using m f l by (simp add: move_selected_thread_to_front_def snoc y)
    with r2 h1 h2 rot show ?thesis
      by (intro exI [of _ h2] exI [of _ q2] exI [of _ "(a, requested) # vs @ (b, w) # zs"]) (simp add: snoc y)
  qed
qed

lemma move_selected_absent:
  assumes rep: "queue_rep h q (x # xs)" and "requested \<notin> snd ` set (x # xs)"
  shows "move_selected_thread_to_front h q requested = Inl Assertion"
proof -
  from move_front_to_back_rep [OF rep] obtain h1 q1 where
    m: "move_front_to_back h q = Inr (h1, q1, Some (snd (hd (xs @ [x]))))" and r1: "queue_rep h1 q1 (xs @ [x])"
    by blast
  then have "\<exists>p. find_node h1 requested (head q1) NULL = Some (Inr (NULL, p))"
    using assms(2) by (intro find_node_absent [of _ _ "xs @ [x]"]) (auto simp: queue_rep_def)
  with m show ?thesis by (auto simp: move_selected_thread_to_front_def)
qed

lemma peek_queue_rep: "queue_rep h q xs \<Longrightarrow>
  peek_queue h q = Inr (case xs of [] \<Rightarrow> None | x # _ \<Rightarrow> Some (snd x))"
  by (cases xs) (auto simp: peek_queue_def queue_rep_def heap_simps empty_queue_def split: prod.splits)

section \<open>The queue contract\<close>

definition push_pair :: "node_heap \<times> FIFO_QUEUE \<Rightarrow> int \<Rightarrow> (node_heap \<times> FIFO_QUEUE) result" where
  "push_pair s t = push_back (fst s) (snd s) t"

definition remove_pair :: "node_heap \<times> FIFO_QUEUE \<Rightarrow> int \<Rightarrow> ((node_heap \<times> FIFO_QUEUE) \<times> bool) result" where
  "remove_pair s t = bindE (remove_node (fst s) (snd s) t) (\<lambda>(h, q, b). Inr ((h, q), b))"

lemma remove_pair_is: "remove_pair = remove_pair_rq"
  by (intro ext) (simp add: remove_pair_def remove_pair_rq_def lab2_is_lab3)

interpretation l2: fifo_partial_remove push_pair pop_pair rq_rep remove_pair
  unfolding lab2_is_lab3 remove_pair_is
proof
  fix s :: "node_heap \<times> FIFO_QUEUE" and ts t s'
  assume r: "rq_rep s ts" and p: "push_pair s t = Inr s'"
  obtain h q h' q' where s: "s = (h, q)" "s' = (h', q')" by (cases s; cases s')
  from r s obtain xs where "queue_rep h q xs" "fresh_policy (policy h)" "map snd xs = ts"
    by (auto simp: rq_rep_def)
  with push_back_any_tid [of h q xs t h' q'] p s show "rq_rep s' (ts @ [t])"
    by (fastforce simp: push_pair_def rq_rep_def)
qed (fact rq.pop_front_none rq.pop_front_some rq.remove_present rq.remove_absent)+

lemma move_selected_list:
  assumes "rq_rep (h, q) ts" and "t \<in> set ts"
  shows "\<exists>h' q'. move_selected_thread_to_front h q t = Inr (h', q', True) \<and>
    rq_rep (h', q') (t # remove1 t (rotate1 ts)) \<and> dom (cells h') = dom (cells h)"
proof -
  from assms obtain xs where "queue_rep h q xs" "fresh_policy (policy h)" "map snd xs = ts"
    by (auto simp: rq_rep_def)
  with move_selected_rep [of h q xs t] assms(2) show ?thesis by (fastforce simp: rq_rep_def)
qed

end
