(* ===== verification/Labelled_Runs.thy ===== *)
theory Labelled_Runs
  imports Prelude
begin

text \<open>
  Runs of a labelled step relation, and what a component must show of an invariant and of a
  history for them to hold in every reachable state. Components with threads or with an
  environment interpret \<open>invariant_system\<close> on their own steps.
\<close>

inductive runs :: "('s \<Rightarrow> 'l \<Rightarrow> 's \<Rightarrow> bool) \<Rightarrow> 's \<Rightarrow> 'l list \<Rightarrow> 's \<Rightarrow> bool"
  for step :: "'s \<Rightarrow> 'l \<Rightarrow> 's \<Rightarrow> bool" and s0 :: 's where
  start: "runs step s0 [] s0"
| extend: "runs step s0 ls s \<Longrightarrow> step s l s' \<Longrightarrow> runs step s0 (ls @ [l]) s'"

inductive_simps runs_Nil [simp]: "runs step s0 [] s"
inductive_cases runs_snocE: "runs step s0 (ls @ [l]) s"

text \<open>A run along given states, for concrete executions.\<close>

fun path :: "('s \<Rightarrow> 'l \<Rightarrow> 's \<Rightarrow> bool) \<Rightarrow> 's \<Rightarrow> ('l \<times> 's) list \<Rightarrow> bool" where
  "path step s [] = True"
| "path step s ((l, s') # ps) = (step s l s' \<and> path step s' ps)"

lemma runs_path:
  "runs step s0 ls s \<Longrightarrow> path step s ps \<Longrightarrow> runs step s0 (ls @ map fst ps) (if ps = [] then s else snd (last ps))"
proof (induction ps arbitrary: ls s)
  case (Cons p ps)
  obtain l s' where p: "p = (l, s')" by (cases p)
  have "runs step s0 (ls @ [l]) s'" using Cons.prems p by (auto intro: runs.extend)
  from Cons.IH [OF this] Cons.prems(2) p show ?case by auto
qed simp

locale invariant_system =
  fixes step :: "'s \<Rightarrow> 'l \<Rightarrow> 's \<Rightarrow> bool"
    and inv :: "'s \<Rightarrow> bool"
  assumes keeps: "inv s \<Longrightarrow> step s l s' \<Longrightarrow> inv s'"
begin

lemma reachable_inv: "runs step s0 ls s \<Longrightarrow> inv s0 \<Longrightarrow> inv s"
  by (induction rule: runs.induct) (auto intro: keeps)

text \<open>A relation that is reflexive and transitive and holds of every step holds of every run.\<close>

lemma reachable_rel:
  assumes "runs step s0 ls s" and "inv s0" and "\<And>s. R s s" and "\<And>a b c. R a b \<Longrightarrow> R b c \<Longrightarrow> R a c"
    and "\<And>s l s'. inv s \<Longrightarrow> step s l s' \<Longrightarrow> R s s'"
  shows "R s0 s"
  using assms(1)
proof (induction rule: runs.induct)
  case (extend ls s l s')
  then show ?case using reachable_inv [OF extend(1) assms(2)] assms(4,5) by blast
qed (rule assms(3))

end

end
