(* ===== verification/Lab2_Threads.thy ===== *)
theory Lab2_Threads
  imports Lab2_Queue Thread_Lib Labelled_Runs
begin

text \<open>
  threads_2/thread.c: the cooperative thread library, Lab 2. The ready queue is the pointer
  structure of Lab2_Queue in a heap of nodes; the stacks live in a heap of their own. As for
  Lab 3 (Thread_State) a context is the list of the calls that the thread has unfinished,
  innermost first, and the empty list is user code. There are no signals and no wait queues;
  the functions of Lab 3 are stubs in this file that print "not implemented" and end the
  program.
\<close>

datatype THREAD_STATE2 = NOT_INITIALIZED2 | RUNNING2 | READY2 | EXITED2 | KILLED2

text \<open>
  \<open>Yield_return2\<close> is the return of \<open>getcontext\<close> in \<open>thread_yield\<close>, \<open>At_stub2\<close> and
  \<open>At_thread_exit2\<close> are the values that the code writes to \<open>REG_RIP\<close>, and \<open>After_exit2\<close>
  follows the call of \<open>thread_yield\<close> in \<open>thread_exit\<close>.
\<close>

datatype frame2 = At_stub2 nat nat | At_thread_exit2 | Yield_return2 int | After_exit2

record thread2 =
  context2 :: "frame2 list"
  orig_stack_begin2 :: ptr
  state2 :: THREAD_STATE2

record sys2 =
  thread_array2 :: "int \<Rightarrow> thread2"
  thread_queue2 :: "node_heap \<times> FIFO_QUEUE"
  running_thread_id2 :: int
  cleanup_needs_to_run2 :: bool
  stacks2 :: "unit heap"
  result2 :: int

definition state_of2 :: "sys2 \<Rightarrow> int \<Rightarrow> THREAD_STATE2" where
  "state_of2 s t = state2 (thread_array2 s t)"

definition frames_of2 :: "sys2 \<Rightarrow> int \<Rightarrow> frame2 list" where
  "frames_of2 s t = context2 (thread_array2 s t)"

definition upd_thread2 :: "int \<Rightarrow> (thread2 \<Rightarrow> thread2) \<Rightarrow> sys2 \<Rightarrow> sys2" where
  "upd_thread2 t f s = s\<lparr>thread_array2 := (thread_array2 s)(t := f (thread_array2 s t))\<rparr>"

definition set_state2 :: "int \<Rightarrow> THREAD_STATE2 \<Rightarrow> sys2 \<Rightarrow> sys2" where
  "set_state2 t st s = upd_thread2 t (\<lambda>th. th\<lparr>state2 := st\<rparr>) s"

definition push_frame2 :: "frame2 \<Rightarrow> sys2 \<Rightarrow> sys2" where
  "push_frame2 f s = upd_thread2 (running_thread_id2 s) (\<lambda>th. th\<lparr>context2 := f # context2 th\<rparr>) s"

definition pop_frame2 :: "sys2 \<Rightarrow> sys2" where
  "pop_frame2 s = upd_thread2 (running_thread_id2 s) (\<lambda>th. th\<lparr>context2 := tl (context2 th)\<rparr>) s"

section \<open>The operations\<close>

definition thread_id2 :: "sys2 \<Rightarrow> int" where
  "thread_id2 s = running_thread_id2 s"

fun init_loop2 :: "nat \<Rightarrow> int \<Rightarrow> sys2 \<Rightarrow> sys2" where
  "init_loop2 0 i s = s"
| "init_loop2 (Suc n) i s = init_loop2 n (i + 1)
     (upd_thread2 i (\<lambda>th. th\<lparr>orig_stack_begin2 := NULL, state2 := NOT_INITIALIZED2\<rparr>) s)"

definition thread_init2 :: "sys2 \<Rightarrow> sys2" where
  "thread_init2 s =
     (let s1 = init_loop2 (nat THREAD_MAX_THREADS) 0 s;
          s2 = set_state2 0 RUNNING2 s1
      in s2\<lparr>running_thread_id2 := 0\<rparr>)"

fun cleanup_loop2 :: "nat \<Rightarrow> int \<Rightarrow> sys2 \<Rightarrow> sys2 result" where
  "cleanup_loop2 0 i s = Inr s"
| "cleanup_loop2 (Suc n) i s =
     (if state_of2 s i = EXITED2 then
        let s1 = set_state2 i NOT_INITIALIZED2 s in
        bindE (free (stacks2 s1) (orig_stack_begin2 (thread_array2 s1 i))) (\<lambda>h.
        cleanup_loop2 n (i + 1) (s1\<lparr>stacks2 := h\<rparr>))
      else cleanup_loop2 n (i + 1) s)"

definition thread_exit_cleanup2 :: "sys2 \<Rightarrow> sys2 result" where
  "thread_exit_cleanup2 s =
     (if cleanup_needs_to_run2 s then
        bindE (cleanup_loop2 (nat THREAD_MAX_THREADS) 0 s) (\<lambda>s1.
        Inr (s1\<lparr>cleanup_needs_to_run2 := False\<rparr>))
      else Inr s)"

fun find_slot2 :: "nat \<Rightarrow> int \<Rightarrow> sys2 \<Rightarrow> int option" where
  "find_slot2 0 i s = None"
| "find_slot2 (Suc n) i s =
     (if state_of2 s i = NOT_INITIALIZED2 then Some i else find_slot2 n (i + 1) s)"

text \<open>The arithmetic of the initial stack pointer is that of Lab 3 (Thread_Lib).\<close>

definition thread_create2 :: "nat \<Rightarrow> nat \<Rightarrow> sys2 \<Rightarrow> sys2 result" where
  "thread_create2 fn parg s =
     bindE (thread_exit_cleanup2 s) (\<lambda>s1.
     case find_slot2 (nat THREAD_MAX_THREADS) 0 s1 of
       None \<Rightarrow> Inr (s1\<lparr>result2 := THREAD_NOMORE\<rparr>)
     | Some i \<Rightarrow>
        let s2 = set_state2 i READY2 s1;
            (stack, h) = malloc (stacks2 s2);
            s3 = s2\<lparr>stacks2 := h\<rparr> in
        if stack = NULL then Inr ((set_state2 i NOT_INITIALIZED2 s3)\<lparr>result2 := THREAD_NOMEMORY\<rparr>)
        else
          let s4 = upd_thread2 i (\<lambda>th. th\<lparr>orig_stack_begin2 := stack\<rparr>) s3 in
          bindE (assertE (rip_addr_ok (ptr_value stack))) (\<lambda>_.
          let s5 = upd_thread2 i (\<lambda>th. th\<lparr>context2 := [At_stub2 fn parg]\<rparr>) s4 in
          bindE (push_pair (thread_queue2 s5) i) (\<lambda>q.
          Inr (s5\<lparr>thread_queue2 := q, result2 := i\<rparr>))))"

text \<open>The second half of \<open>thread_yield\<close>: save the context, fix the states, load the other one.\<close>

definition switch_to2 :: "int \<Rightarrow> int \<Rightarrow> sys2 \<Rightarrow> sys2 result" where
  "switch_to2 current_tid new_tid s =
     bindE (assertE (new_tid \<ge> 0)) (\<lambda>_.
     let s1 = s\<lparr>running_thread_id2 := new_tid\<rparr>;
         s2 = upd_thread2 current_tid (\<lambda>th. th\<lparr>context2 := Yield_return2 new_tid # context2 th\<rparr>) s1;
         s3 = (if state_of2 s2 new_tid = KILLED2
               then upd_thread2 new_tid (\<lambda>th. th\<lparr>context2 := [At_thread_exit2]\<rparr>) s2 else s2);
         s4 = set_state2 current_tid (if state_of2 s3 current_tid = EXITED2 then EXITED2 else READY2) s3
     in Inr (set_state2 new_tid RUNNING2 s4))"

definition thread_yield2 :: "int \<Rightarrow> sys2 \<Rightarrow> sys2 result" where
  "thread_yield2 want_tid s =
     (let current_tid = thread_id2 s;
          new_tid = (if want_tid = THREAD_SELF then current_tid else want_tid) in
      if want_tid = THREAD_ANY \<or> new_tid = current_tid \<or>
         (want_tid \<ge> 0 \<and> want_tid < THREAD_MAX_THREADS \<and>
          (state_of2 s new_tid = READY2 \<or> state_of2 s new_tid = KILLED2))
      then
        bindE (if state_of2 s current_tid \<noteq> EXITED2 then push_pair (thread_queue2 s) current_tid
               else Inr (thread_queue2 s)) (\<lambda>q.
        if want_tid = THREAD_ANY then
          bindE (pop_pair q) (\<lambda>(q1, popped).
          case popped of
            None \<Rightarrow> Inl Assertion
          | Some t \<Rightarrow>
              if t = current_tid then Inr (s\<lparr>thread_queue2 := q1, result2 := THREAD_NONE\<rparr>)
              else switch_to2 current_tid t (s\<lparr>thread_queue2 := q1\<rparr>))
        else
          bindE (remove_pair q new_tid) (\<lambda>(q1, found).
          bindE (assertE found) (\<lambda>_.
          switch_to2 current_tid new_tid (s\<lparr>thread_queue2 := q1\<rparr>))))
      else Inr (s\<lparr>result2 := THREAD_INVALID\<rparr>))"

definition thread_exit2 :: "sys2 \<Rightarrow> sys2 result" where
  "thread_exit2 s =
     (let s1 = (set_state2 (thread_id2 s) EXITED2 s)\<lparr>cleanup_needs_to_run2 := True\<rparr> in
      if \<not> queue_empty (snd (thread_queue2 s1)) then thread_yield2 THREAD_ANY (push_frame2 After_exit2 s1)
      else Inl (Exit_with 0))"

definition thread_kill2 :: "int \<Rightarrow> sys2 \<Rightarrow> sys2 result" where
  "thread_kill2 tid s =
     bindE (thread_exit_cleanup2 s) (\<lambda>s1.
     if tid < 0 \<or> tid \<ge> THREAD_MAX_THREADS \<or> tid = thread_id2 s1 \<or> state_of2 s1 tid = NOT_INITIALIZED2
     then Inr (s1\<lparr>result2 := THREAD_INVALID\<rparr>)
     else Inr ((set_state2 tid KILLED2 s1)\<lparr>result2 := tid\<rparr>))"

text \<open>The start of \<open>thread_stub\<close>: user code runs; its return is a call of \<open>thread_exit\<close>.\<close>

definition thread_stub2 :: "nat \<Rightarrow> nat \<Rightarrow> sys2 \<Rightarrow> sys2" where
  "thread_stub2 thread_main arg s = s"

definition resume2 :: "frame2 \<Rightarrow> sys2 \<Rightarrow> sys2 result" where
  "resume2 f s = (case f of
      At_stub2 fn arg \<Rightarrow> Inr (thread_stub2 fn arg s)
    | At_thread_exit2 \<Rightarrow> thread_exit2 s
    | Yield_return2 new_tid \<Rightarrow> Inr (s\<lparr>result2 := new_tid\<rparr>)
    | After_exit2 \<Rightarrow> Inl Assertion)"

text \<open>The steps of the process: a call by user code, or the rest of an unfinished call.\<close>

datatype api2 = Yield2 int | Create2 nat nat | Exit2 | Kill2 int | Continue2

fun step2 :: "api2 \<Rightarrow> sys2 \<Rightarrow> sys2 result" where
  "step2 (Yield2 t) s = thread_yield2 t s"
| "step2 (Create2 fn arg) s = thread_create2 fn arg s"
| "step2 Exit2 s = thread_exit2 s"
| "step2 (Kill2 t) s = thread_kill2 t s"
| "step2 Continue2 s = resume2 (hd (frames_of2 s (running_thread_id2 s))) (pop_frame2 s)"

definition enabled2 :: "sys2 \<Rightarrow> api2 \<Rightarrow> bool" where
  "enabled2 s a \<longleftrightarrow> (a = Continue2 \<longleftrightarrow> frames_of2 s (running_thread_id2 s) \<noteq> [])"

definition sys_step2 :: "sys2 \<Rightarrow> api2 \<Rightarrow> sys2 \<Rightarrow> bool" where
  "sys_step2 s a s' \<longleftrightarrow> enabled2 s a \<and> step2 a s = Inr s'"

text \<open>Before \<open>thread_init\<close> the globals are zero.\<close>

definition zero_sys2 :: "node_heap \<Rightarrow> unit heap \<Rightarrow> sys2" where
  "zero_sys2 hn hs =
     \<lparr>thread_array2 = (\<lambda>_. \<lparr>context2 = [], orig_stack_begin2 = NULL, state2 = NOT_INITIALIZED2\<rparr>),
      thread_queue2 = (hn, empty_queue), running_thread_id2 = 0, cleanup_needs_to_run2 = False,
      stacks2 = hs, result2 = 0\<rparr>"

end
