(* ===== verification/Lab2_Lab3.thy ===== *)
theory Lab2_Lab3
  imports Lab2_Threads Sched_Progress
begin

text \<open>
  Lab 3 contains Lab 2. A state of the Lab 2 library, with the list \<open>q\<close> that its linked
  queue holds, is a state of the Lab 3 library in which signals are blocked and nothing
  sleeps (\<open>lift\<close>); every Lab 2 operation does to its pointers what the Lab 3 operation does
  to the lifted state. The invariants that are proved of Lab 3 therefore hold of Lab 2.
\<close>

section \<open>Lab 2 states as Lab 3 states\<close>

fun lift_state :: "THREAD_STATE2 \<Rightarrow> THREAD_STATE" where
  "lift_state NOT_INITIALIZED2 = NOT_INITIALIZED"
| "lift_state RUNNING2 = RUNNING"
| "lift_state READY2 = READY"
| "lift_state EXITED2 = EXITED"
| "lift_state KILLED2 = KILLED"

fun lift_frame :: "frame2 \<Rightarrow> frame" where
  "lift_frame (At_stub2 fn arg) = At_stub fn arg"
| "lift_frame At_thread_exit2 = At_thread_exit"
| "lift_frame (Yield_return2 t) = Yield_return False t"
| "lift_frame After_exit2 = After_exit"

definition lift_thread :: "thread2 \<Rightarrow> thread" where
  "lift_thread th = \<lparr>ucontext = map lift_frame (context2 th), context_mask = False,
     orig_stack_begin = orig_stack_begin2 th, state = lift_state (state2 th), wqueue = Wq []\<rparr>"

definition lift :: "int list \<Rightarrow> sys2 \<Rightarrow> sys" where
  "lift q s = \<lparr>thread_array = (\<lambda>t. lift_thread (thread_array2 s t)), thread_queue = q,
     running_thread_id = running_thread_id2 s,
     thread_exit_cleanup_needs_to_run = cleanup_needs_to_run2 s, interrupts = False,
     stacks = stacks2 s, wait_queues = zero_heap (\<lambda>_ _. None), locks = zero_heap (\<lambda>_ _. None),
     cvs = zero_heap (\<lambda>_ _. None), result = result2 s, result_ptr = NULL\<rparr>"

text \<open>The two answers agree: the same failure, or states that correspond.\<close>

definition agree :: "sys2 result \<Rightarrow> sys result \<Rightarrow> bool" where
  "agree r2 r3 \<longleftrightarrow> (case r2 of Inl e \<Rightarrow> r3 = Inl e
     | Inr s' \<Rightarrow> \<exists>q'. rq_rep (thread_queue2 s') q' \<and> r3 = Inr (lift q' s'))"

lemma lift_state_iff [simp]:
  "lift_state st = NOT_INITIALIZED \<longleftrightarrow> st = NOT_INITIALIZED2" "lift_state st = RUNNING \<longleftrightarrow> st = RUNNING2"
  "lift_state st = READY \<longleftrightarrow> st = READY2" "lift_state st = EXITED \<longleftrightarrow> st = EXITED2"
  "lift_state st = KILLED \<longleftrightarrow> st = KILLED2" "lift_state st \<noteq> SLEEPING"
  by (cases st; simp)+

named_theorems lift_simps \<open>the lifted state under the operations\<close>

lemma lift_fields [lift_simps]:
  "thread_queue (lift q s) = q" "running_thread_id (lift q s) = running_thread_id2 s"
  "interrupts (lift q s) = False" "stacks (lift q s) = stacks2 s"
  "thread_exit_cleanup_needs_to_run (lift q s) = cleanup_needs_to_run2 s"
  "thread_array (lift q s) t = lift_thread (thread_array2 s t)"
  "state_of (lift q s) t = lift_state (state_of2 s t)"
  "frames_of (lift q s) t = map lift_frame (frames_of2 s t)"
  "thread_id (lift q s) = thread_id2 s"
  by (simp_all add: lift_def lift_thread_def state_of_def state_of2_def frames_of_def frames_of2_def
      thread_id_def thread_id2_def)

lemma lift_thread_fields [lift_simps]:
  "orig_stack_begin (lift_thread th) = orig_stack_begin2 th" "context_mask (lift_thread th) = False"
  by (simp_all add: lift_thread_def)

text \<open>The right-hand sides are lifted states again.\<close>

lemma lift_updates [lift_simps]:
  "(lift q s)\<lparr>interrupts := False\<rparr> = lift q s"
  "(lift q s)\<lparr>thread_queue := q'\<rparr> = lift q' s"
  "(lift q s)\<lparr>running_thread_id := t\<rparr> = lift q (s\<lparr>running_thread_id2 := t\<rparr>)"
  "(lift q s)\<lparr>stacks := h\<rparr> = lift q (s\<lparr>stacks2 := h\<rparr>)"
  "(lift q s)\<lparr>thread_exit_cleanup_needs_to_run := b\<rparr> = lift q (s\<lparr>cleanup_needs_to_run2 := b\<rparr>)"
  "leave False v (lift q s) = lift q (s\<lparr>result2 := v\<rparr>)"
  "interrupts_set False (lift q s) = (False, lift q s)"
  by (simp_all add: lift_def leave_def interrupts_set_def)

lemma lift_set_state [lift_simps]:
  "set_state t (lift_state st) (lift q s) = lift q (set_state2 t st s)"
  by (auto simp: lift_def set_state_def upd_thread_def set_state2_def upd_thread2_def lift_thread_def)

lemmas lift_set_states [lift_simps] = lift_set_state [of _ NOT_INITIALIZED2, simplified]
  lift_set_state [of _ RUNNING2, simplified] lift_set_state [of _ READY2, simplified]
  lift_set_state [of _ EXITED2, simplified] lift_set_state [of _ KILLED2, simplified]

lemma lift_upd_thread:
  "(\<And>th. lift_thread (f2 th) = f (lift_thread th)) \<Longrightarrow>
   upd_thread t f (lift q s) = lift q (upd_thread2 t f2 s)"
  by (auto simp: lift_def upd_thread_def upd_thread2_def)

lemma lift_push_frame [lift_simps]:
  "push_frame (lift_frame f) (lift q s) = lift q (push_frame2 f s)"
  unfolding push_frame_def push_frame2_def lift_fields
  by (rule lift_upd_thread) (simp add: lift_thread_def)

lemma lift_queue_ghost [lift_simps]:
  "lift q (s\<lparr>thread_queue2 := p\<rparr>) = lift q s"
  "lift q (s\<lparr>thread_queue2 := p, result2 := v\<rparr>) = lift q (s\<lparr>result2 := v\<rparr>)"
  by (simp_all add: lift_def)

lemma fields_upd_thread2 [simp]:
  "thread_queue2 (upd_thread2 t f s) = thread_queue2 s"
  "running_thread_id2 (upd_thread2 t f s) = running_thread_id2 s"
  "stacks2 (upd_thread2 t f s) = stacks2 s"
  "thread_queue2 (set_state2 t st s) = thread_queue2 s"
  "running_thread_id2 (set_state2 t st s) = running_thread_id2 s"
  "stacks2 (set_state2 t st s) = stacks2 s"
  "thread_queue2 (push_frame2 fr s) = thread_queue2 s"
  "running_thread_id2 (push_frame2 fr s) = running_thread_id2 s"
  by (simp_all add: upd_thread2_def set_state2_def push_frame2_def)

section \<open>The operations\<close>

lemma cleanup_loop_lift:
  "cleanup_loop n i (lift q s) = map_sum id (lift q) (cleanup_loop2 n i s) \<and>
   (\<forall>s'. cleanup_loop2 n i s = Inr s' \<longrightarrow> thread_queue2 s' = thread_queue2 s)"
proof (induction n i s rule: cleanup_loop2.induct)
  case (2 n i s)
  show ?case
  proof (cases "state_of2 s i = EXITED2")
    case True
    let ?s = "set_state2 i NOT_INITIALIZED2 s"
    show ?thesis
    proof (cases "free (stacks2 s) (orig_stack_begin2 (thread_array2 ?s i))")
      case (Inl e)
      with True show ?thesis by (simp add: lift_simps)
    next
      case (Inr h)
      with True 2(1) [OF True refl, of h] show ?thesis by (simp add: lift_simps)
    qed
  qed (use 2(2) in \<open>simp add: lift_simps\<close>)
qed simp

lemma cleanup_lift: "thread_exit_cleanup (lift q s) = map_sum id (lift q) (thread_exit_cleanup2 s)"
proof (cases "cleanup_needs_to_run2 s")
  case True
  have "cleanup_loop (nat THREAD_MAX_THREADS) 0 (lift q s) =
      map_sum id (lift q) (cleanup_loop2 (nat THREAD_MAX_THREADS) 0 s)"
    using cleanup_loop_lift by blast
  with True show ?thesis
    by (cases "cleanup_loop2 (nat THREAD_MAX_THREADS) 0 s")
      (simp_all add: thread_exit_cleanup_def thread_exit_cleanup2_def interrupts_enabled_def lift_simps
        del: cleanup_loop.simps cleanup_loop2.simps)
next
  case False
  then show ?thesis
    by (simp add: thread_exit_cleanup_def thread_exit_cleanup2_def interrupts_enabled_def lift_simps)
qed

lemma cleanup_queue: "thread_exit_cleanup2 s = Inr s' \<Longrightarrow> thread_queue2 s' = thread_queue2 s"
  using cleanup_loop_lift [of "nat THREAD_MAX_THREADS" 0 "[]" s]
  by (auto simp: thread_exit_cleanup2_def result_simps split: if_splits)

lemma find_slot_lift: "find_slot n i (lift q s) = find_slot2 n i s"
  by (induction n i s rule: find_slot2.induct) (simp_all add: lift_simps)

lemma push_pair_ok:
  assumes "rq_rep p q" and "valid_tid t" and "fst (malloc (fst p)) \<noteq> NULL"
  shows "\<exists>p'. push_pair p t = Inr p' \<and> rq_rep p' (q @ [t])"
  using push_pair_rq_cases [OF assms(1), of t] push_back_cases [OF assms(2), of "fst p" "snd p"] assms(2,3)
  by (auto simp: push_pair_def push_pair_rq_def)

lemma switch_lift:
  assumes "rq_rep (thread_queue2 s) q"
  shows "agree (switch_to2 cur new s) (switch_to False cur new (lift q s))"
proof (cases "0 \<le> new")
  case True
  define s1 where "s1 = s\<lparr>running_thread_id2 := new\<rparr>"
  define s2 where "s2 = upd_thread2 cur (\<lambda>th. th\<lparr>context2 := Yield_return2 new # context2 th\<rparr>) s1"
  define s3 where "s3 = (if state_of2 s2 new = KILLED2
    then upd_thread2 new (\<lambda>th. th\<lparr>context2 := [At_thread_exit2]\<rparr>) s2 else s2)"
  define st where "st = (if state_of2 s3 cur = EXITED2 then EXITED2 else READY2)"
  have 1: "(lift q s)\<lparr>running_thread_id := new\<rparr> = lift q s1" by (simp add: lift_simps s1_def)
  have 2: "upd_thread cur (\<lambda>th. th\<lparr>ucontext := Yield_return False new # ucontext th,
      context_mask := interrupts (lift q s1)\<rparr>) (lift q s1) = lift q s2"
    unfolding s2_def by (rule lift_upd_thread) (simp add: lift_thread_def lift_simps)
  have 3: "(if state_of (lift q s2) new = KILLED
      then upd_thread new (\<lambda>th. th\<lparr>ucontext := [At_thread_exit]\<rparr>) (lift q s2) else lift q s2) = lift q s3"
    by (auto simp: s3_def lift_simps intro!: lift_upd_thread) (simp add: lift_thread_def)
  have 4: "(if state_of (lift q s3) cur = EXITED \<or> state_of (lift q s3) cur = SLEEPING
      then state_of (lift q s3) cur else READY) = lift_state st"
    by (simp add: st_def lift_simps)
  have "switch_to False cur new (lift q s) = Inr (lift q (set_state2 new RUNNING2 (set_state2 cur st s3)))"
    unfolding switch_to_def Let_def 1 2 3 4 using True
    by (simp add: interrupts_enabled_def lift_simps)
  moreover have "switch_to2 cur new s = Inr (set_state2 new RUNNING2 (set_state2 cur st s3))"
    using True by (simp add: switch_to2_def Let_def s1_def s2_def s3_def st_def)
  moreover have "thread_queue2 s3 = thread_queue2 s" by (simp add: s3_def s2_def s1_def)
  ultimately show ?thesis using assms by (auto simp: agree_def)
qed (simp add: agree_def switch_to_def switch_to2_def)

text \<open>The caller goes on the queue unless it has exited.\<close>

lemma requeue_lift:
  assumes "rq_rep (thread_queue2 s) q" and "valid_tid t"
    and "state_of2 s t \<noteq> EXITED2 \<Longrightarrow> fst (malloc (fst (thread_queue2 s))) \<noteq> NULL"
  obtains p qs where
    "(if state_of2 s t \<noteq> EXITED2 then push_pair (thread_queue2 s) t else Inr (thread_queue2 s)) = Inr p"
    and "rq_rep p qs"
    and "(if state_of (lift q s) t \<noteq> EXITED \<and> state_of (lift q s) t \<noteq> SLEEPING
          then push_q False q t else Inr q) = Inr qs"
    and "qs = (if state_of2 s t \<noteq> EXITED2 then q @ [t] else q)"
  using push_pair_ok [OF assms(1,2)] assms that by (cases "state_of2 s t = EXITED2") (auto simp: lift_simps)

lemma pop_pair_lift:
  assumes "rq_rep p qs"
  obtains p' us r where "pop_pair p = Inr (p', r)" and "pop_q False qs = Inr (us, r)" and "rq_rep p' us"
  using pop_agrees [OF assms] unfolding lab2_is_lab3 by blast

lemma remove_pair_lift:
  assumes "rq_rep p qs"
  obtains p' us b where "remove_pair p t = Inr (p', b)" and "remove_q False qs t = Inr (us, b)" and "rq_rep p' us"
  using remove_agrees [OF assms, of t] unfolding remove_pair_is by blast

lemma yield_lift:
  assumes rep: "rq_rep (thread_queue2 s) q" and v: "valid_tid (running_thread_id2 s)"
    and m: "state_of2 s (running_thread_id2 s) \<noteq> EXITED2 \<Longrightarrow> fst (malloc (fst (thread_queue2 s))) \<noteq> NULL"
  shows "agree (thread_yield2 want s) (thread_yield want (lift q s))"
proof -
  define c where "c = running_thread_id2 s"
  define n where "n = (if want = THREAD_SELF then c else want)"
  obtain p qs where push2: "(if state_of2 s c \<noteq> EXITED2 then push_pair (thread_queue2 s) c
      else Inr (thread_queue2 s)) = Inr p" and rp: "rq_rep p qs"
    and push3: "(if state_of (lift q s) c \<noteq> EXITED \<and> state_of (lift q s) c \<noteq> SLEEPING
      then push_q False q c else Inr q) = Inr qs"
    by (rule requeue_lift [OF rep v [folded c_def]]) (use m in \<open>simp add: c_def\<close>)
  have sw: "agree (switch_to2 c t (s\<lparr>thread_queue2 := p'\<rparr>)) (switch_to False c t (lift us s))"
    if "rq_rep p' us" for p' us t
    using switch_lift [of "s\<lparr>thread_queue2 := p'\<rparr>" us c t] that by (simp add: lift_simps)
  define go where "go \<longleftrightarrow> want = THREAD_ANY \<or> n = c \<or>
    (want \<ge> 0 \<and> want < THREAD_MAX_THREADS \<and> (state_of2 s n = READY2 \<or> state_of2 s n = KILLED2))"
  have y2: "thread_yield2 want s = (if go then
      if want = THREAD_ANY then
        bindE (pop_pair p) (\<lambda>(q1, popped). case popped of None \<Rightarrow> Inl Assertion
          | Some t \<Rightarrow> if t = c then Inr (s\<lparr>thread_queue2 := q1, result2 := THREAD_NONE\<rparr>)
              else switch_to2 c t (s\<lparr>thread_queue2 := q1\<rparr>))
      else bindE (remove_pair p n) (\<lambda>(q1, found). bindE (assertE found) (\<lambda>_.
          switch_to2 c n (s\<lparr>thread_queue2 := q1\<rparr>)))
      else Inr (s\<lparr>result2 := THREAD_INVALID\<rparr>))"
    unfolding thread_yield2_def thread_id2_def Let_def c_def [symmetric] n_def [symmetric]
      go_def [symmetric] push2 by simp
  have go3: "(want = THREAD_ANY \<or> n = c \<or> want \<ge> 0 \<and> want < THREAD_MAX_THREADS \<and>
      (state_of (lift q s) n = READY \<or> state_of (lift q s) n = KILLED)) = go"
    by (simp add: go_def lift_simps)
  have y3: "thread_yield want (lift q s) = (if go then
      if want = THREAD_ANY then
        bindE (pop_q False qs) (\<lambda>(q1, popped). case popped of None \<Rightarrow> Inl Assertion
          | Some t \<Rightarrow> if t = c then Inr (leave False THREAD_NONE (lift q1 s))
              else switch_to False c t (lift q1 s))
      else bindE (remove_q False qs n) (\<lambda>(q1, found). bindE (assertE found) (\<lambda>_.
          switch_to False c n (lift q1 s)))
      else Inr (leave False THREAD_INVALID (lift q s)))"
    unfolding thread_yield_def lift_updates(7) Let_def prod.case lift_fields(1,3,9) thread_id2_def
      c_def [symmetric] n_def [symmetric] go3 push3 lift_updates(2) by simp
  show ?thesis
  proof (cases go)
    case False
    then show ?thesis using rep by (auto simp: y2 y3 agree_def lift_simps)
  next
    case True
    show ?thesis
    proof (cases "want = THREAD_ANY")
      case any: True
      obtain p' us r where "pop_pair p = Inr (p', r)" "pop_q False qs = Inr (us, r)" "rq_rep p' us"
        using rp by (rule pop_pair_lift)
      then show ?thesis using True any sw [of p' us]
        unfolding y2 y3 by (cases r) (auto simp: agree_def lift_simps)
    next
      case tid: False
      obtain p' us b where "remove_pair p n = Inr (p', b)" "remove_q False qs n = Inr (us, b)" "rq_rep p' us"
        using rp by (rule remove_pair_lift)
      then show ?thesis using True tid sw [of p' us n]
        unfolding y2 y3 by (cases b) (simp_all add: agree_def del: remove_q_off)
    qed
  qed
qed

lemma kill_lift:
  assumes rep: "rq_rep (thread_queue2 s) q"
  shows "agree (thread_kill2 tid s) (thread_kill tid (lift q s))"
proof (cases "thread_exit_cleanup2 s")
  case (Inl e)
  then show ?thesis by (simp add: agree_def thread_kill2_def thread_kill_def lift_simps cleanup_lift)
next
  case (Inr s1)
  then show ?thesis using rep cleanup_queue [OF Inr]
    by (auto simp: agree_def thread_kill2_def thread_kill_def lift_simps cleanup_lift Let_def intro!: exI [of _ q])
qed

definition no_node :: "sys2 \<Rightarrow> bool" where
  "no_node s \<longleftrightarrow> fst (malloc (fst (thread_queue2 s))) = NULL"

lemma push_pair_no_node: "valid_tid t \<Longrightarrow> no_node s \<Longrightarrow> push_pair (thread_queue2 s) t = Inl Undefined"
  using push_back_cases [of t "fst (thread_queue2 s)" "snd (thread_queue2 s)"]
  by (auto simp: no_node_def push_pair_def)

lemma yield_lift_any:
  assumes rep: "rq_rep (thread_queue2 s) q" and v: "valid_tid (running_thread_id2 s)"
  shows "no_node s \<and> thread_yield2 want s = Inl Undefined \<or>
    agree (thread_yield2 want s) (thread_yield want (lift q s))"
proof (cases "no_node s \<and> state_of2 s (running_thread_id2 s) \<noteq> EXITED2")
  case False
  then have "agree (thread_yield2 want s) (thread_yield want (lift q s))"
    by (intro yield_lift [OF rep v]) (simp add: no_node_def)
  then show ?thesis ..
next
  case True
  then have p: "push_pair (thread_queue2 s) (running_thread_id2 s) = Inl Undefined"
    using push_pair_no_node [OF v] by blast
  define n where "n = (if want = THREAD_SELF then running_thread_id2 s else want)"
  show ?thesis
  proof (cases "want = THREAD_ANY \<or> n = running_thread_id2 s \<or> (want \<ge> 0 \<and> want < THREAD_MAX_THREADS \<and>
      (state_of2 s n = READY2 \<or> state_of2 s n = KILLED2))")
    case go: True
    have "thread_yield2 want s = Inl Undefined"
      unfolding thread_yield2_def thread_id2_def Let_def n_def [symmetric] if_P [OF go] using True p by simp
    with True show ?thesis by simp
  next
    case stop: False
    then have s2: "\<not> (want = THREAD_ANY \<or> n = running_thread_id (lift q s) \<or> (want \<ge> 0 \<and> want < THREAD_MAX_THREADS \<and>
        (state_of (lift q s) n = READY \<or> state_of (lift q s) n = KILLED)))"
      by (simp add: lift_simps)
    have "thread_yield2 want s = Inr (s\<lparr>result2 := THREAD_INVALID\<rparr>)"
      unfolding thread_yield2_def thread_id2_def Let_def n_def [symmetric] by (rule if_not_P [OF stop])
    moreover have "n = (if want = THREAD_SELF then running_thread_id (lift q s) else want)"
      by (simp add: n_def lift_simps)
    then have "thread_yield want (lift q s) = Inr (leave False THREAD_INVALID (lift q s))"
      unfolding thread_yield_def lift_updates(7) Let_def prod.case thread_id_def n_def
      using s2 by (intro if_not_P) (simp add: n_def lift_simps)
    ultimately show ?thesis using rep by (auto simp: agree_def lift_simps)
  qed
qed

lemma create_lift:
  assumes rep: "rq_rep (thread_queue2 s) q"
  shows "no_node s \<and> thread_create2 fn parg s = Inl Undefined \<or>
    agree (thread_create2 fn parg s) (thread_create fn parg (lift q s))"
proof (cases "thread_exit_cleanup2 s")
  case (Inl e)
  then show ?thesis by (simp add: agree_def thread_create2_def thread_create_def lift_simps cleanup_lift)
next
  case c: (Inr s1)
  have tq: "thread_queue2 s1 = thread_queue2 s" using cleanup_queue [OF c] .
  have c3: "thread_exit_cleanup (lift q s) = Inr (lift q s1)" by (simp add: cleanup_lift c)
  show ?thesis
  proof (cases "find_slot2 (nat THREAD_MAX_THREADS) 0 s1")
    case None
    then show ?thesis using c c3 rep tq
      by (auto simp: agree_def thread_create2_def thread_create_def lift_simps find_slot_lift intro!: exI [of _ q])
  next
    case (Some i)
    have v: "valid_tid i" using find_slot_valid [of "lift q s1"] Some by (simp add: find_slot_lift)
    obtain stack h where st: "malloc (stacks2 s1) = (stack, h)" by (cases "malloc (stacks2 s1)")
    define s2 where "s2 = set_state2 i READY2 s1"
    have u2: "upd_thread i (\<lambda>th. th\<lparr>state := READY, context_mask := False\<rparr>) (lift q s1) = lift q s2"
      unfolding s2_def set_state2_def by (rule lift_upd_thread) (simp add: lift_thread_def)
    have m2: "malloc (stacks2 s2) = (stack, h)" by (simp add: st s2_def)
    show ?thesis
    proof (cases "stack = NULL")
      case True
      have "thread_create2 fn parg s = Inr ((set_state2 i NOT_INITIALIZED2 (s2\<lparr>stacks2 := h\<rparr>))\<lparr>result2 := THREAD_NOMEMORY\<rparr>)"
        using c Some m2 True by (simp add: thread_create2_def s2_def)
      moreover have "thread_create fn parg (lift q s) =
          Inr (lift q ((set_state2 i NOT_INITIALIZED2 (s2\<lparr>stacks2 := h\<rparr>))\<lparr>result2 := THREAD_NOMEMORY\<rparr>))"
        using c3 Some m2 True by (simp add: thread_create_def lift_simps find_slot_lift u2)
      ultimately show ?thesis using rep tq by (auto simp: agree_def s2_def)
    next
      case False
      define s4 where "s4 = upd_thread2 i (\<lambda>th. th\<lparr>orig_stack_begin2 := stack\<rparr>) (s2\<lparr>stacks2 := h\<rparr>)"
      define s5 where "s5 = upd_thread2 i (\<lambda>th. th\<lparr>context2 := [At_stub2 fn parg]\<rparr>) s4"
      have u4: "upd_thread i (\<lambda>th. th\<lparr>orig_stack_begin := stack\<rparr>) (lift q (s2\<lparr>stacks2 := h\<rparr>)) = lift q s4"
        unfolding s4_def by (rule lift_upd_thread) (simp add: lift_thread_def)
      have u5: "upd_thread i (\<lambda>th. th\<lparr>ucontext := [At_stub fn parg]\<rparr>) (lift q s4) = lift q s5"
        unfolding s5_def by (rule lift_upd_thread) (simp add: lift_thread_def)
      have tq5: "thread_queue2 s5 = thread_queue2 s" by (simp add: s5_def s4_def s2_def tq)
      have ok: "rip_addr_ok (ptr_value stack)"
        by (rule rip_addr_ok_always) (simp add: ptr_value_def split: ptr.split)
      show ?thesis
      proof (cases "no_node s")
        case True
        then show ?thesis using push_pair_no_node [OF v] c Some m2 False ok tq5 [unfolded s5_def s4_def s2_def]
          by (simp add: thread_create2_def s5_def s4_def s2_def)
      next
        case node: False
      obtain p where p: "push_pair (thread_queue2 s) i = Inr p" "rq_rep p (q @ [i])"
        using push_pair_ok [OF rep v] node by (auto simp: no_node_def)
      have "thread_create2 fn parg s = Inr (s5\<lparr>thread_queue2 := p, result2 := i\<rparr>)"
        using c Some m2 False ok p(1) tq5 [unfolded s5_def s4_def s2_def]
        by (simp add: thread_create2_def s5_def s4_def s2_def)
      moreover have "thread_create fn parg (lift q s) = Inr (lift (q @ [i]) (s5\<lparr>result2 := i\<rparr>))"
        using c3 Some m2 False ok v by (simp add: thread_create_def lift_simps find_slot_lift u2 u4 u5)
      ultimately show ?thesis using p(2) by (auto simp: agree_def lift_simps)
      qed
    qed
  qed
qed

text \<open>
  Lab 3 reaps the exited threads first in \<open>thread_exit\<close>, Lab 2 does not; and the wake-up of
  the threads that wait, of which there are none, leaves its count in \<open>result\<close>. The call of
  \<open>thread_yield\<close> is a step of its own in Lab 3, since a signal can come before it.
\<close>

lemma wakeup_nobody:
  assumes "valid_tid t"
  shows "thread_wakeup (WQ_thread t) 1 (lift q s) = Inr (lift q (s\<lparr>result2 := 0\<rparr>))"
  using assms by (simp add: thread_wakeup_def lift_simps get_wq_def lift_thread_def wq_threads_def)

lemma exit_lift:
  assumes rep: "rq_rep (thread_queue2 s) q" and v: "valid_tid (running_thread_id2 s)"
  shows "agree (bindE (thread_exit_cleanup2 s) (\<lambda>s1. thread_exit2 (s1\<lparr>result2 := 0\<rparr>)))
    (bindE (thread_exit (lift q s)) (\<lambda>s1. resume Exit_yield (pop_frame s1)))"
proof (cases "thread_exit_cleanup2 s")
  case (Inl e)
  then show ?thesis by (simp add: agree_def thread_exit_def lift_simps cleanup_lift)
next
  case c: (Inr s1)
  define r where "r = running_thread_id2 s"
  define x where "x = (set_state2 r EXITED2 s1)\<lparr>cleanup_needs_to_run2 := True, result2 := 0\<rparr>"
  define y where "y = push_frame2 After_exit2 x"
  have c3: "thread_exit_cleanup (lift q s) = Inr (lift q s1)" by (simp add: cleanup_lift c)
  have r1: "running_thread_id2 s1 = r"
    using thread_exit_cleanup_effect(2) [OF c3] by (simp add: lift_simps r_def)
  have x2: "(set_state2 r EXITED2 (s1\<lparr>result2 := 0\<rparr>))\<lparr>cleanup_needs_to_run2 := True\<rparr> = x"
    by (simp add: x_def set_state2_def upd_thread2_def)
  have tq: "thread_queue2 x = thread_queue2 s" by (simp add: x_def cleanup_queue [OF c])
  have e: "queue_empty (snd (thread_queue2 s)) \<longleftrightarrow> q = []"
    using rep by (auto simp: rq_rep_def queue_empty_def queue_rep_head_NULL queue_rep_tail_NULL empty_queue_def)
  have t2: "thread_exit2 (s1\<lparr>result2 := 0\<rparr>) =
      (if q \<noteq> [] then thread_yield2 THREAD_ANY y else Inl (Exit_with 0))"
    using x2 tq e by (simp add: thread_exit2_def thread_id2_def r1 y_def)
  have "thread_wakeup (WQ_thread r) 1 (lift q ((set_state2 r EXITED2 s1)\<lparr>cleanup_needs_to_run2 := True\<rparr>)) =
      Inr (lift q x)"
    using wakeup_nobody [of r] v by (simp add: r_def x_def)
  then have t3: "thread_exit (lift q s) =
      (if q \<noteq> [] then Inr (push_frame Exit_yield (lift q x)) else Inl (Exit_with 0))"
    using c3 by (simp add: thread_exit_def lift_simps thread_id2_def r_def)
  have "pop_frame (push_frame Exit_yield (lift q x)) = lift q x"
    by (simp add: pop_frame_def push_frame_def upd_thread_def)
  then have "resume Exit_yield (pop_frame (push_frame Exit_yield (lift q x))) = thread_yield THREAD_ANY (lift q y)"
    using lift_push_frame [of After_exit2 q x] by (simp add: resume_def y_def)
  then have x3: "bindE (thread_exit (lift q s)) (\<lambda>s1. resume Exit_yield (pop_frame s1)) =
      (if q \<noteq> [] then thread_yield THREAD_ANY (lift q y) else Inl (Exit_with 0))"
    by (simp add: t3)
  have "agree (thread_yield2 THREAD_ANY y) (thread_yield THREAD_ANY (lift q y))"
  proof (rule yield_lift)
    show "rq_rep (thread_queue2 y) q" using rep tq by (simp add: y_def)
    show "valid_tid (running_thread_id2 y)" using v r1 by (simp add: y_def x_def r_def)
    have "state_of2 y (running_thread_id2 y) = EXITED2"
      using r1 by (simp add: y_def x_def state_of2_def push_frame2_def set_state2_def upd_thread2_def)
    then show "fst (malloc (fst (thread_queue2 y))) \<noteq> NULL"
      if "state_of2 y (running_thread_id2 y) \<noteq> EXITED2" using that by simp
  qed
  then show ?thesis unfolding c bindE_Inr t2 x3 by (cases "q = []") (simp_all add: agree_def)
qed

end
