(* ===== verification/Lab2_Reach.thy ===== *)
theory Lab2_Reach
  imports Lab2_Lab3
begin

text \<open>
  The reachable states of the Lab 2 library. Its invariant is the Lab 3 invariant of the
  lifted state, with two facts that Lab 3 does not have: a killed thread is in the ready
  queue, since nothing sleeps, and the \<open>assert(0)\<close> behind \<open>thread_yield\<close> in
  \<open>thread_exit\<close> is not ahead of any thread that can still run.
\<close>

definition tidy :: "sys \<Rightarrow> bool" where
  "tidy s \<longleftrightarrow> (\<forall>t. valid_tid t \<longrightarrow>
     (state_of s t = KILLED \<longrightarrow> t \<in> set (thread_queue s)) \<and>
     (state_of s t \<in> {RUNNING, READY, KILLED} \<longrightarrow> After_exit \<notin> set (frames_of s t)))"

lemma tidyI:
  assumes "\<And>t. valid_tid t \<Longrightarrow> state_of s t = KILLED \<Longrightarrow> t \<in> set (thread_queue s)"
    and "\<And>t. valid_tid t \<Longrightarrow> state_of s t \<in> {RUNNING, READY, KILLED} \<Longrightarrow> After_exit \<notin> set (frames_of s t)"
  shows "tidy s"
  using assms by (simp add: tidy_def)

lemma tidyD:
  assumes "tidy s" and "valid_tid t"
  shows "state_of s t = KILLED \<Longrightarrow> t \<in> set (thread_queue s)"
    and "state_of s t \<in> {RUNNING, READY, KILLED} \<Longrightarrow> After_exit \<notin> set (frames_of s t)"
  using assms by (auto simp: tidy_def)

lemma tidy_upd [sys_simps]:
  "tidy (s\<lparr>interrupts := b\<rparr>) = tidy s" "tidy (leave b v s) = tidy s"
  by (simp_all add: tidy_def sys_simps)

lemma switch_to_unfinished:
  assumes "switch_to prev cur new s = Inr s'"
  shows "frames_of s' t = (if t = new \<and> state_of s new = KILLED then [At_thread_exit]
    else if t = cur then Yield_return prev new # frames_of s cur else frames_of s t)"
  using assms
  by (auto simp: switch_to_def Let_def result_simps sys_simps frames_of_def set_state_def split: if_splits)

lemma switch_tidy:
  assumes sw: "switch_to prev cur new (s\<lparr>interrupts := b, thread_queue := q\<rparr>) = Inr s'" and tidy: "tidy s"
    and cur: "state_of s cur = RUNNING \<or> state_of s cur = EXITED" and new: "state_of s new \<in> {RUNNING, READY, KILLED}"
    and q: "\<And>t. t \<in> set (thread_queue s) \<Longrightarrow> t \<noteq> new \<Longrightarrow> t \<in> set q"
  shows "tidy s'"
proof (rule tidyI)
  note e = switch_to_effect [OF sw] and fr = switch_to_unfinished [OF sw]
  show "t \<in> set (thread_queue s')" if "valid_tid t" "state_of s' t = KILLED" for t
    using that tidyD(1) [OF tidy that(1)] q [of t] cur by (auto simp: e sys_simps split: if_splits)
  show "After_exit \<notin> set (frames_of s' t)" if "valid_tid t" "state_of s' t \<in> {RUNNING, READY, KILLED}" for t
    using that tidyD(2) [OF tidy that(1)] cur new by (auto simp: e fr sys_simps split: if_splits)
qed

section \<open>The operations on tidy states\<close>

lemma yield_tidy:
  assumes a: "active s" and t: "tidy s" and y: "thread_yield want s = Inr s'"
  shows "tidy s'"
  using a y
proof (cases rule: yield_cases)
  case (stay v)
  then show ?thesis using t by (simp add: sys_simps)
next
  case (switch n)
  have "state_of s n \<in> {RUNNING, READY, KILLED}"
    using switch(1) core_queued [OF activeD(1) [OF a], of n] activeD(3) [OF a] by auto
  then show ?thesis
    by (rule switch_tidy [OF switch(4) t disjI1 [OF activeD(3) [OF a]]]) (auto simp: in_set_remove1)
qed

lemma yield_total:
  assumes a: "active s" and t: "tidy s"
  shows "\<exists>s'. thread_yield want s = Inr s'"
proof (cases "want = THREAD_ANY")
  case any: True
  show ?thesis
  proof (cases "thread_queue s")
    case Nil
    then show ?thesis using yield_any_empty [OF activeD(3,4) [OF a]] any by simp
  next
    case (Cons u q)
    have u: "valid_tid u" "u \<noteq> running_thread_id s" using core_queued [OF activeD(1) [OF a], of u] Cons by auto
    then show ?thesis
      unfolding any yield_any_switch [OF activeD(3,4) [OF a] Cons u(2)]
      by (intro switch_to_succeeds) (simp_all add: valid_tid_def)
  qed
next
  case tid: False
  show ?thesis
  proof (cases "can_yield_to want s")
    case False
    then show ?thesis using yield_tid_invalid [OF tid] by simp
  next
    case True
    have n: "target want s \<in> set (thread_queue s @ [running_thread_id s])" "valid_tid (target want s)"
      using True core_READY [OF activeD(1) [OF a]] tidyD(1) [OF t] activeD(4) [OF a]
      by (auto simp: can_yield_to_def target_def split: if_splits)
    then show ?thesis
      unfolding yield_tid_eq [OF tid True activeD(3,4) [OF a]]
      by (simp add: switch_to_succeeds valid_tid_def)
  qed
qed

lemma exited_yield_tidy:
  assumes c: "sched_core s" and e: "state_of s (running_thread_id s) = EXITED"
    and q: "thread_queue s = u # q" and t: "tidy s"
  shows "\<exists>s'. thread_yield THREAD_ANY s = Inr s' \<and> tidy s'"
proof -
  have core: "core_inv (running_thread_id s) (u # q) (state_of s) (sleepers s)"
    using c q by (simp add: sched_core_def)
  have u: "valid_tid u" "u \<noteq> running_thread_id s" "state_of s u \<in> {RUNNING, READY, KILLED}"
    using core_queued [OF core, of u] by auto
  obtain s' where sw: "switch_to (interrupts s) (running_thread_id s) u
      (s\<lparr>interrupts := False, thread_queue := q\<rparr>) = Inr s'"
    using switch_to_succeeds u(1) by (fastforce simp: valid_tid_def)
  then have "thread_yield THREAD_ANY s = Inr s'"
    using yield_any_leave [OF _ q u(2)] e by simp
  moreover have "tidy s'"
    by (rule switch_tidy [OF sw t disjI2 [OF e] u(3)]) (use q in auto)
  ultimately show ?thesis by blast
qed

lemma cleanup_tidy: "thread_exit_cleanup s = Inr s' \<Longrightarrow> tidy s \<Longrightarrow> tidy s'"
  using thread_exit_cleanup_effect [of s s'] by (fastforce simp: tidy_def)

lemma create_tidy:
  assumes k: "thread_create fn parg s = Inr s'" and t: "tidy s"
  shows "tidy s'"
proof -
  have c: "thread_exit_cleanup (s\<lparr>interrupts := False\<rparr>) = Inr s1 \<Longrightarrow> tidy s1" for s1
    using cleanup_tidy t by (simp add: sys_simps)
  from k show ?thesis
  proof (cases rule: thread_create_cases)
    case (full s1)
    then show ?thesis using c by (simp add: sys_simps)
  next
    case (no_memory s1 i s2)
    then show ?thesis using c [OF no_memory(1)] by (simp add: sys_simps tidy_def same_view_def)
  next
    case (ok s1 i s2)
    then show ?thesis using c [OF ok(1)] by (simp add: sys_simps tidy_def)
  qed
qed

lemma kill_tidy:
  assumes a: "active s" and t: "tidy s" and awake: "state_of s tid \<noteq> SLEEPING" and k: "thread_kill tid s = Inr s'"
  shows "tidy s'"
proof -
  obtain s1 where c: "thread_exit_cleanup (s\<lparr>interrupts := False\<rparr>) = Inr s1"
    and s': "s' = leave (interrupts s) THREAD_INVALID s1 \<or>
      (valid_tid tid \<and> tid \<noteq> running_thread_id s1 \<and> state_of s1 tid \<noteq> NOT_INITIALIZED \<and>
       s' = leave (interrupts s) tid (set_state tid KILLED s1))"
    using k by (auto simp: thread_kill_def set_simps result_simps Let_def valid_tid_def split: if_splits)
  have a0: "active (s\<lparr>interrupts := False\<rparr>)" using a by (simp add: sys_simps)
  note a1 = cleanup_active [OF a0 c]
  have t1: "tidy s1" using cleanup_tidy [OF c] t by (simp add: sys_simps)
  show ?thesis
  proof (cases "s' = leave (interrupts s) THREAD_INVALID s1")
    case True
    then show ?thesis using t1 by (simp add: sys_simps)
  next
    case False
    with s' have v: "valid_tid tid" "tid \<noteq> running_thread_id s1" "state_of s1 tid \<noteq> NOT_INITIALIZED"
      and s'': "s' = leave (interrupts s) tid (set_state tid KILLED s1)" by auto
    have "state_of s1 tid \<noteq> SLEEPING"
      using awake thread_exit_cleanup_effect(11) [OF c, of tid] by (simp add: sys_simps)
    then have "state_of s1 tid \<in> {READY, KILLED}"
      using v a1(2) [OF v(1)] core_RUNNING [OF activeD(1) [OF a1(1)] v(1)] by (cases "state_of s1 tid") auto
    then have "tid \<in> set (thread_queue s1)" "After_exit \<notin> set (frames_of s1 tid)"
      using core_READY [OF activeD(1) [OF a1(1)] v(1)] tidyD [OF t1 v(1)] by auto
    then have "tidy (set_state tid KILLED s1)"
      using t1 by (auto simp: tidy_def sys_simps)
    then show ?thesis by (simp add: s'' sys_simps)
  qed
qed

section \<open>The invariant of Lab 2\<close>

definition coop_inv :: "sys2 \<Rightarrow> bool" where
  "coop_inv s \<longleftrightarrow> (\<exists>q. rq_rep (thread_queue2 s) q \<and> active (lift q s) \<and> stack_inv (lift q s) \<and> tidy (lift q s))"

lemma coop_invI:
  "rq_rep (thread_queue2 s) q \<Longrightarrow> active (lift q s) \<Longrightarrow> stack_inv (lift q s) \<Longrightarrow> tidy (lift q s) \<Longrightarrow> coop_inv s"
  by (auto simp: coop_inv_def)

lemma coop_invE:
  assumes "coop_inv s"
  obtains q where "rq_rep (thread_queue2 s) q" and "active (lift q s)" and "stack_inv (lift q s)"
    and "tidy (lift q s)" and "valid_tid (running_thread_id2 s)"
  using assms activeD(4) by (fastforce simp: coop_inv_def lift_simps)

text \<open>A Lab 2 answer that agrees with a Lab 3 answer that keeps everything.\<close>

lemma coop_agree:
  assumes "agree r2 r3" and "\<And>s3. r3 = Inr s3 \<Longrightarrow> active s3 \<and> stack_inv s3 \<and> tidy s3" and "r2 = Inr s'"
  shows "coop_inv s'"
  using assms by (auto simp: agree_def intro: coop_invI)

lemma lift_result [simp]:
  "active (lift q (s\<lparr>result2 := v\<rparr>)) = active (lift q s)"
  "stack_inv (lift q (s\<lparr>result2 := v\<rparr>)) = stack_inv (lift q s)"
  "tidy (lift q (s\<lparr>result2 := v\<rparr>)) = tidy (lift q s)"
proof -
  have l: "lift q (s\<lparr>result2 := v\<rparr>) = leave False v (lift q s)" by (simp add: lift_simps)
  show "active (lift q (s\<lparr>result2 := v\<rparr>)) = active (lift q s)" "tidy (lift q (s\<lparr>result2 := v\<rparr>)) = tidy (lift q s)"
    by (simp_all add: l sys_simps)
  show "stack_inv (lift q (s\<lparr>result2 := v\<rparr>)) = stack_inv (lift q s)"
    unfolding l by (rule keeps_stack_inv) (simp add: sys_simps)
qed

lemma coop_result: "coop_inv s \<Longrightarrow> coop_inv (s\<lparr>result2 := v\<rparr>)"
  by (auto simp: coop_inv_def)

lemma lift_pop_frame: "lift q (pop_frame2 s) = pop_frame (lift q s)"
  unfolding pop_frame_def pop_frame2_def lift_fields
  by (rule lift_upd_thread [symmetric]) (simp add: lift_thread_def map_tl)

lemma coop_pop_frame:
  assumes "coop_inv s"
  shows "coop_inv (pop_frame2 s)"
proof -
  obtain q where q: "rq_rep (thread_queue2 s) q" "active (lift q s)" "stack_inv (lift q s)" "tidy (lift q s)"
    using assms by (rule coop_invE)
  have "tidy (pop_frame (lift q s))"
  proof (rule tidyI)
    show "valid_tid t \<Longrightarrow> state_of (pop_frame (lift q s)) t = KILLED \<Longrightarrow> t \<in> set (thread_queue (pop_frame (lift q s)))" for t
      using tidyD(1) [OF q(4)] by (simp add: sys_simps)
    have sub: "set (frames_of (pop_frame (lift q s)) t) \<subseteq> set (frames_of (lift q s) t)" for t
      by (cases "frames_of (lift q s) t") (auto simp: sys_simps)
    show "valid_tid t \<Longrightarrow> state_of (pop_frame (lift q s)) t \<in> {RUNNING, READY, KILLED} \<Longrightarrow>
        After_exit \<notin> set (frames_of (pop_frame (lift q s)) t)" for t
      using tidyD(2) [OF q(4), of t] sub [of t] by (auto simp: sys_simps)
  qed
  then show ?thesis
    using q same_view_active [of "lift q s" "pop_frame (lift q s)"] keeps_stack_inv [of "lift q s" "pop_frame (lift q s)"]
    by (intro coop_invI [of _ q])
      (simp_all add: lift_pop_frame sys_simps, simp_all add: pop_frame2_def)
qed

section \<open>Every call\<close>

lemma coop_yield:
  assumes "coop_inv s"
  shows "(\<exists>s'. thread_yield2 want s = Inr s' \<and> coop_inv s') \<or> no_node s \<and> thread_yield2 want s = Inl Undefined"
proof -
  obtain q where q: "rq_rep (thread_queue2 s) q" "active (lift q s)" "stack_inv (lift q s)" "tidy (lift q s)"
    and v: "valid_tid (running_thread_id2 s)" using assms by (rule coop_invE)
  obtain s3 where y: "thread_yield want (lift q s) = Inr s3" using yield_total [OF q(2,4)] by blast
  have "active s3 \<and> stack_inv s3 \<and> tidy s3"
    using yield_active [OF q(2) y] keeps_stack_inv [OF yield_keeps [OF q(2) y]] q(3) yield_tidy [OF q(2,4) y] by simp
  then have "\<exists>s'. thread_yield2 want s = Inr s' \<and> coop_inv s'"
    if "agree (thread_yield2 want s) (thread_yield want (lift q s))"
    using that coop_agree [OF that] y by (cases "thread_yield2 want s") (auto simp: agree_def)
  then show ?thesis using yield_lift_any [OF q(1) v, of want] by blast
qed

lemma coop_create:
  assumes "coop_inv s"
  shows "(\<exists>s'. thread_create2 fn parg s = Inr s' \<and> coop_inv s') \<or> no_node s \<and> thread_create2 fn parg s = Inl Undefined"
proof -
  obtain q where q: "rq_rep (thread_queue2 s) q" "active (lift q s)" "stack_inv (lift q s)" "tidy (lift q s)"
    using assms by (rule coop_invE)
  obtain s3 where y: "thread_create fn parg (lift q s) = Inr s3" "stack_inv s3"
    using thread_create_stacks [OF q(2,3)] by blast
  have "active s3 \<and> stack_inv s3 \<and> tidy s3"
    using thread_create_active [OF q(2) y(1)] y(2) create_tidy [OF y(1) q(4)] by simp
  then have "\<exists>s'. thread_create2 fn parg s = Inr s' \<and> coop_inv s'"
    if "agree (thread_create2 fn parg s) (thread_create fn parg (lift q s))"
    using that coop_agree [OF that] y by (cases "thread_create2 fn parg s") (auto simp: agree_def)
  then show ?thesis using create_lift [OF q(1), of fn parg] by blast
qed

lemma coop_kill:
  assumes "coop_inv s"
  shows "\<exists>s'. thread_kill2 tid s = Inr s' \<and> coop_inv s'"
proof -
  obtain q where q: "rq_rep (thread_queue2 s) q" "active (lift q s)" "stack_inv (lift q s)" "tidy (lift q s)"
    using assms by (rule coop_invE)
  obtain s1 where "thread_exit_cleanup (lift q s) = Inr s1"
    using cleanup_total [OF q(3)] by (auto simp: lift_simps)
  then have "\<exists>s3. thread_kill tid (lift q s) = Inr s3"
    by (simp add: thread_kill_def lift_simps Let_def)
  then obtain s3 where y: "thread_kill tid (lift q s) = Inr s3" ..
  have "active s3 \<and> stack_inv s3 \<and> tidy s3"
    using thread_kill_active [OF q(2) y] thread_kill_stacks [OF q(2,3) y] kill_tidy [OF q(2,4) _ y]
    by (simp add: lift_simps)
  then show ?thesis using coop_agree [OF kill_lift [OF q(1), of tid]] kill_lift [OF q(1), of tid] y
    by (cases "thread_kill2 tid s") (auto simp: agree_def)
qed

text \<open>\<open>thread_exit\<close>: the next thread runs, or the program ends because nobody is left.\<close>

lemma coop_exit:
  assumes "coop_inv s"
  shows "(\<exists>s'. thread_exit2 s = Inr s' \<and> coop_inv s' \<and> running_thread_id2 s' \<noteq> running_thread_id2 s) \<or>
    thread_exit2 s = Inl (Exit_with 0) \<and> queue_empty (snd (thread_queue2 s))"
proof -
  obtain q where q: "rq_rep (thread_queue2 s) q" "active (lift q s)" "stack_inv (lift q s)" "tidy (lift q s)"
    and v: "valid_tid (running_thread_id2 s)" using assms by (rule coop_invE)
  define r where "r = running_thread_id2 s"
  define x where "x = (set_state2 r EXITED2 s)\<lparr>cleanup_needs_to_run2 := True\<rparr>"
  define y where "y = push_frame2 After_exit2 x"
  have e: "queue_empty (snd (thread_queue2 s)) \<longleftrightarrow> q = []"
    using q(1) by (auto simp: rq_rep_def queue_empty_def queue_rep_head_NULL queue_rep_tail_NULL empty_queue_def)
  have t2: "thread_exit2 s = (if q \<noteq> [] then thread_yield2 THREAD_ANY y else Inl (Exit_with 0))"
    using e by (simp add: thread_exit2_def thread_id2_def x_def y_def r_def)
  show ?thesis
  proof (cases q)
    case Nil
    then show ?thesis using t2 e by simp
  next
    case (Cons u us)
    define z where "z = (set_state r EXITED (lift q s))\<lparr>thread_exit_cleanup_needs_to_run := True\<rparr>"
    have lz: "lift q x = z" by (simp add: x_def z_def lift_simps)
    have ly: "lift q y = push_frame After_exit z"
      using lift_push_frame [of After_exit2 q x] by (simp add: y_def lz)
    have run: "running_thread_id z = r" by (simp add: z_def r_def sys_simps lift_simps)
    have fr: "state_of z = (state_of (lift q s))(r := EXITED)" "thread_queue z = q"
      "frames_of z = frames_of (lift q s)" "sleepers z = sleepers (lift q s)" "policies z = policies (lift q s)"
      by (simp_all add: z_def sys_simps lift_simps(1))
    have ry: "rq_rep (thread_queue2 y) q" "running_thread_id2 y = r" "state_of2 y r = EXITED2"
      using q(1) by (simp_all add: y_def x_def r_def state_of2_def push_frame2_def set_state2_def upd_thread2_def)
    have "sched_core z"
      using core_exit [OF activeD(1) [OF q(2)]] activeD(2) [OF q(2)] env_ok_policies [of z "lift q s"] fr run
      by (simp add: sched_core_def lift_simps(1,2) r_def z_def)
    then have core: "sched_core (lift q y)" by (simp add: ly sys_simps)
    have ex: "state_of (lift q y) (running_thread_id (lift q y)) = EXITED" by (simp add: lift_simps ry)
    have tidy: "tidy (lift q y)"
    proof (rule tidyI)
      fix t assume t: "valid_tid t"
      show "state_of (lift q y) t = KILLED \<Longrightarrow> t \<in> set (thread_queue (lift q y))"
        using tidyD(1) [OF q(4) t] by (simp add: ly sys_simps fr lift_simps(1) split: if_splits)
      show "state_of (lift q y) t \<in> {RUNNING, READY, KILLED} \<Longrightarrow> After_exit \<notin> set (frames_of (lift q y) t)"
        using tidyD(2) [OF q(4) t] by (auto simp: ly sys_simps fr run split: if_splits)
    qed
    have qy: "thread_queue (lift q y) = u # us" using Cons by (simp add: lift_simps)
    obtain s3 where s3: "thread_yield THREAD_ANY (lift q y) = Inr s3" "tidy s3"
      using exited_yield_tidy [OF core ex qy tidy] by blast
    have "keeps (lift q s) (lift q y)"
      using activeD(3) [OF q(2)] by (auto simp: ly z_def keeps_def sys_simps lift_simps(2) r_def)
    then have "stack_inv (lift q y)" using q(3) keeps_stack_inv by blast
    then have ok: "active s3 \<and> stack_inv s3 \<and> tidy s3"
      using yield_exited_active [OF core ex qy s3(1)] keeps_stack_inv [OF yield_exited_keeps [OF core ex qy s3(1)]] s3(2)
      by simp
    have ag: "agree (thread_yield2 THREAD_ANY y) (thread_yield THREAD_ANY (lift q y))"
      by (rule yield_lift) (use ry v in \<open>simp_all add: r_def\<close>)
    then obtain s' q' where s': "thread_yield2 THREAD_ANY y = Inr s'" "s3 = lift q' s'" "rq_rep (thread_queue2 s') q'"
      using s3(1) by (cases "thread_yield2 THREAD_ANY y") (auto simp: agree_def)
    have "coop_inv s'" using ok s' by (auto intro: coop_invI)
    moreover have "running_thread_id2 s' \<noteq> r"
    proof -
      have u: "u \<noteq> r" using core_queued [OF activeD(1) [OF q(2)], of u] Cons by (auto simp: lift_simps(1,2) r_def)
      then have "thread_yield THREAD_ANY (lift q y) = switch_to False r u ((lift q y)\<lparr>interrupts := False, thread_queue := us\<rparr>)"
        using yield_any_leave [OF _ qy] ex ry(2) by (simp add: lift_simps(2,3))
      then have "running_thread_id s3 = u" using s3(1) switch_to_effect(1) by metis
      then show ?thesis using u by (simp add: s' lift_simps(2))
    qed
    ultimately show ?thesis using t2 Cons s'(1) by (simp add: r_def)
  qed
qed

section \<open>The process\<close>

lemma init_loop_lift: "lift q (init_loop2 n i s) = init_loop n i (lift q s)"
proof (induction n i s rule: init_loop2.induct)
  case (2 n i s)
  have "upd_thread i (\<lambda>th. th\<lparr>orig_stack_begin := NULL, state := NOT_INITIALIZED\<rparr>) (lift q s) =
      lift q (upd_thread2 i (\<lambda>th. th\<lparr>orig_stack_begin2 := NULL, state2 := NOT_INITIALIZED2\<rparr>) s)"
    by (rule lift_upd_thread) (simp add: lift_thread_def)
  then show ?case using 2 by simp
qed simp

definition boot2 where
  "boot2 pn ps = thread_init2 (zero_sys2 (zero_heap pn) (zero_heap ps))"

lemma lift_boot: "lift [] (boot2 pn ps) = boot ps (\<lambda>_ _. None) (\<lambda>_ _. None) (\<lambda>_ _. None) False"
proof -
  define s where "s = init_loop2 (nat THREAD_MAX_THREADS) 0 (zero_sys2 (zero_heap pn) (zero_heap ps))"
  have "lift [] (zero_sys2 (zero_heap pn) (zero_heap ps)) =
      zero_sys ps (\<lambda>_ _. None) (\<lambda>_ _. None) (\<lambda>_ _. None) False"
    by (simp add: lift_def zero_sys2_def zero_sys_def zero_thread_def lift_thread_def)
  then have s: "lift [] s = init_loop (nat THREAD_MAX_THREADS) 0 (zero_sys ps (\<lambda>_ _. None) (\<lambda>_ _. None) (\<lambda>_ _. None) False)"
    by (simp add: s_def init_loop_lift)
  have m: "upd_thread 0 (\<lambda>th. th\<lparr>context_mask := False\<rparr>) (lift [] s) = lift [] s"
    by (auto simp: upd_thread_def lift_def lift_thread_def)
  show ?thesis
    unfolding boot_def thread_init_def boot2_def thread_init2_def Let_def s [symmetric] s_def [symmetric]
    using m by (simp add: lift_simps)
qed

lemma boot2_queue: "thread_queue2 (boot2 pn ps) = (zero_heap pn, empty_queue)"
proof -
  have "thread_queue2 (init_loop2 n i s) = thread_queue2 s" for n i s
    by (induction n i s rule: init_loop2.induct) simp_all
  then show ?thesis by (simp add: boot2_def thread_init2_def zero_sys2_def)
qed

lemma boot2_inv:
  assumes "fresh_policy pn" and "fresh_policy ps"
  shows "coop_inv (boot2 pn ps)"
proof (rule coop_invI)
  show "rq_rep (thread_queue2 (boot2 pn ps)) []"
    using assms(1) by (simp add: boot2_queue rq_rep_def zero_heap_def)
  show "active (lift [] (boot2 pn ps))" unfolding lift_boot
    using assms(2) by (intro boot_active) (simp add: good_malloc_def fresh_policy_def)
  show "stack_inv (lift [] (boot2 pn ps))" unfolding lift_boot by (rule boot_stacks)
  show "tidy (lift [] (boot2 pn ps))" unfolding lift_boot by (simp add: tidy_def boot_effect)
qed

lemma coop_step:
  assumes i: "coop_inv s" and a: "enabled2 s a"
  shows "(\<exists>s'. step2 a s = Inr s' \<and> coop_inv s') \<or>
    step2 a s = Inl (Exit_with 0) \<and> queue_empty (snd (thread_queue2 s)) \<or>
    step2 a s = Inl Undefined \<and> no_node s"
proof (cases a)
  case Continue2
  then obtain f fs where f: "frames_of2 s (running_thread_id2 s) = f # fs"
    using a by (cases "frames_of2 s (running_thread_id2 s)") (auto simp: enabled2_def)
  obtain q where q: "active (lift q s)" "tidy (lift q s)" "valid_tid (running_thread_id2 s)"
    using i by (rule coop_invE)
  have "After_exit \<notin> set (frames_of (lift q s) (running_thread_id2 s))"
    using tidyD(2) [OF q(2,3)] activeD(3) [OF q(1)] by (simp add: lift_simps)
  then have ne: "f \<noteq> After_exit2" using f by (auto simp: lift_simps)
  have p: "coop_inv (pop_frame2 s)" "thread_queue2 (pop_frame2 s) = thread_queue2 s"
    using coop_pop_frame [OF i] by (simp_all add: pop_frame2_def)
  show ?thesis
    using ne p coop_exit [OF p(1)] coop_result [OF p(1)]
    by (cases f) (auto simp: Continue2 f resume2_def thread_stub2_def)
qed (use coop_yield [OF i] coop_create [OF i] coop_kill [OF i] coop_exit [OF i] in auto)

interpretation coop: invariant_system sys_step2 coop_inv
proof
  fix s a s'
  assume "coop_inv s" and "sys_step2 s a s'"
  then show "coop_inv s'" using coop_step [of s a] by (auto simp: sys_step2_def)
qed

lemmas reachable_coop = coop.reachable_inv [OF _ boot2_inv]

end
