(* ===== verification/Lab2_Properties.thy ===== *)
theory Lab2_Properties
  imports Lab2_Reach
begin

text \<open>Properties of the Lab 2 thread library and its queue, with concrete runs.\<close>

text \<open>Property C13. The Lab 2 process never fails an assertion and never touches memory that is
  not its own, with one exception: in every state that is reachable from \<open>thread_init\<close>, a call
  of user code or the rest of an unfinished call either returns or switches, or it is the
  \<open>thread_exit\<close> of the last thread, which ends the program with status 0, or \<open>malloc\<close> has no
  memory for a queue node and \<open>push_back\<close> writes to NULL.\<close>

theorem lab2_never_fails:
  assumes "fresh_policy pn" and "fresh_policy ps" and "runs sys_step2 (boot2 pn ps) as s" and "enabled2 s a"
  shows "(\<exists>s'. step2 a s = Inr s') \<or>
    step2 a s = Inl (Exit_with 0) \<and> queue_empty (snd (thread_queue2 s)) \<or>
    step2 a s = Inl Undefined \<and> fst (malloc (fst (thread_queue2 s))) = NULL"
  using coop_step [OF reachable_coop [OF assms(3,1,2)] assms(4)] by (auto simp: no_node_def)

text \<open>A concrete process: every \<open>malloc\<close> finds memory.\<close>

definition demo2 :: sys2 where
  "demo2 = boot2 (counting_policy \<lparr>nxt = NULL, val = 0\<rparr>) (counting_policy ())"

lemma demo2_runs: "runs sys_step2 demo2 [] demo2"
  by simp

lemma demo2_user: "frames_of2 demo2 (running_thread_id2 demo2) = []"
proof -
  have "map lift_frame (frames_of2 demo2 (running_thread_id2 demo2)) = []"
    using lift_fields(8) [of "[]" demo2 "running_thread_id2 demo2"] by (simp add: demo2_def lift_boot boot_effect)
  then show ?thesis by simp
qed

theorem lab2_never_fails_witness:
  "\<exists>s'. step2 (Create2 3 4) demo2 = Inr s'"
proof -
  have "enabled2 demo2 (Create2 3 4)" using demo2_user by (simp add: enabled2_def)
  moreover have "fst (malloc (fst (thread_queue2 demo2))) \<noteq> NULL"
    by (simp add: demo2_def boot2_queue malloc_def zero_heap_def counting_policy_def)
  moreover have "step2 (Create2 3 4) demo2 \<noteq> Inl (Exit_with 0)"
    using coop_create [OF boot2_inv, of "counting_policy \<lparr>nxt = NULL, val = 0\<rparr>" "counting_policy ()" 3 4]
    by (auto simp: demo2_def)
  ultimately show ?thesis
    using lab2_never_fails [of "counting_policy \<lparr>nxt = NULL, val = 0\<rparr>" "counting_policy ()" "[]" demo2 "Create2 3 4"]
    by (auto simp: demo2_def)
qed

text \<open>In every reachable state of Lab 2 the linked ready queue holds a list of
  distinct threads, and each of the 1024 slots is in its place: the running thread runs, READY
  and KILLED threads are in the queue, the others are not, and an EXITED thread waits for a
  clean-up that is pending; the allocated stacks are exactly those of the threads that are not
  free, one each.\<close>

theorem lab2_threads_in_place:
  assumes "fresh_policy pn" and "fresh_policy ps" and "runs sys_step2 (boot2 pn ps) as s"
  shows "\<exists>q. rq_rep (thread_queue2 s) q \<and> distinct q \<and> state_of2 s (running_thread_id2 s) = RUNNING2 \<and>
    (\<forall>t. valid_tid t \<longrightarrow>
      (t \<in> set q \<longleftrightarrow> state_of2 s t = READY2 \<or> state_of2 s t = KILLED2) \<and>
      (state_of2 s t = RUNNING2 \<longrightarrow> t = running_thread_id2 s) \<and>
      (state_of2 s t = EXITED2 \<longrightarrow> cleanup_needs_to_run2 s)) \<and>
    (\<forall>a. cells (stacks2 s) a \<noteq> None \<longleftrightarrow>
      (\<exists>!t. valid_tid t \<and> state_of2 s t \<noteq> NOT_INITIALIZED2 \<and> orig_stack_begin2 (thread_array2 s t) = Addr a))"
proof -
  obtain q where q: "rq_rep (thread_queue2 s) q" "active (lift q s)" "stack_inv (lift q s)" "tidy (lift q s)"
    using reachable_coop [OF assms(3,1,2)] by (rule coop_invE)
  note c = activeD(1) [OF q(2)]
  have "t \<in> set q \<longleftrightarrow> state_of2 s t = READY2 \<or> state_of2 s t = KILLED2" if "valid_tid t" for t
    using core_queued [OF c, of t] core_READY [OF c that] tidyD(1) [OF q(4) that] by (auto simp: lift_simps)
  moreover have "state_of2 s t = RUNNING2 \<longrightarrow> t = running_thread_id2 s" if "valid_tid t" for t
    using core_RUNNING [OF c that] by (simp add: lift_simps)
  moreover have "state_of2 s t = EXITED2 \<longrightarrow> cleanup_needs_to_run2 s" if "valid_tid t" for t
    using activeD(6) [OF q(2)] that by (auto simp: lift_simps reap_ok_def)
  moreover have "cells (stacks2 s) a \<noteq> None \<longleftrightarrow>
      (\<exists>!t. valid_tid t \<and> state_of2 s t \<noteq> NOT_INITIALIZED2 \<and> orig_stack_begin2 (thread_array2 s t) = Addr a)" for a
  proof -
    have "(stack_of (lift q s) t = Addr a) =
        (valid_tid t \<and> state_of2 s t \<noteq> NOT_INITIALIZED2 \<and> orig_stack_begin2 (thread_array2 s t) = Addr a)" for t
      by (auto simp: stack_of_def lift_simps)
    then show ?thesis using q(3) by (simp add: stack_inv_def lift_simps) blast
  qed
  moreover have "distinct q" "state_of2 s (running_thread_id2 s) = RUNNING2"
    using core_distinct [OF c] activeD(3) [OF q(2)] by (simp_all add: lift_simps)
  ultimately show ?thesis using q(1) by blast
qed

theorem lab2_threads_in_place_witness:
  "\<exists>q. rq_rep (thread_queue2 demo2) q \<and> distinct q \<and> state_of2 demo2 (running_thread_id2 demo2) = RUNNING2"
  using lab2_threads_in_place [OF _ _ demo2_runs [unfolded demo2_def]] by (auto simp: demo2_def)



text \<open>\<open>move_selected_thread_to_front\<close> on the linked queue: the old front goes to the
  back, then the requested thread comes to the front and the others keep their order; no node
  is allocated or freed. When the thread is not in the queue the program aborts.\<close>

theorem move_selected_rotates:
  assumes "rq_rep (h, q) (t # ts)"
  shows "if r \<in> set (t # ts)
    then \<exists>h' q'. move_selected_thread_to_front h q r = Inr (h', q', True) \<and>
      rq_rep (h', q') (r # remove1 r (ts @ [t])) \<and> dom (cells h') = dom (cells h)
    else move_selected_thread_to_front h q r = Inl Assertion"
proof (cases "r \<in> set (t # ts)")
  case True
  then show ?thesis using move_selected_list [OF assms True] by simp
next
  case False
  obtain a xs where "queue_rep h q ((a, t) # xs)" "map snd xs = ts"
    using assms by (auto simp: rq_rep_def)
  with False move_selected_absent [of h q "(a, t)" xs r] show ?thesis by auto
qed

definition demo_fifo :: "node_heap \<times> FIFO_QUEUE" where
  "demo_fifo = (case foldE push_pair (new_heap \<lparr>nxt = NULL, val = 0\<rparr>, empty_queue) [5, 6, 7] of
     Inr s \<Rightarrow> s | Inl _ \<Rightarrow> (new_heap \<lparr>nxt = NULL, val = 0\<rparr>, empty_queue))"

theorem move_selected_rotates_witness:
  "\<exists>h q. move_selected_thread_to_front (fst demo_fifo) (snd demo_fifo) 7 = Inr (h, q, True) \<and> rq_rep (h, q) [7, 6, 5]"
proof -
  have "rq_rep (new_heap \<lparr>nxt = NULL, val = 0\<rparr>, empty_queue) []"
    by (simp add: rq_rep_def new_heap_def)
  moreover have "foldE push_pair (new_heap \<lparr>nxt = NULL, val = 0\<rparr>, empty_queue) [5, 6, 7] = Inr demo_fifo"
    by (simp add: demo_fifo_def push_pair_def push_back_def new_heap_def malloc_def counting_policy_def
        store_def load_def link_back_def empty_queue_def)
  ultimately have "rq_rep demo_fifo [5, 6, 7]" using l2.push_all_rep by fastforce
  then show ?thesis using move_selected_rotates [of "fst demo_fifo" "snd demo_fifo" 5 "[6, 7]" 7] by fastforce
qed

end
