(* ===== verification/Request_Queue.thy ===== *)
theory Request_Queue
  imports Node_Queue Fifo_Interface
begin

text \<open>
  The request queue of the web server (webserver/queue.c, and the first part of
  webserver_5/queue.c, which is the same code): a linked queue of connection descriptors
  with a capacity. \<open>Malloc\<close> is the wrapper of common.c, which ends the program when
  \<open>malloc\<close> returns NULL.
\<close>

definition Malloc :: "'c heap \<Rightarrow> (ptr \<times> 'c heap) result" where
  "Malloc h = (let (rc, h') = malloc h in if rc = NULL then Inl (Exit_with 1) else Inr (rc, h'))"

record req_queue =
  req_links :: fifo_queue
  max_size :: int
  curr_size :: int

type_synonym req_heap = "int node heap"

definition create_request_queue :: "int \<Rightarrow> req_queue" where
  "create_request_queue sz =
     \<lparr>req_links = \<lparr>head = NULL, tail = NULL\<rparr>, max_size = sz, curr_size = 0\<rparr>"

definition req_queue_empty :: "req_queue \<Rightarrow> bool" where
  "req_queue_empty queue \<longleftrightarrow> head (req_links queue) = NULL \<and> tail (req_links queue) = NULL"

definition req_push_back_helper :: "req_heap \<Rightarrow> fifo_queue \<Rightarrow> int \<Rightarrow> (req_heap \<times> fifo_queue) result" where
  "req_push_back_helper h q connfd =
     bindE (Malloc h) (\<lambda>(node, h1).
     bindE (assertE (node \<noteq> NULL)) (\<lambda>_.
     bindE (store h1 node \<lparr>nxt = NULL, val = connfd\<rparr>) (\<lambda>h2. link_back h2 q node)))"

definition req_push_back :: "req_heap \<Rightarrow> req_queue \<Rightarrow> int \<Rightarrow> (req_heap \<times> req_queue \<times> bool) result" where
  "req_push_back h queue connfd =
     (if curr_size queue < max_size queue then
        bindE (req_push_back_helper h (req_links queue) connfd) (\<lambda>(h', q').
        Inr (h', queue\<lparr>req_links := q', curr_size := curr_size queue + 1\<rparr>, True))
      else Inr (h, queue, False))"

definition req_pop_front_helper :: "req_heap \<Rightarrow> fifo_queue \<Rightarrow> (req_heap \<times> fifo_queue \<times> int) result" where
  "req_pop_front_helper h q =
     bindE (assertE (head q \<noteq> NULL \<and> tail q \<noteq> NULL)) (\<lambda>_. take_front h q)"

definition req_pop_front :: "req_heap \<Rightarrow> req_queue \<Rightarrow> (req_heap \<times> req_queue \<times> int option) result" where
  "req_pop_front h queue =
     (if curr_size queue > 0 then
        bindE (req_pop_front_helper h (req_links queue)) (\<lambda>(h', q', connfd).
        Inr (h', queue\<lparr>req_links := q', curr_size := curr_size queue - 1\<rparr>, Some connfd))
      else Inr (h, queue, None))"

definition req_pop_pair :: "req_heap \<times> req_queue \<Rightarrow> ((req_heap \<times> req_queue) \<times> int option) result" where
  "req_pop_pair s = bindE (req_pop_front (fst s) (snd s)) (\<lambda>(h, q, r). Inr ((h, q), r))"

text \<open>Empties the queue; the queue object itself is freed by the caller's forgetting it.\<close>

definition req_delete_queue :: "req_heap \<Rightarrow> req_queue \<Rightarrow> (req_heap \<times> req_queue) result" where
  "req_delete_queue h queue = loopE (drain req_pop_pair (h, queue))"

section \<open>The bounded queue as a list\<close>

definition req_rep :: "req_heap \<times> req_queue \<Rightarrow> int list \<Rightarrow> bool" where
  "req_rep s xs \<longleftrightarrow>
     (\<exists>ys. queue_rep (fst s) (req_links (snd s)) ys \<and> map snd ys = xs) \<and>
     curr_size (snd s) = int (length xs) \<and> fresh_policy (policy (fst s))"

lemma req_rep_create: "fresh_policy (policy h) \<Longrightarrow> req_rep (h, create_request_queue n) []"
  by (auto simp: req_rep_def create_request_queue_def empty_queue_def)

lemma req_push_back_full:
  "req_rep (h, q) xs \<Longrightarrow> max_size q \<le> int (length xs) \<Longrightarrow> req_push_back h q c = Inr (h, q, False)"
  by (simp add: req_push_back_def req_rep_def)

lemma Malloc_cases:
  obtains (exhausted) "Malloc h = Inl (Exit_with 1)"
  | (block) a c where "policy h (calls h) (cells h) = Some (a, c)"
      and "Malloc h = Inr (Addr a, h\<lparr>cells := (cells h)(a \<mapsto> c), calls := Suc (calls h)\<rparr>)"
  by (cases "policy h (calls h) (cells h)") (auto simp: Malloc_def malloc_def)

lemma req_push_back_cases:
  assumes rep: "req_rep (h, q) xs" and room: "int (length xs) < max_size q"
  obtains (exhausted) "req_push_back h q c = Inl (Exit_with 1)"
  | (pushed) h' q' where "req_push_back h q c = Inr (h', q', True)" and "req_rep (h', q') (xs @ [c])"
      and "max_size q' = max_size q"
proof -
  obtain ys where r: "queue_rep h (req_links q) ys" and ys: "map snd ys = xs"
    and n: "curr_size q = int (length xs)" and f: "fresh_policy (policy h)"
    using rep by (auto simp: req_rep_def)
  show ?thesis
  proof (cases rule: Malloc_cases [of h])
    case exhausted
    then show ?thesis using that(1) room n by (simp add: req_push_back_def req_push_back_helper_def)
  next
    case (block a c0)
    define h1 where "h1 = h\<lparr>calls := Suc (calls h), cells := (cells h)(a \<mapsto> \<lparr>nxt = NULL, val = c\<rparr>)\<rparr>"
    have "cells h a = None" using f block(1) by (auto simp: fresh_policy_def)
    then have new: "a \<notin> footprint ys" using queue_rep_allocated [OF r] by auto
    have r1: "queue_rep h1 (req_links q) ys"
      by (rule queue_rep_agree [OF r]) (use new in \<open>auto simp: h1_def\<close>)
    obtain h' q' where lb: "link_back h1 (req_links q) (Addr a) = Inr (h', q')"
      and r': "queue_rep h' q' (ys @ [(a, c)])" and p: "policy h' = policy h1"
      using link_back_rep [OF r1 _ new, of c] by (auto simp: h1_def)
    have "req_push_back h q c = Inr (h', q\<lparr>req_links := q', curr_size := curr_size q + 1\<rparr>, True)"
      using room n block lb by (simp add: req_push_back_def req_push_back_helper_def store_def h1_def)
    moreover have "req_rep (h', q\<lparr>req_links := q', curr_size := curr_size q + 1\<rparr>) (xs @ [c])"
      using r' ys n f p by (auto simp: req_rep_def h1_def intro!: exI [of _ "ys @ [(a, c)]"])
    ultimately show ?thesis using that(2) by simp
  qed
qed

lemma req_pop_front_empty: "req_rep (h, q) [] \<Longrightarrow> req_pop_front h q = Inr (h, q, None)"
  by (simp add: req_rep_def req_pop_front_def)

lemma req_pop_front_some:
  assumes rep: "req_rep (h, q) (x # xs)"
  shows "\<exists>h' q'. req_pop_front h q = Inr (h', q', Some x) \<and> req_rep (h', q') xs \<and> max_size q' = max_size q"
proof -
  obtain a ys where r: "queue_rep h (req_links q) ((a, x) # ys)" and ys: "map snd ys = xs"
    and n: "curr_size q = 1 + int (length xs)" and f: "fresh_policy (policy h)"
    using rep by (auto simp: req_rep_def)
  obtain q' where "take_front h (req_links q) = Inr (h\<lparr>cells := (cells h)(a := None)\<rparr>, q', x)"
    and "queue_rep (h\<lparr>cells := (cells h)(a := None)\<rparr>) q' ys" using take_front_rep [OF r] by blast
  moreover have "head (req_links q) \<noteq> NULL" "tail (req_links q) \<noteq> NULL"
    using queue_rep_head_NULL [OF r] queue_rep_tail_NULL [OF r] by auto
  ultimately show ?thesis
    using n f ys by (auto simp: req_pop_front_def req_pop_front_helper_def req_rep_def)
qed

definition req_push_pair :: "req_heap \<times> req_queue \<Rightarrow> int \<Rightarrow> (req_heap \<times> req_queue) result" where
  "req_push_pair s c = bindE (req_push_back (fst s) (snd s) c) (\<lambda>(h, q, b).
     bindE (assertE b) (\<lambda>_. Inr (h, q)))"

text \<open>
  \<open>assert(push_back(...))\<close>, as the server calls it, and \<open>pop_front\<close> are a FIFO queue.
\<close>

interpretation req: fifo req_push_pair req_pop_pair req_rep
proof unfold_locales
  fix q q' xs x
  assume r: "req_rep q xs" and p: "req_push_pair q x = Inr q'"
  obtain h rq where q: "q = (h, rq)" by (cases q)
  show "req_rep q' (xs @ [x])"
  proof (cases "int (length xs) < max_size rq")
    case True
    from r q have "req_rep (h, rq) xs" by simp
    from this True show ?thesis
      by (rule req_push_back_cases [of h rq xs x]) (use p q in \<open>auto simp: req_push_pair_def\<close>)
  next
    case False
    then show ?thesis
      using p q req_push_back_full [of h rq xs x] r by (simp add: req_push_pair_def)
  qed
next
  fix q xs x e
  assume r: "req_rep q xs" and p: "req_push_pair q x = Inl e"
  obtain h rq where q: "q = (h, rq)" by (cases q)
  show "aborts e"
  proof (cases "int (length xs) < max_size rq")
    case True
    from r q have "req_rep (h, rq) xs" by simp
    from this True show ?thesis
      by (rule req_push_back_cases [of h rq xs x]) (use p q in \<open>auto simp: req_push_pair_def\<close>)
  next
    case False
    then show ?thesis
      using p q req_push_back_full [of h rq xs x] r by (auto simp: req_push_pair_def)
  qed
next
  fix q
  assume "req_rep q []"
  then show "req_pop_pair q = Inr (q, None)"
    using req_pop_front_empty by (cases q) (simp add: req_pop_pair_def)
next
  fix q x xs
  assume "req_rep q (x # xs)"
  then show "\<exists>q'. req_pop_pair q = Inr (q', Some x) \<and> req_rep q' xs"
    using req_pop_front_some by (cases q) (fastforce simp: req_pop_pair_def)
qed

end
