(* ===== verification/Filesize_Queue.thy ===== *)
theory Filesize_Queue
  imports Request_Queue "HOL-Library.Multiset"
begin

text \<open>
  The eviction queue of the file cache (webserver_5/queue.c from \<open>create_filesize_queue\<close>
  on): a linked list of file sizes and names, largest first. The string of a node is a value
  of the node; the node itself is a cell of the heap.
\<close>

type_synonym file_key = "int \<times> string"
type_synonym fq_heap = "file_key node heap"

definition create_filesize_queue :: fifo_queue where
  "create_filesize_queue = \<lparr>head = NULL, tail = NULL\<rparr>"

text \<open>The search for the first node with a smaller file, with the node before it.\<close>

partial_function (option) find_smaller ::
  "fq_heap \<Rightarrow> int \<Rightarrow> ptr \<Rightarrow> ptr \<Rightarrow> (ptr \<times> ptr) result option" where
  "find_smaller h filesize curr_node prev_node =
     (if curr_node = NULL then Some (Inr (curr_node, prev_node))
      else case load h curr_node of
        Inl e \<Rightarrow> Some (Inl e)
      | Inr n \<Rightarrow> if filesize > fst (val n) then Some (Inr (curr_node, prev_node))
               else find_smaller h filesize (nxt n) curr_node)"

declare find_smaller.simps [code]

definition insert_into_filesize_queue ::
  "fq_heap \<Rightarrow> fifo_queue \<Rightarrow> int \<Rightarrow> string \<Rightarrow> (fq_heap \<times> fifo_queue) result" where
  "insert_into_filesize_queue h queue filesize filename =
     bindE (Malloc h) (\<lambda>(node, h0).
     bindE (store h0 node \<lparr>nxt = NULL, val = (filesize, filename)\<rparr>) (\<lambda>h1.
     if head queue = NULL \<and> tail queue = NULL then
       Inr (h1, queue\<lparr>head := node, tail := node\<rparr>)
     else if head queue \<noteq> NULL \<and> tail queue \<noteq> NULL then
       bindE (loopE (find_smaller h1 filesize (head queue) NULL)) (\<lambda>(curr_node, prev_node).
       if curr_node = NULL then
         bindE (load h1 prev_node) (\<lambda>p.
         bindE (store h1 prev_node (p\<lparr>nxt := node\<rparr>)) (\<lambda>h2.
         Inr (h2, queue\<lparr>tail := node\<rparr>)))
       else if prev_node = NULL then
         bindE (load h1 node) (\<lambda>n.
         bindE (store h1 node (n\<lparr>nxt := head queue\<rparr>)) (\<lambda>h2.
         Inr (h2, queue\<lparr>head := node\<rparr>)))
       else
         bindE (load h1 prev_node) (\<lambda>p.
         bindE (store h1 prev_node (p\<lparr>nxt := node\<rparr>)) (\<lambda>h2.
         bindE (load h2 node) (\<lambda>n.
         bindE (store h2 node (n\<lparr>nxt := curr_node\<rparr>)) (\<lambda>h3.
         Inr (h3, queue))))))
     else Inr (h1, queue)))"

text \<open>\<open>None\<close> is the answer false; otherwise the name and the size of the largest file.\<close>

definition pop_front_fq :: "fq_heap \<Rightarrow> fifo_queue \<Rightarrow> (fq_heap \<times> fifo_queue \<times> file_key option) result" where
  "pop_front_fq h queue =
     (if head queue \<noteq> NULL \<and> tail queue \<noteq> NULL then
        bindE (load h (head queue)) (\<lambda>n.
        let q' = (if nxt n = NULL then queue\<lparr>tail := NULL\<rparr> else queue) in
        bindE (free h (head queue)) (\<lambda>h'.
        Inr (h', q'\<lparr>head := nxt n\<rparr>, Some (val n))))
      else Inr (h, queue, None))"

partial_function (option) free_nodes :: "fq_heap \<Rightarrow> ptr \<Rightarrow> fq_heap result option" where
  "free_nodes h curr_node =
     (if curr_node = NULL then Some (Inr h)
      else case load h curr_node of
        Inl e \<Rightarrow> Some (Inl e)
      | Inr n \<Rightarrow> (case free h curr_node of
          Inl e \<Rightarrow> Some (Inl e)
        | Inr h' \<Rightarrow> free_nodes h' (nxt n)))"

definition delete_queue_fq :: "fq_heap \<Rightarrow> fifo_queue \<Rightarrow> fq_heap result" where
  "delete_queue_fq h queue = loopE (free_nodes h (head queue))"

section \<open>The list\<close>

text \<open>Insertion in front of the first smaller file.\<close>

fun insert_desc :: "file_key \<Rightarrow> file_key list \<Rightarrow> file_key list" where
  "insert_desc x [] = [x]"
| "insert_desc x (y # ys) = (if fst x > fst y then x # y # ys else y # insert_desc x ys)"

definition larger :: "int \<Rightarrow> file_key list \<Rightarrow> file_key list" where
  "larger s xs = takeWhile (\<lambda>y. \<not> s > fst y) xs"

lemma insert_desc_split: "insert_desc x xs = larger (fst x) xs @ x # drop (length (larger (fst x) xs)) xs"
  by (induction xs) (auto simp: larger_def)

lemma mset_insert_desc [simp]: "mset (insert_desc x xs) = add_mset x (mset xs)"
  by (induction x xs rule: insert_desc.induct) auto

lemma set_insert_desc: "set (insert_desc x xs) = insert x (set xs)"
  by (induction x xs rule: insert_desc.induct) auto

definition descending :: "file_key list \<Rightarrow> bool" where
  "descending xs \<longleftrightarrow> sorted_wrt (\<lambda>x y. fst y \<le> fst x) xs"

lemma descending_insert: "descending xs \<Longrightarrow> descending (insert_desc x xs)"
  by (induction xs) (auto simp: descending_def set_insert_desc)

lemma descending_Cons: "descending (x # xs) \<longleftrightarrow> (\<forall>y\<in>set xs. fst y \<le> fst x) \<and> descending xs"
  by (simp add: descending_def)

section \<open>The pointer code and the list\<close>

lemma find_smaller_split:
  "chain (cells h) cur (ys @ zs) NULL \<Longrightarrow> \<forall>y\<in>set ys. \<not> s > fst (snd y) \<Longrightarrow>
   zs = [] \<or> s > fst (snd (hd zs)) \<Longrightarrow>
   find_smaller h s cur prev =
     Some (Inr (if zs = [] then NULL else Addr (fst (hd zs)), if ys = [] then prev else Addr (fst (last ys))))"
proof (induction ys arbitrary: cur prev)
  case Nil
  then show ?case
    by (cases zs; subst find_smaller.simps) (auto simp: heap_simps)
next
  case (Cons x ys)
  obtain b w where x: "x = (b, w)" by (cases x)
  from Cons.prems x obtain n where "cur = Addr b" "cells h b = Some \<lparr>nxt = n, val = w\<rparr>"
    "chain (cells h) n (ys @ zs) NULL" by auto
  moreover from Cons.prems x have "\<not> s > fst w" "\<forall>y\<in>set ys. \<not> s > fst (snd y)" by auto
  ultimately show ?case
    using Cons.IH [of n "Addr b"] Cons.prems(3) x
    by (subst find_smaller.simps) (simp add: heap_simps)
qed

lemma map_insert_desc:
  obtains ys zs where "xs = ys @ zs" and "\<forall>y\<in>set ys. \<not> fst k > fst (snd y)"
    and "zs = [] \<or> fst k > fst (snd (hd zs))"
    and "insert_desc k (map snd xs) = map snd ys @ k # map snd zs"
proof -
  have "\<exists>ys zs. xs = ys @ zs \<and> (\<forall>y\<in>set ys. \<not> fst k > fst (snd y)) \<and>
    (zs = [] \<or> fst k > fst (snd (hd zs))) \<and> insert_desc k (map snd xs) = map snd ys @ k # map snd zs"
  proof (induction xs)
    case Nil
    show ?case by (rule exI [of _ "[]"], rule exI [of _ "[]"]) simp
  next
    case (Cons x xs)
    show ?case
    proof (cases "fst k > fst (snd x)")
      case True
      then show ?thesis by (intro exI [of _ "[]"] exI [of _ "x # xs"]) simp
    next
      case False
      obtain ys zs where "xs = ys @ zs" "\<forall>y\<in>set ys. \<not> fst k > fst (snd y)"
        "zs = [] \<or> fst k > fst (snd (hd zs))" "insert_desc k (map snd xs) = map snd ys @ k # map snd zs"
        using Cons by blast
      then show ?thesis using False by (intro exI [of _ "x # ys"] exI [of _ zs]) simp
    qed
  qed
  then show ?thesis using that by blast
qed

definition fq_rep :: "fq_heap \<times> fifo_queue \<Rightarrow> file_key list \<Rightarrow> bool" where
  "fq_rep s xs \<longleftrightarrow>
     (\<exists>ys. queue_rep (fst s) (snd s) ys \<and> map snd ys = xs) \<and> fresh_policy (policy (fst s))"

lemma create_filesize_queue_rep: "fresh_policy (policy h) \<Longrightarrow> fq_rep (h, create_filesize_queue) []"
  by (auto simp: fq_rep_def create_filesize_queue_def empty_queue_def)

text \<open>Linking a new node between two parts of a chain.\<close>

lemma chain_insert:
  assumes "chain m p (ys @ (b, w) # zs) NULL" and "distinct (map fst (ys @ (b, w) # zs))"
    and "m a = Some \<lparr>nxt = r, val = v\<rparr>" and "a \<notin> fst ` set (ys @ (b, w) # zs)"
    and "m b = Some \<lparr>nxt = r, val = w\<rparr>"
  shows "chain (m(b \<mapsto> \<lparr>nxt = Addr a, val = w\<rparr>)) p (ys @ (b, w) # (a, v) # zs) NULL"
  using assms by (auto simp: chain_append)

lemma insert_fq_rep:
  assumes rep: "queue_rep h q xs" and f: "fresh_policy (policy h)"
    and m: "policy h (calls h) (cells h) = Some (a, junk)"
  shows "\<exists>h' q' ys zs. insert_into_filesize_queue h q s name = Inr (h', q') \<and> xs = ys @ zs \<and>
    queue_rep h' q' (ys @ (a, (s, name)) # zs) \<and>
    insert_desc (s, name) (map snd xs) = map snd ys @ (s, name) # map snd zs \<and> policy h' = policy h"
proof -
  define k where "k = (s, name)"
  define h1 where "h1 = h\<lparr>calls := Suc (calls h), cells := (cells h)(a \<mapsto> \<lparr>nxt = NULL, val = k\<rparr>)\<rparr>"
  have Ma: "Malloc h = Inr (Addr a, h\<lparr>calls := Suc (calls h), cells := (cells h)(a \<mapsto> junk)\<rparr>)"
    using m by (simp add: Malloc_def malloc_def)
  have st: "store (h\<lparr>calls := Suc (calls h), cells := (cells h)(a \<mapsto> junk)\<rparr>) (Addr a) \<lparr>nxt = NULL, val = k\<rparr> = Inr h1"
    by (simp add: store_def h1_def)
  have "cells h a = None" using f m by (auto simp: fresh_policy_def)
  then have new: "a \<notin> footprint xs" using queue_rep_allocated [OF rep] by auto
  have r1: "queue_rep h1 q xs" by (rule queue_rep_agree [OF rep]) (use new in \<open>auto simp: h1_def\<close>)
  have c1: "chain (cells h1) (head q) xs NULL" and d: "distinct (map fst xs)"
    and t: "tail q = (if xs = [] then NULL else Addr (fst (last xs)))"
    using r1 by (auto simp: queue_rep_def)
  have ca: "cells h1 a = Some \<lparr>nxt = NULL, val = k\<rparr>" by (simp add: h1_def)
  obtain ys zs where xs: "xs = ys @ zs" and ys: "\<forall>y\<in>set ys. \<not> s > fst (snd y)"
    and zs: "zs = [] \<or> s > fst (snd (hd zs))"
    and ins: "insert_desc k (map snd xs) = map snd ys @ k # map snd zs"
    using map_insert_desc [of xs k] by (auto simp: k_def)
  have "\<exists>h' q'. insert_into_filesize_queue h q s name = Inr (h', q') \<and>
    queue_rep h' q' (ys @ (a, k) # zs) \<and> policy h' = policy h"
  proof (cases "xs = []")
    case True
    then have "q = empty_queue" using rep by simp
    then show ?thesis using True xs Ma st ca
      by (simp add: insert_into_filesize_queue_def empty_queue_def queue_rep_def k_def h1_def)
  next
    case False
    have hq: "head q \<noteq> NULL" "tail q \<noteq> NULL"
      using False queue_rep_head_NULL [OF rep] queue_rep_tail_NULL [OF rep] by auto
    have fs: "find_smaller h1 s (head q) NULL =
        Some (Inr (if zs = [] then NULL else Addr (fst (hd zs)), if ys = [] then NULL else Addr (fst (last ys))))"
      using find_smaller_split [OF c1 [unfolded xs] ys zs] .
    show ?thesis
    proof (cases ys rule: rev_cases)
      case Nil
      then obtain b w zs' where z: "zs = (b, w) # zs'" using False xs by (cases zs) auto
      define h2 where "h2 = h1\<lparr>cells := (cells h1)(a \<mapsto> \<lparr>nxt = head q, val = k\<rparr>)\<rparr>"
      have "insert_into_filesize_queue h q s name = Inr (h2, q\<lparr>head := Addr a\<rparr>)"
        using Ma st hq fs Nil z ca
        by (simp add: insert_into_filesize_queue_def k_def [symmetric] load_def store_def h2_def)
      moreover have "queue_rep h2 (q\<lparr>head := Addr a\<rparr>) ((a, k) # zs)"
        using c1 d t new Nil xs z by (simp add: queue_rep_def h2_def)
      ultimately show ?thesis using Nil by (simp add: h2_def h1_def)
    next
      case (snoc ys' y)
      obtain b w where y: "y = (b, w)" by (cases y)
      have cb: "cells h1 b = Some \<lparr>nxt = (if zs = [] then NULL else Addr (fst (hd zs))), val = w\<rparr>"
        using c1 xs snoc y by (cases zs) (auto simp: chain_append)
      have ab: "a \<noteq> b" using new xs snoc y by auto
      show ?thesis
      proof (cases zs)
        case Nil
        define h2 where "h2 = h1\<lparr>cells := (cells h1)(b \<mapsto> \<lparr>nxt = Addr a, val = w\<rparr>)\<rparr>"
        have "insert_into_filesize_queue h q s name = Inr (h2, q\<lparr>tail := Addr a\<rparr>)"
          using Ma st hq fs Nil snoc y cb
          by (simp add: insert_into_filesize_queue_def k_def [symmetric] load_def store_def h2_def)
        moreover have "chain (cells h2) (head q) (ys' @ (b, w) # [(a, k)]) NULL"
          using chain_insert [of "cells h1" "head q" ys' b w "[]" a NULL k] c1 d ca new xs snoc y Nil cb
          by (simp add: h2_def)
        then have "queue_rep h2 (q\<lparr>tail := Addr a\<rparr>) (ys @ (a, k) # zs)"
          using d new xs snoc y Nil by (simp add: queue_rep_def)
        ultimately show ?thesis by (simp add: h2_def h1_def)
      next
        case (Cons z zs')
        obtain c x where z: "z = (c, x)" by (cases z)
        define h2 where "h2 = h1\<lparr>cells := (cells h1)(b \<mapsto> \<lparr>nxt = Addr a, val = w\<rparr>,
          a \<mapsto> \<lparr>nxt = Addr c, val = k\<rparr>)\<rparr>"
        have "insert_into_filesize_queue h q s name = Inr (h2, q)"
          using Ma st hq fs Cons z snoc y cb ca ab
          by (simp add: insert_into_filesize_queue_def k_def [symmetric] load_def store_def h2_def)
        moreover have "chain (cells h2) (head q) (ys @ (a, k) # zs) NULL"
          using c1 d new xs snoc y Cons z ab by (auto simp: chain_append h2_def image_Un)
        then have "queue_rep h2 q (ys @ (a, k) # zs)"
          using d new xs snoc y Cons z t by (auto simp: queue_rep_def)
        ultimately show ?thesis by (simp add: h2_def h1_def)
      qed
    qed
  qed
  then show ?thesis using xs ins unfolding k_def by blast
qed

lemma store_dom: "store h p c = Inr h' \<Longrightarrow> dom (cells h') = dom (cells h)"
  by (auto simp: store_def split: ptr.splits if_splits)

lemma insert_fq_dom:
  assumes "policy h (calls h) (cells h) = Some (a, junk)"
    and "insert_into_filesize_queue h q s name = Inr (h', q')"
  shows "dom (cells h') = insert a (dom (cells h))"
  using assms by (auto simp: insert_into_filesize_queue_def Malloc_def malloc_Some result_simps
      dest!: store_dom split: if_splits prod.splits simp del: dom_eq_empty_conv del: equalityI subsetI)

lemma insert_fq_cases:
  assumes "fq_rep (h, q) xs"
  obtains (exhausted) "insert_into_filesize_queue h q s name = Inl (Exit_with 1)"
  | (inserted) h' q' where "insert_into_filesize_queue h q s name = Inr (h', q')"
      and "fq_rep (h', q') (insert_desc (s, name) xs)"
proof (cases rule: Malloc_cases [of h])
  case exhausted
  then show ?thesis using that(1) by (simp add: insert_into_filesize_queue_def)
next
  case (block a c)
  obtain ys where r: "queue_rep h q ys" "map snd ys = xs" and f: "fresh_policy (policy h)"
    using assms by (auto simp: fq_rep_def)
  from insert_fq_rep [OF r(1) f block(1), of s name] obtain h' q' us zs where
    "insert_into_filesize_queue h q s name = Inr (h', q')" "queue_rep h' q' (us @ (a, s, name) # zs)"
    "insert_desc (s, name) (map snd ys) = map snd us @ (s, name) # map snd zs" "policy h' = policy h"
    by blast
  then show ?thesis using that(2) [of h' q'] f r(2) by (force simp: fq_rep_def)
qed

lemma pop_fq_empty: "fq_rep (h, q) [] \<Longrightarrow> pop_front_fq h q = Inr (h, q, None)"
  by (auto simp: fq_rep_def pop_front_fq_def empty_queue_def)

lemma pop_fq_rep:
  assumes r: "queue_rep h q ((a, x) # ys)"
  shows "\<exists>q'. pop_front_fq h q = Inr (h\<lparr>cells := (cells h)(a := None)\<rparr>, q', Some x) \<and>
    queue_rep (h\<lparr>cells := (cells h)(a := None)\<rparr>) q' ys"
proof -
  obtain q' where t: "take_front h q = Inr (h\<lparr>cells := (cells h)(a := None)\<rparr>, q', x)"
    and r': "queue_rep (h\<lparr>cells := (cells h)(a := None)\<rparr>) q' ys" using take_front_rep [OF r] by blast
  have "head q \<noteq> NULL" "tail q \<noteq> NULL"
    using queue_rep_head_NULL [OF r] queue_rep_tail_NULL [OF r] by auto
  then have "pop_front_fq h q = bindE (take_front h q) (\<lambda>(h', q', v). Inr (h', q', Some v))"
    by (cases "load h (head q)"; cases "free h (head q)")
      (simp_all add: pop_front_fq_def take_front_def Let_def)
  then show ?thesis using t r' by auto
qed

lemma pop_fq_some:
  assumes "fq_rep (h, q) (x # xs)"
  shows "\<exists>h' q'. pop_front_fq h q = Inr (h', q', Some x) \<and> fq_rep (h', q') xs"
proof -
  obtain a ys where r: "queue_rep h q ((a, x) # ys)" and ys: "map snd ys = xs"
    and f: "fresh_policy (policy h)" using assms by (auto simp: fq_rep_def)
  then show ?thesis using pop_fq_rep [OF r] by (fastforce simp: fq_rep_def)
qed

definition pop_pair_fq :: "fq_heap \<times> fifo_queue \<Rightarrow> ((fq_heap \<times> fifo_queue) \<times> file_key option) result" where
  "pop_pair_fq s = bindE (pop_front_fq (fst s) (snd s)) (\<lambda>(h, q, r). Inr ((h, q), r))"

definition insert_pair_fq :: "fq_heap \<times> fifo_queue \<Rightarrow> file_key \<Rightarrow> (fq_heap \<times> fifo_queue) result" where
  "insert_pair_fq s x = insert_into_filesize_queue (fst s) (snd s) (fst x) (snd x)"

lemma free_nodes_chain:
  "chain (cells h) p xs NULL \<Longrightarrow> distinct (map fst xs) \<Longrightarrow>
   \<exists>h'. free_nodes h p = Some (Inr h') \<and> dom (cells h') = dom (cells h) - footprint xs \<and>
     (\<forall>b. b \<notin> footprint xs \<longrightarrow> cells h' b = cells h b)"
proof (induction xs arbitrary: h p)
  case Nil
  then show ?case by (subst free_nodes.simps) simp
next
  case (Cons x xs)
  obtain a v where x: "x = (a, v)" by (cases x)
  with Cons.prems obtain n where p: "p = Addr a" "cells h a = Some \<lparr>nxt = n, val = v\<rparr>"
    "chain (cells h) n xs NULL" and d: "a \<notin> footprint xs" "distinct (map fst xs)" by auto
  let ?h = "h\<lparr>cells := (cells h)(a := None)\<rparr>"
  have "free_nodes h p = free_nodes ?h n" using p by (subst free_nodes.simps) (simp add: heap_simps)
  moreover have "chain (cells ?h) n xs NULL" using p d by simp
  from Cons.IH [OF this d(2)] obtain h' where "free_nodes ?h n = Some (Inr h')"
    "dom (cells h') = dom (cells ?h) - footprint xs"
    "\<forall>b. b \<notin> footprint xs \<longrightarrow> cells h' b = cells ?h b" by blast
  ultimately show ?case using x by auto
qed

lemma delete_queue_fq_rep:
  "queue_rep h q xs \<Longrightarrow> \<exists>h'. delete_queue_fq h q = Inr h' \<and> dom (cells h') = dom (cells h) - footprint xs \<and>
     (\<forall>b. b \<notin> footprint xs \<longrightarrow> cells h' b = cells h b)"
  using free_nodes_chain [of h "head q" xs] by (auto simp: queue_rep_def delete_queue_fq_def)

section \<open>A priority queue\<close>

text \<open>
  What the cache relies on: an insertion keeps the list in descending order and adds one
  file, a pop takes the first, that is a largest one.
\<close>

locale largest_first =
  fixes insert :: "'q \<Rightarrow> file_key \<Rightarrow> 'q result"
    and pop :: "'q \<Rightarrow> ('q \<times> file_key option) result"
    and rep :: "'q \<Rightarrow> file_key list \<Rightarrow> bool"
  assumes insert_rep: "rep q xs \<Longrightarrow> insert q x = Inr q' \<Longrightarrow> rep q' (insert_desc x xs)"
    and pop_none: "rep q [] \<Longrightarrow> pop q = Inr (q, None)"
    and pop_some: "rep q (x # xs) \<Longrightarrow> \<exists>q'. pop q = Inr (q', Some x) \<and> rep q' xs"
begin

lemma inserted_files:
  "rep q xs \<Longrightarrow> descending xs \<Longrightarrow> foldE insert q ys = Inr q' \<Longrightarrow>
   \<exists>zs. rep q' zs \<and> descending zs \<and> mset zs = mset xs + mset ys"
proof (induction ys arbitrary: q xs)
  case (Cons y ys)
  then obtain q1 where q1: "insert q y = Inr q1" "foldE insert q1 ys = Inr q'"
    by (auto simp: result_simps)
  from Cons.IH [OF insert_rep [OF Cons.prems(1) q1(1)] descending_insert [OF Cons.prems(2)] q1(2)]
  show ?case by simp
qed auto

text \<open>The pop returns a largest file of all that were inserted.\<close>

lemma pop_is_largest:
  assumes "rep q []" and "foldE insert q ys = Inr q'" and "ys \<noteq> []"
  shows "\<exists>q'' x. pop q' = Inr (q'', Some x) \<and> x \<in> set ys \<and> (\<forall>y\<in>set ys. fst y \<le> fst x)"
proof -
  obtain zs where z: "rep q' zs" "descending zs" "mset zs = mset ys"
    using inserted_files [OF assms(1) _ assms(2)] by (auto simp: descending_def)
  then obtain x us where "zs = x # us" using assms(3) by (cases zs) auto
  moreover have "set ys = set zs" using z(3) by (metis set_mset_mset)
  ultimately show ?thesis using pop_some [of q' x us] z by (fastforce simp: descending_Cons)
qed

end

interpretation fq: largest_first insert_pair_fq pop_pair_fq fq_rep
proof unfold_locales
  fix q xs x q'
  assume r: "fq_rep q xs" and i: "insert_pair_fq q x = Inr q'"
  obtain h l where q: "q = (h, l)" by (cases q)
  from r q have "fq_rep (h, l) xs" by simp
  then show "fq_rep q' (insert_desc x xs)"
    by (rule insert_fq_cases [of h l xs "fst x" "snd x"]) (use i q in \<open>auto simp: insert_pair_fq_def\<close>)
next
  fix q assume "fq_rep q []"
  then show "pop_pair_fq q = Inr (q, None)"
    using pop_fq_empty by (cases q) (simp add: pop_pair_fq_def)
next
  fix q x xs assume "fq_rep q (x # xs)"
  then show "\<exists>q'. pop_pair_fq q = Inr (q', Some x) \<and> fq_rep q' xs"
    using pop_fq_some by (cases q) (fastforce simp: pop_pair_fq_def)
qed

end
