(* ===== verification/File_Data.thy ===== *)
theory File_Data
  imports Filesize_Queue "HOL-Library.Word"
begin

text \<open>
  C strings and buffers, the file records of request.h, and the hash function and the copy
  of webserver_5/hash_table.h.

  A byte is a HOL \<open>char\<close>. A buffer has the bytes of its block and the bytes that the
  process finds behind the block: \<open>strlen\<close> and \<open>strcpy\<close> on a file that is not terminated
  read on there, as the machine does (the C standard leaves it undefined); where these bytes
  end the model says \<open>Undefined\<close>.
\<close>

definition NUL :: char where
  "NUL = CHR 0x00"

record buffer =
  block :: string
  beyond :: string

definition memory :: "buffer \<Rightarrow> string" where
  "memory b = block b @ beyond b"

text \<open>The string that starts at the first byte of a buffer, up to its first NUL.\<close>

definition c_string :: "buffer \<Rightarrow> string result" where
  "c_string b = (if NUL \<in> set (memory b) then Inr (takeWhile (\<lambda>c. c \<noteq> NUL) (memory b)) else Inl Undefined)"

text \<open>A loop over the first \<open>n\<close> bytes of a buffer.\<close>

definition read_bytes :: "buffer \<Rightarrow> int \<Rightarrow> string result" where
  "read_bytes b n = (if nat n \<le> length (memory b) then Inr (take (nat n) (memory b)) else Inl Undefined)"

record file_data =
  file_name :: string
  file_buf :: "buffer option"
  file_size :: int

definition file_data_init :: file_data where
  "file_data_init = \<lparr>file_name = [], file_buf = None, file_size = 0\<rparr>"

definition NUM_BUCKETS :: nat where
  "NUM_BUCKETS = 80000"

text \<open>The loop of \<open>hash_fn\<close>; \<open>char\<close> is signed, so a byte is sign-extended to 64 bits.\<close>

definition byte_word :: "char \<Rightarrow> 64 word" where
  "byte_word c = scast (of_char c :: 8 word)"

fun hash_loop :: "64 word \<Rightarrow> string \<Rightarrow> 64 word" where
  "hash_loop h [] = h"
| "hash_loop h (c # str) =
     (let h1 = xor h (byte_word c);
          h2 = h1 * 0x5bd1e995
      in hash_loop (xor h2 (drop_bit 15 h2)) str)"

definition hash_fn :: "string \<Rightarrow> 64 word" where
  "hash_fn str = hash_loop 332319848 str mod of_nat NUM_BUCKETS"

definition hash_val :: "string \<Rightarrow> int" where
  "hash_val str = sint (ucast (hash_fn str) :: 32 word)"

text \<open>
  \<open>file_data_copy\<close>: the new buffer holds the string at the start of the old one and its NUL;
  \<open>after\<close> is what memory holds behind the new block.
\<close>

definition file_data_copy :: "string \<Rightarrow> file_data \<Rightarrow> file_data result" where
  "file_data_copy after rhs =
     (case file_buf rhs of
        None \<Rightarrow> Inl Undefined
      | Some b \<Rightarrow> bindE (c_string b) (\<lambda>s.
          Inr \<lparr>file_name = file_name rhs, file_buf = Some \<lparr>block = s @ [NUL], beyond = after\<rparr>,
               file_size = file_size rhs\<rparr>))"

section \<open>Facts\<close>

lemma takeWhile_NUL:
  "NUL \<notin> set s \<Longrightarrow> takeWhile (\<lambda>c. c \<noteq> NUL) (s @ t) = s @ takeWhile (\<lambda>c. c \<noteq> NUL) t"
  by (induction s) auto

text \<open>The cast of a hash value to \<open>int\<close>.\<close>

lemma int_of_hash:
  assumes "uint (h :: 64 word) < 2147483648"
  shows "sint (ucast h :: 32 word) = uint h"
proof -
  have "uint (ucast h :: 32 word) = take_bit 32 (uint h)" by (simp add: unsigned_ucast_eq)
  also have "\<dots> = uint h" by (rule take_bit_int_eq_self) (use assms in simp_all)
  finally have "sint (ucast h :: 32 word) = signed_take_bit 31 (uint h)" by (simp add: sint_uint)
  also have "\<dots> = uint h" by (rule signed_take_bit_int_eq_self)
    (use assms uint_ge_0 [of h] in \<open>simp_all del: uint_ge_0 add: order_trans [of "- 2147483648" 0]\<close>)
  finally show ?thesis .
qed

lemma hash_val_range: "0 \<le> hash_val str \<and> hash_val str < int NUM_BUCKETS"
proof -
  have "uint (hash_fn str) < 80000" by (simp add: hash_fn_def NUM_BUCKETS_def uint_mod)
  then show ?thesis using int_of_hash [of "hash_fn str"] by (simp add: hash_val_def NUM_BUCKETS_def)
qed

text \<open>
  A file without a NUL byte survives the copy when there is a NUL somewhere behind its
  block: the bytes that are sent are the bytes of the file.
\<close>

lemma copy_text_file:
  assumes "file_buf d = Some b" and "NUL \<notin> set (block b)" and "NUL \<in> set (beyond b)"
    and "file_size d = int (length (block b))"
  shows "\<exists>c d'. file_data_copy after d = Inr d' \<and> file_buf d' = Some c \<and>
    file_size d' = file_size d \<and> file_name d' = file_name d \<and>
    read_bytes c (file_size d') = Inr (block b) \<and> read_bytes b (file_size d) = Inr (block b)"
proof -
  have "takeWhile (\<lambda>c. c \<noteq> NUL) (memory b) = block b @ takeWhile (\<lambda>c. c \<noteq> NUL) (beyond b)"
    using assms(2) by (simp add: memory_def takeWhile_NUL)
  then show ?thesis
    using assms by (simp add: file_data_copy_def c_string_def read_bytes_def memory_def)
qed

text \<open>A file with a NUL before its last byte does not: the copy is cut off there.\<close>

lemma copy_binary_file:
  assumes "file_buf d = Some b" and "block b = s @ NUL # t" and "NUL \<notin> set s" and "t \<noteq> []"
    and "file_size d = int (length (block b))" and "file_data_copy after d = Inr d'"
    and "read_bytes (the (file_buf d')) (file_size d') = Inr u"
  shows "u = s @ NUL # take (length t) after"
proof -
  have "takeWhile (\<lambda>c. c \<noteq> NUL) (memory b) = s"
    using assms(2,3) by (simp add: memory_def takeWhile_NUL)
  moreover have "NUL \<in> set (memory b)" using assms(2) by (simp add: memory_def)
  ultimately have "d' = \<lparr>file_name = file_name d, file_buf = Some \<lparr>block = s @ [NUL], beyond = after\<rparr>,
      file_size = file_size d\<rparr>"
    using assms(1,6) by (simp add: file_data_copy_def c_string_def)
  moreover have "nat (file_size d) = Suc (length s + length t)" using assms(2,5) by simp
  ultimately show ?thesis
    using assms(7) by (simp add: read_bytes_def memory_def split: if_splits)
qed

end
