(* ===== verification/C_Text.thy ===== *)
theory C_Text
  imports File_Data
begin

text \<open>
  The text functions of the C library that the web server and the client use: \<open>strstr\<close>,
  \<open>strrchr\<close>, \<open>strcasecmp\<close>, the conversions of \<open>printf\<close> and \<open>scanf\<close>, and the
  first line of a byte stream. A string here has no terminating NUL. A number that \<open>scanf\<close> or
  \<open>atoi\<close> reads is kept as an integer of any size; the C standard says nothing when it does
  not fit.
\<close>

definition newline :: char where
  "newline = CHR 0x0A"

definition return_char :: char where
  "return_char = CHR 0x0D"

definition CRLF :: string where
  "CRLF = [return_char, newline]"

definition is_space :: "char \<Rightarrow> bool" where
  "is_space c \<longleftrightarrow> c \<in> {CHR 0x20, CHR 0x09, CHR 0x0A, CHR 0x0B, CHR 0x0C, CHR 0x0D}"

section \<open>Searching\<close>

fun has_prefix :: "string \<Rightarrow> string \<Rightarrow> bool" where
  "has_prefix [] s = True"
| "has_prefix (c # p) [] = False"
| "has_prefix (c # p) (d # s) = (c = d \<and> has_prefix p s)"

text \<open>Whether \<open>strstr\<close> finds the needle.\<close>

fun strstr :: "string \<Rightarrow> string \<Rightarrow> bool" where
  "strstr [] needle = has_prefix needle []"
| "strstr (c # s) needle = (has_prefix needle (c # s) \<or> strstr s needle)"

text \<open>The part of the string from the last occurrence of the character on.\<close>

fun strrchr :: "string \<Rightarrow> char \<Rightarrow> string option" where
  "strrchr [] d = None"
| "strrchr (c # s) d = (case strrchr s d of Some t \<Rightarrow> Some t | None \<Rightarrow> if c = d then Some (c # s) else None)"

definition to_lower :: "char \<Rightarrow> char" where
  "to_lower c = (if 65 \<le> (of_char c :: nat) \<and> (of_char c :: nat) \<le> 90 then char_of ((of_char c :: nat) + 32) else c)"

definition strcasecmp_equal :: "string \<Rightarrow> string \<Rightarrow> bool" where
  "strcasecmp_equal s t \<longleftrightarrow> map to_lower s = map to_lower t"

section \<open>Numbers\<close>

definition digit_char :: "nat \<Rightarrow> char" where
  "digit_char n = char_of (48 + n)"

definition is_digit :: "char \<Rightarrow> bool" where
  "is_digit c \<longleftrightarrow> 48 \<le> (of_char c :: nat) \<and> (of_char c :: nat) \<le> 57"

definition digit_value :: "char \<Rightarrow> nat" where
  "digit_value c = of_char c - 48"

text \<open>\<open>%u\<close> and \<open>%d\<close> of \<open>printf\<close>.\<close>

fun show_nat :: "nat \<Rightarrow> string" where
  "show_nat n = (if n < 10 then [digit_char n] else show_nat (n div 10) @ [digit_char (n mod 10)])"

declare show_nat.simps [simp del]

definition show_int :: "int \<Rightarrow> string" where
  "show_int i = (if i < 0 then CHR 0x2D # show_nat (nat (- i)) else show_nat (nat i))"

text \<open>\<open>%d\<close>, \<open>%u\<close> and \<open>%s\<close> of \<open>scanf\<close>: skip white space, convert, give the rest.\<close>

definition digits_value :: "string \<Rightarrow> nat" where
  "digits_value ds = foldl (\<lambda>v c. 10 * v + digit_value c) 0 ds"

definition scan_digits :: "string \<Rightarrow> (nat \<times> string) option" where
  "scan_digits s = (let ds = takeWhile is_digit s in
     if ds = [] then None else Some (digits_value ds, dropWhile is_digit s))"

definition scan_int :: "string \<Rightarrow> (int \<times> string) option" where
  "scan_int s0 = (let s = dropWhile is_space s0; sign = takeWhile (\<lambda>c. c \<in> {CHR 0x2B, CHR 0x2D}) (take 1 s) in
     case scan_digits (drop (length sign) s) of
       None \<Rightarrow> None
     | Some (n, rest) \<Rightarrow> Some (if sign = [CHR 0x2D] then - int n else int n, rest))"

definition scan_word :: "string \<Rightarrow> (string \<times> string) option" where
  "scan_word s0 = (let s = dropWhile is_space s0; w = takeWhile (\<lambda>c. \<not> is_space c) s in
     if w = [] then None else Some (w, dropWhile (\<lambda>c. \<not> is_space c) s))"

definition atoi :: "string \<Rightarrow> int" where
  "atoi s = (case scan_int s of None \<Rightarrow> 0 | Some (i, _) \<Rightarrow> i)"

text \<open>\<open>sscanf(buf, "Tag: %d ", &i)\<close>, for a tag without white space.\<close>

definition scan_tag :: "string \<Rightarrow> string \<Rightarrow> int option" where
  "scan_tag tag s = (if has_prefix tag s then map_option fst (scan_int (drop (length tag) s)) else None)"

section \<open>Lines\<close>

text \<open>The first line of a text, at most \<open>m\<close> bytes of it, with its newline.\<close>

fun first_line :: "nat \<Rightarrow> string \<Rightarrow> string" where
  "first_line 0 s = []"
| "first_line (Suc m) [] = []"
| "first_line (Suc m) (c # s) = c # (if c = newline then [] else first_line m s)"

section \<open>Facts\<close>

lemma has_prefix_append [simp]: "has_prefix p (p @ s)"
  by (induction p) auto

lemma has_prefix_iff: "has_prefix p s \<longleftrightarrow> (\<exists>t. s = p @ t)"
  by (induction p s rule: has_prefix.induct) auto

lemma strstr_iff: "strstr s needle \<longleftrightarrow> (\<exists>u v. s = u @ needle @ v)"
proof (induction s)
  case (Cons c s)
  have "(\<exists>u v. c # s = u @ needle @ v) \<longleftrightarrow> (\<exists>v. c # s = needle @ v) \<or> (\<exists>u v. s = u @ needle @ v)"
    by (auto simp: Cons_eq_append_conv)
  then show ?case using Cons by (simp add: has_prefix_iff)
qed (auto simp: has_prefix_iff)

lemma of_digit_char: "n < 10 \<Longrightarrow> of_char (digit_char n) = 48 + n"
  by (simp add: digit_char_def)

lemma is_digit_char [simp]: "n < 10 \<Longrightarrow> is_digit (digit_char n)"
  by (simp add: is_digit_def of_digit_char)

lemma digit_value_char [simp]: "n < 10 \<Longrightarrow> digit_value (digit_char n) = n"
  by (simp add: digit_value_def of_digit_char)

lemma show_nat_digits: "c \<in> set (show_nat n) \<Longrightarrow> is_digit c"
proof (induction n rule: show_nat.induct)
  case (1 n)
  then show ?case by (subst (asm) show_nat.simps) (auto split: if_splits)
qed

lemma show_nat_nonempty [simp]: "show_nat n \<noteq> []"
  by (subst show_nat.simps) simp

lemma digits_value_show [simp]: "digits_value (show_nat n) = n"
proof (induction n rule: show_nat.induct)
  case (1 n)
  then show ?case
    by (subst show_nat.simps) (auto simp: digits_value_def)
qed

lemma digit_not_space: "is_digit c \<Longrightarrow> \<not> is_space c"
  by (auto simp: is_digit_def is_space_def)

lemma digit_not_sign: "is_digit c \<Longrightarrow> c \<noteq> CHR 0x2B \<and> c \<noteq> CHR 0x2D"
  by (auto simp: is_digit_def)

text \<open>What \<open>%d\<close> reads of what \<open>%d\<close> or \<open>%u\<close> wrote.\<close>

lemma scan_digits_show:
  "rest = [] \<or> \<not> is_digit (hd rest) \<Longrightarrow> scan_digits (show_nat n @ rest) = Some (n, rest)"
  using show_nat_digits [of _ n]
  by (cases rest) (auto simp: scan_digits_def Let_def takeWhile_append2 dropWhile_append2
      takeWhile_eq_all_conv [THEN iffD2] dropWhile_eq_Nil_conv [THEN iffD2])

lemma scan_int_show_nat:
  assumes "rest = [] \<or> \<not> is_digit (hd rest)"
  shows "scan_int (show_nat n @ rest) = Some (int n, rest)"
proof -
  obtain c cs where c: "show_nat n = c # cs" by (cases "show_nat n") auto
  then have "is_digit c" using show_nat_digits [of c n] by simp
  then show ?thesis
    using scan_digits_show [OF assms, of n] c digit_not_space [of c] digit_not_sign [of c]
    by (simp add: scan_int_def Let_def)
qed

lemma scan_int_space: "is_space c \<Longrightarrow> scan_int (c # s) = scan_int s"
  by (simp add: scan_int_def)

lemma scan_int_show_int:
  assumes "rest = [] \<or> \<not> is_digit (hd rest)"
  shows "scan_int (show_int i @ rest) = Some (i, rest)"
proof (cases "i < 0")
  case True
  then show ?thesis using scan_digits_show [OF assms, of "nat (- i)"]
    by (simp add: show_int_def scan_int_def is_space_def Let_def)
next
  case False
  then show ?thesis using scan_int_show_nat [OF assms, of "nat i"] by (simp add: show_int_def)
qed

lemma scan_word_append:
  assumes "w \<noteq> []" and "\<forall>c\<in>set w. \<not> is_space c" and "rest = [] \<or> is_space (hd rest)"
  shows "scan_word (w @ rest) = Some (w, rest)"
proof -
  obtain c cs where "w = c # cs" using assms(1) by (cases w) auto
  then have "dropWhile is_space (w @ rest) = w @ rest" using assms(2) by simp
  moreover have "takeWhile (\<lambda>c. \<not> is_space c) (w @ rest) = w" "dropWhile (\<lambda>c. \<not> is_space c) (w @ rest) = rest"
    using assms by (cases rest; simp)+
  ultimately show ?thesis using assms(1) by (simp add: scan_word_def Let_def)
qed

lemma scan_word_space: "is_space c \<Longrightarrow> scan_word (c # s) = scan_word s"
  by (simp add: scan_word_def)

lemma length_first_line: "length (first_line m s) \<le> m"
  by (induction m s rule: first_line.induct) auto

lemma first_line_prefix: "take (length (first_line m s)) s = first_line m s"
  by (induction m s rule: first_line.induct) auto

lemma first_line_of_line:
  "newline \<notin> set s \<Longrightarrow> length s < m \<Longrightarrow> first_line m (s @ newline # t) = s @ [newline]"
proof (induction s arbitrary: m)
  case Nil
  then show ?case by (cases m) auto
next
  case (Cons c s)
  then show ?case by (cases m) auto
qed

lemma first_line_short: "newline \<notin> set s \<Longrightarrow> length s < m \<Longrightarrow> first_line m s = s"
proof (induction s arbitrary: m)
  case Nil
  then show ?case by (cases m) auto
next
  case (Cons c s)
  then show ?case by (cases m) auto
qed

lemma first_line_empty: "0 < m \<Longrightarrow> first_line m s = [] \<longleftrightarrow> s = []"
  by (cases m; cases s) auto

end
