(* ===== verification/Rio.thy ===== *)
theory Rio
  imports C_Text
begin

text \<open>
  The Rio package of common.c: reading and writing that go on after short counts and after
  signals, and buffered reading of lines.

  A descriptor for reading has the bytes that will arrive before the end of file and the
  answers that the system gives to the calls of \<open>read\<close>: \<open>Chunk k\<close> returns at most
  \<open>k + 1\<close> bytes, \<open>Interrupted\<close> is \<open>EINTR\<close>, \<open>Io_error\<close> any other error. When the answers
  are used up every call gets all it asked for. A descriptor for writing has the bytes sent.
\<close>

datatype reply = Chunk nat | Interrupted | Io_error

record in_stream =
  arriving :: string
  replies :: "reply list"

record out_stream =
  sent :: string
  accepts :: "reply list"

datatype io_outcome = Moved string | Errno_eintr | Errno_other

definition sys_read :: "in_stream \<Rightarrow> nat \<Rightarrow> io_outcome \<times> in_stream" where
  "sys_read fd n = (case replies fd of
      [] \<Rightarrow> (Moved (take n (arriving fd)), fd\<lparr>arriving := drop n (arriving fd)\<rparr>)
    | Chunk k # rs \<Rightarrow> let m = min n (Suc k)
        in (Moved (take m (arriving fd)), fd\<lparr>arriving := drop m (arriving fd), replies := rs\<rparr>)
    | Interrupted # rs \<Rightarrow> (Errno_eintr, fd\<lparr>replies := rs\<rparr>)
    | Io_error # rs \<Rightarrow> (Errno_other, fd\<lparr>replies := rs\<rparr>))"

definition sys_write :: "out_stream \<Rightarrow> string \<Rightarrow> io_outcome \<times> out_stream" where
  "sys_write fd bs = (case accepts fd of
      [] \<Rightarrow> (Moved bs, fd\<lparr>sent := sent fd @ bs\<rparr>)
    | Chunk k # rs \<Rightarrow> let b = take (Suc k) bs in (Moved b, fd\<lparr>sent := sent fd @ b, accepts := rs\<rparr>)
    | Interrupted # rs \<Rightarrow> (Errno_eintr, fd\<lparr>accepts := rs\<rparr>)
    | Io_error # rs \<Rightarrow> (Errno_other, fd\<lparr>accepts := rs\<rparr>))"

lemma sys_read_length: "sys_read fd n = (Moved bs, fd') \<Longrightarrow> length bs \<le> n"
  by (auto simp: sys_read_def Let_def split: list.splits reply.splits)

lemma sys_read_fewer: "sys_read fd n = (Errno_eintr, fd') \<Longrightarrow> length (replies fd') < length (replies fd)"
  by (auto simp: sys_read_def Let_def split: list.splits reply.splits)

lemma sys_read_replies: "sys_read fd n = (Moved bs, fd') \<Longrightarrow> length (replies fd') \<le> length (replies fd)"
  by (auto simp: sys_read_def Let_def split: list.splits reply.splits)

lemma sys_write_fewer: "sys_write fd b = (Errno_eintr, fd') \<Longrightarrow> length (accepts fd') < length (accepts fd)"
  by (auto simp: sys_write_def Let_def split: list.splits reply.splits)

lemma sys_write_some: "sys_write fd b = (Moved bs, fd') \<Longrightarrow> b \<noteq> [] \<Longrightarrow> bs \<noteq> [] \<and> length (accepts fd') \<le> length (accepts fd)"
  by (auto simp: sys_write_def Let_def split: list.splits reply.splits)

section \<open>Unbuffered reading and writing\<close>

text \<open>The loop of \<open>rio_read\<close>: what it returns, the bytes it stored, the descriptor.\<close>

function rio_read_loop :: "nat \<Rightarrow> in_stream \<Rightarrow> nat \<Rightarrow> string \<Rightarrow> int \<times> string \<times> in_stream" where
  "rio_read_loop n fd nleft usrbuf =
     (if nleft > 0 then
        (case sys_read fd nleft of
           (Errno_eintr, fd') \<Rightarrow> rio_read_loop n fd' nleft usrbuf
         | (Errno_other, fd') \<Rightarrow> (- 1, usrbuf, fd')
         | (Moved bs, fd') \<Rightarrow>
             if bs = [] then (int n - int nleft, usrbuf, fd')
             else rio_read_loop n fd' (nleft - length bs) (usrbuf @ bs))
      else (int n - int nleft, usrbuf, fd))"
  by pat_completeness auto
termination
proof (relation "measure (\<lambda>(n, fd, nleft, usrbuf). nleft + length (replies fd))", goal_cases)
  case (2 n fd nleft usrbuf x fd' bs)
  then show ?case using sys_read_replies [of fd nleft bs fd'] by (cases bs) auto
next
  case (3 n fd nleft usrbuf x fd')
  then show ?case using sys_read_fewer [of fd nleft fd'] by simp
qed simp

declare rio_read_loop.simps [simp del]

definition rio_read :: "in_stream \<Rightarrow> nat \<Rightarrow> int \<times> string \<times> in_stream" where
  "rio_read fd n = rio_read_loop n fd n []"

function rio_write_loop :: "nat \<Rightarrow> out_stream \<Rightarrow> string \<Rightarrow> int \<times> out_stream" where
  "rio_write_loop n fd bufp =
     (if bufp \<noteq> [] then
        (case sys_write fd bufp of
           (Errno_eintr, fd') \<Rightarrow> rio_write_loop n fd' bufp
         | (Errno_other, fd') \<Rightarrow> (- 1, fd')
         | (Moved bs, fd') \<Rightarrow> rio_write_loop n fd' (drop (length bs) bufp))
      else (int n, fd))"
  by pat_completeness auto
termination
proof (relation "measure (\<lambda>(n, fd, bufp). length bufp + length (accepts fd))", goal_cases)
  case (2 n fd bufp x fd' bs)
  then show ?case using sys_write_some [of fd bufp bs fd'] by (cases bs; cases bufp) auto
next
  case (3 n fd bufp x fd')
  then show ?case using sys_write_fewer [of fd bufp fd'] by simp
qed simp

declare rio_write_loop.simps [simp del]

definition rio_write :: "out_stream \<Rightarrow> string \<Rightarrow> int \<times> out_stream" where
  "rio_write fd usrbuf = rio_write_loop (length usrbuf) fd usrbuf"

text \<open>The wrappers, which exit on errors.\<close>

definition Rio_read :: "in_stream \<Rightarrow> nat \<Rightarrow> (int \<times> string \<times> in_stream) result" where
  "Rio_read fd nbytes = (let (n, buf, fd') = rio_read fd nbytes
     in if n < 0 then Inl (Exit_with 1) else Inr (n, buf, fd'))"

definition Rio_write :: "out_stream \<Rightarrow> string \<Rightarrow> out_stream result" where
  "Rio_write fd usrbuf = (let (n, fd') = rio_write fd usrbuf
     in if n \<noteq> int (length usrbuf) then Inl (Exit_with 1) else Inr fd')"

section \<open>Buffered reading\<close>

definition RIO_BUFSIZE :: nat where
  "RIO_BUFSIZE = 8192"

text \<open>\<open>rio_bufptr\<close> is an index into the buffer.\<close>

record rio =
  rio_fd :: in_stream
  rio_cnt :: int
  rio_bufptr :: nat
  rio_buf :: string

text \<open>\<open>junk\<close> is what the new buffer holds.\<close>

definition rio_init :: "in_stream \<Rightarrow> string \<Rightarrow> rio" where
  "rio_init fd junk = \<lparr>rio_fd = fd, rio_cnt = 0, rio_bufptr = 0, rio_buf = junk\<rparr>"

text \<open>The refill loop of \<open>rio_readb\<close>; \<open>Some r\<close> when the function returns \<open>r\<close> from inside it.\<close>

function rio_refill :: "rio \<Rightarrow> int option \<times> rio" where
  "rio_refill rp =
     (if rio_cnt rp \<le> 0 then
        (case sys_read (rio_fd rp) RIO_BUFSIZE of
           (Errno_eintr, fd') \<Rightarrow> rio_refill (rp\<lparr>rio_fd := fd', rio_cnt := - 1\<rparr>)
         | (Errno_other, fd') \<Rightarrow> (Some (- 1), rp\<lparr>rio_fd := fd', rio_cnt := - 1\<rparr>)
         | (Moved bs, fd') \<Rightarrow>
             if bs = [] then (Some 0, rp\<lparr>rio_fd := fd', rio_cnt := 0\<rparr>)
             else (None, rp\<lparr>rio_fd := fd', rio_cnt := int (length bs), rio_bufptr := 0,
                           rio_buf := bs @ drop (length bs) (rio_buf rp)\<rparr>))
      else (None, rp))"
  by pat_completeness auto
termination
  by (relation "measure (\<lambda>rp. length (replies (rio_fd rp)))")
    (auto dest: sys_read_fewer [OF sym])

declare rio_refill.simps [simp del]


definition rio_readb :: "rio \<Rightarrow> nat \<Rightarrow> int \<times> string \<times> rio" where
  "rio_readb rp n = (case rio_refill rp of
      (Some r, rp') \<Rightarrow> (r, [], rp')
    | (None, rp') \<Rightarrow>
        let cnt = (if rio_cnt rp' < int n then nat (rio_cnt rp') else n)
        in (int cnt, take cnt (drop (rio_bufptr rp') (rio_buf rp')),
            rp'\<lparr>rio_bufptr := rio_bufptr rp' + cnt, rio_cnt := rio_cnt rp' - int cnt\<rparr>))"

text \<open>
  \<open>rio_readlineb\<close>: \<open>k\<close> bytes may still be read, \<open>line\<close> is what was stored so far. The second
  result is what the call has written to the user's buffer from its start, with the
  terminating NUL; \<open>None\<close> when it has returned without writing the NUL.
\<close>

fun rio_readline_loop :: "rio \<Rightarrow> nat \<Rightarrow> string \<Rightarrow> int \<times> string option \<times> rio" where
  "rio_readline_loop rp 0 line = (int (length line), Some (line @ [NUL]), rp)"
| "rio_readline_loop rp (Suc k) line =
     (let (rc, bs, rp') = rio_readb rp 1
      in if rc = 1 then
           (if hd bs = newline then (int (length line) + 1, Some (line @ bs @ [NUL]), rp')
            else rio_readline_loop rp' k (line @ bs))
         else if rc = 0 then
           (if line = [] then (0, None, rp') else (int (length line), Some (line @ [NUL]), rp'))
         else (- 1, None, rp'))"

definition rio_readlineb :: "rio \<Rightarrow> nat \<Rightarrow> int \<times> string option \<times> rio" where
  "rio_readlineb rp maxlen = rio_readline_loop rp maxlen []"

text \<open>
  \<open>Rio_readlineb\<close> into an array of \<open>maxlen\<close> bytes that holds \<open>buf\<close>, \<open>None\<close> when it is not
  initialised. A write behind the end of the array is undefined.
\<close>

definition Rio_readlineb :: "rio \<Rightarrow> string option \<Rightarrow> nat \<Rightarrow> (int \<times> string option \<times> rio) result" where
  "Rio_readlineb rp buf maxlen = (let (rc, w, rp') = rio_readlineb rp maxlen
     in if rc < 0 then Inl (Exit_with 1)
        else (case w of
            None \<Rightarrow> Inr (rc, buf, rp')
          | Some b \<Rightarrow> if length b \<le> maxlen then Inr (rc, w, rp') else Inl Undefined))"

section \<open>What they do\<close>

definition readable :: "in_stream \<Rightarrow> bool" where
  "readable fd \<longleftrightarrow> Io_error \<notin> set (replies fd)"

definition writable :: "out_stream \<Rightarrow> bool" where
  "writable fd \<longleftrightarrow> Io_error \<notin> set (accepts fd)"

lemma sys_read_readable:
  assumes "readable fd" and "0 < n"
  obtains (eintr) fd' where "sys_read fd n = (Errno_eintr, fd')" and "arriving fd' = arriving fd" and "readable fd'"
  | (moved) bs fd' where "sys_read fd n = (Moved bs, fd')" and "arriving fd = bs @ arriving fd'"
      and "readable fd'" and "length bs \<le> n" and "bs = [] \<longleftrightarrow> arriving fd = []"
proof (cases "replies fd")
  case Nil
  then show ?thesis using assms
    by (intro moved [of "take n (arriving fd)" "fd\<lparr>arriving := drop n (arriving fd)\<rparr>"])
      (auto simp: sys_read_def readable_def)
next
  case (Cons r rs)
  show ?thesis
  proof (cases r)
    case (Chunk k)
    let ?m = "min n (Suc k)"
    show ?thesis using assms Cons Chunk
      by (intro moved [of "take ?m (arriving fd)" "fd\<lparr>arriving := drop ?m (arriving fd), replies := rs\<rparr>"])
        (auto simp: sys_read_def readable_def Let_def)
  next
    case Interrupted
    then show ?thesis using assms Cons by (intro eintr [of "fd\<lparr>replies := rs\<rparr>"]) (auto simp: sys_read_def readable_def)
  qed (use assms Cons in \<open>auto simp: readable_def\<close>)
qed

lemma rio_read_loop_all:
  "readable fd \<Longrightarrow> nleft \<le> n \<Longrightarrow>
   \<exists>fd'. rio_read_loop n fd nleft buf =
       (int n - int nleft + int (min nleft (length (arriving fd))), buf @ take nleft (arriving fd), fd') \<and>
     arriving fd' = drop nleft (arriving fd) \<and> readable fd'"
proof (induction n fd nleft buf rule: rio_read_loop.induct)
  case (1 n fd nleft buf)
  show ?case
  proof (cases "nleft > 0")
    case False
    then show ?thesis using 1 by (subst rio_read_loop.simps) auto
  next
    case True
    show ?thesis
    proof (cases rule: sys_read_readable [OF "1.prems"(1) True])
      case (1 fd')
      then show ?thesis using "1.IH"(2) [OF True 1(1) [symmetric] refl 1(3)] "1.prems"(2) True
        by (subst rio_read_loop.simps) auto
    next
      case (2 bs fd')
      show ?thesis
      proof (cases "bs = []")
        case True
        then have "rio_read_loop n fd nleft buf = (int n - int nleft, buf, fd')"
          using 2(1) \<open>nleft > 0\<close> by (subst rio_read_loop.simps) simp
        moreover have "arriving fd = []" "arriving fd' = []" using 2(2,5) True by simp_all
        ultimately show ?thesis using 2(3) by simp
      next
        case False
        have le: "nleft - length bs \<le> n" using "1.prems"(2) by simp
        obtain fd2 where r: "rio_read_loop n fd' (nleft - length bs) (buf @ bs) =
            (int n - int (nleft - length bs) + int (min (nleft - length bs) (length (arriving fd'))),
             (buf @ bs) @ take (nleft - length bs) (arriving fd'), fd2)"
          "arriving fd2 = drop (nleft - length bs) (arriving fd')" "readable fd2"
          using "1.IH"(1) [OF True 2(1) [symmetric] refl False 2(3) le] by blast
        have "rio_read_loop n fd nleft buf = rio_read_loop n fd' (nleft - length bs) (buf @ bs)"
          using True False 2(1) by (subst rio_read_loop.simps) simp
        moreover have "int (nleft - length bs) = int nleft - int (length bs)" using 2(4) by simp
        moreover have "int (min (nleft - length bs) (length (arriving fd'))) + int (length bs) =
          int (min nleft (length (arriving fd)))" using 2(2,4) by simp
        moreover have "take nleft (arriving fd) = bs @ take (nleft - length bs) (arriving fd')"
          "drop nleft (arriving fd) = drop (nleft - length bs) (arriving fd')" using 2(2,4) by simp_all
        ultimately show ?thesis using r by (intro exI [of _ fd2]) simp
      qed
    qed
  qed
qed

lemma rio_read_all:
  "readable fd \<Longrightarrow>
   \<exists>fd'. rio_read fd n = (int (min n (length (arriving fd))), take n (arriving fd), fd') \<and>
     arriving fd' = drop n (arriving fd) \<and> readable fd'"
  using rio_read_loop_all [of fd n n "[]"] by (simp add: rio_read_def)

lemma rio_write_loop_all:
  "writable fd \<Longrightarrow> \<exists>fd'. rio_write_loop n fd b = (int n, fd') \<and> sent fd' = sent fd @ b \<and> writable fd'"
proof (induction n fd b rule: rio_write_loop.induct)
  case (1 n fd b)
  show ?case
  proof (cases "b = []")
    case True
    then show ?thesis using 1 by (subst rio_write_loop.simps) auto
  next
    case False
    obtain r fd' where w: "sys_write fd b = (r, fd')" by (cases "sys_write fd b")
    have wr: "writable fd'" and no: "r \<noteq> Errno_other"
      and eintr: "r = Errno_eintr \<Longrightarrow> sent fd' = sent fd"
      and moved: "\<And>bs. r = Moved bs \<Longrightarrow> sent fd' = sent fd @ bs \<and> bs @ drop (length bs) b = b"
      using w "1.prems"
      by (auto simp: sys_write_def writable_def Let_def min_def split: list.splits reply.splits)
    show ?thesis
    proof (cases r)
      case (Moved bs)
      then obtain fd2 where "rio_write_loop n fd' (drop (length bs) b) = (int n, fd2)"
        "sent fd2 = sent fd' @ drop (length bs) b" "writable fd2"
        using "1.IH"(1) [OF False w [symmetric] Moved wr] by blast
      then show ?thesis using False w Moved moved [OF Moved] by (subst rio_write_loop.simps) simp
    next
      case Errno_eintr
      then show ?thesis using "1.IH"(2) [OF False w [symmetric] Errno_eintr wr] False w eintr
        by (subst rio_write_loop.simps) simp
    qed (use no in simp)
  qed
qed

lemma Rio_write_all: "writable fd \<Longrightarrow> \<exists>fd'. Rio_write fd b = Inr fd' \<and> sent fd' = sent fd @ b \<and> writable fd'"
  using rio_write_loop_all [of fd "length b" b] by (auto simp: Rio_write_def rio_write_def)

text \<open>\<open>Rio_write\<close> that does not exit has sent everything.\<close>

lemma rio_write_loop_sent:
  "rio_write_loop n fd b = (r, fd') \<Longrightarrow> r \<noteq> - 1 \<Longrightarrow> sent fd' = sent fd @ b"
proof (induction n fd b rule: rio_write_loop.induct)
  case (1 n fd b)
  show ?case
  proof (cases "b = []")
    case True
    then show ?thesis using 1 by (subst (asm) rio_write_loop.simps) auto
  next
    case False
    obtain o1 fd1 where w: "sys_write fd b = (o1, fd1)" by (cases "sys_write fd b")
    have eintr: "o1 = Errno_eintr \<Longrightarrow> sent fd1 = sent fd"
      and moved: "\<And>bs. o1 = Moved bs \<Longrightarrow> sent fd1 = sent fd @ bs \<and> bs @ drop (length bs) b = b"
      using w by (auto simp: sys_write_def Let_def min_def split: list.splits reply.splits)
    show ?thesis
    proof (cases o1)
      case (Moved bs)
      then have "rio_write_loop n fd1 (drop (length bs) b) = (r, fd')"
        using 1(3) False w by (subst (asm) rio_write_loop.simps) simp
      then show ?thesis using "1.IH"(1) [OF False w [symmetric] Moved] 1(4) moved [OF Moved] by simp
    next
      case Errno_eintr
      then have "rio_write_loop n fd1 b = (r, fd')"
        using 1(3) False w by (subst (asm) rio_write_loop.simps) simp
      then show ?thesis using "1.IH"(2) [OF False w [symmetric] Errno_eintr] 1(4) eintr Errno_eintr by simp
    next
      case Errno_other
      then show ?thesis using 1(3,4) False w by (subst (asm) rio_write_loop.simps) simp
    qed
  qed
qed

lemma Rio_write_sent: "Rio_write fd b = Inr fd' \<Longrightarrow> sent fd' = sent fd @ b"
  using rio_write_loop_sent [of "length b" fd b]
  by (auto simp: Rio_write_def rio_write_def split: prod.splits if_splits)

section \<open>Lines\<close>

text \<open>The bytes that a buffered reader still has in front of it.\<close>

definition unread :: "rio \<Rightarrow> string" where
  "unread rp = take (nat (rio_cnt rp)) (drop (rio_bufptr rp) (rio_buf rp)) @ arriving (rio_fd rp)"

definition rio_ok :: "rio \<Rightarrow> bool" where
  "rio_ok rp \<longleftrightarrow> readable (rio_fd rp) \<and> nat (rio_cnt rp) \<le> length (rio_buf rp) - rio_bufptr rp"

lemma rio_init_ok: "readable fd \<Longrightarrow> rio_ok (rio_init fd junk) \<and> unread (rio_init fd junk) = arriving fd"
  by (simp add: rio_init_def rio_ok_def unread_def)

lemma rio_refill_ok:
  "rio_ok rp \<Longrightarrow>
   (\<exists>rp'. rio_refill rp = (None, rp') \<and> 0 < rio_cnt rp' \<and> rio_ok rp' \<and> unread rp' = unread rp) \<or>
   (\<exists>rp'. rio_refill rp = (Some 0, rp') \<and> unread rp = [] \<and> unread rp' = [] \<and> rio_ok rp')"
proof (induction rp rule: rio_refill.induct)
  case (1 rp)
  show ?case
  proof (cases "rio_cnt rp \<le> 0")
    case False
    then have "rio_refill rp = (None, rp)" by (subst rio_refill.simps) simp
    then show ?thesis using False "1.prems" by simp
  next
    case True
    have rd: "readable (rio_fd rp)" "0 < RIO_BUFSIZE" using "1.prems" by (simp_all add: rio_ok_def RIO_BUFSIZE_def)
    show ?thesis
    proof (cases rule: sys_read_readable [OF rd])
      case (1 fd')
      let ?rp = "rp\<lparr>rio_fd := fd', rio_cnt := - 1\<rparr>"
      have eq: "rio_refill rp = rio_refill ?rp" using True 1(1) by (subst rio_refill.simps) simp
      have ok: "rio_ok ?rp" and u: "unread rp = unread ?rp"
        using 1 True by (simp_all add: rio_ok_def unread_def)
      show ?thesis unfolding eq u by (rule "1.IH" [OF True 1(1) [symmetric] refl ok])
    next
      case (2 bs fd')
      let ?rp = "rp\<lparr>rio_fd := fd', rio_cnt := int (length bs), rio_bufptr := 0,
        rio_buf := bs @ drop (length bs) (rio_buf rp)\<rparr>"
      let ?re = "rp\<lparr>rio_fd := fd', rio_cnt := 0\<rparr>"
      have u: "unread rp = bs @ arriving fd'" using True 2(2) by (simp add: unread_def)
      show ?thesis
      proof (cases "bs = []")
        case True
        then have e: "rio_refill rp = (Some 0, ?re)"
          using 2(1) \<open>rio_cnt rp \<le> 0\<close> by (subst rio_refill.simps) simp
        have "unread rp = []" "unread ?re = []" "rio_ok ?re"
          using u 2(2,3,5) True by (simp_all add: unread_def rio_ok_def)
        with e show ?thesis by blast
      next
        case False
        then have e: "rio_refill rp = (None, ?rp)"
          using 2(1) \<open>rio_cnt rp \<le> 0\<close> by (subst rio_refill.simps) simp
        have "0 < rio_cnt ?rp" "rio_ok ?rp" "unread ?rp = unread rp"
          using u 2(3) False by (simp_all add: unread_def rio_ok_def)
        with e show ?thesis by blast
      qed
    qed
  qed
qed

lemma rio_readb_one:
  assumes "rio_ok rp"
  obtains (byte) c rp' where "rio_readb rp 1 = (1, [c], rp')" and "unread rp = c # unread rp'" and "rio_ok rp'"
  | (eof) rp' where "rio_readb rp 1 = (0, [], rp')" and "unread rp = []" and "unread rp' = []" and "rio_ok rp'"
  using rio_refill_ok [OF assms]
proof (elim disjE exE conjE)
  fix rp1 assume r: "rio_refill rp = (None, rp1)" "0 < rio_cnt rp1" "rio_ok rp1" "unread rp1 = unread rp"
  define n where "n = nat (rio_cnt rp1) - 1"
  have n: "nat (rio_cnt rp1) = Suc n" using r(2) by (simp add: n_def)
  then have "rio_bufptr rp1 < length (rio_buf rp1)" using r(3) unfolding rio_ok_def by linarith
  then have d: "drop (rio_bufptr rp1) (rio_buf rp1) = rio_buf rp1 ! rio_bufptr rp1 # drop (Suc (rio_bufptr rp1)) (rio_buf rp1)"
    by (rule Cons_nth_drop_Suc [symmetric])
  let ?rp = "rp1\<lparr>rio_bufptr := Suc (rio_bufptr rp1), rio_cnt := rio_cnt rp1 - 1\<rparr>"
  have "rio_readb rp 1 = (1, [rio_buf rp1 ! rio_bufptr rp1], ?rp)"
    using r(1,2) d by (simp add: rio_readb_def Let_def)
  moreover have "nat (rio_cnt rp1 - 1) = n" using n by simp
  then have "unread rp = rio_buf rp1 ! rio_bufptr rp1 # unread ?rp"
    using r(4) [symmetric] d n by (simp add: unread_def)
  moreover have "rio_ok ?rp" using r(3) n \<open>nat (rio_cnt rp1 - 1) = n\<close>
    by (auto simp: rio_ok_def)
  ultimately show thesis by (rule byte)
next
  fix rp1 assume "rio_refill rp = (Some 0, rp1)" "unread rp = []" "unread rp1 = []" "rio_ok rp1"
  then show thesis by (intro eof [of rp1]) (simp_all add: rio_readb_def)
qed

lemma rio_readline_loop_line:
  "rio_ok rp \<Longrightarrow>
   \<exists>rp'. rio_readline_loop rp k line =
      (int (length line + length (first_line k (unread rp))),
       if line = [] \<and> unread rp = [] \<and> 0 < k then None else Some (line @ first_line k (unread rp) @ [NUL]), rp') \<and>
     rio_ok rp' \<and> unread rp' = drop (length (first_line k (unread rp))) (unread rp)"
proof (induction k arbitrary: rp line)
  case 0
  then show ?case by simp
next
  case (Suc k)
  show ?case
  proof (cases rule: rio_readb_one [OF Suc.prems])
    case (1 c rp1)
    show ?thesis
    proof (cases "c = newline")
      case True
      then show ?thesis using 1 by simp
    next
      case False
      then show ?thesis using Suc.IH [OF 1(3), of "line @ [c]"] 1 by auto
    qed
  next
    case (2 rp1)
    then show ?thesis by auto
  qed
qed

lemma rio_readlineb_line:
  "rio_ok rp \<Longrightarrow> 0 < m \<Longrightarrow>
   \<exists>rp'. rio_readlineb rp m =
      (int (length (first_line m (unread rp))),
       if unread rp = [] then None else Some (first_line m (unread rp) @ [NUL]), rp') \<and>
     rio_ok rp' \<and> unread rp' = drop (length (first_line m (unread rp))) (unread rp)"
  unfolding rio_readlineb_def by (drule rio_readline_loop_line [of rp m "[]"]) (auto split: if_splits)

text \<open>Into an array: a line that fills the array overflows it by one byte.\<close>

lemma Rio_readlineb_line:
  assumes "rio_ok rp" and "0 < m"
  shows "\<exists>rp'. Rio_readlineb rp buf m =
      (if length (first_line m (unread rp)) = m then Inl Undefined
       else Inr (int (length (first_line m (unread rp))),
         if unread rp = [] then buf else Some (first_line m (unread rp) @ [NUL]), rp')) \<and>
     rio_ok rp' \<and> unread rp' = drop (length (first_line m (unread rp))) (unread rp)"
proof -
  obtain rp' where r: "rio_readlineb rp m =
      (int (length (first_line m (unread rp))),
       if unread rp = [] then None else Some (first_line m (unread rp) @ [NUL]), rp')"
     "rio_ok rp'" "unread rp' = drop (length (first_line m (unread rp))) (unread rp)"
    using rio_readlineb_line [OF assms] by blast
  have "length (first_line m (unread rp)) \<le> m" by (rule length_first_line)
  moreover have "unread rp = [] \<Longrightarrow> first_line m (unread rp) = []" using first_line_empty [OF assms(2)] by blast
  ultimately show ?thesis using r assms(2)
    by (intro exI [of _ rp']) (auto simp: Rio_readlineb_def)
qed

end
