(* ===== verification/Request.thy ===== *)
theory Request
  imports Rio
begin

text \<open>
  Requests and responses: request.c of the web server. A connection has the stream of the
  client, the stream to the client, and says whether the descriptor was closed. What the
  requests need of the system is in \<open>env\<close>: the files, what uninitialised memory holds
  (\<open>stale\<close> in the buffer of a reader, \<open>junk\<close> in the buffer of a file) and what lies behind the
  buffer of a file. Allocations succeed, except when a negative size has
  become a huge one.
\<close>

definition MAXLINE :: nat where
  "MAXLINE = 8192"

definition MAXBUF :: nat where
  "MAXBUF = 8192"

record conn =
  from_client :: in_stream
  to_client :: out_stream
  closed :: bool

record file_stat =
  is_regular :: bool
  owner_readable :: bool
  st_size :: int
  can_open :: bool
  contents :: in_stream

record env =
  files :: "string \<Rightarrow> file_stat option"
  stale :: string
  junk :: "nat \<Rightarrow> char"
  behind :: string

section \<open>Error responses\<close>

definition csum :: "string \<Rightarrow> 32 word" where
  "csum s = foldl (\<lambda>v c. v + of_char c) 0 s"

definition error_body :: "string \<Rightarrow> string \<Rightarrow> string \<Rightarrow> string \<Rightarrow> string" where
  "error_body cause errnum shortmsg longmsg =
     ''<html><title>OS Web Server Error</title>'' @ ''<body bgcolor=fffff>'' @ CRLF @
     ''<p>'' @ errnum @ '': '' @ shortmsg @ ''</p>'' @ CRLF @
     ''<p>'' @ longmsg @ '': '' @ cause @ ''</p>'' @ CRLF @ ''</body></html>'' @ CRLF"

text \<open>The page is put together in an array of \<open>MAXBUF\<close> bytes, whatever the length of the cause.\<close>

definition request_error :: "out_stream \<Rightarrow> string \<Rightarrow> string \<Rightarrow> string \<Rightarrow> string \<Rightarrow> out_stream result" where
  "request_error fd cause errnum shortmsg longmsg =
     (let body = error_body cause errnum shortmsg longmsg in
      if length body + 1 > MAXBUF then Inl Undefined
      else
        bindE (Rio_write fd (''HTTP/1.0 '' @ errnum @ '' '' @ shortmsg @ CRLF)) (\<lambda>fd.
        bindE (Rio_write fd (''Content-Type: text/html'' @ CRLF)) (\<lambda>fd.
        bindE (Rio_write fd (''Content-Length: '' @ show_nat (length body) @ CRLF)) (\<lambda>fd.
        bindE (Rio_write fd (''Content-Csum: '' @ show_nat (unat (csum body)) @ CRLF @ CRLF)) (\<lambda>fd.
        Rio_write fd body)))))"

section \<open>Reading the request\<close>

definition c_text :: "string \<Rightarrow> string" where
  "c_text buf = takeWhile (\<lambda>c. c \<noteq> NUL) buf"

partial_function (option) headers_loop :: "rio \<Rightarrow> string option \<Rightarrow> rio result option" where
  "headers_loop rp buf = (case buf of
      None \<Rightarrow> Some (Inl Undefined)
    | Some b \<Rightarrow> if c_text b = CRLF then Some (Inr rp)
        else (case Rio_readlineb rp buf MAXLINE of
            Inl e \<Rightarrow> Some (Inl e)
          | Inr r \<Rightarrow> headers_loop (snd (snd r)) (fst (snd r))))"

definition request_read_headers :: "rio \<Rightarrow> rio result" where
  "request_read_headers rp =
     bindE (Rio_readlineb rp None MAXLINE) (\<lambda>(n, buf, rp'). loopE (headers_loop rp' buf))"

definition request_parse_URI :: "string \<Rightarrow> nat \<Rightarrow> string" where
  "request_parse_URI uri bound = take (bound - 1) (''./'' @ uri)"

text \<open>\<open>sscanf(buf, "%s %s %s", ...)\<close>; a word that is missing leaves its array uninitialised.\<close>

definition scan_three :: "string \<Rightarrow> string option \<times> string option \<times> string option" where
  "scan_three s = (case scan_word s of None \<Rightarrow> (None, None, None)
    | Some (a, s1) \<Rightarrow> (case scan_word s1 of None \<Rightarrow> (Some a, None, None)
      | Some (b, s2) \<Rightarrow> (Some a, Some b, map_option fst (scan_word s2))))"

definition request_destroy :: "conn \<Rightarrow> conn" where
  "request_destroy rq = rq\<lparr>closed := True\<rparr>"

definition uninitialised :: "'a option \<Rightarrow> 'a result" where
  "uninitialised v = (case v of None \<Rightarrow> Inl Undefined | Some x \<Rightarrow> Inr x)"

text \<open>The name of the requested file, or \<open>None\<close> when the request was refused.\<close>

definition request_init :: "env \<Rightarrow> conn \<Rightarrow> (conn \<times> string option) result" where
  "request_init e rq =
     bindE (Rio_readlineb (rio_init (from_client rq) (stale e)) None MAXLINE) (\<lambda>(n, buf, rio).
     bindE (uninitialised buf) (\<lambda>b.
     let (method, uri, version) = scan_three (c_text b) in
     bindE (uninitialised method) (\<lambda>m.
     if \<not> strcasecmp_equal m ''GET'' then
       bindE (request_error (to_client rq) m ''501'' ''Not Implemented''
                ''OS Web Server does not implement this method'') (\<lambda>out.
       Inr (request_destroy (rq\<lparr>from_client := rio_fd rio, to_client := out\<rparr>), None))
     else
       bindE (request_read_headers rio) (\<lambda>rio'.
       bindE (uninitialised uri) (\<lambda>u.
       Inr (rq\<lparr>from_client := rio_fd rio'\<rparr>, Some (request_parse_URI u MAXLINE)))))))"

section \<open>Reading the file\<close>

definition ends_in_source :: "string \<Rightarrow> bool" where
  "ends_in_source name = (case strrchr name CHR ''.'' of
      None \<Rightarrow> False | Some ext \<Rightarrow> ext = ''.c'' \<or> ext = ''.h'')"

text \<open>The conversion of a file size to \<open>int\<close>.\<close>

definition to_int32 :: "int \<Rightarrow> int" where
  "to_int32 i = sint (word_of_int i :: 32 word)"

definition refuse :: "out_stream \<Rightarrow> file_data \<Rightarrow> string \<Rightarrow> string \<Rightarrow> string \<Rightarrow> (out_stream \<times> file_data \<times> bool) result" where
  "refuse out data errnum shortmsg longmsg =
     bindE (request_error out (file_name data) errnum shortmsg longmsg) (\<lambda>out'. Inr (out', data, False))"

definition request_readfile :: "env \<Rightarrow> out_stream \<Rightarrow> file_data \<Rightarrow> (out_stream \<times> file_data \<times> bool) result" where
  "request_readfile e out data =
     (if has_prefix ''/'' (file_name data) then
        refuse out data ''404'' ''Not found'' ''OS Web Server doesn't serve files with absolute paths''
      else if strstr (file_name data) ''..'' then
        refuse out data ''404'' ''Not found'' ''OS Web Server doesn't serve files with .. in the path''
      else if ends_in_source (file_name data) then
        refuse out data ''404'' ''Not found'' ''OS Web Server doesn't serve C or header files ''
      else (case files e (file_name data) of
          None \<Rightarrow> refuse out data ''404'' ''Not found'' ''OS Web Server could not find this file''
        | Some st \<Rightarrow>
            if \<not> is_regular st \<or> \<not> owner_readable st then
              refuse out data ''403'' ''Forbidden'' ''OS Web Server could not read this file''
            else
              let n = to_int32 (st_size st); data1 = data\<lparr>file_size := n\<rparr> in
              if n = 0 then Inr (out, data1, True)
              else if \<not> can_open st then Inl (Exit_with 1)
              else if n < 0 then Inl (Exit_with 1)
              else
                bindE (Rio_read (contents st) (nat n)) (\<lambda>(got, bytes, fd).
                Inr (out, data1\<lparr>file_buf := Some
                  \<lparr>block = bytes @ map (junk e) [length bytes..<nat n], beyond = behind e\<rparr>\<rparr>, True))))"

section \<open>Sending it\<close>

definition request_get_file_type :: "string \<Rightarrow> string" where
  "request_get_file_type filename =
     (if strstr filename ''.html'' then ''text/html''
      else if strstr filename ''.gif'' then ''image/gif''
      else if strstr filename ''.jpg'' then ''image/jpeg''
      else ''text/plain'')"

text \<open>The bytes that a loop from 0 to \<open>file_size\<close> reads.\<close>

definition file_bytes :: "file_data \<Rightarrow> string result" where
  "file_bytes data = (if file_size data \<le> 0 then Inr []
     else (case file_buf data of None \<Rightarrow> Inl Undefined | Some b \<Rightarrow> read_bytes b (file_size data)))"

definition request_processfile :: "file_data \<Rightarrow> unit result" where
  "request_processfile data = bindE (file_bytes data) (\<lambda>_. Inr ())"

definition response_header :: "string \<Rightarrow> int \<Rightarrow> 32 word \<Rightarrow> string" where
  "response_header name sz c =
     ''HTTP/1.0 200 OK'' @ CRLF @ ''Server: OS Web Server'' @ CRLF @
     ''Content-Type: '' @ request_get_file_type name @ CRLF @
     ''Content-Length: '' @ show_int sz @ CRLF @
     ''Content-Csum: '' @ show_nat (unat c) @ CRLF @ CRLF"

definition request_sendfile :: "out_stream \<Rightarrow> file_data \<Rightarrow> out_stream result" where
  "request_sendfile fd data =
     bindE (file_bytes data) (\<lambda>bytes.
     bindE (request_processfile data) (\<lambda>_.
     bindE (Rio_write fd (response_header (file_name data) (file_size data) (csum bytes))) (\<lambda>fd'.
     if file_size data > 0 then Rio_write fd' bytes else Inr fd')))"

section \<open>What they send\<close>

definition error_page :: "string \<Rightarrow> string \<Rightarrow> string \<Rightarrow> string \<Rightarrow> string" where
  "error_page cause errnum shortmsg longmsg =
     (let body = error_body cause errnum shortmsg longmsg in
      ''HTTP/1.0 '' @ errnum @ '' '' @ shortmsg @ CRLF @ ''Content-Type: text/html'' @ CRLF @
      ''Content-Length: '' @ show_nat (length body) @ CRLF @
      ''Content-Csum: '' @ show_nat (unat (csum body)) @ CRLF @ CRLF @ body)"

definition ok_page :: "string \<Rightarrow> string \<Rightarrow> string" where
  "ok_page name bytes = response_header name (int (length bytes)) (csum bytes) @ bytes"

lemma request_error_sent:
  "request_error fd cause errnum shortmsg longmsg = Inr fd' \<Longrightarrow>
   sent fd' = sent fd @ error_page cause errnum shortmsg longmsg"
  by (auto simp: request_error_def Let_def result_simps error_page_def dest!: Rio_write_sent split: if_splits)

lemma request_error_ok:
  assumes "writable fd" and "length (error_body cause errnum shortmsg longmsg) < MAXBUF"
  shows "\<exists>fd'. request_error fd cause errnum shortmsg longmsg = Inr fd' \<and>
    sent fd' = sent fd @ error_page cause errnum shortmsg longmsg \<and> writable fd'"
proof -
  have w: "writable fd \<Longrightarrow> \<exists>fd'. Rio_write fd s = Inr fd' \<and> sent fd' = sent fd @ s \<and> writable fd'" for fd s
    by (rule Rio_write_all)
  let ?body = "error_body cause errnum shortmsg longmsg"
  obtain f1 where f1: "Rio_write fd (''HTTP/1.0 '' @ errnum @ '' '' @ shortmsg @ CRLF) = Inr f1"
    "sent f1 = sent fd @ ''HTTP/1.0 '' @ errnum @ '' '' @ shortmsg @ CRLF" "writable f1" using w assms(1) by blast
  obtain f2 where f2: "Rio_write f1 (''Content-Type: text/html'' @ CRLF) = Inr f2"
    "sent f2 = sent f1 @ ''Content-Type: text/html'' @ CRLF" "writable f2" using w f1(3) by blast
  obtain f3 where f3: "Rio_write f2 (''Content-Length: '' @ show_nat (length ?body) @ CRLF) = Inr f3"
    "sent f3 = sent f2 @ ''Content-Length: '' @ show_nat (length ?body) @ CRLF" "writable f3" using w f2(3) by blast
  obtain f4 where f4: "Rio_write f3 (''Content-Csum: '' @ show_nat (unat (csum ?body)) @ CRLF @ CRLF) = Inr f4"
    "sent f4 = sent f3 @ ''Content-Csum: '' @ show_nat (unat (csum ?body)) @ CRLF @ CRLF" "writable f4" using w f3(3) by blast
  obtain f5 where f5: "Rio_write f4 ?body = Inr f5" "sent f5 = sent f4 @ ?body" "writable f5" using w f4(3) by blast
  have "request_error fd cause errnum shortmsg longmsg = Inr f5"
    unfolding request_error_def Let_def using assms(2) f1(1) f2(1) f3(1) f4(1) f5(1) by simp
  then show ?thesis using f5 f4(2) f3(2) f2(2) f1(2) by (simp add: error_page_def Let_def)
qed

lemma request_sendfile_ok:
  assumes "writable fd" and "file_bytes d = Inr bytes" and "file_size d = int (length bytes)"
  shows "\<exists>fd'. request_sendfile fd d = Inr fd' \<and> sent fd' = sent fd @ ok_page (file_name d) bytes \<and> writable fd'"
proof -
  obtain f1 where f1: "Rio_write fd (response_header (file_name d) (file_size d) (csum bytes)) = Inr f1"
    "sent f1 = sent fd @ response_header (file_name d) (file_size d) (csum bytes)" "writable f1"
    using Rio_write_all [OF assms(1)] by blast
  obtain f2 where f2: "Rio_write f1 bytes = Inr f2" "sent f2 = sent f1 @ bytes" "writable f2"
    using Rio_write_all [OF f1(3)] by blast
  show ?thesis
  proof (cases "bytes = []")
    case True
    then show ?thesis using f1 assms(2,3) by (simp add: request_sendfile_def request_processfile_def ok_page_def)
  next
    case False
    then show ?thesis using f1 f2 assms(2,3) by (simp add: request_sendfile_def request_processfile_def ok_page_def)
  qed
qed

end
