(* ===== verification/File_Cache.thy ===== *)
theory File_Cache
  imports File_Data
begin

text \<open>
  The file cache of webserver_5/hash_table.h: 80000 buckets of entries, the number of bytes
  cached, and the queue of the files by size from which evictions are taken. A bucket is the
  list of its entries, in the order of the \<open>next\<close> pointers; the eviction queue is the list
  that the pointer code of Filesize_Queue implements. \<open>cache_mutex\<close> says whether the mutex
  is held; locking a held mutex would wait for ever. Allocation is assumed to succeed here.
\<close>

record entry =
  entry_name :: string
  entry_data :: file_data

record cache =
  buckets :: "int \<Rightarrow> entry list"
  max_buffer_size :: int
  curr_buffer_size :: int
  filesize_queue :: "file_key list"
  cache_mutex :: bool
  heap_after :: string

definition mutex_lock :: "cache \<Rightarrow> cache result" where
  "mutex_lock wc = (if cache_mutex wc then Inl Nontermination else Inr (wc\<lparr>cache_mutex := True\<rparr>))"

definition mutex_unlock :: "cache \<Rightarrow> cache" where
  "mutex_unlock wc = wc\<lparr>cache_mutex := False\<rparr>"

definition hash_table_init :: "string \<Rightarrow> int \<Rightarrow> cache" where
  "hash_table_init after m =
     \<lparr>buckets = (\<lambda>_. []), max_buffer_size = m, curr_buffer_size = 0, filesize_queue = [],
      cache_mutex = False, heap_after = after\<rparr>"

fun add_to_list :: "entry list \<Rightarrow> string \<Rightarrow> file_data \<Rightarrow> entry list \<times> bool" where
  "add_to_list [] filename d = ([\<lparr>entry_name = filename, entry_data = d\<rparr>], True)"
| "add_to_list (e # es) filename d =
     (if entry_name e = filename then (e # es, False)
      else let (es', b) = add_to_list es filename d in (e # es', b))"

fun delete_node_from_list :: "entry list \<Rightarrow> string \<Rightarrow> entry list \<times> file_data option" where
  "delete_node_from_list [] filename = ([], None)"
| "delete_node_from_list (e # es) filename =
     (if entry_name e = filename then (es, Some (entry_data e))
      else let (es', r) = delete_node_from_list es filename in (e # es', r))"

fun find_in_list :: "entry list \<Rightarrow> string \<Rightarrow> file_data option" where
  "find_in_list [] filename = None"
| "find_in_list (e # es) filename =
     (if entry_name e = filename then Some (entry_data e) else find_in_list es filename)"

definition valid_bucket :: "int \<Rightarrow> bool" where
  "valid_bucket i \<longleftrightarrow> 0 \<le> i \<and> i < int NUM_BUCKETS"

definition delete_from_hash_table :: "cache \<Rightarrow> string \<Rightarrow> cache result" where
  "delete_from_hash_table wc filename =
     (let i = hash_val filename in
      bindE (assertE (valid_bucket i)) (\<lambda>_.
      let (es, r) = delete_node_from_list (buckets wc i) filename in
      case r of
        None \<Rightarrow> Inl Assertion
      | Some d \<Rightarrow> Inr (wc\<lparr>buckets := (buckets wc)(i := es),
                           curr_buffer_size := curr_buffer_size wc - file_size d\<rparr>)))"

text \<open>The loop of \<open>evict_cache\<close>, along the queue that it pops.\<close>

fun evict_loop :: "file_key list \<Rightarrow> int \<Rightarrow> int \<Rightarrow> cache \<Rightarrow> cache result" where
  "evict_loop [] evicted_cache need wc =
     (if evicted_cache < need then Inl Assertion else Inr wc)"
| "evict_loop (x # q) evicted_cache need wc =
     (if evicted_cache < need then
        bindE (delete_from_hash_table (wc\<lparr>filesize_queue := q\<rparr>) (snd x)) (\<lambda>wc'.
        evict_loop q (evicted_cache + fst x) need wc')
      else Inr wc)"

definition evict_cache :: "cache \<Rightarrow> int \<Rightarrow> cache result" where
  "evict_cache wc total_size_to_evict = evict_loop (filesize_queue wc) 0 total_size_to_evict wc"

definition add_to_hash_table :: "cache \<Rightarrow> string \<Rightarrow> file_data \<Rightarrow> (cache \<times> bool) result" where
  "add_to_hash_table wc0 filename d =
     bindE (mutex_lock wc0) (\<lambda>wc.
     bindE (file_data_copy (heap_after wc) d) (\<lambda>new_data.
     bindE (assertE (file_size new_data \<le> max_buffer_size wc)) (\<lambda>_.
     let remaining = max_buffer_size wc - curr_buffer_size wc in
     bindE (if file_size new_data > remaining then
              bindE (evict_cache wc (file_size new_data - remaining)) (\<lambda>wc1.
              bindE (assertE (file_size new_data \<le> max_buffer_size wc1 - curr_buffer_size wc1)) (\<lambda>_.
              Inr wc1))
            else Inr wc) (\<lambda>wc1.
     let i = hash_val filename in
     bindE (assertE (valid_bucket i)) (\<lambda>_.
     let (es, b) = add_to_list (buckets wc1 i) filename new_data in
     if b then
       Inr (mutex_unlock (wc1\<lparr>buckets := (buckets wc1)(i := es),
              curr_buffer_size := curr_buffer_size wc1 + file_size new_data,
              filesize_queue := insert_desc (file_size new_data, filename) (filesize_queue wc1)\<rparr>), True)
     else Inr (mutex_unlock wc1, False))))))"

definition find_in_hash_table :: "cache \<Rightarrow> string \<Rightarrow> (cache \<times> file_data option) result" where
  "find_in_hash_table wc0 filename =
     bindE (mutex_lock wc0) (\<lambda>wc.
     let i = hash_val filename in
     bindE (assertE (valid_bucket i)) (\<lambda>_.
     case find_in_list (buckets wc i) filename of
       None \<Rightarrow> Inr (mutex_unlock wc, None)
     | Some d \<Rightarrow> bindE (file_data_copy (heap_after wc) d) (\<lambda>new_data.
         Inr (mutex_unlock wc, Some new_data))))"

section \<open>The cache as a map from names to files\<close>

definition lookup :: "cache \<Rightarrow> string \<Rightarrow> file_data option" where
  "lookup wc f = find_in_list (buckets wc (hash_val f)) f"

definition bucket_ok :: "int \<Rightarrow> entry list \<Rightarrow> bool" where
  "bucket_ok i es \<longleftrightarrow> distinct (map entry_name es) \<and> (\<forall>e\<in>set es. hash_val (entry_name e) = i)"

definition total_size :: "file_key list \<Rightarrow> int" where
  "total_size q = sum_list (map fst q)"

definition cache_ok :: "cache \<Rightarrow> bool" where
  "cache_ok wc \<longleftrightarrow>
     (\<forall>i. bucket_ok i (buckets wc i)) \<and>
     distinct (map snd (filesize_queue wc)) \<and> descending (filesize_queue wc) \<and>
     (\<forall>s f. (s, f) \<in> set (filesize_queue wc) \<longleftrightarrow> (\<exists>d. lookup wc f = Some d \<and> file_size d = s)) \<and>
     (\<forall>x\<in>set (filesize_queue wc). 0 \<le> fst x) \<and>
     curr_buffer_size wc = total_size (filesize_queue wc)"

definition cache_inv :: "cache \<Rightarrow> bool" where
  "cache_inv wc \<longleftrightarrow> cache_ok wc \<and> curr_buffer_size wc \<le> max_buffer_size wc"

lemma find_in_list_None: "find_in_list es f = None \<longleftrightarrow> f \<notin> entry_name ` set es"
  by (induction es) auto

lemma add_to_list_new:
  "f \<notin> entry_name ` set es \<Longrightarrow> add_to_list es f d = (es @ [\<lparr>entry_name = f, entry_data = d\<rparr>], True)"
  by (induction es) auto

lemma add_to_list_old: "f \<in> entry_name ` set es \<Longrightarrow> add_to_list es f d = (es, False)"
  by (induction es) (auto split: prod.splits)

lemma find_in_list_snoc:
  "find_in_list (es @ [\<lparr>entry_name = f, entry_data = d\<rparr>]) g =
     (case find_in_list es g of None \<Rightarrow> if g = f then Some d else None | Some x \<Rightarrow> Some x)"
  by (induction es) auto

lemma delete_node_found:
  assumes "find_in_list es f = Some d" and "distinct (map entry_name es)"
  shows "\<exists>es'. delete_node_from_list es f = (es', Some d) \<and> set es' \<subseteq> set es \<and>
    distinct (map entry_name es') \<and> (\<forall>g. find_in_list es' g = (if g = f then None else find_in_list es g))"
  using assms
proof (induction es)
  case (Cons e es)
  show ?case
  proof (cases "entry_name e = f")
    case True
    then show ?thesis using Cons.prems by (auto simp: find_in_list_None)
  next
    case False
    then obtain es' where "delete_node_from_list es f = (es', Some d)" "set es' \<subseteq> set es"
      "distinct (map entry_name es')" "\<forall>g. find_in_list es' g = (if g = f then None else find_in_list es g)"
      using Cons by auto
    then show ?thesis using False Cons.prems(2) by (auto simp: image_iff)
  qed
qed simp

lemma valid_hash [simp]: "valid_bucket (hash_val f)"
  using hash_val_range by (simp add: valid_bucket_def)

text \<open>Removing a cached file.\<close>

lemma cache_okD:
  assumes "cache_ok wc"
  shows "bucket_ok i (buckets wc i)" and "distinct (map snd (filesize_queue wc))"
    and "descending (filesize_queue wc)"
    and "(s, f) \<in> set (filesize_queue wc) \<longleftrightarrow> (\<exists>d. lookup wc f = Some d \<and> file_size d = s)"
    and "x \<in> set (filesize_queue wc) \<Longrightarrow> 0 \<le> fst x"
    and "curr_buffer_size wc = total_size (filesize_queue wc)"
  using assms by (auto simp: cache_ok_def)

lemma cached_names: "cache_ok wc \<Longrightarrow> lookup wc f \<noteq> None \<longleftrightarrow> f \<in> snd ` set (filesize_queue wc)"
  using cache_okD(4) [of wc _ f] by (auto simp: image_iff) (metis snd_conv)

lemma lookup_queue_update [simp]: "lookup (wc\<lparr>filesize_queue := q\<rparr>) f = lookup wc f"
  by (simp add: lookup_def)

lemma delete_from_bucket:
  assumes ok: "\<forall>i. bucket_ok i (buckets wc i)" and found: "lookup wc f = Some d"
  shows "\<exists>wc'. delete_from_hash_table wc f = Inr wc' \<and> (\<forall>i. bucket_ok i (buckets wc' i)) \<and>
    (\<forall>g. lookup wc' g = (if g = f then None else lookup wc g)) \<and>
    wc' = wc\<lparr>buckets := buckets wc', curr_buffer_size := curr_buffer_size wc - file_size d\<rparr>"
proof -
  have b: "bucket_ok (hash_val f) (buckets wc (hash_val f))" using ok by simp
  obtain es where es: "delete_node_from_list (buckets wc (hash_val f)) f = (es, Some d)"
    "set es \<subseteq> set (buckets wc (hash_val f))" "distinct (map entry_name es)"
    "\<forall>g. find_in_list es g = (if g = f then None else find_in_list (buckets wc (hash_val f)) g)"
    using delete_node_found [of "buckets wc (hash_val f)" f d] found b
    by (auto simp: lookup_def bucket_ok_def)
  define wc' where "wc' = wc\<lparr>buckets := (buckets wc)(hash_val f := es),
    curr_buffer_size := curr_buffer_size wc - file_size d\<rparr>"
  have "delete_from_hash_table wc f = Inr wc'"
    using es(1) by (simp add: delete_from_hash_table_def wc'_def)
  moreover have "\<forall>i. bucket_ok i (buckets wc' i)"
    using ok b es(2,3) by (auto simp: wc'_def bucket_ok_def)
  moreover have "\<forall>g. lookup wc' g = (if g = f then None else lookup wc g)"
    using es(4) by (auto simp: lookup_def wc'_def)
  ultimately show ?thesis by (intro exI [of _ wc']) (simp add: wc'_def)
qed

lemma evict_one:
  assumes ok: "cache_ok wc" and q: "filesize_queue wc = (s, f) # q"
  shows "\<exists>wc'. delete_from_hash_table (wc\<lparr>filesize_queue := q\<rparr>) f = Inr wc' \<and> cache_ok wc' \<and>
    (\<forall>g. lookup wc' g = (if g = f then None else lookup wc g)) \<and> filesize_queue wc' = q \<and>
    wc' = wc\<lparr>buckets := buckets wc', curr_buffer_size := curr_buffer_size wc - s, filesize_queue := q\<rparr>"
proof -
  obtain d where d: "lookup wc f = Some d" "file_size d = s"
    using cache_okD(4) [OF ok, of s f] q by auto
  have f: "f \<notin> snd ` set q" using cache_okD(2) [OF ok] q by auto
  obtain wc' where w: "delete_from_hash_table (wc\<lparr>filesize_queue := q\<rparr>) f = Inr wc'"
    "\<forall>i. bucket_ok i (buckets wc' i)" "\<forall>g. lookup wc' g = (if g = f then None else lookup wc g)"
    "wc' = wc\<lparr>filesize_queue := q, buckets := buckets wc', curr_buffer_size := curr_buffer_size wc - s\<rparr>"
    using delete_from_bucket [of "wc\<lparr>filesize_queue := q\<rparr>" f d] cache_okD(1) [OF ok] d by auto
  have q': "filesize_queue wc' = q" by (subst w(4)) simp
  have c': "curr_buffer_size wc' = curr_buffer_size wc - s" by (subst w(4)) simp
  have "(t, g) \<in> set q \<longleftrightarrow> (\<exists>d. lookup wc' g = Some d \<and> file_size d = t)" for t g
    using cache_okD(4) [OF ok, of t g] q f w(3) by force
  then have "cache_ok wc'"
    using w(2) q q' c' cache_okD(2,3,5,6) [OF ok]
    by (simp add: cache_ok_def descending_Cons total_size_def)
  moreover have "wc' = wc\<lparr>buckets := buckets wc', curr_buffer_size := curr_buffer_size wc - s, filesize_queue := q\<rparr>"
    by (subst w(4)) simp
  ultimately show ?thesis using w(1,3) q' by blast
qed

text \<open>What an eviction leaves of the queue: it takes from the front until enough bytes are gone.\<close>

fun survivors :: "file_key list \<Rightarrow> int \<Rightarrow> file_key list" where
  "survivors [] need = []"
| "survivors (x # q) need = (if need \<le> 0 then x # q else survivors q (need - fst x))"

lemma survivors_suffix: "\<exists>us. q = us @ survivors q need"
proof (induction q arbitrary: need)
  case (Cons x q)
  from Cons [of "need - fst x"] obtain us where "q = us @ survivors q (need - fst x)" ..
  then show ?case by (cases "need \<le> 0") (auto intro: exI [of _ "x # us"])
qed simp

text \<open>It is the longest part of the queue whose removal of the rest frees enough.\<close>

lemma survivors_minimal:
  "need \<le> total_size q \<Longrightarrow>
   \<exists>n. survivors q need = drop n q \<and> need \<le> total_size (take n q) \<and> (\<forall>m<n. total_size (take m q) < need)"
proof (induction q arbitrary: need)
  case (Cons x q)
  show ?case
  proof (cases "need \<le> 0")
    case True
    then show ?thesis by (intro exI [of _ 0]) (simp add: total_size_def)
  next
    case False
    obtain n where n: "survivors q (need - fst x) = drop n q" "need - fst x \<le> total_size (take n q)"
      "\<forall>m<n. total_size (take m q) < need - fst x"
      using Cons.IH [of "need - fst x"] Cons.prems by (auto simp: total_size_def)
    have "total_size (take m (x # q)) < need" if "m < Suc n" for m
      using n(3) that False by (cases m) (auto simp: total_size_def)
    then show ?thesis using n False by (intro exI [of _ "Suc n"]) (simp add: total_size_def)
  qed
qed (auto simp: total_size_def intro: exI [of _ 0])

text \<open>The eviction succeeds, and leaves the survivors.\<close>

definition restricted :: "cache \<Rightarrow> file_key list \<Rightarrow> string \<Rightarrow> file_data option" where
  "restricted wc q g = (if g \<in> snd ` set q then lookup wc g else None)"

lemma evict_loop_ok:
  "cache_ok wc \<Longrightarrow> filesize_queue wc = q \<Longrightarrow> need - ev \<le> total_size q \<Longrightarrow>
   \<exists>wc'. evict_loop q ev need wc = Inr wc' \<and> cache_ok wc' \<and>
     filesize_queue wc' = survivors q (need - ev) \<and> (\<forall>g. lookup wc' g = restricted wc (filesize_queue wc') g) \<and>
     wc' = wc\<lparr>buckets := buckets wc', curr_buffer_size := curr_buffer_size wc', filesize_queue := filesize_queue wc'\<rparr>"
proof (induction q arbitrary: ev wc)
  case Nil
  then show ?case using cached_names [OF Nil.prems(1)]
    by (auto simp: total_size_def restricted_def)
next
  case (Cons x q)
  obtain s f where x: "x = (s, f)" by (cases x)
  show ?case
  proof (cases "ev < need")
    case False
    have "lookup wc g = restricted wc (x # q) g" for g
      using cached_names [OF Cons.prems(1), of g] Cons.prems(2) unfolding restricted_def by auto
    then show ?thesis using False Cons.prems(1,2) by simp
  next
    case True
    obtain wc1 where w1: "delete_from_hash_table (wc\<lparr>filesize_queue := q\<rparr>) f = Inr wc1" "cache_ok wc1"
      "\<forall>g. lookup wc1 g = (if g = f then None else lookup wc g)" "filesize_queue wc1 = q"
      "wc1 = wc\<lparr>buckets := buckets wc1, curr_buffer_size := curr_buffer_size wc - s, filesize_queue := q\<rparr>"
      using evict_one [OF Cons.prems(1), of s f q] Cons.prems(2) x by auto
    have "need - (ev + s) \<le> total_size q" using Cons.prems(3) x by (simp add: total_size_def)
    from Cons.IH [OF w1(2,4) this] obtain wc2 where w2: "evict_loop q (ev + s) need wc1 = Inr wc2"
      "cache_ok wc2" "filesize_queue wc2 = survivors q (need - (ev + s))"
      "\<forall>g. lookup wc2 g = restricted wc1 (filesize_queue wc2) g"
      "wc2 = wc1\<lparr>buckets := buckets wc2, curr_buffer_size := curr_buffer_size wc2, filesize_queue := filesize_queue wc2\<rparr>"
      by blast
    have "f \<notin> snd ` set q" using cache_okD(2) [OF Cons.prems(1)] Cons.prems(2) x by auto
    moreover obtain us where "q = us @ survivors q (need - (ev + s))"
      using survivors_suffix [of q "need - (ev + s)"] by blast
    then have "set (filesize_queue wc2) \<subseteq> set q" using w2(3) by (metis Un_upper2 set_append)
    ultimately have "\<forall>g. lookup wc2 g = restricted wc (filesize_queue wc2) g"
      using w2(4) w1(3) by (auto simp: restricted_def)
    moreover have "wc2 = wc\<lparr>buckets := buckets wc2, curr_buffer_size := curr_buffer_size wc2,
        filesize_queue := filesize_queue wc2\<rparr>"
      by (subst w2(5), subst w1(5)) simp
    ultimately show ?thesis
      using True x w1(1) w2(1,2,3) by (auto simp: algebra_simps)
  qed
qed

lemma curr_buffer_nonneg: "cache_ok wc \<Longrightarrow> 0 \<le> curr_buffer_size wc"
  using cache_okD(5,6) [of wc] by (auto simp: total_size_def intro!: sum_list_nonneg)

text \<open>Entering a file.\<close>

lemma total_size_insert: "total_size (insert_desc x q) = fst x + total_size q"
  by (induction x q rule: insert_desc.induct) (auto simp: total_size_def)

definition remaining_size :: "cache \<Rightarrow> int" where
  "remaining_size wc = max_buffer_size wc - curr_buffer_size wc"

definition kept :: "cache \<Rightarrow> int \<Rightarrow> file_key list" where
  "kept wc s = (if s > remaining_size wc then survivors (filesize_queue wc) (s - remaining_size wc)
                else filesize_queue wc)"

lemma enter_entry:
  assumes ok: "cache_ok wc" and new: "lookup wc f = None" and pos: "0 \<le> file_size d"
    and es: "es = buckets wc (hash_val f) @ [\<lparr>entry_name = f, entry_data = d\<rparr>]"
    and wc': "wc' = wc\<lparr>buckets := (buckets wc)(hash_val f := es),
      curr_buffer_size := curr_buffer_size wc + file_size d,
      filesize_queue := insert_desc (file_size d, f) (filesize_queue wc), cache_mutex := b\<rparr>"
  shows "cache_ok wc' \<and> lookup wc' = (lookup wc)(f \<mapsto> d)"
proof -
  have l: "lookup wc' g = (if g = f then Some d else lookup wc g)" for g
    using new by (auto simp: wc' lookup_def es find_in_list_snoc split: option.splits)
  have "f \<notin> entry_name ` set (buckets wc (hash_val f))"
    using new by (simp add: lookup_def find_in_list_None)
  then have "bucket_ok i (buckets wc' i)" for i
    using cache_okD(1) [OF ok, of i] by (auto simp: wc' es bucket_ok_def)
  moreover have q: "f \<notin> snd ` set (filesize_queue wc)" using cached_names [OF ok] new by blast
  then have "(t, g) \<in> set (filesize_queue wc') \<longleftrightarrow> (\<exists>d. lookup wc' g = Some d \<and> file_size d = t)" for t g
    using cache_okD(4) [OF ok, of t g] l [of g] by (force simp: wc' set_insert_desc)
  moreover have "mset (map snd (filesize_queue wc')) = add_mset f (mset (map snd (filesize_queue wc)))"
    by (simp add: wc' mset_map [symmetric] del: mset_map) (simp add: mset_map)
  then have "distinct (map snd (filesize_queue wc'))"
    using cache_okD(2) [OF ok] q by (metis distinct.simps(2) list.set_map mset.simps(2) mset_eq_imp_distinct_iff)
  moreover have "total_size (filesize_queue wc') = file_size d + total_size (filesize_queue wc)"
    by (simp add: wc' total_size_insert)
  ultimately have "cache_ok wc'"
    using cache_okD(3,5,6) [OF ok] pos
    by (auto simp: cache_ok_def wc' set_insert_desc descending_insert)
  then show ?thesis using l by auto
qed

lemma evict_for_room:
  assumes inv: "cache_inv wc" and s: "0 \<le> s" "s \<le> max_buffer_size wc" and need: "s > remaining_size wc"
  shows "\<exists>wc1. evict_cache wc (s - remaining_size wc) = Inr wc1 \<and> cache_inv wc1 \<and>
    filesize_queue wc1 = kept wc s \<and> (\<forall>g. lookup wc1 g = restricted wc (kept wc s) g) \<and>
    s \<le> remaining_size wc1 \<and> max_buffer_size wc1 = max_buffer_size wc \<and>
    cache_mutex wc1 = cache_mutex wc \<and> heap_after wc1 = heap_after wc"
proof -
  have ok: "cache_ok wc" using inv by (simp add: cache_inv_def)
  have room: "s - remaining_size wc \<le> total_size (filesize_queue wc)"
    using s cache_okD(6) [OF ok] by (simp add: remaining_size_def)
  obtain wc1 where w: "evict_loop (filesize_queue wc) 0 (s - remaining_size wc) wc = Inr wc1"
    "cache_ok wc1" "filesize_queue wc1 = kept wc s" "\<forall>g. lookup wc1 g = restricted wc (filesize_queue wc1) g"
    "wc1 = wc\<lparr>buckets := buckets wc1, curr_buffer_size := curr_buffer_size wc1, filesize_queue := filesize_queue wc1\<rparr>"
    using evict_loop_ok [OF ok refl, of "s - remaining_size wc" 0] room need by (auto simp: kept_def)
  obtain n where n: "kept wc s = drop n (filesize_queue wc)"
    "s - remaining_size wc \<le> total_size (take n (filesize_queue wc))"
    using survivors_minimal [OF room] need by (auto simp: kept_def)
  have "total_size (filesize_queue wc) = total_size (take n (filesize_queue wc)) + total_size (kept wc s)"
    unfolding n(1) by (subst append_take_drop_id [of n, symmetric]) (simp add: total_size_def del: append_take_drop_id)
  then have "curr_buffer_size wc1 \<le> max_buffer_size wc - s"
    using n(2) cache_okD(6) [OF w(2)] cache_okD(6) [OF ok] w(3) by (simp add: remaining_size_def)
  moreover have m: "max_buffer_size wc1 = max_buffer_size wc" "cache_mutex wc1 = cache_mutex wc"
    "heap_after wc1 = heap_after wc" by (subst w(5), simp)+
  ultimately show ?thesis using w s(1) by (auto simp: evict_cache_def cache_inv_def remaining_size_def)
qed

lemma file_data_copy_size: "file_data_copy after d = Inr d' \<Longrightarrow> file_size d' = file_size d"
  by (auto simp: file_data_copy_def result_simps split: option.splits)

lemma finish_add:
  assumes inv: "cache_inv wc" and room: "file_size d \<le> remaining_size wc" and pos: "0 \<le> file_size d"
    and r: "r = (let i = hash_val f; (es, b) = add_to_list (buckets wc i) f d in
     if b then
       (mutex_unlock (wc\<lparr>buckets := (buckets wc)(i := es),
              curr_buffer_size := curr_buffer_size wc + file_size d,
              filesize_queue := insert_desc (file_size d, f) (filesize_queue wc)\<rparr>), True)
     else (mutex_unlock wc, False))"
  shows "cache_inv (fst r) \<and> snd r = (lookup wc f = None) \<and> \<not> cache_mutex (fst r) \<and>
    lookup (fst r) g = (if g = f \<and> lookup wc f = None then Some d else lookup wc g) \<and>
    max_buffer_size (fst r) = max_buffer_size wc \<and> heap_after (fst r) = heap_after wc"
proof (cases "lookup wc f")
  case None
  then have "f \<notin> entry_name ` set (buckets wc (hash_val f))"
    by (simp add: lookup_def find_in_list_None)
  then have r': "r = (wc\<lparr>buckets := (buckets wc)(hash_val f := buckets wc (hash_val f) @ [\<lparr>entry_name = f, entry_data = d\<rparr>]),
      curr_buffer_size := curr_buffer_size wc + file_size d,
      filesize_queue := insert_desc (file_size d, f) (filesize_queue wc), cache_mutex := False\<rparr>, True)"
    using r by (simp add: add_to_list_new mutex_unlock_def Let_def)
  have "cache_ok (fst r) \<and> lookup (fst r) = (lookup wc)(f \<mapsto> d)"
    by (rule enter_entry [OF _ None pos refl, where b = False]) (use inv r' in \<open>simp_all add: cache_inv_def\<close>)
  then show ?thesis using None r' room by (simp add: cache_inv_def remaining_size_def)
next
  case (Some x)
  then have "f \<in> entry_name ` set (buckets wc (hash_val f))"
    using find_in_list_None [of "buckets wc (hash_val f)" f] by (auto simp: lookup_def)
  then have "r = (wc\<lparr>cache_mutex := False\<rparr>, False)"
    using r by (simp add: add_to_list_old mutex_unlock_def)
  then show ?thesis using Some inv by (simp add: cache_inv_def cache_ok_def lookup_def)
qed

text \<open>
  The whole of \<open>add_to_hash_table\<close>: the assertions hold, the files that are kept are the ones
  the eviction leaves, and the copy is entered unless the name is among those.
\<close>

lemma add_to_hash_table_ok:
  assumes inv: "cache_inv wc" and free: "\<not> cache_mutex wc"
    and copy: "file_data_copy (heap_after wc) d = Inr d'"
    and s: "0 \<le> file_size d" "file_size d \<le> max_buffer_size wc"
  shows "\<exists>wc'. add_to_hash_table wc f d = Inr (wc', f \<notin> snd ` set (kept wc (file_size d))) \<and>
    cache_inv wc' \<and> \<not> cache_mutex wc' \<and> max_buffer_size wc' = max_buffer_size wc \<and>
    heap_after wc' = heap_after wc \<and>
    (\<forall>g. lookup wc' g = (if g = f \<and> f \<notin> snd ` set (kept wc (file_size d)) then Some d'
                        else restricted wc (kept wc (file_size d)) g))"
proof -
  define wl where "wl = wc\<lparr>cache_mutex := True\<rparr>"
  have inv': "cache_inv wl" using inv by (simp add: wl_def cache_inv_def cache_ok_def lookup_def)
  have eq: "remaining_size wl = remaining_size wc" "kept wl (file_size d) = kept wc (file_size d)"
    "\<And>q g. restricted wl q g = restricted wc q g" "heap_after wl = heap_after wc"
    "max_buffer_size wl = max_buffer_size wc"
    by (simp_all add: wl_def remaining_size_def kept_def restricted_def lookup_def)
  have lk: "mutex_lock wc = Inr wl" using free by (simp add: mutex_lock_def wl_def)
  have sz: "file_size d' = file_size d" using copy by (rule file_data_copy_size)
  have all: "restricted wc (filesize_queue wc) g = lookup wc g" for g
    using cached_names [of wc g] inv unfolding restricted_def cache_inv_def by auto
  obtain wc1 where w: "(if file_size d' > max_buffer_size wl - curr_buffer_size wl then
              bindE (evict_cache wl (file_size d' - (max_buffer_size wl - curr_buffer_size wl))) (\<lambda>wc1.
              bindE (assertE (file_size d' \<le> max_buffer_size wc1 - curr_buffer_size wc1)) (\<lambda>_.
              Inr wc1))
            else Inr wl) = Inr wc1" "cache_inv wc1" "filesize_queue wc1 = kept wc (file_size d)"
      "\<forall>g. lookup wc1 g = restricted wc (kept wc (file_size d)) g"
      "file_size d' \<le> remaining_size wc1" "max_buffer_size wc1 = max_buffer_size wc"
      "heap_after wc1 = heap_after wc"
  proof (cases "file_size d > remaining_size wl")
    case True
    from evict_for_room [OF inv' s(1) _ True] s(2) eq obtain wc1 where
      "evict_cache wl (file_size d - remaining_size wl) = Inr wc1" "cache_inv wc1"
      "filesize_queue wc1 = kept wc (file_size d)" "\<forall>g. lookup wc1 g = restricted wc (kept wc (file_size d)) g"
      "file_size d \<le> remaining_size wc1" "max_buffer_size wc1 = max_buffer_size wc"
      "heap_after wc1 = heap_after wc" by auto
    then show ?thesis using True by (intro that [of wc1]) (simp_all add: sz remaining_size_def)
  next
    case False
    have "filesize_queue wl = kept wc (file_size d)" "lookup wl g = restricted wc (kept wc (file_size d)) g" for g
      using False all eq(1) by (simp_all add: kept_def wl_def lookup_def)
    then show ?thesis using False inv' by (intro that [of wl]) (simp_all add: sz remaining_size_def wl_def)
  qed
  have f: "lookup wc1 f = None \<longleftrightarrow> f \<notin> snd ` set (kept wc (file_size d))"
    using cached_names [of wc1 f] w(2,3) by (auto simp: cache_inv_def)
  define r where "r = (let i = hash_val f; (es, b) = add_to_list (buckets wc1 i) f d' in
     if b then
       (mutex_unlock (wc1\<lparr>buckets := (buckets wc1)(i := es),
              curr_buffer_size := curr_buffer_size wc1 + file_size d',
              filesize_queue := insert_desc (file_size d', f) (filesize_queue wc1)\<rparr>), True)
     else (mutex_unlock wc1, False))"
  have "add_to_hash_table wc f d = Inr r"
    unfolding add_to_hash_table_def lk eq(4) copy [unfolded eq(4) [symmetric]]
    using w(1) copy s sz eq(4,5) by (simp add: lk Let_def r_def split: prod.splits)
  moreover have "cache_inv (fst r) \<and> snd r = (lookup wc1 f = None) \<and> \<not> cache_mutex (fst r) \<and>
    lookup (fst r) g = (if g = f \<and> lookup wc1 f = None then Some d' else lookup wc1 g) \<and>
    max_buffer_size (fst r) = max_buffer_size wc1 \<and> heap_after (fst r) = heap_after wc1" for g
    by (rule finish_add [OF w(2,5) _ r_def]) (simp add: sz s(1))
  ultimately show ?thesis using w(4,6,7) f by (intro exI [of _ "fst r"]) (auto simp: prod_eq_iff)
qed

lemma find_in_hash_table_ok:
  assumes "\<not> cache_mutex wc"
  shows "find_in_hash_table wc f =
    (case lookup wc f of None \<Rightarrow> Inr (wc, None)
     | Some d \<Rightarrow> bindE (file_data_copy (heap_after wc) d) (\<lambda>d'. Inr (wc, Some d')))"
proof -
  have "mutex_unlock (wc\<lparr>cache_mutex := True\<rparr>) = wc" using assms by (simp add: mutex_unlock_def)
  then show ?thesis
    using assms by (simp add: find_in_hash_table_def mutex_lock_def lookup_def split: option.splits)
qed

lemma hash_table_init_inv: "0 \<le> m \<Longrightarrow> cache_inv (hash_table_init after m)"
  by (simp add: hash_table_init_def cache_inv_def cache_ok_def bucket_ok_def descending_def total_size_def
      lookup_def)

section \<open>Sequences of calls\<close>

text \<open>The two calls that the server makes, and the files that it may pass.\<close>

datatype cache_call = Find string | Add string file_data

definition cache_step :: "cache \<Rightarrow> cache_call \<Rightarrow> cache result" where
  "cache_step wc c = (case c of
      Find f \<Rightarrow> bindE (find_in_hash_table wc f) (\<lambda>(wc', _). Inr wc')
    | Add f d \<Rightarrow> bindE (add_to_hash_table wc f d) (\<lambda>(wc', _). Inr wc'))"

definition terminated :: "file_data \<Rightarrow> bool" where
  "terminated d = (case file_buf d of None \<Rightarrow> False | Some b \<Rightarrow> NUL \<in> set (memory b))"

definition legal_call :: "int \<Rightarrow> cache_call \<Rightarrow> bool" where
  "legal_call m c = (case c of Find f \<Rightarrow> True | Add f d \<Rightarrow> terminated d \<and> 0 \<le> file_size d \<and> file_size d \<le> m)"

lemma terminated_copy: "terminated d \<Longrightarrow> \<exists>d'. file_data_copy after d = Inr d' \<and> terminated d'"
  by (auto simp: terminated_def file_data_copy_def c_string_def memory_def split: option.splits)

definition cache_state_ok :: "int \<Rightarrow> cache \<Rightarrow> bool" where
  "cache_state_ok m wc \<longleftrightarrow> cache_inv wc \<and> \<not> cache_mutex wc \<and> max_buffer_size wc = m \<and>
     (\<forall>f d. lookup wc f = Some d \<longrightarrow> terminated d)"

lemma init_state_ok: "0 \<le> m \<Longrightarrow> cache_state_ok m (hash_table_init after m)"
  using hash_table_init_inv [of m after]
  by (simp add: cache_state_ok_def) (simp add: hash_table_init_def lookup_def)

lemma cache_step_ok:
  assumes ok: "cache_state_ok m wc" and legal: "legal_call m c"
  shows "\<exists>wc'. cache_step wc c = Inr wc' \<and> cache_state_ok m wc'"
proof (cases c)
  case (Find f)
  then show ?thesis
    using ok terminated_copy [of _ "heap_after wc"]
    by (fastforce simp: cache_step_def find_in_hash_table_ok cache_state_ok_def split: option.splits)
next
  case (Add f d)
  have d: "terminated d" "0 \<le> file_size d" "file_size d \<le> max_buffer_size wc"
    using legal Add ok by (simp_all add: legal_call_def cache_state_ok_def)
  obtain d' where d': "file_data_copy (heap_after wc) d = Inr d'" "terminated d'"
    using terminated_copy [OF d(1)] by blast
  have inv: "cache_inv wc" "\<not> cache_mutex wc" using ok by (simp_all add: cache_state_ok_def)
  obtain wc' b where w: "add_to_hash_table wc f d = Inr (wc', b)" "cache_inv wc'" "\<not> cache_mutex wc'"
    "max_buffer_size wc' = max_buffer_size wc"
    "\<And>g. lookup wc' g = Some d' \<or> lookup wc' g = None \<or> lookup wc' g = lookup wc g"
    using add_to_hash_table_ok [OF inv d'(1) d(2,3), of f] by (fastforce simp: restricted_def)
  have "terminated x" if "lookup wc' g = Some x" for g x
    using w(5) [of g] that d'(2) ok by (auto simp: cache_state_ok_def)
  then show ?thesis using w(1-4) ok Add by (auto simp: cache_step_def cache_state_ok_def)
qed

lemma cache_calls_ok:
  "cache_state_ok m wc \<Longrightarrow> \<forall>c\<in>set cs. legal_call m c \<Longrightarrow>
   \<exists>wc'. foldE cache_step wc cs = Inr wc' \<and> cache_state_ok m wc'"
proof (induction cs arbitrary: wc)
  case (Cons c cs)
  then show ?case using cache_step_ok [of m wc c] by fastforce
qed simp

text \<open>The counter is the number of bytes in the cache.\<close>

lemma cached_bytes:
  assumes "cache_ok wc"
  shows "curr_buffer_size wc = (\<Sum>f\<in>dom (lookup wc). file_size (the (lookup wc f)))"
proof -
  let ?q = "filesize_queue wc"
  have "(\<Sum>x\<in>set ?q. fst x) = (\<Sum>f\<in>snd ` set ?q. file_size (the (lookup wc f)))"
    using cache_okD(2) [OF assms] cache_okD(4) [OF assms]
    by (subst sum.reindex) (force simp: distinct_map intro!: sum.cong)+
  moreover have "snd ` set ?q = dom (lookup wc)" using cached_names [OF assms] by blast
  moreover have "total_size ?q = (\<Sum>x\<in>set ?q. fst x)"
    using cache_okD(2) [OF assms] by (simp add: total_size_def sum_list_distinct_conv_sum_set distinct_map)
  ultimately show ?thesis using cache_okD(6) [OF assms] by simp
qed

end
