(* ===== verification/Server_Requests.thy ===== *)
theory Server_Requests
  imports Request File_Cache
begin

text \<open>
  One request, from the connection to the response: \<open>do_server_request\<close> of
  webserver_5/server_thread.c with its cache, and of webserver/server_thread.c without one.
  The environment is what the system answers during this request; it may differ from one
  request to the next.
\<close>

text \<open>A call on the cache; without one, \<open>cache\<close> is a NULL pointer that is dereferenced.\<close>

definition on_cache :: "(cache \<Rightarrow> (cache \<times> 'a) result) \<Rightarrow> cache option \<Rightarrow> (cache option \<times> 'a) result" where
  "on_cache f wc = (case wc of
      None \<Rightarrow> Inl Undefined
    | Some c \<Rightarrow> bindE (f c) (\<lambda>(c', x). Inr (Some c', x)))"

definition do_server_request :: "env \<Rightarrow> int \<Rightarrow> cache option \<Rightarrow> conn \<Rightarrow> (cache option \<times> conn) result" where
  "do_server_request e max_cache_size wc0 rq0 =
     bindE (request_init e rq0) (\<lambda>(rq, name).
     case name of
       None \<Rightarrow> Inr (wc0, rq)
     | Some f \<Rightarrow>
         bindE (if max_cache_size \<noteq> 0 then on_cache (\<lambda>c. find_in_hash_table c f) wc0
                else Inr (wc0, None)) (\<lambda>(wc1, temp_data).
         bindE (case temp_data of
                  Some t \<Rightarrow> Inr (to_client rq, t, True)
                | None \<Rightarrow> request_readfile e (to_client rq) (file_data_init\<lparr>file_name := f\<rparr>)) (\<lambda>(out, data, ok).
         if \<not> ok then Inr (wc1, request_destroy (rq\<lparr>to_client := out\<rparr>))
         else
           bindE (if file_size data \<le> max_cache_size
                  then on_cache (\<lambda>c. add_to_hash_table c (file_name data) data) wc1
                  else Inr (wc1, False)) (\<lambda>(wc2, added).
           bindE (request_sendfile out data) (\<lambda>out'.
           Inr (wc2, request_destroy (rq\<lparr>to_client := out'\<rparr>)))))))"

definition do_server_request_uncached :: "env \<Rightarrow> conn \<Rightarrow> conn result" where
  "do_server_request_uncached e rq0 =
     bindE (request_init e rq0) (\<lambda>(rq, name).
     case name of
       None \<Rightarrow> Inr rq
     | Some f \<Rightarrow>
         bindE (request_readfile e (to_client rq) (file_data_init\<lparr>file_name := f\<rparr>)) (\<lambda>(out, data, ok).
         if \<not> ok then Inr (request_destroy (rq\<lparr>to_client := out\<rparr>))
         else
           bindE (request_sendfile out data) (\<lambda>out'.
           Inr (request_destroy (rq\<lparr>to_client := out'\<rparr>)))))"

section \<open>Names\<close>

text \<open>The names that \<open>request_readfile\<close> does not refuse at once.\<close>

definition allowed_name :: "string \<Rightarrow> bool" where
  "allowed_name f \<longleftrightarrow> \<not> has_prefix ''/'' f \<and> \<not> strstr f ''..'' \<and> \<not> ends_in_source f"

definition names_ok :: "cache \<Rightarrow> bool" where
  "names_ok wc \<longleftrightarrow> (\<forall>f d. lookup wc f = Some d \<longrightarrow> file_name d = f \<and> allowed_name f)"

lemma readfile_allowed:
  "request_readfile e out d = Inr (out', d', True) \<Longrightarrow> allowed_name (file_name d) \<and> file_name d' = file_name d"
  by (auto simp: request_readfile_def allowed_name_def refuse_def Let_def result_simps
      split: if_splits option.splits)

lemma readfile_refused:
  "request_readfile e out d = Inr (out', d', ok) \<Longrightarrow> \<not> allowed_name (file_name d) \<Longrightarrow>
   \<not> ok \<and> (\<exists>msg. sent out' = sent out @ error_page (file_name d) ''404'' ''Not found'' msg)"
  by (auto simp: request_readfile_def allowed_name_def refuse_def result_simps dest: request_error_sent
      split: if_splits)

lemma file_data_copy_name: "file_data_copy after d = Inr d' \<Longrightarrow> file_name d' = file_name d"
  by (auto simp: file_data_copy_def result_simps split: option.splits)

section \<open>Bytes\<close>

lemma file_bytes_length:
  "file_bytes d = Inr t \<Longrightarrow> 0 \<le> file_size d \<Longrightarrow> file_size d = int (length t)"
  by (auto simp: file_bytes_def read_bytes_def split: if_splits option.splits)

lemma copy_keeps_text:
  assumes "file_bytes d = Inr t" and "NUL \<notin> set t" and "terminated d" and "0 \<le> file_size d"
  shows "\<exists>d'. file_data_copy after d = Inr d' \<and> file_bytes d' = Inr t \<and> file_size d' = file_size d \<and>
    file_name d' = file_name d \<and> terminated d'"
proof -
  obtain b where b: "file_buf d = Some b" "NUL \<in> set (memory b)"
    using assms(3) by (auto simp: terminated_def split: option.splits)
  define s where "s = takeWhile (\<lambda>c. c \<noteq> NUL) (memory b)"
  define d' where "d' = \<lparr>file_name = file_name d, file_buf = Some \<lparr>block = s @ [NUL], beyond = after\<rparr>, file_size = file_size d\<rparr>"
  have c: "file_data_copy after d = Inr d'" using b by (simp add: file_data_copy_def c_string_def d'_def s_def)
  have n: "file_size d = int (length t)" by (rule file_bytes_length [OF assms(1,4)])
  have "\<exists>u. memory b = t @ u"
    using assms(1) b(1) n by (auto simp: file_bytes_def read_bytes_def split: if_splits)
      (metis append_take_drop_id)
  then obtain u where "memory b = t @ u" ..
  then have "\<exists>v. s = t @ v" using assms(2) by (simp add: s_def takeWhile_NUL)
  then obtain v where "s = t @ v" ..
  then have "file_bytes d' = Inr t" using n by (simp add: file_bytes_def d'_def read_bytes_def memory_def)
  then show ?thesis using c by (simp add: d'_def terminated_def memory_def)
qed

text \<open>
  Text files that do not change: \<open>texts f\<close> is the text that the file \<open>f\<close> has, and every
  environment serves them.
\<close>

definition is_text :: "string \<Rightarrow> bool" where
  "is_text t \<longleftrightarrow> t \<noteq> [] \<and> NUL \<notin> set t \<and> length t < 2147483648"

definition serves :: "env \<Rightarrow> (string \<Rightarrow> string option) \<Rightarrow> bool" where
  "serves e texts \<longleftrightarrow> NUL \<in> set (behind e) \<and>
     (\<forall>f t. texts f = Some t \<longrightarrow> allowed_name f \<and> is_text t \<and>
        (\<exists>st. files e f = Some st \<and> is_regular st \<and> owner_readable st \<and> can_open st \<and>
           st_size st = int (length t) \<and> readable (contents st) \<and> arriving (contents st) = t))"

definition coherent :: "(string \<Rightarrow> string option) \<Rightarrow> cache \<Rightarrow> bool" where
  "coherent texts wc \<longleftrightarrow> (\<forall>f d. lookup wc f = Some d \<longrightarrow>
     file_name d = f \<and> (\<exists>t. texts f = Some t \<and> is_text t \<and> file_size d = int (length t) \<and> file_bytes d = Inr t))"

lemma to_int32_small: "0 \<le> i \<Longrightarrow> i < 2147483648 \<Longrightarrow> to_int32 i = i"
  by (simp add: to_int32_def signed_of_int signed_take_bit_int_eq_self)

lemma readfile_text:
  assumes s: "serves e texts" and f: "texts f = Some t"
  shows "\<exists>d. request_readfile e out (file_data_init\<lparr>file_name := f\<rparr>) = Inr (out, d, True) \<and>
    file_name d = f \<and> file_size d = int (length t) \<and> file_bytes d = Inr t \<and> terminated d"
proof -
  obtain st where st: "files e f = Some st" "is_regular st" "owner_readable st" "can_open st"
    "st_size st = int (length t)" "readable (contents st)" "arriving (contents st) = t"
    and t: "allowed_name f" "is_text t" and b: "NUL \<in> set (behind e)"
    using s f unfolding serves_def by metis
  have n: "to_int32 (st_size st) = int (length t)" "length t \<noteq> 0"
    using to_int32_small [of "int (length t)"] t(2) st(5) by (simp_all add: is_text_def)
  obtain fd where "rio_read (contents st) (length t) = (int (length t), t, fd)"
    using rio_read_all [OF st(6), of "length t"] st(7) by auto
  then have r: "Rio_read (contents st) (length t) = Inr (int (length t), t, fd)" by (simp add: Rio_read_def)
  show ?thesis
    using t(1) st(1-4) n r b
    by (simp add: request_readfile_def allowed_name_def file_data_init_def Let_def file_bytes_def read_bytes_def
        memory_def terminated_def)
qed

text \<open>What an addition does to coherence.\<close>

lemma add_coherent:
  assumes ok: "cache_state_ok m wc" and co: "coherent texts wc" and f: "texts f = Some t" "is_text t"
    and d: "file_name d = f" "file_size d = int (length t)" "file_bytes d = Inr t" "terminated d"
    and fits: "file_size d \<le> m"
  shows "\<exists>wc' b. add_to_hash_table wc f d = Inr (wc', b) \<and> cache_state_ok m wc' \<and> coherent texts wc'"
proof -
  have "NUL \<notin> set t" using f(2) by (simp add: is_text_def)
  then obtain d' where d': "file_data_copy (heap_after wc) d = Inr d'" "file_bytes d' = Inr t"
    "file_size d' = file_size d" "file_name d' = file_name d"
    using copy_keeps_text [OF d(3) _ d(4)] d(2) by (metis of_nat_0_le_iff)
  have inv: "cache_inv wc" "\<not> cache_mutex wc" "max_buffer_size wc = m" using ok by (simp_all add: cache_state_ok_def)
  obtain wc' b where w: "add_to_hash_table wc f d = Inr (wc', b)"
    "\<And>g. lookup wc' g = (if g = f \<and> b then Some d' else if g \<in> snd ` set (kept wc (file_size d)) then lookup wc g else None)"
    using add_to_hash_table_ok [OF inv(1,2) d'(1), of f] d(2) fits inv(3)
    unfolding restricted_def by auto
  obtain wc2 where "cache_step wc (Add f d) = Inr wc2" "cache_state_ok m wc2"
    using cache_step_ok [OF ok, of "Add f d"] d fits by (auto simp: legal_call_def)
  then have "cache_state_ok m wc'" using w(1) by (simp add: cache_step_def)
  moreover have "coherent texts wc'"
    using co f d d' w(2) by (auto simp: coherent_def split: if_splits)
  ultimately show ?thesis using w(1) by blast
qed

lemma find_coherent:
  assumes ok: "cache_state_ok m wc" and co: "coherent texts wc" and f: "lookup wc f = Some d"
  shows "\<exists>t d'. find_in_hash_table wc f = Inr (wc, Some d') \<and> texts f = Some t \<and> is_text t \<and>
    file_name d' = f \<and> file_size d' = int (length t) \<and> file_bytes d' = Inr t \<and> terminated d'"
proof -
  obtain t where t: "texts f = Some t" "is_text t" "file_size d = int (length t)" "file_bytes d = Inr t" "file_name d = f"
    using co f by (auto simp: coherent_def)
  have "terminated d" "\<not> cache_mutex wc" using ok f by (auto simp: cache_state_ok_def)
  moreover have "NUL \<notin> set t" using t(2) by (simp add: is_text_def)
  ultimately obtain d' where d': "file_data_copy (heap_after wc) d = Inr d'" "file_bytes d' = Inr t"
    "file_size d' = file_size d" "file_name d' = file_name d" "terminated d'"
    using copy_keeps_text [OF t(4)] t(3) by (metis of_nat_0_le_iff)
  then have "find_in_hash_table wc f = Inr (wc, Some d')"
    using f \<open>\<not> cache_mutex wc\<close> by (simp add: find_in_hash_table_ok)
  then show ?thesis using t d' by auto
qed

text \<open>The response to a request for a text, from the cache or from the disk.\<close>

lemma request_for_text:
  assumes ok: "cache_state_ok m wc" and m: "m \<noteq> 0" and co: "coherent texts wc" and s: "serves e texts"
    and init: "request_init e rq = Inr (rq1, Some f)" and f: "texts f = Some t"
    and w: "writable (to_client rq1)"
  shows "\<exists>wc' rq'. do_server_request e m (Some wc) rq = Inr (Some wc', rq') \<and> cache_state_ok m wc' \<and>
    coherent texts wc' \<and> closed rq' \<and> sent (to_client rq') = sent (to_client rq1) @ ok_page f t"
proof -
  have t: "is_text t" using s f unfolding serves_def by metis
  have free: "\<not> cache_mutex wc" using ok by (simp add: cache_state_ok_def)
  obtain temp d where d: "find_in_hash_table wc f = Inr (wc, temp)"
    "(case temp of Some t \<Rightarrow> Inr (to_client rq1, t, True)
      | None \<Rightarrow> request_readfile e (to_client rq1) (file_data_init\<lparr>file_name := f\<rparr>)) = Inr (to_client rq1, d, True)"
    "file_name d = f" "file_size d = int (length t)" "file_bytes d = Inr t" "terminated d"
  proof (cases "lookup wc f")
    case None
    then show ?thesis
      using that [of None] readfile_text [OF s f, of "to_client rq1"] find_in_hash_table_ok [OF free, of f] by auto
  next
    case (Some d0)
    then show ?thesis using that [of "Some _"] find_coherent [OF ok co Some] f by fastforce
  qed
  obtain wc2 added where a: "(if file_size d \<le> m
        then on_cache (\<lambda>c. add_to_hash_table c (file_name d) d) (Some wc) else Inr (Some wc, False)) = Inr (Some wc2, added)"
    "cache_state_ok m wc2" "coherent texts wc2"
    using add_coherent [OF ok co f t d(3-6)] ok co d(3) by (cases "file_size d \<le> m") (auto simp: on_cache_def)
  obtain out where "request_sendfile (to_client rq1) d = Inr out" "sent out = sent (to_client rq1) @ ok_page f t"
    using request_sendfile_ok [OF w d(5,4)] d(3) by auto
  then have "do_server_request e m (Some wc) rq = Inr (Some wc2, request_destroy (rq1\<lparr>to_client := out\<rparr>))"
    "sent (to_client (request_destroy (rq1\<lparr>to_client := out\<rparr>))) = sent (to_client rq1) @ ok_page f t"
    using init m d(1,2) a(1) by (simp_all add: do_server_request_def on_cache_def request_destroy_def)
  then show ?thesis using a(2,3) by (auto simp: request_destroy_def)
qed

end
