(* ===== verification/Client.thy ===== *)
theory Client
  imports Request
begin

text \<open>
  The test client client.c (and client_simple.c): the request it sends, its check of a
  response, and the index of a file set that it reads.
\<close>

section \<open>Sending and checking\<close>

definition client_request_text :: "string \<Rightarrow> string \<Rightarrow> string" where
  "client_request_text host filename =
     ''GET '' @ filename @ '' HTTP/1.0'' @ CRLF @ ''host: '' @ host @ CRLF @ CRLF"

definition client_send :: "out_stream \<Rightarrow> string \<Rightarrow> string \<Rightarrow> out_stream result" where
  "client_send fd host filename =
     (let buf = client_request_text host filename in
      if length buf + 1 > MAXLINE then Inl Undefined else Rio_write fd buf)"

text \<open>The header loop of \<open>client_print\<close>: the reader, the buffer, the last count, the two tags.\<close>

partial_function (option) client_headers ::
  "rio \<Rightarrow> string option \<Rightarrow> int \<Rightarrow> int \<Rightarrow> 32 word \<Rightarrow> (rio \<times> int \<times> 32 word) result option" where
  "client_headers rp buf n len cs = (case buf of
      None \<Rightarrow> Some (Inl Undefined)
    | Some b \<Rightarrow>
        if c_text b \<noteq> CRLF \<and> n > 0 then
          (case Rio_readlineb rp buf MAXBUF of
             Inl e \<Rightarrow> Some (Inl e)
           | Inr r \<Rightarrow>
               let s = c_text (case fst (snd r) of None \<Rightarrow> [] | Some b' \<Rightarrow> b') in
               client_headers (snd (snd r)) (fst (snd r)) (fst r)
                 (case scan_tag ''Content-Length:'' s of None \<Rightarrow> len | Some i \<Rightarrow> i)
                 (case scan_tag ''Content-Csum:'' s of None \<Rightarrow> cs | Some i \<Rightarrow> of_int i))
        else Some (Inr (rp, len, cs)))"

partial_function (option) client_body ::
  "rio \<Rightarrow> string option \<Rightarrow> int \<Rightarrow> 32 word \<Rightarrow> (rio \<times> int \<times> 32 word) result option" where
  "client_body rp buf received cs =
     (case Rio_readlineb rp buf MAXBUF of
        Inl e \<Rightarrow> Some (Inl e)
      | Inr r \<Rightarrow>
          if fst r > 0 then
            client_body (snd (snd r)) (fst (snd r)) (received + fst r)
              (cs + csum (take (nat (fst r)) (case fst (snd r) of None \<Rightarrow> [] | Some b \<Rightarrow> b)))
          else Some (Inr (snd (snd r), received, cs)))"

definition client_print :: "in_stream \<Rightarrow> string \<Rightarrow> 32 word \<Rightarrow> int \<Rightarrow> unit result" where
  "client_print fd stale_buf orig_csum orig_length =
     bindE (Rio_readlineb (rio_init fd stale_buf) None MAXBUF) (\<lambda>(n, buf, rp).
     bindE (loopE (client_headers rp buf n 0 0)) (\<lambda>(rp, len, cs).
     bindE (loopE (client_body rp (Some []) 0 0)) (\<lambda>(rp, received, cs_received).
     bindE (assertE (orig_csum = cs)) (\<lambda>_.
     bindE (assertE (orig_length = len)) (\<lambda>_.
     bindE (assertE (len = received)) (\<lambda>_.
     assertE (cs = cs_received)))))))"

section \<open>Reading lines\<close>

text \<open>Every line of a text, the last one too, is shorter than \<open>m\<close>; \<open>k\<close> bytes of the first
  line have gone by.\<close>

fun lines_below :: "nat \<Rightarrow> nat \<Rightarrow> string \<Rightarrow> bool" where
  "lines_below m k [] = (k < m)"
| "lines_below m k (c # s) = (if c = newline then Suc k < m \<and> lines_below m 0 s else lines_below m (Suc k) s)"

lemma lines_below_le: "lines_below m k s \<Longrightarrow> k < m"
  by (induction m k s rule: lines_below.induct) (auto split: if_splits)

lemma lines_below_first:
  "lines_below m k s \<Longrightarrow> k + length (first_line (m - k) s) < m \<and>
     lines_below m 0 (drop (length (first_line (m - k) s)) s)"
proof (induction m k s rule: lines_below.induct)
  case (1 m k)
  then show ?case by (cases "m - k") auto
next
  case (2 m k c s)
  have k: "k < m" using lines_below_le [OF "2.prems"] .
  then have e: "m - k = Suc (m - Suc k)" by simp
  show ?case
  proof (cases "c = newline")
    case True
    then show ?thesis using "2.prems" by (simp add: e)
  next
    case False
    then show ?thesis using "2.IH"(2) [OF False] "2.prems" by (simp add: e)
  qed
qed

lemma lines_not_below:
  "k < m \<Longrightarrow> \<not> lines_below m k s \<Longrightarrow> k + length (first_line (m - k) s) = m \<or>
     \<not> lines_below m 0 (drop (length (first_line (m - k) s)) s)"
proof (induction m k s rule: lines_below.induct)
  case (2 m k c s)
  have e: "m - k = Suc (m - Suc k)" using "2.prems"(1) by simp
  show ?case
  proof (cases "c = newline")
    case True
    then show ?thesis using "2.prems" by (auto simp: e)
  next
    case False
    have "lines_below m (Suc k) s = lines_below m k (c # s)" using False by simp
    moreover have "\<not> Suc k < m \<Longrightarrow> first_line (m - Suc k) s = []" by simp
    ultimately show ?thesis using "2.IH"(2) [OF False] "2.prems" False by (cases "Suc k < m") (auto simp: e)
  qed
qed simp

text \<open>One line from a reader that has it in front of it.\<close>

lemma read_short_line:
  assumes "rio_ok rp" and "lines_below m 0 (unread rp)" and "unread rp \<noteq> []"
  shows "\<exists>rp'. Rio_readlineb rp buf m =
      Inr (int (length (first_line m (unread rp))), Some (first_line m (unread rp) @ [NUL]), rp') \<and>
    rio_ok rp' \<and> unread rp' = drop (length (first_line m (unread rp))) (unread rp) \<and>
    lines_below m 0 (unread rp') \<and> first_line m (unread rp) \<noteq> []"
proof -
  have m: "0 < m" using lines_below_le [OF assms(2)] .
  define fl where "fl = first_line m (unread rp)"
  have l: "length fl < m" "lines_below m 0 (drop (length fl) (unread rp))"
    using lines_below_first [OF assms(2)] unfolding diff_zero add_0 fl_def by blast+
  have ne: "fl \<noteq> []" using assms(3) first_line_empty [OF m] by (simp add: fl_def)
  obtain rp' where r: "Rio_readlineb rp buf m =
      (if length fl = m then Inl Undefined
       else Inr (int (length fl), if unread rp = [] then buf else Some (fl @ [NUL]), rp'))"
    "rio_ok rp'" "unread rp' = drop (length fl) (unread rp)"
    using Rio_readlineb_line [OF assms(1) m, of buf] unfolding fl_def by blast
  have "Rio_readlineb rp buf m = Inr (int (length fl), Some (fl @ [NUL]), rp')"
    using r(1) l(1) assms(3) by simp
  moreover have "lines_below m 0 (unread rp')" unfolding r(3) by (rule l(2))
  ultimately show ?thesis using r(2,3) ne unfolding fl_def by blast
qed

lemma read_end:
  assumes "rio_ok rp" and "unread rp = []" and "0 < m"
  shows "\<exists>rp'. Rio_readlineb rp buf m = Inr (0, buf, rp') \<and> rio_ok rp' \<and> unread rp' = []"
proof -
  have "first_line m ([] :: string) = []" using assms(3) by (cases m) auto
  then show ?thesis using Rio_readlineb_line [OF assms(1,3), of buf] assms(2,3) by auto
qed

lemma csum_append: "csum (s @ t) = csum s + csum t"
proof -
  have "foldl (\<lambda>v c. v + of_char c) a t = a + foldl (\<lambda>v c. v + of_char c) 0 t" for a :: "32 word" and t
    by (induction t rule: rev_induct) (simp_all add: add.assoc)
  then show ?thesis unfolding csum_def foldl_append .
qed

lemma csum_Nil [simp]: "csum [] = 0"
  by (simp add: csum_def)

lemma client_body_all:
  "rio_ok rp \<Longrightarrow> lines_below MAXBUF 0 (unread rp) \<Longrightarrow>
   \<exists>rp'. client_body rp buf r c = Some (Inr (rp', r + int (length (unread rp)), c + csum (unread rp)))"
proof (induction "length (unread rp)" arbitrary: rp buf r c rule: less_induct)
  case less
  show ?case
  proof (cases "unread rp = []")
    case True
    then obtain rp' where "Rio_readlineb rp buf MAXBUF = Inr (0, buf, rp')"
      using read_end [OF less.prems(1), of MAXBUF buf] by (auto simp: MAXBUF_def)
    then show ?thesis using True by (subst client_body.simps) simp
  next
    case False
    let ?l = "first_line MAXBUF (unread rp)"
    obtain rp' where rp': "Rio_readlineb rp buf MAXBUF = Inr (int (length ?l), Some (?l @ [NUL]), rp')"
      "rio_ok rp'" "unread rp' = drop (length ?l) (unread rp)" "lines_below MAXBUF 0 (unread rp')" "?l \<noteq> []"
      using read_short_line [OF less.prems False] by blast
    have split: "unread rp = ?l @ unread rp'" using first_line_prefix [of MAXBUF "unread rp"] rp'(3)
      by (metis append_take_drop_id)
    then have len: "length (unread rp) = length ?l + length (unread rp')" by (metis length_append)
    then have "length (unread rp') < length (unread rp)" using rp'(5) by simp
    from less.hyps [OF this rp'(2,4)] obtain rp2 where
      "client_body rp' (Some (?l @ [NUL])) (r + int (length ?l)) (c + csum ?l) =
         Some (Inr (rp2, r + int (length ?l) + int (length (unread rp')), c + csum ?l + csum (unread rp')))" by blast
    moreover have "client_body rp buf r c = client_body rp' (Some (?l @ [NUL])) (r + int (length ?l)) (c + csum ?l)"
      using rp'(1,5) by (subst client_body.simps) simp
    moreover have "csum (unread rp) = csum ?l + csum (unread rp')" by (subst split) (rule csum_append)
    ultimately show ?thesis using len by (simp add: add.assoc)
  qed
qed

text \<open>A step of the header loop over a given line.\<close>

definition plain_line :: "string \<Rightarrow> bool" where
  "plain_line l \<longleftrightarrow> newline \<notin> set l \<and> NUL \<notin> set l \<and> length l + 2 < MAXBUF"

lemma c_text_line: "plain_line l \<Longrightarrow> c_text (l @ CRLF @ [NUL]) = l @ CRLF"
proof -
  assume "plain_line l"
  then have "NUL \<notin> set (l @ CRLF)" by (auto simp: plain_line_def CRLF_def NUL_def newline_def return_char_def)
  then show ?thesis using takeWhile_NUL [of "l @ CRLF" "[NUL]"] by (simp add: c_text_def)
qed

lemma read_plain_line:
  assumes "rio_ok rp" and "unread rp = l @ CRLF @ rest" and "plain_line l"
  shows "\<exists>rp'. Rio_readlineb rp buf MAXBUF = Inr (int (length l + 2), Some (l @ CRLF @ [NUL]), rp') \<and>
    rio_ok rp' \<and> unread rp' = rest"
proof -
  have fl: "first_line MAXBUF (unread rp) = l @ CRLF"
    using first_line_of_line [of "l @ [return_char]" MAXBUF rest] assms(2,3)
    by (auto simp: plain_line_def CRLF_def newline_def return_char_def)
  have "0 < MAXBUF" by (simp add: MAXBUF_def)
  from Rio_readlineb_line [OF assms(1) this, of buf] obtain rp' where
    "Rio_readlineb rp buf MAXBUF = (if length (l @ CRLF) = MAXBUF then Inl Undefined
       else Inr (int (length (l @ CRLF)), if unread rp = [] then buf else Some ((l @ CRLF) @ [NUL]), rp'))"
    "rio_ok rp'" "unread rp' = drop (length (l @ CRLF)) (unread rp)" unfolding fl by blast
  then show ?thesis using assms(2,3) by (intro exI [of _ rp']) (auto simp: plain_line_def CRLF_def)
qed

lemma client_headers_step:
  assumes ok: "rio_ok rp" and u: "unread rp = l @ CRLF @ rest" and l: "plain_line l"
    and b: "c_text b \<noteq> CRLF" and n: "0 < n"
  shows "\<exists>rp'. client_headers rp (Some b) n len cs =
      client_headers rp' (Some (l @ CRLF @ [NUL])) (int (length l + 2))
        (case scan_tag ''Content-Length:'' (l @ CRLF) of None \<Rightarrow> len | Some i \<Rightarrow> i)
        (case scan_tag ''Content-Csum:'' (l @ CRLF) of None \<Rightarrow> cs | Some i \<Rightarrow> of_int i) \<and>
    rio_ok rp' \<and> unread rp' = rest"
proof -
  obtain rp' where r: "Rio_readlineb rp (Some b) MAXBUF = Inr (int (length l + 2), Some (l @ CRLF @ [NUL]), rp')"
    "rio_ok rp'" "unread rp' = rest" using read_plain_line [OF ok u l] by blast
  have "client_headers rp (Some b) n len cs = client_headers rp' (Some (l @ CRLF @ [NUL])) (int (length l + 2))
        (case scan_tag ''Content-Length:'' (l @ CRLF) of None \<Rightarrow> len | Some i \<Rightarrow> i)
        (case scan_tag ''Content-Csum:'' (l @ CRLF) of None \<Rightarrow> cs | Some i \<Rightarrow> of_int i)"
    using r(1) b n c_text_line [OF l] by (subst client_headers.simps) (simp add: Let_def del: append_assoc)
  then show ?thesis using r by blast
qed

lemma client_headers_end:
  "client_headers rp (Some (CRLF @ [NUL])) n len cs = Some (Inr (rp, len, cs))"
  using c_text_line [of "[]"] by (subst client_headers.simps) (simp add: plain_line_def MAXBUF_def)

lemma line_not_empty: "l \<noteq> [] \<Longrightarrow> plain_line l \<Longrightarrow> c_text (l @ CRLF @ [NUL]) \<noteq> CRLF"
  by (simp add: c_text_line)

section \<open>A response of the server\<close>

lemma not_digits: "is_digit newline = False" "is_digit return_char = False" "is_digit NUL = False"
  by (simp_all add: is_digit_def newline_def return_char_def NUL_def)

lemma plain_number: "length (show_nat n) < 100 \<Longrightarrow> plain_line (show_nat n)"
  using show_nat_digits [of _ n] not_digits by (auto simp: plain_line_def MAXBUF_def)

lemma show_nat_length: "n < 10 ^ k \<Longrightarrow> 0 < k \<Longrightarrow> length (show_nat n) \<le> k"
proof (induction n arbitrary: k rule: show_nat.induct)
  case (1 n)
  show ?case
  proof (cases "n < 10")
    case True
    then show ?thesis using 1 by (subst show_nat.simps) simp
  next
    case False
    obtain j where k: "k = Suc j" using 1 by (cases k) auto
    then have "n div 10 < 10 ^ j" "0 < j" using 1 False by (auto simp: less_mult_imp_div_less intro: gr0I)
    then show ?thesis using 1(1) [OF False, of j] k by (subst show_nat.simps) simp
  qed
qed

text \<open>The header lines of a page, and the tags in them.\<close>

definition page_header :: "string \<Rightarrow> string \<Rightarrow> string list" where
  "page_header name bytes = [''HTTP/1.0 200 OK'', ''Server: OS Web Server'', ''Content-Type: '' @ request_get_file_type name,
     ''Content-Length: '' @ show_nat (length bytes), ''Content-Csum: '' @ show_nat (unat (csum bytes))]"

lemma page_header_plain:
  assumes n: "length bytes < 2147483648"
  shows "\<forall>l\<in>set (page_header name bytes). plain_line l \<and> l \<noteq> []"
proof -
  have "length (show_nat (length bytes)) \<le> 10" "length (show_nat (unat (csum bytes))) \<le> 10"
    using show_nat_length [of "length bytes" 10] show_nat_length [of "unat (csum bytes)" 10] n
      unsigned_less [of "csum bytes", where 'a = nat] by simp_all
  then show ?thesis using plain_number [of "length bytes"] plain_number [of "unat (csum bytes)"]
    by (auto simp: page_header_def plain_line_def request_get_file_type_def newline_def NUL_def MAXBUF_def)
qed

lemma page_tags:
  "scan_tag ''Content-Length:'' ((''Content-Length: '' @ show_nat n) @ CRLF) = Some (int n)"
  "scan_tag ''Content-Csum:'' ((''Content-Length: '' @ show_nat n) @ CRLF) = None"
  "scan_tag ''Content-Length:'' ((''Content-Csum: '' @ show_nat n) @ CRLF) = None"
  "scan_tag ''Content-Csum:'' ((''Content-Csum: '' @ show_nat n) @ CRLF) = Some (int n)"
proof -
  have nd: "CRLF = [] \<or> \<not> is_digit (hd CRLF)" by (simp add: CRLF_def not_digits)
  have space: "is_space CHR 0x20" by (simp add: is_space_def)
  show "scan_tag ''Content-Length:'' ((''Content-Length: '' @ show_nat n) @ CRLF) = Some (int n)"
    "scan_tag ''Content-Csum:'' ((''Content-Length: '' @ show_nat n) @ CRLF) = None"
    "scan_tag ''Content-Length:'' ((''Content-Csum: '' @ show_nat n) @ CRLF) = None"
    "scan_tag ''Content-Csum:'' ((''Content-Csum: '' @ show_nat n) @ CRLF) = Some (int n)"
    using scan_int_show_nat [OF nd] scan_int_space [OF space] by (simp_all add: scan_tag_def)
qed

text \<open>The client reads the status line and the headers of a response and then its body.\<close>

lemma client_reads_headers:
  assumes fd: "readable fd" "arriving fd = ok_page name bytes" and n: "length bytes < 2147483648"
  shows "\<exists>rp. rio_ok rp \<and> unread rp = bytes \<and>
    client_print fd stale_buf orig_csum orig_length =
      bindE (loopE (client_body rp (Some []) 0 0)) (\<lambda>(rp, received, cs_received).
      bindE (assertE (orig_csum = csum bytes)) (\<lambda>_.
      bindE (assertE (orig_length = int (length bytes))) (\<lambda>_.
      bindE (assertE (int (length bytes) = received)) (\<lambda>_.
      assertE (csum bytes = cs_received)))))"
proof -
  let ?ct = "''Content-Type: '' @ request_get_file_type name" and ?cl = "''Content-Length: '' @ show_nat (length bytes)"
    and ?cs = "''Content-Csum: '' @ show_nat (unat (csum bytes))"
  have plain: "plain_line ''HTTP/1.0 200 OK''" "plain_line ''Server: OS Web Server''" "plain_line ?ct"
    "plain_line ?cl" "plain_line ?cs" "plain_line []"
    using page_header_plain [OF n] by (simp_all add: page_header_def plain_line_def MAXBUF_def)
  define rp0 where "rp0 = rio_init fd stale_buf"
  have rp0: "rio_ok rp0" "unread rp0 = ''HTTP/1.0 200 OK'' @ CRLF @ ''Server: OS Web Server'' @ CRLF @ ?ct @ CRLF @
      ?cl @ CRLF @ ?cs @ CRLF @ [] @ CRLF @ bytes"
    using rio_init_ok [OF fd(1)] fd(2) by (simp_all add: rp0_def ok_page_def response_header_def show_int_def)
  note notempty = line_not_empty [OF _ plain(1)] line_not_empty [OF _ plain(2)] line_not_empty [OF _ plain(3)]
    line_not_empty [OF _ plain(4)] line_not_empty [OF _ plain(5)]
  obtain rp1 where r1: "Rio_readlineb rp0 None MAXBUF = Inr (17, Some (''HTTP/1.0 200 OK'' @ CRLF @ [NUL]), rp1)" "rio_ok rp1"
    "unread rp1 = ''Server: OS Web Server'' @ CRLF @ ?ct @ CRLF @ ?cl @ CRLF @ ?cs @ CRLF @ [] @ CRLF @ bytes"
    using read_plain_line [OF rp0 plain(1), of None] by auto
  obtain rp2 where r2: "client_headers rp1 (Some (''HTTP/1.0 200 OK'' @ CRLF @ [NUL])) 17 0 0 =
      client_headers rp2 (Some (''Server: OS Web Server'' @ CRLF @ [NUL])) (int (length ''Server: OS Web Server'' + 2)) 0 0"
    "rio_ok rp2" "unread rp2 = ?ct @ CRLF @ ?cl @ CRLF @ ?cs @ CRLF @ [] @ CRLF @ bytes"
    using client_headers_step [OF r1(2,3) plain(2) notempty(1), of 17 0 0] by (auto simp: scan_tag_def)
  obtain rp3 where r3: "client_headers rp2 (Some (''Server: OS Web Server'' @ CRLF @ [NUL])) (int (length ''Server: OS Web Server'' + 2)) 0 0 =
      client_headers rp3 (Some (?ct @ CRLF @ [NUL])) (int (length ?ct + 2)) 0 0"
    "rio_ok rp3" "unread rp3 = ?cl @ CRLF @ ?cs @ CRLF @ [] @ CRLF @ bytes"
    using client_headers_step [OF r2(2,3) plain(3) notempty(2), of "int (length ''Server: OS Web Server'' + 2)" 0 0]
    by (auto simp: scan_tag_def)
  obtain rp4 where r4: "client_headers rp3 (Some (?ct @ CRLF @ [NUL])) (int (length ?ct + 2)) 0 0 =
      client_headers rp4 (Some (?cl @ CRLF @ [NUL])) (int (length ?cl + 2)) (int (length bytes)) 0"
    "rio_ok rp4" "unread rp4 = ?cs @ CRLF @ [] @ CRLF @ bytes"
    using client_headers_step [OF r3(2,3) plain(4) notempty(3), of "int (length ?ct + 2)" 0 0] unfolding page_tags by auto
  obtain rp5 where r5: "client_headers rp4 (Some (?cl @ CRLF @ [NUL])) (int (length ?cl + 2)) (int (length bytes)) 0 =
      client_headers rp5 (Some (?cs @ CRLF @ [NUL])) (int (length ?cs + 2)) (int (length bytes)) (csum bytes)"
    "rio_ok rp5" "unread rp5 = [] @ CRLF @ bytes"
    using client_headers_step [OF r4(2,3) plain(5) notempty(4), of "int (length ?cl + 2)" "int (length bytes)" 0]
    unfolding page_tags by auto
  obtain rp6 where r6: "client_headers rp5 (Some (?cs @ CRLF @ [NUL])) (int (length ?cs + 2)) (int (length bytes)) (csum bytes) =
      client_headers rp6 (Some (CRLF @ [NUL])) 2 (int (length bytes)) (csum bytes)"
    "rio_ok rp6" "unread rp6 = bytes"
    using client_headers_step [OF r5(2,3) plain(6) notempty(5), of "int (length ?cs + 2)" "int (length bytes)" "csum bytes"]
    by (auto simp: scan_tag_def CRLF_def return_char_def)
  show ?thesis
    by (rule exI [of _ rp6], unfold client_print_def rp0_def [symmetric] r1(1))
      (simp add: r6(2,3) r2(1) [simplified] r3(1) [simplified] r4(1) [simplified] r5(1) [simplified] r6(1) [simplified]
        client_headers_end)
qed

text \<open>It accepts the response to a request for a file exactly when no line of the file fills its
  buffer; such a line makes \<open>rio_readlineb\<close> write behind the buffer.\<close>

lemma client_body_overflows:
  "rio_ok rp \<Longrightarrow> \<not> lines_below MAXBUF 0 (unread rp) \<Longrightarrow> client_body rp buf r c = Some (Inl Undefined)"
proof (induction "length (unread rp)" arbitrary: rp buf r c rule: less_induct)
  case less
  have M: "0 < MAXBUF" by (simp add: MAXBUF_def)
  let ?l = "first_line MAXBUF (unread rp)"
  obtain rp' where r: "Rio_readlineb rp buf MAXBUF =
      (if length ?l = MAXBUF then Inl Undefined
       else Inr (int (length ?l), if unread rp = [] then buf else Some (?l @ [NUL]), rp'))"
    "rio_ok rp'" "unread rp' = drop (length ?l) (unread rp)"
    using Rio_readlineb_line [OF less.prems(1) M, of buf] by blast
  show ?case
  proof (cases "length ?l = MAXBUF")
    case True
    then show ?thesis using r(1) by (subst client_body.simps) simp
  next
    case False
    have ne: "unread rp \<noteq> []" using less.prems(2) M by auto
    have "\<not> lines_below MAXBUF 0 (drop (length ?l) (unread rp))"
      using lines_not_below [OF M less.prems(2)] False by simp
    moreover have "?l \<noteq> []" using ne first_line_empty [OF M] by simp
    ultimately have "client_body rp' (Some (?l @ [NUL])) (r + int (length ?l)) (c + csum ?l) = Some (Inl Undefined)"
      using ne by (intro less.hyps) (simp_all add: r(2,3))
    then show ?thesis using r(1) False ne \<open>?l \<noteq> []\<close> by (subst client_body.simps) simp
  qed
qed

lemma client_verdict:
  assumes "readable fd" "arriving fd = ok_page name bytes" "length bytes < 2147483648"
  shows "client_print fd stale_buf (csum bytes) (int (length bytes)) =
    (if lines_below MAXBUF 0 bytes then Inr () else Inl Undefined)"
proof -
  obtain rp where rp: "rio_ok rp" "unread rp = bytes"
    "client_print fd stale_buf (csum bytes) (int (length bytes)) =
      bindE (loopE (client_body rp (Some []) 0 0)) (\<lambda>(rp, received, cs_received).
      bindE (assertE (int (length bytes) = received)) (\<lambda>_. assertE (csum bytes = cs_received)))"
    using client_reads_headers [OF assms, of stale_buf "csum bytes" "int (length bytes)"] by auto
  show ?thesis
  proof (cases "lines_below MAXBUF 0 bytes")
    case True
    then obtain rp7 where "client_body rp (Some []) 0 0 = Some (Inr (rp7, int (length bytes), csum bytes))"
      using client_body_all [OF rp(1), of "Some []" 0 0] rp(2) by auto
    then show ?thesis using rp(3) True by simp
  next
    case False
    then show ?thesis using rp client_body_overflows [OF rp(1), of "Some []" 0 0] by simp
  qed
qed

lemma client_accepts:
  assumes "readable fd" "arriving fd = ok_page name bytes" and "lines_below MAXBUF 0 bytes"
    and "length bytes < 2147483648"
  shows "client_print fd stale_buf (csum bytes) (int (length bytes)) = Inr ()"
  using client_verdict [OF assms(1,2,4), of stale_buf] assms(3) by simp

end
