(* ===== verification/Fileset.thy ===== *)
theory Fileset
  imports Client
begin

text \<open>
  The file set: fileset.c writes random text files and an index of their names, checksums and
  lengths, client.c reads the index. The random numbers are parameters: \<open>size_of i\<close> is what
  \<open>rand_pareto\<close> gives for file \<open>i\<close>, \<open>random i j\<close> what \<open>random\<close> gives for its byte \<open>j\<close>. Every file
  is written to a new descriptor, whose stream the call of \<open>open\<close> gives.
\<close>

section \<open>Writing\<close>

definition printable :: "nat \<Rightarrow> char" where
  "printable r = char_of (r mod (0x73 - 0x20) + 0x20)"

text \<open>The loop that writes one file in blocks of 4096 bytes and sums them up.\<close>

function write_blocks :: "(nat \<Rightarrow> nat) \<Rightarrow> nat \<Rightarrow> int \<Rightarrow> out_stream \<Rightarrow> 32 word \<Rightarrow> (out_stream \<times> 32 word) result" where
  "write_blocks rnd k remaining fd cs =
     (if remaining > 0 then
        let sz = (if remaining < 4096 then remaining else 4096);
            buf = map (\<lambda>j. printable (rnd j)) [k..<k + nat sz]
        in (case Rio_write fd buf of
             Inl e \<Rightarrow> Inl e
           | Inr fd' \<Rightarrow> write_blocks rnd (k + nat sz) (remaining - sz) fd' (cs + csum buf))
      else Inr (fd, cs))"
  by pat_completeness auto
termination
  by (relation "measure (\<lambda>(rnd, k, remaining, fd, cs). nat remaining)") auto

declare write_blocks.simps [simp del]

definition pad5 :: "nat \<Rightarrow> string" where
  "pad5 n = replicate (5 - length (show_nat n)) CHR ''0'' @ show_nat n"

definition set_file_name :: "string \<Rightarrow> nat \<Rightarrow> string" where
  "set_file_name dir i = dir @ ''/'' @ pad5 i"

definition index_line :: "string \<Rightarrow> 32 word \<Rightarrow> int \<Rightarrow> string" where
  "index_line filename cs sz =
     filename @ '' '' @ show_nat (unat cs) @ '' '' @ show_int sz @ [newline]"

record fileset =
  nr_files :: nat
  current_fileset_sz :: int
  idx_buffer :: string
  disk :: "(string \<times> string) list"

text \<open>The loop of \<open>main\<close> in fileset.c. \<open>cur_size\<close> is the length of \<open>idx_buffer\<close>.\<close>

partial_function (option) fileset_loop ::
  "string \<Rightarrow> (nat \<Rightarrow> int) \<Rightarrow> (nat \<Rightarrow> nat \<Rightarrow> nat) \<Rightarrow> (nat \<Rightarrow> out_stream) \<Rightarrow> int \<Rightarrow> fileset \<Rightarrow> fileset result option" where
  "fileset_loop dir size_of random open_file target st =
     (if current_fileset_sz st < target then
        let i = nr_files st; filename = set_file_name dir i; file_sz = size_of i
        in (case write_blocks (random i) 0 file_sz (open_file i) 0 of
              Inl e \<Rightarrow> Some (Inl e)
            | Inr r \<Rightarrow>
                let line = index_line filename (snd r) file_sz in
                if length (idx_buffer st @ line) < 4096 * 256 - 1 then
                  fileset_loop dir size_of random open_file target
                    \<lparr>nr_files = Suc i, current_fileset_sz = current_fileset_sz st + file_sz,
                     idx_buffer = idx_buffer st @ line, disk = disk st @ [(filename, sent (fst r))]\<rparr>
                else Some (Inl Assertion))
      else Some (Inr st))"

definition index_text :: "fileset \<Rightarrow> string" where
  "index_text st = show_int (int (nr_files st)) @ [newline] @ idx_buffer st"

section \<open>Reading\<close>

text \<open>An entry of the client's table; a field that \<open>sscanf\<close> did not fill is \<open>None\<close>.\<close>

record fileinfo =
  fi_name :: "string option"
  fi_csum :: "32 word option"
  fi_len :: "int option"

definition scan_entry :: "string \<Rightarrow> fileinfo" where
  "scan_entry s = (case scan_word s of
      None \<Rightarrow> \<lparr>fi_name = None, fi_csum = None, fi_len = None\<rparr>
    | Some (name, s1) \<Rightarrow> (case scan_int s1 of
        None \<Rightarrow> \<lparr>fi_name = Some name, fi_csum = None, fi_len = None\<rparr>
      | Some (c, s2) \<Rightarrow> \<lparr>fi_name = Some name, fi_csum = Some (of_int c), fi_len = map_option fst (scan_int s2)\<rparr>))"

text \<open>
  The loop of \<open>init_fileset\<close>. \<open>name\<close> is allocated with one byte more than the line without
  its newline.
\<close>

partial_function (option) init_fileset_loop ::
  "rio \<Rightarrow> string option \<Rightarrow> int \<Rightarrow> fileinfo list \<Rightarrow> fileinfo list result option" where
  "init_fileset_loop rp buf nr fs =
     (case Rio_readlineb rp buf MAXLINE of
        Inl e \<Rightarrow> Some (Inl e)
      | Inr r \<Rightarrow>
          if fst r = 0 then Some (if nr > 0 \<and> int (length fs) = nr then Inr fs else Inl Assertion)
          else (case fst (snd r) of
              None \<Rightarrow> Some (Inl Undefined)
            | Some b \<Rightarrow>
                let n = (if b ! nat (fst r - 1) = newline then fst r - 1 else fst r) in
                if nr = 0 then
                  if atoi (c_text b) > 0 then init_fileset_loop (snd (snd r)) (Some b) (atoi (c_text b)) []
                  else Some (Inl Assertion)
                else if int (length fs) < nr then
                  let fi = scan_entry (c_text b) in
                  if (case fi_name fi of None \<Rightarrow> True | Some name \<Rightarrow> int (length name) \<le> n)
                  then init_fileset_loop (snd (snd r)) (Some b) nr (fs @ [fi])
                  else Some (Inl Undefined)
                else Some (Inl Assertion)))"

definition init_fileset :: "in_stream \<Rightarrow> string \<Rightarrow> fileinfo list result" where
  "init_fileset fd stale_buf = loopE (init_fileset_loop (rio_init fd stale_buf) None 0 [])"

section \<open>What is written\<close>

lemma write_blocks_all:
  "0 \<le> remaining \<Longrightarrow> write_blocks rnd k remaining fd cs = Inr (fd', cs') \<Longrightarrow>
   sent fd' = sent fd @ map (\<lambda>j. printable (rnd j)) [k..<k + nat remaining] \<and>
   cs' = cs + csum (map (\<lambda>j. printable (rnd j)) [k..<k + nat remaining])"
proof (induction rnd k remaining fd cs rule: write_blocks.induct)
  case (1 rnd k remaining fd cs)
  show ?case
  proof (cases "remaining > 0")
    case False
    then show ?thesis using 1(2,3) by (subst (asm) write_blocks.simps) auto
  next
    case True
    define sz where "sz = (if remaining < 4096 then remaining else 4096)"
    define buf where "buf = map (\<lambda>j. printable (rnd j)) [k..<k + nat sz]"
    have sz: "0 \<le> sz" "sz \<le> remaining" using True by (auto simp: sz_def)
    obtain fd1 where w: "Rio_write fd buf = Inr fd1"
      and r: "write_blocks rnd (k + nat sz) (remaining - sz) fd1 (cs + csum buf) = Inr (fd', cs')"
      using 1(3) True by (subst (asm) write_blocks.simps) (auto simp: Let_def sz_def [symmetric] buf_def [symmetric] split: sum.splits)
    have "0 \<le> remaining - sz" using sz by simp
    from "1.IH" [OF True sz_def buf_def w this r] have ih:
      "sent fd' = sent fd1 @ map (\<lambda>j. printable (rnd j)) [k + nat sz..<k + nat sz + nat (remaining - sz)]"
      "cs' = cs + csum buf + csum (map (\<lambda>j. printable (rnd j)) [k + nat sz..<k + nat sz + nat (remaining - sz)])"
      by auto
    have eq: "k + nat sz + nat (remaining - sz) = k + nat remaining" using sz by simp
    moreover have "[k..<k + nat sz + nat (remaining - sz)] = [k..<k + nat sz] @ [k + nat sz..<k + nat sz + nat (remaining - sz)]"
      by (rule upt_add_eq_append) simp
    then have "[k..<k + nat remaining] = [k..<k + nat sz] @ [k + nat sz..<k + nat remaining]" unfolding eq .
    ultimately show ?thesis using ih Rio_write_sent [OF w] by (simp add: buf_def csum_append add.assoc)
  qed
qed

text \<open>The text of a file is one line without an end.\<close>

lemma printable_not_end: "newline \<notin> range printable" "NUL \<notin> range printable"
proof -
  have "of_char (printable r) = r mod 83 + (32 :: nat)" for r
  proof -
    have "r mod 83 < 83" by simp
    then show ?thesis by (simp add: printable_def)
  qed
  then have "of_char (printable r) \<ge> (32 :: nat)" for r by simp
  moreover have "of_char newline < (32 :: nat)" "of_char NUL < (32 :: nat)" by (simp_all add: newline_def NUL_def)
  ultimately show "newline \<notin> range printable" "NUL \<notin> range printable" by (metis imageE not_less)+
qed

text \<open>The entries that belong to the files on disk.\<close>

definition entry_of :: "string \<times> string \<Rightarrow> string \<times> 32 word \<times> int" where
  "entry_of f = (fst f, csum (snd f), int (length (snd f)))"

definition entry_line :: "string \<times> 32 word \<times> int \<Rightarrow> string" where
  "entry_line x = index_line (fst x) (fst (snd x)) (snd (snd x))"

definition fileset_ok :: "string \<Rightarrow> fileset \<Rightarrow> bool" where
  "fileset_ok dir st \<longleftrightarrow> nr_files st = length (disk st) \<and>
     idx_buffer st = concat (map (entry_line \<circ> entry_of) (disk st)) \<and>
     current_fileset_sz st = (\<Sum>f\<leftarrow>disk st. int (length (snd f))) \<and>
     map fst (disk st) = map (set_file_name dir) [0..<length (disk st)] \<and>
     (\<forall>f\<in>set (disk st). length (snd f) < 2147483648 \<and> snd f \<noteq> [] \<and> set (snd f) \<subseteq> range printable) \<and>
     length (idx_buffer st) < 4096 * 256 - 1"

lemma write_blocks_aborts: "write_blocks rnd k remaining fd cs = Inl e \<Longrightarrow> aborts e"
proof (induction rnd k remaining fd cs rule: write_blocks.induct)
  case (1 rnd k remaining fd cs)
  show ?case
  proof (cases "remaining > 0")
    case False
    then show ?thesis using 1(2) by (subst (asm) write_blocks.simps) simp
  next
    case True
    define sz where "sz = (if remaining < 4096 then remaining else 4096)"
    define buf where "buf = map (\<lambda>j. printable (rnd j)) [k..<k + nat sz]"
    show ?thesis
    proof (cases "Rio_write fd buf")
      case (Inl e')
      then have "write_blocks rnd k remaining fd cs = Inl e'"
        using True by (subst write_blocks.simps) (simp add: Let_def sz_def [symmetric] buf_def [symmetric])
      moreover have "e' = Exit_with 1" using Inl by (simp add: Rio_write_def split: prod.splits if_splits)
      ultimately show ?thesis using 1(2) by simp
    next
      case (Inr fd1)
      then have "write_blocks rnd (k + nat sz) (remaining - sz) fd1 (cs + csum buf) = Inl e"
        using 1(2) True by (subst (asm) write_blocks.simps) (simp add: Let_def sz_def [symmetric] buf_def [symmetric])
      then show ?thesis by (rule "1.IH" [OF True sz_def buf_def Inr])
    qed
  qed
qed

text \<open>The loop ends, and when it does not abort the fileset is well formed.\<close>

lemma fileset_step_ok:
  assumes ok: "fileset_ok dir st" and w: "write_blocks (random (nr_files st)) 0 sz fd 0 = Inr (fd', cs)"
    and fd: "sent fd = []" and sz: "0 < sz" "sz < 2147483648"
    and line: "line = index_line (set_file_name dir (nr_files st)) cs sz"
    and room: "length (idx_buffer st @ line) < 4096 * 256 - 1"
  shows "fileset_ok dir \<lparr>nr_files = Suc (nr_files st), current_fileset_sz = current_fileset_sz st + sz,
    idx_buffer = idx_buffer st @ line, disk = disk st @ [(set_file_name dir (nr_files st), sent fd')]\<rparr>"
proof -
  have t: "sent fd' = map (\<lambda>j. printable (random (nr_files st) j)) [0..<nat sz]" "cs = csum (sent fd')"
    using write_blocks_all [OF _ w] sz(1) fd by simp_all
  moreover have "0 < nat sz" using sz(1) by simp
  ultimately have new: "length (sent fd') < 2147483648 \<and> sent fd' \<noteq> [] \<and> set (sent fd') \<subseteq> range printable"
    using sz(2) by auto
  have "entry_line (entry_of (set_file_name dir (nr_files st), sent fd')) = line"
    using line sz(1) t by (simp add: entry_line_def entry_of_def)
  then show ?thesis using ok t(1) sz room new by (auto simp: fileset_ok_def)
qed

lemma fileset_loop_ok:
  assumes new: "\<forall>i. sent (open_file i) = []" and sz: "\<forall>i. 0 < size_of i \<and> size_of i < 2147483648"
  shows "fileset_ok dir st \<Longrightarrow>
    \<exists>r. fileset_loop dir size_of random open_file target st = Some r \<and>
      (case r of Inl e \<Rightarrow> aborts e | Inr st' \<Rightarrow> fileset_ok dir st' \<and> target \<le> current_fileset_sz st')"
proof (induction "nat (target - current_fileset_sz st)" arbitrary: st rule: less_induct)
  case less
  let ?i = "nr_files st" and ?sz = "size_of (nr_files st)"
  have i: "0 < ?sz" "?sz < 2147483648" "sent (open_file ?i) = []" using sz new by simp_all
  show ?case
  proof (cases "current_fileset_sz st < target")
    case False
    then have "fileset_loop dir size_of random open_file target st = Some (Inr st)"
      by (subst fileset_loop.simps) simp
    then show ?thesis using False less.prems by simp
  next
    case True
    show ?thesis
    proof (cases "write_blocks (random ?i) 0 ?sz (open_file ?i) 0")
      case (Inl e)
      then have "fileset_loop dir size_of random open_file target st = Some (Inl e)"
        using True by (subst fileset_loop.simps) (simp add: Let_def)
      then show ?thesis using write_blocks_aborts [OF Inl] by simp
    next
      case (Inr x)
      obtain fd' cs where x: "x = (fd', cs)" by (cases x)
      define line where "line = index_line (set_file_name dir ?i) cs ?sz"
      show ?thesis
      proof (cases "length (idx_buffer st @ line) < 4096 * 256 - 1")
        case False
        then have "fileset_loop dir size_of random open_file target st = Some (Inl Assertion)"
          using True Inr x by (subst fileset_loop.simps) (simp add: Let_def line_def)
        then show ?thesis by simp
      next
        case room: True
        let ?st = "\<lparr>nr_files = Suc ?i, current_fileset_sz = current_fileset_sz st + ?sz,
          idx_buffer = idx_buffer st @ line, disk = disk st @ [(set_file_name dir ?i, sent fd')]\<rparr>"
        have ok: "fileset_ok dir ?st"
          by (rule fileset_step_ok [where random = random, OF less.prems Inr [unfolded x] i(3,1,2) line_def room])
        have "nat (target - current_fileset_sz ?st) < nat (target - current_fileset_sz st)"
          using True i(1) by simp
        from less.hyps [OF this ok] obtain r where "fileset_loop dir size_of random open_file target ?st = Some r"
          "case r of Inl e \<Rightarrow> aborts e | Inr st' \<Rightarrow> fileset_ok dir st' \<and> target \<le> current_fileset_sz st'" by blast
        moreover have "fileset_loop dir size_of random open_file target st = fileset_loop dir size_of random open_file target ?st"
          using True Inr x room by (subst fileset_loop.simps) (simp add: Let_def line_def)
        ultimately show ?thesis by simp
      qed
    qed
  qed
qed

section \<open>What is read back\<close>

lemma read_line:
  assumes "rio_ok rp" and "unread rp = l @ newline # rest" and "newline \<notin> set l" and "length l + 1 < MAXLINE"
  shows "\<exists>rp'. Rio_readlineb rp buf MAXLINE = Inr (int (length l + 1), Some (l @ [newline, NUL]), rp') \<and>
    rio_ok rp' \<and> unread rp' = rest"
proof -
  have fl: "first_line MAXLINE (unread rp) = l @ [newline]"
    using first_line_of_line [of l MAXLINE rest] assms(2-4) by simp
  have "0 < MAXLINE" by (simp add: MAXLINE_def)
  from Rio_readlineb_line [OF assms(1) this, of buf] obtain rp' where
    "Rio_readlineb rp buf MAXLINE = (if length (l @ [newline]) = MAXLINE then Inl Undefined
       else Inr (int (length (l @ [newline])), if unread rp = [] then buf else Some ((l @ [newline]) @ [NUL]), rp'))"
    "rio_ok rp'" "unread rp' = drop (length (l @ [newline])) (unread rp)" unfolding fl by blast
  then show ?thesis using assms(2,4) by (intro exI [of _ rp']) auto
qed

text \<open>A name that the index can hold: one word, not too long.\<close>

definition index_name :: "string \<Rightarrow> bool" where
  "index_name f \<longleftrightarrow> f \<noteq> [] \<and> (\<forall>c\<in>set f. \<not> is_space c) \<and> NUL \<notin> set f \<and> length f < 2000"

definition entry_info :: "string \<times> 32 word \<times> int \<Rightarrow> fileinfo" where
  "entry_info x = \<lparr>fi_name = Some (fst x), fi_csum = Some (fst (snd x)), fi_len = Some (snd (snd x))\<rparr>"

definition entry_text :: "string \<times> 32 word \<times> int \<Rightarrow> string" where
  "entry_text x = fst x @ '' '' @ show_nat (unat (fst (snd x))) @ '' '' @ show_int (snd (snd x))"

lemma entry_line_text: "entry_line x = entry_text x @ [newline]"
  by (simp add: entry_line_def index_line_def entry_text_def)

lemma space_facts: "is_space CHR 0x20" "is_space newline" "\<not> is_digit CHR 0x20"
  by (simp_all add: is_space_def newline_def is_digit_def)

lemma no_space_in_number: "c \<in> set (show_int i) \<Longrightarrow> \<not> is_space c \<and> c \<noteq> NUL"
  using show_nat_digits [of c] digit_not_space [of c] not_digits
  by (auto simp: show_int_def is_space_def NUL_def split: if_splits)

lemma no_space_in_nat: "c \<in> set (show_nat n) \<Longrightarrow> \<not> is_space c \<and> c \<noteq> NUL"
  using show_nat_digits [of c n] digit_not_space [of c] not_digits by auto

lemma scan_entry_text:
  assumes "index_name (fst x)"
  shows "scan_entry (entry_text x @ [newline]) = entry_info x"
proof -
  obtain f c l where x: "x = (f, c, l)" by (cases x)
  have f: "f \<noteq> []" "\<forall>c\<in>set f. \<not> is_space c" using assms x by (simp_all add: index_name_def)
  have "scan_word (f @ '' '' @ show_nat (unat c) @ '' '' @ show_int l @ [newline]) =
      Some (f, '' '' @ show_nat (unat c) @ '' '' @ show_int l @ [newline])"
    by (rule scan_word_append [OF f]) (simp add: space_facts)
  moreover have "scan_int ('' '' @ show_nat (unat c) @ '' '' @ show_int l @ [newline]) =
      Some (int (unat c), '' '' @ show_int l @ [newline])"
    using scan_int_show_nat [of "'' '' @ show_int l @ [newline]" "unat c"]
    by (simp add: scan_int_space [OF space_facts(1)] space_facts(3))
  moreover have "scan_int ('' '' @ show_int l @ [newline]) = Some (l, [newline])"
    using scan_int_show_int [of "[newline]" l] by (simp add: scan_int_space [OF space_facts(1)] not_digits)
  ultimately show ?thesis by (simp add: scan_entry_def x entry_text_def entry_info_def)
qed

lemma entry_text_plain:
  assumes "index_name (fst x)" and "0 \<le> snd (snd x)" and "snd (snd x) < 2147483648"
  shows "newline \<notin> set (entry_text x)" and "NUL \<notin> set (entry_text x)" and "length (entry_text x) + 1 < MAXLINE"
    and "entry_text x \<noteq> []" and "length (fst x) \<le> length (entry_text x)"
proof -
  obtain f c l where x: "x = (f, c, l)" by (cases x)
  have "newline \<notin> set f" "NUL \<notin> set f" using assms(1) x space_facts(2) by (auto simp: index_name_def)
  moreover have "newline \<notin> set (show_nat n)" "NUL \<notin> set (show_nat n)" "newline \<notin> set (show_int i)" "NUL \<notin> set (show_int i)" for n i
    using no_space_in_nat no_space_in_number space_facts(2) by blast+
  ultimately show "newline \<notin> set (entry_text x)" "NUL \<notin> set (entry_text x)"
    by (auto simp: x entry_text_def newline_def NUL_def)
  have "length (show_nat (unat c)) \<le> 10" "length (show_nat (nat l)) \<le> 10"
    using show_nat_length [of "unat c" 10] show_nat_length [of "nat l" 10] assms(3)
      unsigned_less [of c, where 'a = nat] by (simp_all add: x)
  then show "length (entry_text x) + 1 < MAXLINE"
    using assms(1,2) by (simp add: x entry_text_def index_name_def MAXLINE_def show_int_def)
qed (use assms in \<open>auto simp: entry_text_def index_name_def\<close>)

lemma c_text_of_line: "NUL \<notin> set l \<Longrightarrow> c_text (l @ [newline, NUL]) = l @ [newline]"
  using takeWhile_NUL [of "l @ [newline]" "[NUL]"] by (simp add: c_text_def newline_def NUL_def)

lemma init_fileset_entries:
  "rio_ok rp \<Longrightarrow> unread rp = concat (map entry_line xs) \<Longrightarrow> int (length fs + length xs) = nr \<Longrightarrow> 0 < nr \<Longrightarrow>
   \<forall>x\<in>set xs. index_name (fst x) \<and> 0 \<le> snd (snd x) \<and> snd (snd x) < 2147483648 \<Longrightarrow>
   init_fileset_loop rp buf nr fs = Some (Inr (fs @ map entry_info xs))"
proof (induction xs arbitrary: rp buf fs)
  case Nil
  then obtain rp' where "Rio_readlineb rp buf MAXLINE = Inr (0, buf, rp')"
    using read_end [of rp MAXLINE buf] by (auto simp: MAXLINE_def)
  then show ?case using Nil by (subst init_fileset_loop.simps) simp
next
  case (Cons x xs)
  have x: "index_name (fst x)" "0 \<le> snd (snd x)" "snd (snd x) < 2147483648" using Cons.prems(5) by simp_all
  note p = entry_text_plain [OF x]
  obtain rp' where r: "Rio_readlineb rp buf MAXLINE =
      Inr (int (length (entry_text x) + 1), Some (entry_text x @ [newline, NUL]), rp')"
    "rio_ok rp'" "unread rp' = concat (map entry_line xs)"
    using read_line [OF Cons.prems(1) _ p(1,3), of "concat (map entry_line xs)" buf] Cons.prems(2)
      entry_line_text [of x] by auto
  have nth: "(entry_text x @ [newline, NUL]) ! length (entry_text x) = newline" by (simp add: nth_append)
  have "init_fileset_loop rp buf nr fs = init_fileset_loop rp' (Some (entry_text x @ [newline, NUL])) nr (fs @ [entry_info x])"
    using r(1) nth c_text_of_line [OF p(2)] scan_entry_text [OF x(1)] Cons.prems(3,4) p(5)
    by (subst init_fileset_loop.simps) (simp add: Let_def entry_info_def)
  also have "\<dots> = Some (Inr ((fs @ [entry_info x]) @ map entry_info xs))"
    by (rule Cons.IH [OF r(2,3)]) (use Cons.prems(3-5) in auto)
  finally show ?case by simp
qed

lemma init_fileset_index:
  assumes fd: "readable fd" "arriving fd = show_nat (length xs) @ newline # concat (map entry_line xs)"
    and n: "0 < length xs" "length xs < 2147483648"
    and xs: "\<forall>x\<in>set xs. index_name (fst x) \<and> 0 \<le> snd (snd x) \<and> snd (snd x) < 2147483648"
  shows "init_fileset fd stale_buf = Inr (map entry_info xs)"
proof -
  let ?l = "show_nat (length xs)" and ?rp = "rio_init fd stale_buf"
  have rp: "rio_ok ?rp" "unread ?rp = ?l @ newline # concat (map entry_line xs)"
    using rio_init_ok [OF fd(1)] fd(2) by simp_all
  have l: "newline \<notin> set ?l" "NUL \<notin> set ?l" using no_space_in_nat space_facts(2) by blast+
  have len: "length ?l + 1 < MAXLINE" using show_nat_length [of "length xs" 10] n(2) by (simp add: MAXLINE_def)
  obtain rp' where r: "Rio_readlineb ?rp None MAXLINE = Inr (int (length ?l + 1), Some (?l @ [newline, NUL]), rp')"
    "rio_ok rp'" "unread rp' = concat (map entry_line xs)" using read_line [OF rp l(1) len] by blast
  have a: "atoi (?l @ [newline]) = int (length xs)"
    using scan_int_show_nat [of "[newline]" "length xs"] by (simp add: atoi_def not_digits)
  have "init_fileset_loop ?rp None 0 [] = init_fileset_loop rp' (Some (?l @ [newline, NUL])) (int (length xs)) []"
    using r(1) c_text_of_line [OF l(2)] a n(1) by (subst init_fileset_loop.simps) (simp add: Let_def)
  also have "\<dots> = Some (Inr ([] @ map entry_info xs))"
    by (rule init_fileset_entries [OF r(2,3)]) (use n xs in auto)
  finally show ?thesis by (simp add: init_fileset_def)
qed

text \<open>The names of the generated files.\<close>

lemma set_file_name_ok:
  assumes "\<forall>c\<in>set dir. \<not> is_space c" and "NUL \<notin> set dir" and "length dir \<le> 1000" and "i < 10 ^ 9"
  shows "index_name (set_file_name dir i)"
proof -
  have "length (show_nat i) \<le> 9" using show_nat_length [of i 9] assms(4) by simp
  moreover have "\<not> is_space c \<and> c \<noteq> NUL" if "c \<in> set (set_file_name dir i)" for c
  proof -
    have "c \<in> set dir \<or> c = CHR 0x2F \<or> c = CHR 0x30 \<or> c \<in> set (show_nat i)"
      using that by (auto simp: set_file_name_def pad5_def split: if_splits)
    then show ?thesis using assms(1,2) no_space_in_nat [of c i] by (auto simp: is_space_def NUL_def)
  qed
  then have "\<forall>c\<in>set (set_file_name dir i). \<not> is_space c" "NUL \<notin> set (set_file_name dir i)" by blast+
  moreover have "set_file_name dir i \<noteq> []" by (simp add: set_file_name_def)
  moreover have "length (set_file_name dir i) = length dir + 1 + (5 - length (show_nat i)) + length (show_nat i)"
    by (simp add: set_file_name_def pad5_def)
  ultimately show ?thesis using assms(3) unfolding index_name_def by linarith
qed

lemma entries_long: "length xs \<le> length (concat (map entry_line xs))"
  by (induction xs) (auto simp: entry_line_text)

text \<open>The names of a set of files, and the index as the client reads it.\<close>

lemma generated_few: "fileset_ok dir st \<Longrightarrow> length (disk st) < 4096 * 256"
proof -
  assume ok: "fileset_ok dir st"
  then have "length (disk st) \<le> length (idx_buffer st)"
    using entries_long [of "map entry_of (disk st)"] by (simp add: fileset_ok_def)
  moreover have "length (idx_buffer st) < 4096 * 256 - 1" using ok unfolding fileset_ok_def by blast
  ultimately show ?thesis by linarith
qed

lemma generated_name:
  assumes ok: "fileset_ok dir st" and f: "f \<in> set (disk st)"
  obtains i where "i < 4096 * 256" and "fst f = set_file_name dir i"
proof -
  have "map fst (disk st) = map (set_file_name dir) [0..<length (disk st)]" using ok unfolding fileset_ok_def by blast
  moreover have "fst f \<in> set (map fst (disk st))" using f by simp
  ultimately have "fst f \<in> set (map (set_file_name dir) [0..<length (disk st)])" by (simp only:)
  then obtain i where i: "i < length (disk st)" "fst f = set_file_name dir i" by auto
  moreover have "i < 4096 * 256" using i(1) generated_few [OF ok] by linarith
  ultimately show thesis using that by blast
qed

lemma generated_index_name:
  assumes "fileset_ok dir st" and "\<forall>c\<in>set dir. \<not> is_space c" and "NUL \<notin> set dir" and "length dir \<le> 1000"
    and "f \<in> set (disk st)"
  shows "index_name (fst f)"
proof -
  obtain i where "i < 4096 * 256" "fst f = set_file_name dir i" by (rule generated_name [OF assms(1,5)])
  then show ?thesis using set_file_name_ok [OF assms(2-4), of i] by simp
qed

lemma generated_index:
  assumes ok: "fileset_ok dir st" and dir: "\<forall>c\<in>set dir. \<not> is_space c" "NUL \<notin> set dir" "length dir \<le> 1000"
    and pos: "0 < current_fileset_sz st" and fd: "readable fd" "arriving fd = index_text st"
  shows "init_fileset fd stale_buf = Inr (map (entry_info \<circ> entry_of) (disk st))"
proof -
  let ?xs = "map entry_of (disk st)"
  have ne: "disk st \<noteq> []" using ok pos by (auto simp: fileset_ok_def)
  have "index_name (fst x) \<and> 0 \<le> snd (snd x) \<and> snd (snd x) < 2147483648" if x: "x \<in> set ?xs" for x
  proof -
    obtain f where f: "f \<in> set (disk st)" "x = entry_of f" using x by auto
    then have "length (snd f) < 2147483648" using ok by (simp add: fileset_ok_def)
    then show ?thesis using f generated_index_name [OF ok dir f(1)] by (simp add: entry_of_def)
  qed
  moreover have "arriving fd = show_nat (length ?xs) @ newline # concat (map entry_line ?xs)"
    using fd(2) ok by (simp add: index_text_def show_int_def fileset_ok_def)
  ultimately have "init_fileset fd stale_buf = Inr (map entry_info ?xs)"
    using init_fileset_index [OF fd(1), of ?xs stale_buf] ne generated_few [OF ok] by (simp add: length_greater_0_conv)
  then show ?thesis by simp
qed

text \<open>A whole run of the loop.\<close>

definition no_files :: fileset where
  "no_files = \<lparr>nr_files = 0, current_fileset_sz = 0, idx_buffer = [], disk = []\<rparr>"

lemma generated_set:
  assumes "\<forall>i. sent (open_file i) = []" and "\<forall>i. 0 < size_of i \<and> size_of i < 2147483648" and "0 < target"
    and "fileset_loop dir size_of random open_file target no_files = Some (Inr st)"
  shows "fileset_ok dir st" and "0 < current_fileset_sz st"
proof -
  have "fileset_ok dir no_files" by (simp add: fileset_ok_def no_files_def)
  from fileset_loop_ok [where random = random and target = target, OF assms(1,2) this] show "fileset_ok dir st" "0 < current_fileset_sz st"
    using assms(3,4) by auto
qed

section \<open>A concrete run\<close>

lemma write_blocks_returns: "writable fd \<Longrightarrow> \<exists>r. write_blocks rnd k remaining fd cs = Inr r"
proof (induction rnd k remaining fd cs rule: write_blocks.induct)
  case (1 rnd k remaining fd cs)
  show ?case
  proof (cases "remaining > 0")
    case True
    define sz where "sz = (if remaining < 4096 then remaining else 4096)"
    define buf where "buf = map (\<lambda>j. printable (rnd j)) [k..<k + nat sz]"
    obtain fd1 where w: "Rio_write fd buf = Inr fd1" "writable fd1" using Rio_write_all [OF 1(2)] by blast
    from "1.IH" [OF True sz_def buf_def w] show ?thesis
      using w(1) True by (subst write_blocks.simps) (simp add: Let_def sz_def [symmetric] buf_def [symmetric])
  qed (subst write_blocks.simps, simp)
qed

text \<open>A set of one file.\<close>

definition demo_set :: "nat \<Rightarrow> fileset" where
  "demo_set n = (let t = map printable [0..<n] in
     \<lparr>nr_files = 1, current_fileset_sz = int n, idx_buffer = index_line ''d/00000'' (csum t) (int n), disk = [(''d/00000'', t)]\<rparr>)"

lemma demo_disk: "disk (demo_set n) = [(''d/00000'', map printable [0..<n])]"
  by (simp add: demo_set_def Let_def)

lemma demo_set_made:
  assumes n: "0 < n" "n < 100000"
  shows "fileset_loop ''d'' (\<lambda>_. int n) (\<lambda>i j. j) (\<lambda>_. \<lparr>sent = [], accepts = []\<rparr>) (int n) no_files = Some (Inr (demo_set n))"
proof -
  let ?t = "map printable [0..<n]"
  obtain fd' cs' where w: "write_blocks (\<lambda>j. j) 0 (int n) \<lparr>sent = [], accepts = []\<rparr> 0 = Inr (fd', cs')"
    using write_blocks_returns [of "\<lparr>sent = [], accepts = []\<rparr>" "\<lambda>j. j" 0 "int n" 0] by (auto simp: writable_def)
  then have t: "sent fd' = ?t" "cs' = csum ?t" using write_blocks_all [OF _ w] by simp_all
  have name: "set_file_name ''d'' 0 = ''d/00000''" by code_simp
  have "length (show_nat (unat (csum ?t))) \<le> 10" "length (show_nat n) \<le> 10"
    using show_nat_length [of "unat (csum ?t)" 10] show_nat_length [of n 10] n unsigned_less [of "csum ?t", where 'a = nat] by simp_all
  then have "length (index_line ''d/00000'' (csum ?t) (int n)) < 4096 * 256 - 1" by (simp add: index_line_def show_int_def)
  then show ?thesis using w t name n(1)
    by (subst fileset_loop.simps, subst fileset_loop.simps) (simp add: no_files_def demo_set_def Let_def)
qed

end
