(* ===== verification/Server_Pool.thy ===== *)
theory Server_Pool
  imports Request_Queue Labelled_Runs "HOL-Library.Multiset"
begin

text \<open>
  The worker threads of the server (webserver_5/server_thread.c, webserver/server_thread.c):
  the main thread accepts connections and pushes them on the request queue, the workers take
  them off. \<open>queue_mutex\<close> and the two condition variables are part of the state; a thread
  waits on a condition variable when its program counter says so.

  A step is what a thread does up to its next blocking call or its next read or write of a
  variable that is not protected by the mutex, which is \<open>exiting\<close>. The steps of different
  threads interleave freely, and a thread may leave \<open>pthread_cond_wait\<close> without a
  broadcast, as POSIX allows.
\<close>

datatype worker_pc =
    Loop_head | Locking | Testing | Going_to_wait | Waiting_nonempty
  | Checking | Popping | Handling int | Returned

datatype main_pc =
    Accepting | Main_locking int | Main_testing int | Waiting_nonfull int | Pushing int
  | Exit_requested | Broadcasting | Joining nat | Exited | Aborted failure

datatype thread_name = Main_thread | Worker nat

record pool =
  nr_threads :: nat
  request_queue :: "req_heap \<times> req_queue"
  queue_mutex :: "thread_name option"
  exiting :: bool
  workers :: "nat \<Rightarrow> worker_pc"
  main_thread :: main_pc
  pushed :: "int list"
  popped :: "int list"
  handled :: "int list"

definition set_worker :: "nat \<Rightarrow> worker_pc \<Rightarrow> pool \<Rightarrow> pool" where
  "set_worker i pc s = s\<lparr>workers := (workers s)(i := pc)\<rparr>"

text \<open>\<open>pthread_cond_broadcast\<close>: the waiting threads go for the mutex.\<close>

definition broadcast_nonempty :: "pool \<Rightarrow> pool" where
  "broadcast_nonempty s =
     s\<lparr>workers := (\<lambda>i. if workers s i = Waiting_nonempty then Locking else workers s i)\<rparr>"

definition broadcast_nonfull :: "pool \<Rightarrow> pool" where
  "broadcast_nonfull s =
     s\<lparr>main_thread := (case main_thread s of Waiting_nonfull c \<Rightarrow> Main_locking c | pc \<Rightarrow> pc)\<rparr>"

text \<open>
  \<open>helper_thread_do_server_request\<close>, for the worker \<open>i\<close>; \<open>None\<close> when the worker is blocked
  or has returned. \<open>handled\<close> records the calls of \<open>do_server_request\<close> that were completed.
\<close>

definition helper_thread_do_server_request :: "pool \<Rightarrow> nat \<Rightarrow> pool option" where
  "helper_thread_do_server_request s i = (case workers s i of
      Loop_head \<Rightarrow> Some (set_worker i (if exiting s then Returned else Locking) s)
    | Locking \<Rightarrow> (if queue_mutex s = None
        then Some (set_worker i Testing (s\<lparr>queue_mutex := Some (Worker i)\<rparr>)) else None)
    | Testing \<Rightarrow> Some (set_worker i
        (if curr_size (snd (request_queue s)) = 0 \<and> \<not> exiting s then Going_to_wait else Checking) s)
    | Going_to_wait \<Rightarrow> Some (set_worker i Waiting_nonempty (s\<lparr>queue_mutex := None\<rparr>))
    | Waiting_nonempty \<Rightarrow> None
    | Checking \<Rightarrow> Some (if exiting s then set_worker i Returned (s\<lparr>queue_mutex := None\<rparr>)
        else set_worker i Popping s)
    | Popping \<Rightarrow> Some (case req_pop_pair (request_queue s) of
          Inl e \<Rightarrow> s\<lparr>main_thread := Aborted e\<rparr>
        | Inr (_, None) \<Rightarrow> s\<lparr>main_thread := Aborted Assertion\<rparr>
        | Inr (q, Some connfd) \<Rightarrow>
            let s1 = s\<lparr>request_queue := q, popped := popped s @ [connfd]\<rparr>;
                s2 = (if curr_size (snd q) = max_size (snd q) - 1 then broadcast_nonfull s1 else s1)
            in set_worker i (Handling connfd) (s2\<lparr>queue_mutex := None\<rparr>))
    | Handling connfd \<Rightarrow> Some (set_worker i Loop_head (s\<lparr>handled := handled s @ [connfd]\<rparr>))
    | Returned \<Rightarrow> None)"

text \<open>The main thread in \<open>server_request\<close>, from the branch on \<open>nr_threads\<close> on.\<close>

definition server_request :: "int \<Rightarrow> pool \<Rightarrow> pool" where
  "server_request connfd s =
     (if nr_threads s = 0
      then s\<lparr>pushed := pushed s @ [connfd], popped := popped s @ [connfd], handled := handled s @ [connfd]\<rparr>
      else s\<lparr>main_thread := Main_locking connfd\<rparr>)"

definition server_request_step :: "pool \<Rightarrow> pool option" where
  "server_request_step s = (case main_thread s of
      Main_locking c \<Rightarrow> (if queue_mutex s = None
        then Some (s\<lparr>main_thread := Main_testing c, queue_mutex := Some Main_thread\<rparr>) else None)
    | Main_testing c \<Rightarrow> Some (if curr_size (snd (request_queue s)) = max_size (snd (request_queue s))
        then s\<lparr>main_thread := Waiting_nonfull c, queue_mutex := None\<rparr>
        else s\<lparr>main_thread := Pushing c\<rparr>)
    | Pushing c \<Rightarrow> Some (case req_push_pair (request_queue s) c of
          Inl e \<Rightarrow> s\<lparr>main_thread := Aborted e\<rparr>
        | Inr q \<Rightarrow>
            let s1 = s\<lparr>request_queue := q, pushed := pushed s @ [c]\<rparr>;
                s2 = (if curr_size (snd q) = 1 then broadcast_nonempty s1 else s1)
            in s2\<lparr>main_thread := Accepting, queue_mutex := None\<rparr>)
    | _ \<Rightarrow> None)"

text \<open>The main thread in \<open>server_exit\<close>: the store to \<open>exiting\<close>, the broadcast, the joins.\<close>

definition server_exit_step :: "pool \<Rightarrow> pool option" where
  "server_exit_step s = (case main_thread s of
      Exit_requested \<Rightarrow> Some (s\<lparr>exiting := True, main_thread := Broadcasting\<rparr>)
    | Broadcasting \<Rightarrow> Some (broadcast_nonempty s\<lparr>main_thread := Joining 0\<rparr>)
    | Joining i \<Rightarrow> (if i \<ge> nr_threads s then Some (s\<lparr>main_thread := Exited\<rparr>)
        else if workers s i = Returned then Some (s\<lparr>main_thread := Joining (Suc i)\<rparr>) else None)
    | _ \<Rightarrow> None)"

text \<open>\<open>server_init\<close>, with its request queue and its threads.\<close>

definition server_init :: "req_heap \<Rightarrow> nat \<Rightarrow> int \<Rightarrow> pool" where
  "server_init h n max_requests =
     \<lparr>nr_threads = n, request_queue = (h, create_request_queue max_requests), queue_mutex = None,
      exiting = False, workers = (\<lambda>i. if i < n then Loop_head else Returned),
      main_thread = Accepting, pushed = [], popped = [], handled = []\<rparr>"

text \<open>
  The steps of the process. \<open>Arrive\<close> and \<open>Exit_event\<close> are what the loop of server.c gets from
  \<open>poll\<close>; \<open>Spurious\<close> is a return of \<open>pthread_cond_wait\<close> that nobody asked for. After an abort
  nothing moves.
\<close>

datatype pool_label = Arrive int | Exit_event | Work nat | Request_step | Exit_step | Spurious thread_name

inductive pool_step :: "pool \<Rightarrow> pool_label \<Rightarrow> pool \<Rightarrow> bool" where
  arrive: "main_thread s = Accepting \<Longrightarrow> pool_step s (Arrive c) (server_request c s)"
| exit_event: "main_thread s = Accepting \<Longrightarrow> pool_step s Exit_event (s\<lparr>main_thread := Exit_requested\<rparr>)"
| work: "i < nr_threads s \<Longrightarrow> \<forall>e. main_thread s \<noteq> Aborted e \<Longrightarrow>
    helper_thread_do_server_request s i = Some s' \<Longrightarrow> pool_step s (Work i) s'"
| request_step: "server_request_step s = Some s' \<Longrightarrow> pool_step s Request_step s'"
| exit_step: "server_exit_step s = Some s' \<Longrightarrow> pool_step s Exit_step s'"
| spurious_worker: "i < nr_threads s \<Longrightarrow> workers s i = Waiting_nonempty \<Longrightarrow>
    \<forall>e. main_thread s \<noteq> Aborted e \<Longrightarrow> pool_step s (Spurious (Worker i)) (set_worker i Locking s)"
| spurious_main: "main_thread s = Waiting_nonfull c \<Longrightarrow>
    pool_step s (Spurious Main_thread) (s\<lparr>main_thread := Main_locking c\<rparr>)"

inductive_cases pool_stepE: "pool_step s l s'"

section \<open>The invariant\<close>

definition holds_mutex :: "worker_pc \<Rightarrow> bool" where
  "holds_mutex pc \<longleftrightarrow> pc \<in> {Testing, Going_to_wait, Checking, Popping}"

definition main_holds_mutex :: "main_pc \<Rightarrow> bool" where
  "main_holds_mutex pc \<longleftrightarrow> (case pc of Main_testing c \<Rightarrow> True | Pushing c \<Rightarrow> True | _ \<Rightarrow> False)"

definition running :: "pool \<Rightarrow> bool" where
  "running s \<longleftrightarrow> (\<forall>e. main_thread s \<noteq> Aborted e)"

definition mutex_ok :: "pool \<Rightarrow> bool" where
  "mutex_ok s \<longleftrightarrow>
     (\<forall>i. (queue_mutex s = Some (Worker i)) = holds_mutex (workers s i)) \<and>
     (running s \<longrightarrow> (queue_mutex s = Some Main_thread) = main_holds_mutex (main_thread s)) \<and>
     (\<forall>i\<ge>nr_threads s. workers s i = Returned)"

text \<open>What each program counter knows of the list of waiting requests.\<close>

definition worker_ok :: "pool \<Rightarrow> int list \<Rightarrow> worker_pc \<Rightarrow> bool" where
  "worker_ok s xs pc = (case pc of
      Going_to_wait \<Rightarrow> xs = []
    | Waiting_nonempty \<Rightarrow> xs = []
    | Checking \<Rightarrow> exiting s \<or> xs \<noteq> []
    | Popping \<Rightarrow> xs \<noteq> []
    | _ \<Rightarrow> True)"

definition main_ok :: "pool \<Rightarrow> int list \<Rightarrow> bool" where
  "main_ok s xs = (case main_thread s of
      Waiting_nonfull c \<Rightarrow> \<not> exiting s \<and> int (length xs) = max_size (snd (request_queue s))
    | Pushing c \<Rightarrow> \<not> exiting s \<and> int (length xs) < max_size (snd (request_queue s))
    | Exit_requested \<Rightarrow> \<not> exiting s
    | Broadcasting \<Rightarrow> exiting s
    | Joining i \<Rightarrow> exiting s \<and> (\<forall>j<i. workers s j = Returned)
    | Exited \<Rightarrow> exiting s \<and> (\<forall>j<nr_threads s. workers s j = Returned)
    | Aborted e \<Rightarrow> e = Exit_with 1
    | _ \<Rightarrow> \<not> exiting s)"

definition serial_ok :: "pool \<Rightarrow> int list \<Rightarrow> bool" where
  "serial_ok s xs \<longleftrightarrow> (nr_threads s = 0 \<longrightarrow> xs = [] \<and>
     (\<forall>c. main_thread s \<notin> {Main_locking c, Main_testing c, Waiting_nonfull c, Pushing c}))"

text \<open>The connections that workers are handling.\<close>

definition hand :: "worker_pc \<Rightarrow> int multiset" where
  "hand pc = (case pc of Handling c \<Rightarrow> {#c#} | _ \<Rightarrow> {#})"

definition in_hand :: "pool \<Rightarrow> int multiset" where
  "in_hand s = (\<Sum>i<nr_threads s. hand (workers s i))"

definition queue_inv :: "pool \<Rightarrow> int list \<Rightarrow> bool" where
  "queue_inv s xs \<longleftrightarrow> req_rep (request_queue s) xs \<and>
     int (length xs) \<le> max_size (snd (request_queue s)) \<and>
     pushed s = popped s @ xs \<and> mset (popped s) = mset (handled s) + in_hand s"

definition pool_inv :: "pool \<Rightarrow> bool" where
  "pool_inv s \<longleftrightarrow> mutex_ok s \<and>
     (\<exists>xs. queue_inv s xs \<and> (\<forall>i. worker_ok s xs (workers s i)) \<and> main_ok s xs \<and> serial_ok s xs)"

lemma pool_invI:
  "mutex_ok s \<Longrightarrow> queue_inv s xs \<Longrightarrow> (\<And>i. worker_ok s xs (workers s i)) \<Longrightarrow> main_ok s xs \<Longrightarrow>
   serial_ok s xs \<Longrightarrow> pool_inv s"
  by (auto simp: pool_inv_def)

lemma server_init_inv:
  assumes "fresh_policy (policy h)" and "0 \<le> m"
  shows "pool_inv (server_init h n m)"
proof (rule pool_invI [where xs = "[]"])
  show "queue_inv (server_init h n m) []"
    using req_rep_create [OF assms(1), of m] assms(2)
    by (auto simp: queue_inv_def server_init_def in_hand_def hand_def create_request_queue_def)
qed (auto simp: server_init_def mutex_ok_def running_def holds_mutex_def main_holds_mutex_def worker_ok_def
  main_ok_def serial_ok_def)

lemma in_hand_set_worker:
  assumes "i < nr_threads s"
  shows "in_hand (set_worker i pc s) + hand (workers s i) = in_hand s + hand pc"
proof -
  have "(\<Sum>j<nr_threads s. hand (f j)) = hand (f i) + (\<Sum>j\<in>{..<nr_threads s} - {i}. hand (f j))" for f
    using assms by (simp add: sum.remove [of "{..<nr_threads s}" i])
  from this [of "workers s"] this [of "(workers s)(i := pc)"] show ?thesis
    by (simp add: in_hand_def set_worker_def)
qed

lemma in_hand_move:
  "i < nr_threads s \<Longrightarrow> hand (workers s i) = {#} \<Longrightarrow> hand pc = {#} \<Longrightarrow> in_hand (set_worker i pc s) = in_hand s"
  using in_hand_set_worker [of i s pc] by simp

lemma in_hand_updates [simp]:
  "in_hand (s\<lparr>queue_mutex := m\<rparr>) = in_hand s" "in_hand (s\<lparr>exiting := b\<rparr>) = in_hand s"
  "in_hand (s\<lparr>main_thread := pc\<rparr>) = in_hand s" "in_hand (s\<lparr>request_queue := q\<rparr>) = in_hand s"
  "in_hand (s\<lparr>pushed := p\<rparr>) = in_hand s" "in_hand (s\<lparr>popped := p\<rparr>) = in_hand s"
  "in_hand (s\<lparr>handled := p\<rparr>) = in_hand s" "in_hand (broadcast_nonfull s) = in_hand s"
  by (simp_all add: in_hand_def broadcast_nonfull_def)

lemma in_hand_broadcast [simp]: "in_hand (broadcast_nonempty s) = in_hand s"
  by (auto simp: in_hand_def broadcast_nonempty_def hand_def intro!: sum.cong split: worker_pc.splits)

lemmas pool_simps = set_worker_def broadcast_nonempty_def broadcast_nonfull_def running_def
  holds_mutex_def main_holds_mutex_def

section \<open>The steps keep it\<close>

text \<open>A step of a worker that touches only its program counter and the mutex.\<close>

lemma worker_moves:
  assumes inv: "pool_inv s" and i: "i < nr_threads s"
    and h: "hand (workers s i) = {#}" "hand pc = {#}"
    and w: "\<And>xs. req_rep (request_queue s) xs \<Longrightarrow> worker_ok s xs (workers s i) \<Longrightarrow> worker_ok s xs pc"
    and joined: "workers s i = Returned \<longrightarrow> pc = Returned"
    and m: "mutex_ok (set_worker i pc (s\<lparr>queue_mutex := m\<rparr>))"
  shows "pool_inv (set_worker i pc (s\<lparr>queue_mutex := m\<rparr>))"
proof -
  obtain xs where x: "queue_inv s xs" "\<forall>j. worker_ok s xs (workers s j)" "main_ok s xs" "serial_ok s xs"
    using inv by (auto simp: pool_inv_def)
  show ?thesis
  proof (rule pool_invI [OF m, where xs = xs])
    have "in_hand (set_worker i pc (s\<lparr>queue_mutex := m\<rparr>)) = in_hand s"
      using in_hand_move [of i "s\<lparr>queue_mutex := m\<rparr>" pc] i h by simp
    then show "queue_inv (set_worker i pc (s\<lparr>queue_mutex := m\<rparr>)) xs"
      using x(1) by (simp add: queue_inv_def set_worker_def)
    have "worker_ok s xs pc" using w x(1,2) by (simp add: queue_inv_def)
    then show "worker_ok (set_worker i pc (s\<lparr>queue_mutex := m\<rparr>)) xs (workers (set_worker i pc (s\<lparr>queue_mutex := m\<rparr>)) j)" for j
      using x(2) by (auto simp: worker_ok_def set_worker_def split: worker_pc.splits)
    show "main_ok (set_worker i pc (s\<lparr>queue_mutex := m\<rparr>)) xs"
      using x(3) joined by (auto simp: main_ok_def set_worker_def split: main_pc.splits)
    show "serial_ok (set_worker i pc (s\<lparr>queue_mutex := m\<rparr>)) xs"
      using x(4) by (simp add: serial_ok_def set_worker_def)
  qed
qed

lemma mutex_okD:
  assumes "mutex_ok s"
  shows "holds_mutex (workers s i) \<Longrightarrow> queue_mutex s = Some (Worker i)"
    and "holds_mutex (workers s i) \<Longrightarrow> holds_mutex (workers s j) \<Longrightarrow> j = i"
    and "running s \<Longrightarrow> main_holds_mutex (main_thread s) \<Longrightarrow> \<not> holds_mutex (workers s j)"
    and "queue_mutex s = None \<Longrightarrow> \<not> holds_mutex (workers s j)"
  using assms unfolding mutex_ok_def by (metis option.inject thread_name.inject thread_name.distinct(1) option.distinct(1))+

text \<open>Popping: nobody else looks at the queue, and a waiting main thread is woken.\<close>

lemma worker_pops:
  assumes inv: "pool_inv s" and i: "i < nr_threads s" and pc: "workers s i = Popping" and run: "running s"
    and r: "helper_thread_do_server_request s i = Some s'"
  shows "pool_inv s'"
proof -
  obtain xs where m: "mutex_ok s" and x: "queue_inv s xs" "\<forall>j. worker_ok s xs (workers s j)" "main_ok s xs" "serial_ok s xs"
    using inv by (auto simp: pool_inv_def)
  have "xs \<noteq> []" using x(2) pc by (auto simp: worker_ok_def dest: spec [of _ i])
  then obtain c ys where xs: "xs = c # ys" by (cases xs) auto
  obtain q where q: "req_pop_pair (request_queue s) = Inr (q, Some c)" "req_rep q ys"
    using req.pop_front_some x(1) xs unfolding queue_inv_def by blast
  obtain hp rq where hq: "request_queue s = (hp, rq)" by (cases "request_queue s")
  then have mx: "max_size (snd q) = max_size (snd (request_queue s))"
    using req_pop_front_some [of hp rq c ys] x(1) xs q(1)
    by (auto simp: queue_inv_def req_pop_pair_def)
  define s1 where "s1 = s\<lparr>request_queue := q, popped := popped s @ [c]\<rparr>"
  define s2 where "s2 = (if curr_size (snd q) = max_size (snd q) - 1 then broadcast_nonfull s1 else s1)"
  have s': "s' = set_worker i (Handling c) (s2\<lparr>queue_mutex := None\<rparr>)"
    using r pc q by (simp add: helper_thread_do_server_request_def Let_def s1_def s2_def split: if_splits)
  have w2: "workers s2 = workers s" "nr_threads s2 = nr_threads s" "popped s2 = popped s @ [c]" "pushed s2 = pushed s"
    "handled s2 = handled s" "exiting s2 = exiting s" "request_queue s2 = q"
    by (simp_all add: s2_def s1_def broadcast_nonfull_def)
  have h2: "in_hand s2 = in_hand s" by (simp add: s2_def s1_def)
  have holder: "queue_mutex s = Some (Worker i)" using mutex_okD(1) [OF m, of i] pc by (simp add: holds_mutex_def)
  have others: "\<not> holds_mutex (workers s j)" if "j \<noteq> i" for j
    using mutex_okD(2) [OF m, of i j] pc that by (auto simp: holds_mutex_def)
  have main: "\<not> main_holds_mutex (main_thread s)"
    using m run holder by (auto simp: mutex_ok_def)
  have curr: "curr_size (snd q) = int (length ys)" using q(2) by (cases q) (simp add: req_rep_def)
  have main2: "main_thread s2 = (case main_thread s of Waiting_nonfull c \<Rightarrow> Main_locking c | pc \<Rightarrow> pc)"
    using x(3) xs curr mx by (auto simp: s2_def s1_def main_ok_def broadcast_nonfull_def split: main_pc.splits)
  show ?thesis
  proof (rule pool_invI [where xs = ys])
    show "mutex_ok s'"
      using m others main main2 i pc holder run
      by (auto simp: mutex_ok_def s' w2 pool_simps split: main_pc.splits if_splits)
    have "in_hand s' = add_mset c (in_hand s)"
      using in_hand_set_worker [of i "s2\<lparr>queue_mutex := None\<rparr>" "Handling c"] i pc
      by (simp add: s' w2 h2 hand_def)
    then show "queue_inv s' ys"
      using x(1) q(2) xs mx by (simp add: queue_inv_def s' w2 set_worker_def)
    show "worker_ok s' ys (workers s' j)" for j
      using x(2) others [of j] xs
      by (auto simp: worker_ok_def s' w2 pool_simps split: worker_pc.splits dest: spec [of _ j])
    show "main_ok s' ys"
      using x(3) main2 main pc by (auto simp: main_ok_def s' w2 pool_simps split: main_pc.splits)
    show "serial_ok s' ys" using i by (simp add: serial_ok_def s' w2 set_worker_def)
  qed
qed

lemma set_same_mutex: "set_worker i pc s = set_worker i pc (s\<lparr>queue_mutex := queue_mutex s\<rparr>)"
  by simp

lemma mutex_ok_move:
  assumes "mutex_ok s" and "i < nr_threads s" and "holds_mutex pc \<longleftrightarrow> holds_mutex (workers s i)"
  shows "mutex_ok (set_worker i pc (s\<lparr>queue_mutex := queue_mutex s\<rparr>))"
  using assms by (auto simp: mutex_ok_def set_worker_def running_def)

lemma mutex_ok_acquire:
  assumes "mutex_ok s" and "i < nr_threads s" and "queue_mutex s = None" and "holds_mutex pc"
  shows "mutex_ok (set_worker i pc (s\<lparr>queue_mutex := Some (Worker i)\<rparr>))"
  using assms mutex_okD(4) [OF assms(1,3)] by (auto simp: mutex_ok_def set_worker_def running_def)

lemma mutex_ok_release:
  assumes "mutex_ok s" and "i < nr_threads s" and "holds_mutex (workers s i)" and "\<not> holds_mutex pc"
  shows "mutex_ok (set_worker i pc (s\<lparr>queue_mutex := None\<rparr>))"
proof -
  have "\<not> holds_mutex (((workers s)(i := pc)) j)" for j
    using mutex_okD(2) [OF assms(1,3), of j] assms(4) by (cases "j = i") auto
  moreover have "queue_mutex s = Some (Worker i)" using mutex_okD(1) [OF assms(1,3)] .
  then have "running s \<longrightarrow> \<not> main_holds_mutex (main_thread s)" using assms(1) by (simp add: mutex_ok_def)
  moreover have "\<forall>j\<ge>nr_threads s. ((workers s)(i := pc)) j = Returned"
    using assms(1,2) by (simp add: mutex_ok_def)
  ultimately show ?thesis by (simp add: mutex_ok_def set_worker_def running_def)
qed

lemma worker_step_inv:
  assumes inv: "pool_inv s" and i: "i < nr_threads s" and run: "running s"
    and r: "helper_thread_do_server_request s i = Some s'"
  shows "pool_inv s'"
proof -
  have m: "mutex_ok s" using inv by (simp add: pool_inv_def)
  have n: "curr_size (snd (request_queue s)) = 0 \<longleftrightarrow> xs = []" if "req_rep (request_queue s) xs" for xs
    using that by (simp add: req_rep_def)
  note move = worker_moves [OF inv i]
  show ?thesis
  proof (cases "workers s i")
    case Loop_head
    then have s': "s' = set_worker i (if exiting s then Returned else Locking) s"
      using r by (simp add: helper_thread_do_server_request_def)
    show ?thesis unfolding s' using Loop_head
      by (subst set_same_mutex, intro move mutex_ok_move m i) (auto simp: hand_def worker_ok_def holds_mutex_def)
  next
    case Locking
    then have s': "s' = set_worker i Testing (s\<lparr>queue_mutex := Some (Worker i)\<rparr>)" "queue_mutex s = None"
      using r by (simp_all add: helper_thread_do_server_request_def split: if_splits)
    show ?thesis unfolding s'(1) using Locking s'(2)
      by (intro move mutex_ok_acquire m i) (auto simp: hand_def worker_ok_def holds_mutex_def)
  next
    case Testing
    then have s': "s' = set_worker i
        (if curr_size (snd (request_queue s)) = 0 \<and> \<not> exiting s then Going_to_wait else Checking) s"
      using r by (simp add: helper_thread_do_server_request_def)
    show ?thesis unfolding s' using Testing n
      by (subst set_same_mutex, intro move mutex_ok_move m i) (auto simp: hand_def worker_ok_def holds_mutex_def)
  next
    case Going_to_wait
    then have s': "s' = set_worker i Waiting_nonempty (s\<lparr>queue_mutex := None\<rparr>)"
      using r by (simp add: helper_thread_do_server_request_def)
    show ?thesis unfolding s' using Going_to_wait
      by (intro move mutex_ok_release m i) (auto simp: hand_def worker_ok_def holds_mutex_def)
  next
    case Checking
    show ?thesis
    proof (cases "exiting s")
      case True
      then have s': "s' = set_worker i Returned (s\<lparr>queue_mutex := None\<rparr>)"
        using r Checking by (simp add: helper_thread_do_server_request_def)
      show ?thesis unfolding s' using Checking
        by (intro move mutex_ok_release m i) (auto simp: hand_def worker_ok_def holds_mutex_def)
    next
      case False
      then have s': "s' = set_worker i Popping s"
        using r Checking by (simp add: helper_thread_do_server_request_def)
      show ?thesis unfolding s' using Checking False
        by (subst set_same_mutex, intro move mutex_ok_move m i) (auto simp: hand_def worker_ok_def holds_mutex_def)
    qed
  next
    case Popping
    then show ?thesis using worker_pops [OF inv i _ run r] by blast
  next
    case (Handling c)
    obtain xs where x: "queue_inv s xs" "\<forall>j. worker_ok s xs (workers s j)" "main_ok s xs" "serial_ok s xs"
      using inv by (auto simp: pool_inv_def)
    have s': "s' = set_worker i Loop_head (s\<lparr>handled := handled s @ [c]\<rparr>)"
      using r Handling by (simp add: helper_thread_do_server_request_def)
    have "add_mset c (in_hand s') = in_hand s"
      using in_hand_set_worker [of i "s\<lparr>handled := handled s @ [c]\<rparr>" Loop_head] i Handling
      by (simp add: s' hand_def)
    then have q: "queue_inv s' xs" using x(1) by (auto simp: queue_inv_def s' set_worker_def)
    have "mutex_ok s'" using m i Handling by (auto simp: mutex_ok_def s' pool_simps)
    then show ?thesis
    proof (rule pool_invI [OF _ q])
      show "worker_ok s' xs (workers s' j)" for j
        using x(2) by (auto simp: worker_ok_def s' set_worker_def split: worker_pc.splits)
      show "main_ok s' xs"
        using x(3) Handling by (auto simp: main_ok_def s' set_worker_def split: main_pc.splits)
      show "serial_ok s' xs" using x(4) by (simp add: serial_ok_def s' set_worker_def)
    qed
  qed (use r in \<open>auto simp: helper_thread_do_server_request_def\<close>)
qed

text \<open>The main thread.\<close>

lemma main_moves:
  assumes m: "mutex_ok s" and q: "queue_inv s xs" and w: "\<forall>j. worker_ok s xs (workers s j)"
    and s': "s' = s\<lparr>main_thread := pc, queue_mutex := mx\<rparr>"
    and m': "mutex_ok s'" and ok: "main_ok s' xs" and ser: "serial_ok s' xs"
  shows "pool_inv s'"
proof (rule pool_invI [OF m' _ _ ok ser])
  show "queue_inv s' xs" using q by (simp add: s' queue_inv_def in_hand_def)
  show "worker_ok s' xs (workers s' j)" for j
    using w by (auto simp: s' worker_ok_def split: worker_pc.splits)
qed

lemma main_pushes:
  assumes inv: "pool_inv s" and pc: "main_thread s = Pushing c" and r: "server_request_step s = Some s'"
  shows "pool_inv s'"
proof -
  obtain xs where m: "mutex_ok s" and x: "queue_inv s xs" "\<forall>j. worker_ok s xs (workers s j)" "main_ok s xs" "serial_ok s xs"
    using inv by (auto simp: pool_inv_def)
  have room: "int (length xs) < max_size (snd (request_queue s))" "\<not> exiting s"
    using x(3) pc by (simp_all add: main_ok_def)
  have nobody: "\<not> holds_mutex (workers s j)" for j
    using mutex_okD(3) [OF m] pc by (simp add: running_def main_holds_mutex_def)
  obtain hp rq where hq: "request_queue s = (hp, rq)" by (cases "request_queue s")
  have rep: "req_rep (hp, rq) xs" using x(1) hq by (simp add: queue_inv_def)
  have room': "int (length xs) < max_size rq" using room hq by simp
  show ?thesis
  proof (cases rule: req_push_back_cases [OF rep room', of c])
    case 1
    then have s': "s' = s\<lparr>main_thread := Aborted (Exit_with 1)\<rparr>"
      using r pc hq by (simp add: server_request_step_def req_push_pair_def)
    show ?thesis
    proof (rule pool_invI [where xs = xs])
      show "mutex_ok s'" using m by (auto simp: mutex_ok_def s' running_def)
      show "queue_inv s' xs" using x(1) by (simp add: queue_inv_def s')
      show "worker_ok s' xs (workers s' j)" for j
        using x(2) by (auto simp: worker_ok_def s' split: worker_pc.splits)
      show "main_ok s' xs" by (simp add: main_ok_def s')
      show "serial_ok s' xs" using x(4) pc by (simp add: serial_ok_def s')
    qed
  next
    case (2 h' q')
    define s1 where "s1 = s\<lparr>request_queue := (h', q'), pushed := pushed s @ [c]\<rparr>"
    define s2 where "s2 = (if curr_size q' = 1 then broadcast_nonempty s1 else s1)"
    have s': "s' = s2\<lparr>main_thread := Accepting, queue_mutex := None\<rparr>"
      using r pc hq 2 by (simp add: server_request_step_def req_push_pair_def Let_def s1_def s2_def split: if_splits)
    have w2: "nr_threads s2 = nr_threads s" "popped s2 = popped s" "pushed s2 = pushed s @ [c]"
      "handled s2 = handled s" "exiting s2 = exiting s" "request_queue s2 = (h', q')"
      by (simp_all add: s2_def s1_def broadcast_nonempty_def)
    have h2: "in_hand s2 = in_hand s" by (simp add: s2_def s1_def)
    have curr: "curr_size q' = 1 \<longleftrightarrow> xs = []" using 2(2) by (simp add: req_rep_def)
    have awake: "workers s2 j = (if workers s j = Waiting_nonempty then Locking else workers s j)" for j
      using curr x(2) by (auto simp: s2_def s1_def broadcast_nonempty_def worker_ok_def dest: spec [of _ j])
    show ?thesis
    proof (rule pool_invI [where xs = "xs @ [c]"])
      show "mutex_ok s'"
        using m nobody by (auto simp: mutex_ok_def s' w2 awake pool_simps)
      show "queue_inv s' (xs @ [c])"
        using x(1) 2 room' by (simp add: queue_inv_def s' w2 h2)
      show "worker_ok s' (xs @ [c]) (workers s' j)" for j
        using nobody [of j] by (auto simp: worker_ok_def s' awake holds_mutex_def split: worker_pc.splits)
      show "main_ok s' (xs @ [c])" using room(2) by (simp add: main_ok_def s' w2)
      show "serial_ok s' (xs @ [c])" using x(4) pc by (simp add: serial_ok_def s' w2)
    qed
  qed
qed

lemma request_step_inv:
  assumes inv: "pool_inv s" and r: "server_request_step s = Some s'"
  shows "pool_inv s'"
proof -
  obtain xs where m: "mutex_ok s" and x: "queue_inv s xs" "\<forall>j. worker_ok s xs (workers s j)" "main_ok s xs" "serial_ok s xs"
    using inv by (auto simp: pool_inv_def)
  have curr: "curr_size (snd (request_queue s)) = int (length xs)" "int (length xs) \<le> max_size (snd (request_queue s))"
    using x(1) by (simp_all add: queue_inv_def req_rep_def)
  note move = main_moves [OF m x(1,2)]
  show ?thesis
  proof (cases "main_thread s")
    case (Main_locking c)
    then have free: "queue_mutex s = None"
      and s': "s' = s\<lparr>main_thread := Main_testing c, queue_mutex := Some Main_thread\<rparr>"
      using r by (simp_all add: server_request_step_def split: if_splits)
    show ?thesis
      by (rule move [OF s'])
        (use m x(3,4) Main_locking mutex_okD(4) [OF m free] in
          \<open>auto simp: s' mutex_ok_def main_holds_mutex_def main_ok_def serial_ok_def\<close>)
  next
    case (Main_testing c)
    have nobody: "\<not> holds_mutex (workers s j)" for j
      using mutex_okD(3) [OF m] Main_testing by (simp add: running_def main_holds_mutex_def)
    show ?thesis
    proof (cases "curr_size (snd (request_queue s)) = max_size (snd (request_queue s))")
      case True
      then have s': "s' = s\<lparr>main_thread := Waiting_nonfull c, queue_mutex := None\<rparr>"
        using r Main_testing by (simp add: server_request_step_def)
      show ?thesis
        by (rule move [OF s']) (use m x(3,4) Main_testing nobody True curr in
          \<open>auto simp: s' mutex_ok_def main_holds_mutex_def main_ok_def serial_ok_def\<close>)
    next
      case False
      then have "s' = s\<lparr>main_thread := Pushing c\<rparr>"
        using r Main_testing by (simp add: server_request_step_def)
      also have "\<dots> = s\<lparr>main_thread := Pushing c, queue_mutex := queue_mutex s\<rparr>" by simp
      finally have s': "s' = s\<lparr>main_thread := Pushing c, queue_mutex := queue_mutex s\<rparr>" .
      show ?thesis
        by (rule move [OF s']) (use m x(3,4) Main_testing nobody False curr in
          \<open>auto simp: s' mutex_ok_def main_holds_mutex_def main_ok_def serial_ok_def running_def\<close>)
    qed
  next
    case (Pushing c)
    then show ?thesis using main_pushes [OF inv _ r] by blast
  qed (use r in \<open>auto simp: server_request_step_def\<close>)
qed

lemma exit_step_inv:
  assumes inv: "pool_inv s" and r: "server_exit_step s = Some s'"
  shows "pool_inv s'"
proof -
  obtain xs where m: "mutex_ok s" and x: "queue_inv s xs" "\<forall>j. worker_ok s xs (workers s j)" "main_ok s xs" "serial_ok s xs"
    using inv by (auto simp: pool_inv_def)
  have pc: "main_thread s \<in> {Exit_requested, Broadcasting} \<union> range Joining"
    using r by (auto simp: server_exit_step_def split: main_pc.splits)
  have w: "workers s' = workers s \<or> workers s' = workers (broadcast_nonempty s)"
    and eq: "request_queue s' = request_queue s" "nr_threads s' = nr_threads s" "pushed s' = pushed s"
      "popped s' = popped s" "handled s' = handled s" "queue_mutex s' = queue_mutex s" "in_hand s' = in_hand s"
      "exiting s \<longrightarrow> exiting s'"
    using r pc by (auto simp: server_exit_step_def broadcast_nonempty_def split: if_splits
        simp del: in_hand_broadcast simp: in_hand_broadcast [unfolded broadcast_nonempty_def])
  have wj: "holds_mutex (workers s' j) = holds_mutex (workers s j)"
      "(workers s' j = Returned) = (workers s j = Returned)" for j
    using w by (cases "workers s j"; auto simp: broadcast_nonempty_def holds_mutex_def)+
  have nm: "running s" "\<not> main_holds_mutex (main_thread s)" using pc by (auto simp: running_def main_holds_mutex_def)
  show ?thesis
  proof (rule pool_invI [where xs = xs])
    have "running s'" "\<not> main_holds_mutex (main_thread s')"
      using r pc by (auto simp: server_exit_step_def running_def main_holds_mutex_def broadcast_nonempty_def
          split: if_splits)
    then show "mutex_ok s'" using m nm by (simp add: mutex_ok_def eq wj)
    show "queue_inv s' xs" using x(1) by (simp add: queue_inv_def eq)
    show "worker_ok s' xs (workers s' j)" for j
    proof -
      have "worker_ok s xs (workers s j)" using x(2) by blast
      then show ?thesis using w eq(8)
        by (auto simp: worker_ok_def broadcast_nonempty_def split: worker_pc.splits)
    qed
    show "main_ok s' xs"
      using x(3) r pc by (auto simp: main_ok_def server_exit_step_def broadcast_nonempty_def less_Suc_eq split: if_splits)
    show "serial_ok s' xs"
      using x(4) r pc by (auto simp: serial_ok_def server_exit_step_def broadcast_nonempty_def split: if_splits)
  qed
qed

lemma arrive_inv:
  assumes inv: "pool_inv s" and pc: "main_thread s = Accepting"
  shows "pool_inv (server_request c s)"
proof -
  obtain xs where m: "mutex_ok s" and x: "queue_inv s xs" "\<forall>j. worker_ok s xs (workers s j)" "main_ok s xs" "serial_ok s xs"
    using inv by (auto simp: pool_inv_def)
  show ?thesis
  proof (rule pool_invI [where xs = xs])
    show "mutex_ok (server_request c s)"
      using m pc by (auto simp: mutex_ok_def server_request_def running_def main_holds_mutex_def)
    show "queue_inv (server_request c s) xs"
      using x(1,4) by (auto simp: queue_inv_def server_request_def serial_ok_def)
    show "worker_ok (server_request c s) xs (workers (server_request c s) j)" for j
      using x(2) by (auto simp: worker_ok_def server_request_def split: worker_pc.splits)
    show "main_ok (server_request c s) xs" using x(3) pc by (auto simp: main_ok_def server_request_def)
    show "serial_ok (server_request c s) xs" using x(4) pc by (auto simp: serial_ok_def server_request_def)
  qed
qed

lemma pool_step_inv:
  assumes "pool_inv s" and "pool_step s l s'"
  shows "pool_inv s'"
  using assms(2)
proof cases
  case (arrive c)
  then show ?thesis using arrive_inv [OF assms(1)] by simp
next
  case exit_event
  obtain xs where m: "mutex_ok s" and x: "queue_inv s xs" "\<forall>j. worker_ok s xs (workers s j)" "main_ok s xs" "serial_ok s xs"
    using assms(1) by (auto simp: pool_inv_def)
  have s': "s' = s\<lparr>main_thread := Exit_requested, queue_mutex := queue_mutex s\<rparr>"
    using exit_event by (cases s) simp
  show ?thesis
    by (rule main_moves [OF m x(1,2) s'])
      (use m x(3,4) exit_event(3) in \<open>auto simp: s' mutex_ok_def running_def main_holds_mutex_def main_ok_def serial_ok_def\<close>)
next
  case (work i)
  then show ?thesis using worker_step_inv [OF assms(1)] by (auto simp: running_def)
next
  case request_step
  then show ?thesis using request_step_inv [OF assms(1)] by blast
next
  case exit_step
  then show ?thesis using exit_step_inv [OF assms(1)] by blast
next
  case (spurious_worker i)
  have m: "mutex_ok s" using assms(1) by (simp add: pool_inv_def)
  show ?thesis unfolding spurious_worker(2) using spurious_worker(3,4)
    by (subst set_same_mutex, intro worker_moves assms(1) mutex_ok_move m)
      (auto simp: hand_def worker_ok_def holds_mutex_def)
next
  case (spurious_main c)
  obtain xs where m: "mutex_ok s" and x: "queue_inv s xs" "\<forall>j. worker_ok s xs (workers s j)" "main_ok s xs" "serial_ok s xs"
    using assms(1) by (auto simp: pool_inv_def)
  have s': "s' = s\<lparr>main_thread := Main_locking c, queue_mutex := queue_mutex s\<rparr>"
    using spurious_main by (cases s) simp
  show ?thesis
    by (rule main_moves [OF m x(1,2) s'])
      (use m x(3,4) spurious_main(3) in \<open>auto simp: s' mutex_ok_def running_def main_holds_mutex_def main_ok_def serial_ok_def\<close>)
qed

interpretation pool: invariant_system pool_step pool_inv
  by unfold_locales (rule pool_step_inv)

end
