(* ===== verification/Pool_Properties.thy ===== *)
theory Pool_Properties
  imports Server_Pool
begin

text \<open>
  Properties of the server's worker threads: every interleaving of the main thread and the
  workers, from \<open>server_init\<close> on, with concrete runs.
\<close>

section \<open>Concrete runs\<close>

text \<open>The step that a label names, as a function.\<close>

fun move :: "pool \<Rightarrow> pool_label \<Rightarrow> pool option" where
  "move s (Arrive c) = (if main_thread s = Accepting then Some (server_request c s) else None)"
| "move s Exit_event =
     (if main_thread s = Accepting then Some (s\<lparr>main_thread := Exit_requested\<rparr>) else None)"
| "move s (Work i) =
     (if i < nr_threads s \<and> (case main_thread s of Aborted e \<Rightarrow> False | _ \<Rightarrow> True)
      then helper_thread_do_server_request s i else None)"
| "move s Request_step = server_request_step s"
| "move s Exit_step = server_exit_step s"
| "move s (Spurious t) = None"

fun moves :: "pool \<Rightarrow> pool_label list \<Rightarrow> pool option" where
  "moves s [] = Some s"
| "moves s (l # ls) = (case move s l of None \<Rightarrow> None | Some s' \<Rightarrow> moves s' ls)"

lemma move_step: "move s l = Some s' \<Longrightarrow> pool_step s l s'"
  by (cases l) (auto intro: pool_step.intros split: if_splits main_pc.splits)

lemma moves_runs: "runs pool_step s0 ks s \<Longrightarrow> moves s ls = Some s' \<Longrightarrow> runs pool_step s0 (ks @ ls) s'"
proof (induction ls arbitrary: ks s)
  case (Cons l ls)
  then obtain s1 where "move s l = Some s1" "moves s1 ls = Some s'" by (auto split: option.splits)
  then show ?case using Cons.IH [of "ks @ [l]" s1] Cons.prems(1) by (auto intro: runs.extend move_step)
qed simp

lemma moves_reach: "moves s ls = Some s' \<Longrightarrow> runs pool_step s ls s'"
  using moves_runs [OF runs.start, of s ls s'] by simp

definition pool_heap :: req_heap where
  "pool_heap = new_heap \<lparr>nxt = NULL, val = 0\<rparr>"

lemma pool_heap_fresh: "fresh_policy (policy pool_heap)"
  by (simp add: pool_heap_def new_heap_def)

text \<open>Two connections arrive at a server with one worker and room for one request; the main
  thread waits for room, the worker takes the first and wakes it.\<close>

definition busy_run :: "pool_label list" where
  "busy_run = [Arrive 7, Request_step, Request_step, Request_step,
     Arrive 8, Request_step, Request_step,
     Work 0, Work 0, Work 0, Work 0, Work 0, Work 0, Request_step, Request_step, Request_step]"

definition busy_state :: pool where
  "busy_state = (case moves (server_init pool_heap 1 1) busy_run of Some s \<Rightarrow> s | None \<Rightarrow> server_init pool_heap 1 1)"

lemma busy_facts:
  "moves (server_init pool_heap 1 1) busy_run \<noteq> None" "nr_threads busy_state = 1"
  "pushed busy_state = [7, 8]" "popped busy_state = [7]" "handled busy_state = [7]"
  "exiting busy_state = False" "main_thread busy_state = Accepting"
  "curr_size (snd (request_queue busy_state)) = 1"
  by code_simp+

lemma busy_reached: "runs pool_step (server_init pool_heap 1 1) busy_run busy_state"
  using busy_facts(1) by (auto simp: busy_state_def intro: moves_reach)

section \<open>Safety\<close>

text \<open>Property C6. In every reachable state of the server, for any number of workers and any
  capacity that is not negative: the request queue is well formed and holds at most
  \<open>max_requests\<close> connections; the connections were taken off in the order in which they were
  put on; every connection that was taken off was handled once or is in the hands of exactly
  one worker; at most one thread is inside a critical section; and the program has not
  aborted, except with status 1 because memory is exhausted: the asserts on \<open>pop_front\<close> and
  \<open>push_back\<close> never fail.\<close>

theorem connections_handled_once_in_order:
  assumes "fresh_policy (policy h)" and "0 \<le> m" and "runs pool_step (server_init h n m) ls s"
  shows "(\<exists>xs. req_rep (request_queue s) xs \<and> int (length xs) \<le> max_size (snd (request_queue s)) \<and>
      pushed s = popped s @ xs) \<and>
    mset (popped s) = mset (handled s) + in_hand s \<and>
    (\<forall>i j. holds_mutex (workers s i) \<longrightarrow> holds_mutex (workers s j) \<longrightarrow> i = j) \<and>
    (\<forall>i. running s \<longrightarrow> main_holds_mutex (main_thread s) \<longrightarrow> \<not> holds_mutex (workers s i)) \<and>
    (\<forall>e. main_thread s = Aborted e \<longrightarrow> e = Exit_with 1)"
proof -
  have inv: "pool_inv s" using pool.reachable_inv [OF assms(3) server_init_inv [OF assms(1,2)]] .
  then have m: "mutex_ok s" by (simp add: pool_inv_def)
  obtain xs where "queue_inv s xs" "main_ok s xs" using inv by (auto simp: pool_inv_def)
  then show ?thesis
    using mutex_okD(2,3) [OF m] by (auto simp: queue_inv_def main_ok_def)
qed

theorem connections_handled_once_in_order_witness:
  "(\<exists>xs. req_rep (request_queue busy_state) xs \<and> [7, 8] = [7] @ xs) \<and> in_hand busy_state = {#}"
  using connections_handled_once_in_order [OF pool_heap_fresh _ busy_reached] by (auto simp: busy_facts)

section \<open>Progress\<close>

definition returned_ok :: "pool \<Rightarrow> bool" where
  "returned_ok s \<longleftrightarrow> (\<forall>i<nr_threads s. workers s i = Returned \<longrightarrow> exiting s) \<and>
     (main_thread s \<in> {Broadcasting, Exited} \<union> range Joining \<longrightarrow> exiting s)"

lemma worker_returned:
  assumes "returned_ok s" and "helper_thread_do_server_request s i = Some s'" and "i < nr_threads s"
  shows "returned_ok s'"
  using assms
  by (cases "workers s i")
    (auto simp: returned_ok_def helper_thread_do_server_request_def set_worker_def broadcast_nonfull_def Let_def
      split: sum.splits option.splits if_splits main_pc.splits)

interpretation ret: invariant_system pool_step returned_ok
proof unfold_locales
  fix s l s' assume r: "returned_ok s" and "pool_step s l s'"
  from this(2) show "returned_ok s'"
    by cases (use r worker_returned [OF r] in \<open>auto simp: returned_ok_def server_request_def server_request_step_def
      server_exit_step_def broadcast_nonempty_def set_worker_def Let_def split: main_pc.splits sum.splits if_splits\<close>)
qed

definition own_step :: "pool_label \<Rightarrow> bool" where
  "own_step l \<longleftrightarrow> l \<in> {Request_step, Exit_step} \<union> range Work"

lemma worker_enabled:
  "i < nr_threads s \<Longrightarrow> running s \<Longrightarrow> helper_thread_do_server_request s i \<noteq> None \<Longrightarrow>
   \<exists>l s'. pool_step s l s' \<and> own_step l"
  by (auto simp: own_step_def running_def intro!: exI [of _ "Work i"] intro: pool_step.work)

lemma holder_enabled:
  "holds_mutex (workers s i) \<Longrightarrow> helper_thread_do_server_request s i \<noteq> None"
  by (auto simp: holds_mutex_def helper_thread_do_server_request_def)

lemma request_enabled: "server_request_step s \<noteq> None \<Longrightarrow> \<exists>l s'. pool_step s l s' \<and> own_step l"
  by (auto simp: own_step_def intro!: exI [of _ Request_step] intro: pool_step.request_step)

text \<open>The number of threads and the capacity never change.\<close>

definition same_size :: "pool \<Rightarrow> pool \<Rightarrow> bool" where
  "same_size s s' \<longleftrightarrow> nr_threads s' = nr_threads s \<and>
     max_size (snd (request_queue s')) = max_size (snd (request_queue s))"

lemma pop_keeps_max: "req_pop_pair q = Inr (q', r) \<Longrightarrow> max_size (snd q') = max_size (snd q)"
  by (auto simp: req_pop_pair_def req_pop_front_def result_simps split: if_splits)

lemma push_keeps_max: "req_push_pair q c = Inr q' \<Longrightarrow> max_size (snd q') = max_size (snd q)"
  by (auto simp: req_push_pair_def req_push_back_def result_simps split: if_splits)

lemma step_same_size:
  assumes "pool_step s l s'"
  shows "same_size s s'"
  using assms
proof cases
  case (work i)
  then show ?thesis
    by (cases "workers s i")
      (auto simp: same_size_def helper_thread_do_server_request_def set_worker_def broadcast_nonfull_def Let_def
        dest: pop_keeps_max split: sum.splits option.splits if_splits)
next
  case request_step
  then show ?thesis
    by (auto simp: same_size_def server_request_step_def broadcast_nonempty_def Let_def
      dest: push_keeps_max split: main_pc.splits sum.splits if_splits)
qed (auto simp: same_size_def server_request_def server_exit_step_def broadcast_nonempty_def set_worker_def
    split: main_pc.splits if_splits)

lemma run_same_size: "runs pool_step s0 ls s \<Longrightarrow> same_size s0 s"
  by (induction rule: runs.induct) (use step_same_size in \<open>auto simp: same_size_def\<close>)

lemma awake_worker:
  assumes "pool_inv s" and "returned_ok s" and "\<not> exiting s" and "running s" and "queue_mutex s = None"
    and "curr_size (snd (request_queue s)) \<noteq> 0" and "0 < nr_threads s"
  shows "\<exists>l s'. pool_step s l s' \<and> own_step l"
proof -
  obtain xs where "queue_inv s xs" "\<forall>i. worker_ok s xs (workers s i)" and m: "mutex_ok s"
    using assms(1) by (auto simp: pool_inv_def)
  then have "xs \<noteq> []" "worker_ok s xs (workers s 0)" using assms(6) by (auto simp: queue_inv_def req_rep_def)
  moreover have "workers s 0 \<noteq> Returned" using assms(2,3,7) by (auto simp: returned_ok_def)
  moreover have "\<not> holds_mutex (workers s 0)" using mutex_okD(4) [OF m assms(5)] .
  ultimately have "helper_thread_do_server_request s 0 \<noteq> None"
    using assms(5) by (cases "workers s 0") (auto simp: worker_ok_def helper_thread_do_server_request_def)
  then show ?thesis using worker_enabled [OF assms(7,4)] by blast
qed

lemma pool_moves_on:
  assumes inv: "pool_inv s" and ret: "returned_ok s" and live: "\<not> exiting s" "running s" "0 < nr_threads s"
    and m: "0 < max_size (snd (request_queue s))"
    and busy: "main_thread s \<noteq> Accepting \<or> curr_size (snd (request_queue s)) \<noteq> 0"
  shows "\<exists>l s'. pool_step s l s' \<and> own_step l"
proof (cases "queue_mutex s")
  case (Some t)
  have mo: "mutex_ok s" using inv by (simp add: pool_inv_def)
  show ?thesis
  proof (cases t)
    case Main_thread
    then have "server_request_step s \<noteq> None"
      using mo Some live by (auto simp: mutex_ok_def main_holds_mutex_def server_request_step_def split: main_pc.splits)
    then show ?thesis by (rule request_enabled)
  next
    case (Worker i)
    then have h: "holds_mutex (workers s i)" using mo Some unfolding mutex_ok_def by blast
    moreover have "\<not> holds_mutex (workers s i)" if "nr_threads s \<le> i"
      using mo that by (auto simp: mutex_ok_def holds_mutex_def)
    ultimately have "i < nr_threads s" by (meson leI)
    then show ?thesis using worker_enabled holder_enabled h live(2) by blast
  qed
next
  case None
  have awake: "curr_size (snd (request_queue s)) \<noteq> 0 \<Longrightarrow> ?thesis"
    by (rule awake_worker [OF inv ret live(1,2) None _ live(3)])
  show ?thesis
  proof (cases "main_thread s")
    case Accepting
    then show ?thesis using busy awake by blast
  next
    case (Waiting_nonfull c)
    then have "curr_size (snd (request_queue s)) \<noteq> 0"
      using inv m by (auto simp: pool_inv_def main_ok_def queue_inv_def req_rep_def)
    then show ?thesis by (rule awake)
  next
    case (Main_locking c)
    then have "server_request_step s \<noteq> None" using None by (simp add: server_request_step_def)
    then show ?thesis by (rule request_enabled)
  next
    case Exit_requested
    then have "server_exit_step s = Some (s\<lparr>exiting := True, main_thread := Broadcasting\<rparr>)"
      by (simp add: server_exit_step_def)
    then show ?thesis using pool_step.exit_step own_step_def by blast
  qed (use ret live None inv in \<open>auto simp: returned_ok_def running_def server_request_step_def pool_inv_def mutex_ok_def main_holds_mutex_def\<close>)
qed



section \<open>Exit\<close>

text \<open>When \<open>server_exit\<close> is past its joins, every worker has returned, and each
  connection that the main thread pushed was handled or is still in the queue: exactly the
  connections left in the queue are dropped.\<close>

theorem exit_drops_only_the_queue:
  assumes "fresh_policy (policy h)" and "0 \<le> m" and "runs pool_step (server_init h n m) ls s"
    and "main_thread s = Exited"
  shows "(\<forall>i<nr_threads s. workers s i = Returned) \<and>
    (\<exists>xs. req_rep (request_queue s) xs \<and> mset (pushed s) = mset (handled s) + mset xs)"
proof -
  have inv: "pool_inv s" using pool.reachable_inv [OF assms(3) server_init_inv [OF assms(1,2)]] .
  then obtain xs where x: "queue_inv s xs" "main_ok s xs" by (auto simp: pool_inv_def)
  have r: "\<forall>i<nr_threads s. workers s i = Returned" using x(2) assms(4) by (simp add: main_ok_def)
  then have "in_hand s = {#}" by (simp add: in_hand_def hand_def)
  then show ?thesis using x(1) r by (auto simp: queue_inv_def)
qed

definition exit_run :: "pool_label list" where
  "exit_run = [Arrive 7, Request_step, Request_step, Request_step, Exit_event, Exit_step, Exit_step,
     Work 0, Exit_step, Exit_step]"

definition exit_state :: pool where
  "exit_state = (case moves (server_init pool_heap 1 1) exit_run of Some s \<Rightarrow> s | None \<Rightarrow> server_init pool_heap 1 1)"

lemma exit_facts:
  "moves (server_init pool_heap 1 1) exit_run \<noteq> None" "nr_threads exit_state = 1"
  "pushed exit_state = [7]" "handled exit_state = []" "main_thread exit_state = Exited"
  by code_simp+

theorem exit_drops_only_the_queue_witness:
  "workers exit_state 0 = Returned \<and> (\<exists>xs. req_rep (request_queue exit_state) xs \<and> mset [7] = mset xs)"
proof -
  have "runs pool_step (server_init pool_heap 1 1) exit_run exit_state"
    using exit_facts(1) by (auto simp: exit_state_def intro: moves_reach)
  from exit_drops_only_the_queue [OF pool_heap_fresh _ this exit_facts(5)] show ?thesis
    by (simp add: exit_facts)
qed

text \<open>Property C37. \<open>server_exit\<close> can hang: it sets \<open>exiting\<close> and broadcasts without the mutex, so
  a worker that has just found the queue empty and \<open>exiting\<close> clear goes to sleep after the
  broadcast. From \<open>server_init\<close> with one worker there is a run to a state where the main thread
  waits in \<open>pthread_join\<close> for that worker, and nothing but a spurious wake-up can happen.\<close>

theorem server_exit_can_hang:
  "\<exists>ls s. runs pool_step (server_init h 1 m) ls s \<and> exiting s \<and> main_thread s = Joining 0 \<and>
    workers s 0 = Waiting_nonempty \<and> queue_mutex s = None \<and>
    (\<forall>l s'. pool_step s l s' \<longrightarrow> l = Spurious (Worker 0))"
proof -
  let ?ls = "[Work 0, Work 0, Work 0, Exit_event, Exit_step, Exit_step, Work 0]"
  define s where "s = \<lparr>nr_threads = 1, request_queue = (h, create_request_queue m), queue_mutex = None,
    exiting = True, workers = (\<lambda>i. if i = 0 then Waiting_nonempty else Returned),
    main_thread = Joining 0, pushed = [], popped = [], handled = []\<rparr>"
  have "moves (server_init h 1 m) ?ls = Some s"
    by (auto simp: server_init_def helper_thread_do_server_request_def set_worker_def create_request_queue_def
      server_exit_step_def broadcast_nonempty_def s_def fun_eq_iff)
  then have "runs pool_step (server_init h 1 m) ?ls s" by (rule moves_reach)
  moreover have "l = Spurious (Worker 0)" if "pool_step s l s'" for l s'
    using that by cases (auto simp: s_def helper_thread_do_server_request_def server_request_step_def
      server_exit_step_def)
  ultimately show ?thesis
    by (intro exI [of _ ?ls] exI [of _ s]) (auto simp: s_def)
qed

theorem server_exit_can_hang_witness:
  "\<exists>ls s. runs pool_step (server_init pool_heap 1 4) ls s \<and> exiting s \<and> workers s 0 = Waiting_nonempty"
  using server_exit_can_hang [of pool_heap 4] by blast

end
