(* ===== verification/Cache_Properties.thy ===== *)
theory Cache_Properties
  imports File_Cache
begin

text \<open>
  The properties of the request queue, the eviction queue and the file cache of the web
  server, with concrete runs.
\<close>

section \<open>Concrete values\<close>

definition demo_file :: "string \<Rightarrow> string \<Rightarrow> file_data" where
  "demo_file name text =
     \<lparr>file_name = name, file_buf = Some \<lparr>block = text, beyond = [NUL]\<rparr>, file_size = int (length text)\<rparr>"

definition demo_cache :: cache where
  "demo_cache = hash_table_init [NUL] 8"

lemma demo_cache_ok: "cache_inv demo_cache" "\<not> cache_mutex demo_cache" "max_buffer_size demo_cache = 8"
    "curr_buffer_size demo_cache = 0" "filesize_queue demo_cache = []" "heap_after demo_cache = [NUL]"
    "lookup demo_cache f = None"
  using hash_table_init_inv [of 8 "[NUL]"] by (simp_all add: demo_cache_def)
    (simp_all add: hash_table_init_def lookup_def)

lemma demo_copy:
  "file_data_copy [NUL] (demo_file ''a'' ''hello'') = Inr (demo_file ''a'' ''hello''\<lparr>file_buf := Some \<lparr>block = ''hello'' @ [NUL], beyond = [NUL]\<rparr>\<rparr>)"
  by (simp add: file_data_copy_def demo_file_def c_string_def memory_def NUL_def)

section \<open>The queues\<close>

text \<open>Property C34. The request queue is a bounded FIFO: from a queue that holds \<open>xs\<close>, a push of
  a connection is refused, with nothing changed, exactly when \<open>max_size\<close> requests wait;
  otherwise it appends the connection, or the program exits because memory is exhausted. A pop
  gives the first request, and is refused when there is none. The asserts and the pointer
  operations inside never fail.\<close>

theorem request_queue_is_bounded_fifo:
  assumes "req_rep (h, q) xs"
  shows "(if max_size q \<le> int (length xs) then req_push_back h q c = Inr (h, q, False)
      else req_push_back h q c = Inl (Exit_with 1) \<or>
        (\<exists>h' q'. req_push_back h q c = Inr (h', q', True) \<and> req_rep (h', q') (xs @ [c]) \<and> max_size q' = max_size q)) \<and>
    (case xs of [] \<Rightarrow> req_pop_front h q = Inr (h, q, None)
     | x # ys \<Rightarrow> \<exists>h' q'. req_pop_front h q = Inr (h', q', Some x) \<and> req_rep (h', q') ys \<and> max_size q' = max_size q)"
proof (rule conjI)
  show "if max_size q \<le> int (length xs) then req_push_back h q c = Inr (h, q, False)
      else req_push_back h q c = Inl (Exit_with 1) \<or>
        (\<exists>h' q'. req_push_back h q c = Inr (h', q', True) \<and> req_rep (h', q') (xs @ [c]) \<and> max_size q' = max_size q)"
    using req_push_back_full [OF assms] req_push_back_cases [OF assms, of c] by fastforce
  show "case xs of [] \<Rightarrow> req_pop_front h q = Inr (h, q, None)
     | x # ys \<Rightarrow> \<exists>h' q'. req_pop_front h q = Inr (h', q', Some x) \<and> req_rep (h', q') ys \<and> max_size q' = max_size q"
  proof (cases xs)
    case Nil
    then show ?thesis using req_pop_front_empty assms by simp
  next
    case (Cons x ys)
    then show ?thesis using req_pop_front_some [of h q x ys] assms by simp
  qed
qed

definition demo_req :: "req_heap \<times> req_queue" where
  "demo_req = (case req_push_pair (new_heap \<lparr>nxt = NULL, val = 0\<rparr>, create_request_queue 1) 5 of
     Inr s \<Rightarrow> s | Inl _ \<Rightarrow> (new_heap \<lparr>nxt = NULL, val = 0\<rparr>, create_request_queue 1))"

lemma demo_req_rep: "req_rep (fst demo_req, snd demo_req) [5]"
proof -
  have "req_rep (new_heap \<lparr>nxt = NULL, val = 0\<rparr>, create_request_queue 1) []"
    by (rule req_rep_create) (simp add: new_heap_def)
  moreover have "case req_push_pair (new_heap \<lparr>nxt = NULL, val = 0\<rparr>, create_request_queue 1) 5 of Inr _ \<Rightarrow> True | Inl _ \<Rightarrow> False"
    by code_simp
  then have "req_push_pair (new_heap \<lparr>nxt = NULL, val = 0\<rparr>, create_request_queue 1) 5 = Inr demo_req"
    by (auto simp: demo_req_def split: sum.splits)
  ultimately show ?thesis using req.push_back_rep by fastforce
qed

theorem request_queue_is_bounded_fifo_witness:
  "req_push_back (fst demo_req) (snd demo_req) 7 = Inr (fst demo_req, snd demo_req, False) \<and>
   (\<exists>h q. req_pop_front (fst demo_req) (snd demo_req) = Inr (h, q, Some 5) \<and> req_rep (h, q) [])"
proof -
  have "max_size (snd demo_req) = 1" by code_simp
  then show ?thesis
    using request_queue_is_bounded_fifo [OF demo_req_rep, of 7] by auto
qed

text \<open>However files are entered into the empty eviction queue, if the entries
  succeed the next pop gives a file that was entered and that is at least as large as every
  other one.\<close>

theorem eviction_takes_a_largest_file:
  assumes "fresh_policy (policy h)"
    and "foldE insert_pair_fq (h, create_filesize_queue) files = Inr (h', q)" and "files \<noteq> []"
  shows "\<exists>h'' q' x. pop_front_fq h' q = Inr (h'', q', Some x) \<and> x \<in> set files \<and>
    (\<forall>y\<in>set files. fst y \<le> fst x)"
proof -
  from fq.pop_is_largest [OF create_filesize_queue_rep [OF assms(1)] assms(2,3)]
  obtain s x where s: "pop_pair_fq (h', q) = Inr (s, Some x)" "x \<in> set files"
    "\<forall>y\<in>set files. fst y \<le> fst x" by auto
  then show ?thesis by (cases s) (auto simp: pop_pair_fq_def result_simps)
qed

theorem eviction_takes_a_largest_file_witness:
  "\<exists>h q h' q' x. foldE insert_pair_fq (new_heap \<lparr>nxt = NULL, val = (0, [])\<rparr>, create_filesize_queue)
      [(3, ''a''), (9, ''b''), (5, ''c'')] = Inr (h, q) \<and>
    pop_front_fq h q = Inr (h', q', Some x) \<and> x = (9, ''b'')"
proof -
  let ?s = "(new_heap \<lparr>nxt = NULL, val = (0, [])\<rparr>, create_filesize_queue)"
  have "(case foldE insert_pair_fq ?s [(3, ''a''), (9, ''b''), (5, ''c'')] of Inr _ \<Rightarrow> True | Inl _ \<Rightarrow> False)"
    by code_simp
  then obtain h q where f: "foldE insert_pair_fq ?s [(3, ''a''), (9, ''b''), (5, ''c'')] = Inr (h, q)"
    by (auto split: sum.splits)
  from eviction_takes_a_largest_file [OF _ f] show ?thesis
    using f by (fastforce simp: new_heap_def)
qed

section \<open>The file cache\<close>

text \<open>Property C20. What \<open>add_to_hash_table\<close> does to a cache whose invariant holds, for a file
  that fits into an empty cache: none of its assertions fails, the mutex is free again, and
  the files of the cache are those that the eviction keeps and, unless its name is among
  them, the copy of the new file. The answer is false exactly when the name was kept.\<close>

theorem add_enters_the_file_after_eviction:
  assumes "cache_inv wc" and "\<not> cache_mutex wc" and "file_data_copy (heap_after wc) d = Inr d'"
    and "0 \<le> file_size d" and "file_size d \<le> max_buffer_size wc"
  shows "\<exists>wc' b. add_to_hash_table wc f d = Inr (wc', b) \<and> cache_inv wc' \<and> \<not> cache_mutex wc' \<and>
    max_buffer_size wc' = max_buffer_size wc \<and> b = (f \<notin> snd ` set (kept wc (file_size d))) \<and>
    (\<forall>g. lookup wc' g = (if g = f \<and> b then Some d'
       else if g \<in> snd ` set (kept wc (file_size d)) then lookup wc g else None))"
  using add_to_hash_table_ok [OF assms, of f] unfolding restricted_def by blast

theorem add_enters_the_file_after_eviction_witness:
  "\<exists>wc d. add_to_hash_table demo_cache ''a'' (demo_file ''a'' ''hello'') = Inr (wc, True) \<and>
    lookup wc ''a'' = Some d \<and> file_size d = 5 \<and> curr_buffer_size wc \<le> 8"
proof -
  have k: "kept demo_cache 5 = []" by (simp add: kept_def remaining_size_def demo_cache_ok)
  have s: "file_size (demo_file ''a'' ''hello'') = 5" by (simp add: demo_file_def)
  note run = add_enters_the_file_after_eviction [OF demo_cache_ok(1,2), of "demo_file ''a'' ''hello''" _ "''a''",
      unfolded demo_cache_ok(3,6), OF demo_copy, unfolded s k, simplified]
  show ?thesis using run s by (auto simp: cache_inv_def)
qed

text \<open>Property C33. An eviction of \<open>need\<close> bytes, when that much is cached, removes the first
  \<open>n\<close> files of the queue, for the least \<open>n\<close> that frees enough; a file that goes is at least
  as large as every file that stays.\<close>

theorem eviction_is_minimal_and_largest_first:
  assumes "cache_ok wc" and "need \<le> curr_buffer_size wc"
  shows "\<exists>wc' n. evict_cache wc need = Inr wc' \<and> cache_ok wc' \<and>
    filesize_queue wc' = drop n (filesize_queue wc) \<and>
    curr_buffer_size wc' \<le> curr_buffer_size wc - need \<and>
    (\<forall>m<n. total_size (take m (filesize_queue wc)) < need) \<and>
    (\<forall>x\<in>set (take n (filesize_queue wc)). \<forall>y\<in>set (filesize_queue wc'). fst y \<le> fst x)"
proof -
  let ?q = "filesize_queue wc"
  have need: "need \<le> total_size ?q" using assms by (simp add: cache_okD(6))
  obtain wc' where w: "evict_cache wc need = Inr wc'" "cache_ok wc'" "filesize_queue wc' = survivors ?q need"
    using evict_loop_ok [OF assms(1) refl, of need 0] need by (auto simp: evict_cache_def)
  obtain n where n: "survivors ?q need = drop n ?q" "need \<le> total_size (take n ?q)"
    "\<forall>m<n. total_size (take m ?q) < need" using survivors_minimal [OF need] by blast
  have "total_size ?q = total_size (take n ?q) + total_size (drop n ?q)"
    by (subst append_take_drop_id [of n, symmetric]) (simp add: total_size_def del: append_take_drop_id)
  then have "curr_buffer_size wc' \<le> curr_buffer_size wc - need"
    using n cache_okD(6) [OF assms(1)] cache_okD(6) [OF w(2)] w(3) by simp
  moreover have "sorted_wrt (\<lambda>x y. fst y \<le> fst x) (take n ?q @ drop n ?q)"
    using cache_okD(3) [OF assms(1)] by (simp add: descending_def)
  then have "\<forall>x\<in>set (take n ?q). \<forall>y\<in>set (drop n ?q). fst y \<le> fst x"
    unfolding sorted_wrt_append by blast
  ultimately show ?thesis using w n by (intro exI [of _ wc'] exI [of _ n]) simp
qed

text \<open>Property C10. However many calls of \<open>find_in_hash_table\<close> and \<open>add_to_hash_table\<close> are made, in
  any order, on terminated files that are no larger than the cache: every call returns (no
  assertion fails, the mutex is never taken twice), the counter \<open>curr_buffer_size\<close> is the
  number of bytes in the cache, and that is never more than the maximum.\<close>

theorem cache_never_overfull:
  assumes "0 \<le> m" and "\<forall>c\<in>set requests. legal_call m c"
  shows "\<exists>wc. foldE cache_step (hash_table_init after m) requests = Inr wc \<and> \<not> cache_mutex wc \<and>
    curr_buffer_size wc = (\<Sum>f\<in>dom (lookup wc). file_size (the (lookup wc f))) \<and>
    curr_buffer_size wc \<le> m"
proof -
  obtain wc where w: "foldE cache_step (hash_table_init after m) requests = Inr wc" "cache_state_ok m wc"
    using cache_calls_ok [OF init_state_ok [OF assms(1)] assms(2)] by blast
  then show ?thesis using cached_bytes [of wc]
    by (auto simp: cache_state_ok_def cache_inv_def)
qed

theorem cache_never_overfull_witness:
  "\<exists>wc. foldE cache_step demo_cache
      [Add ''a'' (demo_file ''a'' ''hello''), Find ''a'', Add ''b'' (demo_file ''b'' ''world'')] = Inr wc \<and>
    curr_buffer_size wc \<le> 8"
  using cache_never_overfull [of 8 "[Add ''a'' (demo_file ''a'' ''hello''), Find ''a'', Add ''b'' (demo_file ''b'' ''world'')]" "[NUL]"]
  by (auto simp: demo_cache_def legal_call_def terminated_def demo_file_def memory_def)

text \<open>A text file survives the cache: after a file without a NUL byte was added
  and entered, a lookup of its name gives a file of the same name and size whose first
  \<open>file_size\<close> bytes are the bytes of the original.\<close>

theorem cache_returns_the_text:
  assumes "cache_inv wc" and "\<not> cache_mutex wc" and "file_buf d = Some b" and "NUL \<notin> set (block b)"
    and "NUL \<in> set (beyond b)" and "file_size d = int (length (block b))"
    and "file_size d \<le> max_buffer_size wc" and "f \<notin> snd ` set (kept wc (file_size d))"
  shows "\<exists>wc' e c. add_to_hash_table wc f d = Inr (wc', True) \<and>
    find_in_hash_table wc' f = Inr (wc', Some e) \<and> file_name e = file_name d \<and> file_buf e = Some c \<and>
    file_size e = file_size d \<and> read_bytes c (file_size e) = Inr (block b)"
proof -
  have t: "takeWhile (\<lambda>c. c \<noteq> NUL) (memory b) = block b @ takeWhile (\<lambda>c. c \<noteq> NUL) (beyond b)"
    using assms(4) by (simp add: memory_def takeWhile_NUL)
  define s where "s = takeWhile (\<lambda>c. c \<noteq> NUL) (memory b)"
  define d' where "d' = \<lparr>file_name = file_name d, file_buf = Some \<lparr>block = s @ [NUL], beyond = heap_after wc\<rparr>,
    file_size = file_size d\<rparr>"
  have copy: "file_data_copy (heap_after wc) d = Inr d'"
    using assms(3,5) by (simp add: file_data_copy_def c_string_def d'_def s_def memory_def)
  have "0 \<le> file_size d" using assms(6) by simp
  from add_to_hash_table_ok [OF assms(1,2) copy this assms(7), of f] assms(8)
  obtain wc' where w: "add_to_hash_table wc f d = Inr (wc', True)" "\<not> cache_mutex wc'" "lookup wc' f = Some d'"
    "heap_after wc' = heap_after wc" by auto
  have n: "NUL \<notin> set s" by (auto simp: s_def dest: set_takeWhileD)
  then have "takeWhile (\<lambda>c. c \<noteq> NUL) (s @ NUL # heap_after wc) = s" by (simp add: takeWhile_NUL)
  then have "find_in_hash_table wc' f = Inr (wc', Some d')"
    using w(2,3,4) by (simp add: find_in_hash_table_ok file_data_copy_def c_string_def d'_def memory_def)
  then show ?thesis using w(1) t assms(6)
    by (simp add: d'_def read_bytes_def memory_def s_def)
qed

definition demo_full :: cache where
  "demo_full = (case add_to_hash_table demo_cache ''a'' (demo_file ''a'' ''hello'') of
     Inr (wc, _) \<Rightarrow> wc | Inl _ \<Rightarrow> demo_cache)"

lemma demo_full_ok:
  "cache_ok demo_full" "cache_inv demo_full" "filesize_queue demo_full = [(5, ''a'')]" "curr_buffer_size demo_full = 5"
  "\<not> cache_mutex demo_full" "max_buffer_size demo_full = 8" "heap_after demo_full = [NUL]"
  "lookup demo_full ''a'' = Some (demo_file ''a'' ''hello''\<lparr>file_buf := Some \<lparr>block = ''hello'' @ [NUL], beyond = [NUL]\<rparr>\<rparr>)"
proof -
  have k: "kept demo_cache 5 = []" by (simp add: kept_def remaining_size_def demo_cache_ok)
  have s: "file_size (demo_file ''a'' ''hello'') = 5" by (simp add: demo_file_def)
  obtain wc where w: "add_to_hash_table demo_cache ''a'' (demo_file ''a'' ''hello'') = Inr (wc, True)"
    "cache_inv wc" "\<not> cache_mutex wc" "max_buffer_size wc = 8" "heap_after wc = [NUL]"
    "\<forall>g. lookup wc g = (if g = ''a'' then Some (demo_file ''a'' ''hello''\<lparr>file_buf := Some \<lparr>block = ''hello'' @ [NUL], beyond = [NUL]\<rparr>\<rparr>) else None)"
    using add_to_hash_table_ok [OF demo_cache_ok(1,2), of "demo_file ''a'' ''hello''" _ "''a''",
      unfolded demo_cache_ok(3,6), OF demo_copy, unfolded s k] by (auto simp: restricted_def)
  have wc: "wc = demo_full" using w(1) by (simp add: demo_full_def)
  have ok: "cache_ok wc" using w(2) by (simp add: cache_inv_def)
  have "(t, g) \<in> set (filesize_queue wc) \<longleftrightarrow> (t, g) = (5, ''a'')" for t g
    using w(6) by (auto simp: cache_okD(4) [OF ok] demo_file_def)
  then have "set (filesize_queue wc) = {(5, ''a'')}" by auto
  moreover have "distinct (filesize_queue wc)" using cache_okD(2) [OF ok] by (simp add: distinct_map)
  ultimately have q: "filesize_queue wc = [(5, ''a'')]"
    using distinct_card [of "filesize_queue wc"]
    by (cases "filesize_queue wc"; cases "tl (filesize_queue wc)") auto
  show "cache_ok demo_full" "cache_inv demo_full" "filesize_queue demo_full = [(5, ''a'')]" "curr_buffer_size demo_full = 5"
    "\<not> cache_mutex demo_full" "max_buffer_size demo_full = 8" "heap_after demo_full = [NUL]"
    "lookup demo_full ''a'' = Some (demo_file ''a'' ''hello''\<lparr>file_buf := Some \<lparr>block = ''hello'' @ [NUL], beyond = [NUL]\<rparr>\<rparr>)"
    using w ok q cache_okD(6) [OF ok] by (simp_all add: wc total_size_def)
qed

theorem eviction_is_minimal_and_largest_first_witness:
  "\<exists>wc. evict_cache demo_full 2 = Inr wc \<and> cache_ok wc \<and> curr_buffer_size wc \<le> 3"
  using eviction_is_minimal_and_largest_first [of demo_full 2] by (auto simp: demo_full_ok)

theorem cache_returns_the_text_witness:
  "\<exists>wc e c. add_to_hash_table demo_full ''b'' (demo_file ''b'' ''xyz'') = Inr (wc, True) \<and>
    find_in_hash_table wc ''b'' = Inr (wc, Some e) \<and> file_buf e = Some c \<and> read_bytes c 3 = Inr ''xyz''"
  using cache_returns_the_text [of demo_full "demo_file ''b'' ''xyz''" "\<lparr>block = ''xyz'', beyond = [NUL]\<rparr>" "''b''"]
  by (auto simp: demo_full_ok demo_file_def kept_def remaining_size_def NUL_def)

text \<open>A hit is not free of effects: \<open>add_to_hash_table\<close> makes room before it looks
  for a duplicate, so adding again a file that is cached, larger than the remaining room, evicts
  at least one file, and may evict the file itself.\<close>

theorem adding_a_cached_file_evicts:
  assumes "cache_inv wc" and "\<not> cache_mutex wc" and "file_data_copy (heap_after wc) d = Inr d'"
    and "0 \<le> file_size d" and "file_size d \<le> max_buffer_size wc"
    and "lookup wc f \<noteq> None" and "file_size d > max_buffer_size wc - curr_buffer_size wc"
  shows "\<exists>g x wc' b. (g, x) \<in> set (filesize_queue wc) \<and>
    add_to_hash_table wc f d = Inr (wc', b) \<and> (lookup wc' x = None \<or> x = f \<and> b)"
proof -
  let ?need = "file_size d - remaining_size wc" and ?q = "filesize_queue wc"
  obtain wc' b where w: "add_to_hash_table wc f d = Inr (wc', b)"
    "b = (f \<notin> snd ` set (kept wc (file_size d)))"
    "\<forall>g. lookup wc' g = (if g = f \<and> b then Some d' else restricted wc (kept wc (file_size d)) g)"
    using add_to_hash_table_ok [OF assms(1-5), of f] by blast
  have ok: "cache_ok wc" using assms(1) by (simp add: cache_inv_def)
  have k: "kept wc (file_size d) = survivors ?q ?need" "0 < ?need"
    using assms(7) by (simp_all add: kept_def remaining_size_def)
  obtain t x q where q: "?q = (t, x) # q" using cached_names [OF ok] assms(6) by (cases ?q) auto
  obtain us where "q = us @ survivors q (?need - t)" using survivors_suffix by blast
  then have "set (kept wc (file_size d)) \<subseteq> set q" using k q by (auto simp del: survivors.simps(1)) (metis UnI2 set_append)
  then have "x \<notin> snd ` set (kept wc (file_size d))" using cache_okD(2) [OF ok] q by auto
  then show ?thesis using w q by (auto simp: restricted_def)
qed

theorem adding_a_cached_file_evicts_witness:
  "\<exists>wc b. add_to_hash_table demo_full ''a'' (demo_file ''a'' ''hello'') = Inr (wc, b) \<and>
    (lookup wc ''a'' = None \<or> b)"
  using adding_a_cached_file_evicts [of demo_full "demo_file ''a'' ''hello''" _ "''a''", unfolded demo_full_ok, OF _ _ demo_copy]
  by (auto simp: demo_full_ok demo_file_def)

end
