(* ===== verification/Web_Server.thy ===== *)
theory Web_Server
  imports Server_Requests Fileset Pool_Properties Cache_Properties
begin

text \<open>
  The web server as a whole: the arguments of server.c, a request of the client on its way
  through the server and back, and sequences of requests.
\<close>

section \<open>Starting\<close>

text \<open>\<open>main\<close> of server.c up to \<open>server_init\<close>: the checks of the arguments.\<close>

definition server_args :: "string list \<Rightarrow> (int \<times> int \<times> int \<times> int) result" where
  "server_args argv =
     (if length argv \<noteq> 5 then Inl (Exit_with 1)
      else
        let port = atoi (argv ! 1); nr_threads = atoi (argv ! 2);
            max_requests = atoi (argv ! 3); max_cache_size = atoi (argv ! 4)
        in if port < 1024 then Inl (Exit_with 1)
           else if nr_threads < 0 \<or> max_requests < 0 \<or> max_cache_size < 0 then Inl (Exit_with 1)
           else Inr (port, nr_threads, max_requests, max_cache_size))"

definition server_start :: "req_heap \<Rightarrow> string \<Rightarrow> string list \<Rightarrow> (pool \<times> cache option) result" where
  "server_start h after argv =
     bindE (server_args argv) (\<lambda>(port, nr_threads, max_requests, max_cache_size).
     Inr (server_init h (nat nr_threads) max_requests,
          if max_cache_size \<noteq> 0 then Some (hash_table_init after max_cache_size) else None))"

lemma server_start_ok:
  assumes "fresh_policy (policy h)" and "server_start h after argv = Inr (s, wc)"
  shows "pool_inv s \<and> (case wc of None \<Rightarrow> True | Some c \<Rightarrow> cache_state_ok (max_buffer_size c) c)"
proof -
  obtain port n r m where a: "server_args argv = Inr (port, n, r, m)"
    and s: "s = server_init h (nat n) r" "wc = (if m \<noteq> 0 then Some (hash_table_init after m) else None)"
    using assms(2) by (auto simp: server_start_def result_simps)
  have "0 \<le> r" "0 \<le> m" using a by (auto simp: server_args_def Let_def split: if_splits)
  then show ?thesis using server_init_inv [OF assms(1)] init_state_ok [of m after]
    by (auto simp: s hash_table_init_def)
qed

text \<open>A series of requests on one cache, each in its environment.\<close>

fun serve :: "int \<Rightarrow> cache option \<Rightarrow> (env \<times> conn) list \<Rightarrow> (cache option \<times> conn list) result" where
  "serve m wc [] = Inr (wc, [])"
| "serve m wc ((e, rq) # rs) =
     bindE (do_server_request e m wc rq) (\<lambda>(wc', rq').
     bindE (serve m wc' rs) (\<lambda>(wc2, rqs). Inr (wc2, rq' # rqs)))"

section \<open>A request of the client\<close>

definition url_ok :: "string \<Rightarrow> string \<Rightarrow> bool" where
  "url_ok host f \<longleftrightarrow> f \<noteq> [] \<and> (\<forall>c\<in>set f. \<not> is_space c) \<and> NUL \<notin> set f \<and>
     newline \<notin> set host \<and> NUL \<notin> set host \<and> length f < 8170 \<and> length host < 8170"

lemma MAXLINE_MAXBUF: "MAXLINE = MAXBUF"
  by (simp add: MAXLINE_def MAXBUF_def)

lemma headers_loop_read:
  assumes "rio_ok rp" and "unread rp = l @ CRLF @ rest" and "plain_line l" and "c_text b \<noteq> CRLF"
  shows "\<exists>rp'. headers_loop rp (Some b) = headers_loop rp' (Some (l @ CRLF @ [NUL])) \<and>
    rio_ok rp' \<and> unread rp' = rest"
proof -
  obtain rp' where "Rio_readlineb rp (Some b) MAXLINE = Inr (int (length l + 2), Some (l @ CRLF @ [NUL]), rp')"
    "rio_ok rp'" "unread rp' = rest" using read_plain_line [OF assms(1-3)] unfolding MAXLINE_MAXBUF by blast
  then show ?thesis using assms(4) by (intro exI [of _ rp']) (subst headers_loop.simps, simp)
qed

lemma scan_three_get:
  assumes "f \<noteq> []" and "\<forall>c\<in>set f. \<not> is_space c"
  shows "scan_three (''GET '' @ f @ '' HTTP/1.0'' @ CRLF) = (Some ''GET'', Some f, Some ''HTTP/1.0'')"
proof -
  have sp: "is_space CHR 0x20" "is_space return_char" by (simp_all add: is_space_def return_char_def)
  have "scan_word (''GET'' @ ('' '' @ f @ '' HTTP/1.0'' @ CRLF)) = Some (''GET'', '' '' @ f @ '' HTTP/1.0'' @ CRLF)"
    by (rule scan_word_append) (auto simp: is_space_def)
  moreover have "scan_word (f @ ('' HTTP/1.0'' @ CRLF)) = Some (f, '' HTTP/1.0'' @ CRLF)"
    using assms by (intro scan_word_append) (auto simp: sp)
  moreover have "scan_word (''HTTP/1.0'' @ CRLF) = Some (''HTTP/1.0'', CRLF)"
    by (rule scan_word_append) (auto simp: is_space_def CRLF_def return_char_def)
  ultimately show ?thesis by (simp add: scan_three_def scan_word_space [OF sp(1)])
qed

text \<open>The server finds in the client's request the name that the client put there.\<close>

lemma request_init_get:
  assumes fd: "readable (from_client rq)" "arriving (from_client rq) = client_request_text host f" and u: "url_ok host f"
  shows "\<exists>rq1. request_init e rq = Inr (rq1, Some (''./'' @ f)) \<and> to_client rq1 = to_client rq"
proof -
  let ?l1 = "''GET '' @ f @ '' HTTP/1.0''" and ?l2 = "''host: '' @ host"
  have f: "f \<noteq> []" "\<forall>c\<in>set f. \<not> is_space c" using u by (simp_all add: url_ok_def)
  then have "newline \<notin> set f" using space_facts(2) by blast
  then have p: "plain_line ?l1" "plain_line ?l2" "plain_line []"
    using u by (auto simp: plain_line_def url_ok_def newline_def NUL_def MAXBUF_def)
  define rp0 where "rp0 = rio_init (from_client rq) (stale e)"
  have rp0: "rio_ok rp0" "unread rp0 = ?l1 @ CRLF @ (?l2 @ CRLF @ ([] @ CRLF @ []))"
    using rio_init_ok [OF fd(1)] fd(2) by (simp_all add: rp0_def client_request_text_def)
  obtain rp1 where r1: "Rio_readlineb rp0 None MAXLINE = Inr (int (length ?l1 + 2), Some (?l1 @ CRLF @ [NUL]), rp1)"
    "rio_ok rp1" "unread rp1 = ?l2 @ CRLF @ ([] @ CRLF @ [])"
    using read_plain_line [OF rp0 p(1)] unfolding MAXLINE_MAXBUF by blast
  obtain rp2 where r2: "Rio_readlineb rp1 None MAXLINE = Inr (int (length ?l2 + 2), Some (?l2 @ CRLF @ [NUL]), rp2)"
    "rio_ok rp2" "unread rp2 = [] @ CRLF @ []"
    using read_plain_line [OF r1(2,3) p(2)] unfolding MAXLINE_MAXBUF by blast
  have "c_text (?l2 @ CRLF @ [NUL]) \<noteq> CRLF" by (rule line_not_empty [OF _ p(2)]) simp
  then obtain rp3 where r3: "headers_loop rp2 (Some (?l2 @ CRLF @ [NUL])) = headers_loop rp3 (Some ([] @ CRLF @ [NUL]))"
    using headers_loop_read [OF r2(2,3) p(3)] by blast
  have "headers_loop rp3 (Some ([] @ CRLF @ [NUL])) = Some (Inr rp3)"
    using c_text_line [OF p(3)] by (subst headers_loop.simps) simp
  then have hd: "request_read_headers rp1 = Inr rp3"
    unfolding request_read_headers_def r2(1) using r3 by simp
  have ct: "c_text (?l1 @ CRLF @ [NUL]) = ''GET '' @ f @ '' HTTP/1.0'' @ CRLF"
    using c_text_line [OF p(1)] by simp
  have "request_parse_URI f MAXLINE = ''./'' @ f" using u by (simp add: request_parse_URI_def url_ok_def MAXLINE_def)
  then have "request_init e rq = Inr (rq\<lparr>from_client := rio_fd rp3\<rparr>, Some (''./'' @ f))"
    unfolding request_init_def rp0_def [symmetric] r1(1)
    using hd scan_three_get [OF f] ct
    by (simp add: uninitialised_def strcasecmp_equal_def)
  then show ?thesis by simp
qed

section \<open>Names in the cache\<close>

lemma add_names_ok:
  assumes ok: "cache_state_ok m wc" and n: "names_ok wc" and a: "allowed_name f" "file_name d = f"
    and r: "add_to_hash_table wc f d = Inr (wc', b)" and t: "terminated d" "0 \<le> file_size d" "file_size d \<le> m"
  shows "names_ok wc' \<and> cache_state_ok m wc'"
proof -
  obtain d' where d': "file_data_copy (heap_after wc) d = Inr d'" using terminated_copy [OF t(1)] by blast
  have inv: "cache_inv wc" "\<not> cache_mutex wc" "max_buffer_size wc = m" using ok by (simp_all add: cache_state_ok_def)
  have "\<And>g. lookup wc' g = (if g = f \<and> b then Some d' else if g \<in> snd ` set (kept wc (file_size d)) then lookup wc g else None)"
    using add_to_hash_table_ok [OF inv(1,2) d' t(2), of f] t(3) inv(3) r unfolding restricted_def by auto
  then have "names_ok wc'" using n a file_data_copy_name [OF d'] by (auto simp: names_ok_def split: if_splits)
  moreover obtain wc2 where "cache_step wc (Add f d) = Inr wc2" "cache_state_ok m wc2"
    using cache_step_ok [OF ok, of "Add f d"] t by (auto simp: legal_call_def)
  ultimately show ?thesis using r by (simp add: cache_step_def)
qed

lemma readfile_size:
  "request_readfile e out d = Inr (out', d', True) \<Longrightarrow> 0 \<le> file_size d'"
  by (auto simp: request_readfile_def refuse_def Let_def result_simps split: if_splits option.splits)

text \<open>An addition that returns was given a terminated buffer.\<close>

lemma add_terminated:
  assumes "cache_state_ok m wc" and "add_to_hash_table wc f d = Inr x"
  shows "terminated d"
  using assms
  by (cases "file_buf d")
    (auto simp: cache_state_ok_def add_to_hash_table_def mutex_lock_def file_data_copy_def terminated_def c_string_def
      result_simps split: if_splits)

lemma request_keeps_names:
  assumes ok: "cache_state_ok m wc" and n: "names_ok wc" and m: "m \<noteq> 0"
    and r: "do_server_request e m (Some wc) rq = Inr (wc1, rq')"
  shows "\<exists>wc'. wc1 = Some wc' \<and> cache_state_ok m wc' \<and> names_ok wc'"
proof -
  obtain rq1 name where i: "request_init e rq = Inr (rq1, name)" using r by (auto simp: do_server_request_def result_simps)
  show ?thesis
  proof (cases name)
    case None
    then show ?thesis using i r ok n by (auto simp: do_server_request_def)
  next
    case (Some f)
    have free: "\<not> cache_mutex wc" using ok by (simp add: cache_state_ok_def)
    obtain temp where f: "find_in_hash_table wc f = Inr (wc, temp)"
      and t: "\<And>d. temp = Some d \<Longrightarrow> file_name d = f \<and> allowed_name f \<and> 0 \<le> file_size d"
    proof (cases "lookup wc f")
      case None
      then show ?thesis using that [of None] find_in_hash_table_ok [OF free, of f] by simp
    next
      case (Some d0)
      then obtain d' where d': "file_data_copy (heap_after wc) d0 = Inr d'"
        using r i \<open>name = Some f\<close> m find_in_hash_table_ok [OF free, of f]
        by (auto simp: do_server_request_def on_cache_def result_simps)
      have "(file_size d0, f) \<in> set (filesize_queue wc)" "cache_ok wc"
        using ok Some cache_okD(4) [of wc "file_size d0" f] by (auto simp: cache_state_ok_def cache_inv_def)
      then have "0 \<le> file_size d0" using cache_okD(5) by fastforce
      then show ?thesis using that [of "Some d'"] find_in_hash_table_ok [OF free, of f] Some d' n
          file_data_copy_name [OF d'] file_data_copy_size [OF d'] by (auto simp: names_ok_def)
    qed
    obtain out d ok1 where g: "(case temp of Some t \<Rightarrow> Inr (to_client rq1, t, True)
        | None \<Rightarrow> request_readfile e (to_client rq1) (file_data_init\<lparr>file_name := f\<rparr>)) = Inr (out, d, ok1)"
      using r i Some m f by (auto simp: do_server_request_def on_cache_def result_simps)
    show ?thesis
    proof (cases ok1)
      case False
      then show ?thesis using r i Some m f g ok n by (auto simp: do_server_request_def on_cache_def)
    next
      case True
      have d: "file_name d = f" "allowed_name f" "0 \<le> file_size d"
        using g True t readfile_allowed [of e _ "file_data_init\<lparr>file_name := f\<rparr>" out d] readfile_size [of e _ _ out d]
        by (cases temp; auto)+
      obtain wc2 added where a: "(if file_size d \<le> m then on_cache (\<lambda>c. add_to_hash_table c (file_name d) d) (Some wc)
            else Inr (Some wc, False)) = Inr (wc2, added)" and wc1: "wc1 = wc2"
        using r i Some m f g True by (auto simp: do_server_request_def on_cache_def result_simps)
      show ?thesis
      proof (cases "file_size d \<le> m")
        case False
        then show ?thesis using a wc1 ok n by auto
      next
        case fits: True
        then obtain wc3 where w: "add_to_hash_table wc f d = Inr (wc3, added)" "wc2 = Some wc3"
          using a d(1) by (auto simp: on_cache_def result_simps)
        then show ?thesis using add_names_ok [OF ok n d(2,1) w(1) add_terminated [OF ok w(1)] d(3) fits] wc1 by simp
      qed
    qed
  qed
qed

lemma serve_keeps_names:
  "cache_state_ok m wc \<Longrightarrow> names_ok wc \<Longrightarrow> m \<noteq> 0 \<Longrightarrow> serve m (Some wc) rs = Inr (wc1, rqs) \<Longrightarrow>
   \<exists>wc'. wc1 = Some wc' \<and> cache_state_ok m wc' \<and> names_ok wc'"
proof (induction rs arbitrary: wc rqs)
  case (Cons r rs)
  obtain e rq where r: "r = (e, rq)" by (cases r)
  then obtain wc2 rq' rqs' where s: "do_server_request e m (Some wc) rq = Inr (wc2, rq')" "serve m wc2 rs = Inr (wc1, rqs')"
    using Cons.prems(4) by (auto simp: result_simps)
  obtain wc' where "wc2 = Some wc'" "cache_state_ok m wc'" "names_ok wc'"
    using request_keeps_names [OF Cons.prems(1,2,3) s(1)] by blast
  then show ?case using Cons.IH [of wc' rqs'] s(2) Cons.prems(3) by simp
qed auto

end
