(* ===== verification/Web_Properties.thy ===== *)
theory Web_Properties
  imports Web_Server
begin

text \<open>
  Properties of the web server and its client: the I/O package, the responses, the cache seen
  by the client, and the failures that the code does not exclude, each with a concrete run.
\<close>

section \<open>The I/O package\<close>

text \<open>Property C35. However short the counts of the system calls are and however many calls are
  interrupted by signals, as long as no call fails with another error: \<open>rio_read\<close> returns the
  bytes that arrive, up to \<open>n\<close> of them, and leaves the rest; \<open>Rio_write\<close> sends exactly the bytes
  it was given.\<close>

theorem rio_is_robust:
  assumes "readable fd" and "writable out"
  shows "(\<exists>fd'. rio_read fd n = (int (min n (length (arriving fd))), take n (arriving fd), fd') \<and>
      arriving fd' = drop n (arriving fd)) \<and>
    (\<exists>out'. Rio_write out b = Inr out' \<and> sent out' = sent out @ b)"
  using rio_read_all [OF assms(1), of n] Rio_write_all [OF assms(2), of b] by blast

theorem rio_is_robust_witness:
  "\<exists>fd out. rio_read \<lparr>arriving = ''hello'', replies = [Interrupted, Chunk 0, Interrupted, Chunk 1]\<rparr> 4 = (4, ''hell'', fd) \<and>
    Rio_write \<lparr>sent = [], accepts = [Chunk 1, Interrupted]\<rparr> ''abc'' = Inr out \<and> sent out = ''abc''"
  using rio_is_robust [of "\<lparr>arriving = ''hello'', replies = [Interrupted, Chunk 0, Interrupted, Chunk 1]\<rparr>"
      "\<lparr>sent = [], accepts = [Chunk 1, Interrupted]\<rparr>" 4 "''abc''"]
  by (auto simp: readable_def writable_def)

text \<open>\<open>rio_readlineb\<close> into an array of \<open>m\<close> bytes reads the next line, at most \<open>m\<close>
  bytes of it, independently of how the bytes arrive; when the line has \<open>m\<close> bytes or more it
  writes the terminating NUL behind the array.\<close>

theorem readline_overflows_on_long_lines:
  assumes "rio_ok rp" and "0 < m"
  shows "\<exists>rp'. Rio_readlineb rp buf m =
      (if length (first_line m (unread rp)) = m then Inl Undefined
       else Inr (int (length (first_line m (unread rp))),
         if unread rp = [] then buf else Some (first_line m (unread rp) @ [NUL]), rp')) \<and>
    unread rp' = drop (length (first_line m (unread rp))) (unread rp)"
  using Rio_readlineb_line [OF assms, of buf] by blast

theorem readline_overflows_on_long_lines_witness:
  "Rio_readlineb (rio_init \<lparr>arriving = ''abcdefgh'', replies = [Chunk 2]\<rparr> []) None 4 = Inl Undefined"
  using readline_overflows_on_long_lines [of "rio_init \<lparr>arriving = ''abcdefgh'', replies = [Chunk 2]\<rparr> []" 4 None]
    rio_init_ok [of "\<lparr>arriving = ''abcdefgh'', replies = [Chunk 2]\<rparr>" "[]"]
  by (auto simp: readable_def eval_nat_numeral newline_def)

section \<open>Requests\<close>

definition demo_stat :: "string \<Rightarrow> file_stat" where
  "demo_stat t = \<lparr>is_regular = True, owner_readable = True, st_size = int (length t), can_open = True,
     contents = \<lparr>arriving = t, replies = [Chunk 0, Interrupted]\<rparr>\<rparr>"

definition demo_env :: "string \<Rightarrow> string \<Rightarrow> env" where
  "demo_env name t = \<lparr>files = (\<lambda>f. if f = name then Some (demo_stat t) else None), stale = [],
     junk = (\<lambda>_. CHR 0x3F), behind = [NUL]\<rparr>"

definition demo_conn :: "string \<Rightarrow> conn" where
  "demo_conn f = \<lparr>from_client = \<lparr>arriving = client_request_text ''h'' f, replies = [Chunk 3]\<rparr>,
     to_client = \<lparr>sent = [], accepts = []\<rparr>, closed = False\<rparr>"


definition demo_texts :: "string \<Rightarrow> string option" where
  "demo_texts f = (if f = ''./a.html'' then Some ''hi!'' else None)"

lemma demo_serves: "serves (demo_env ''./a.html'' ''hi!'') demo_texts"
  by (simp add: serves_def demo_env_def demo_texts_def demo_stat_def allowed_name_def is_text_def NUL_def
      ends_in_source_def readable_def)

lemma demo_cache_state: "cache_state_ok 8 demo_cache"
  unfolding demo_cache_def by (rule init_state_ok) simp

lemma demo_conn_ok:
  "readable (from_client (demo_conn f))" "arriving (from_client (demo_conn f)) = client_request_text ''h'' f"
  "writable (to_client (demo_conn f))" "sent (to_client (demo_conn f)) = []"
  by (simp_all add: demo_conn_def readable_def writable_def)



lemma demo_request:
  assumes "f \<noteq> []" and "\<forall>c\<in>set f. \<not> is_space c" and "NUL \<notin> set f" and "length f < 8170"
  shows "\<exists>rq1. request_init e (demo_conn f) = Inr (rq1, Some (''./'' @ f)) \<and> to_client rq1 = \<lparr>sent = [], accepts = []\<rparr>"
proof -
  have "url_ok ''h'' f" using assms by (simp add: url_ok_def newline_def NUL_def)
  from request_init_get [OF demo_conn_ok(1,2) this] show ?thesis by (simp add: demo_conn_def)
qed


text \<open>With the cache switched off the Lab 5 server answers as the Lab 4 server does,
  request for request, as long as no file it is asked for is empty.\<close>

theorem uncached_server_is_the_lab4_server:
  assumes "\<forall>f st. files e f = Some st \<longrightarrow> to_int32 (st_size st) \<noteq> 0"
  shows "do_server_request e 0 wc rq = bindE (do_server_request_uncached e rq) (\<lambda>rq'. Inr (wc, rq'))"
proof -
  have pos: "0 < file_size d'" if "request_readfile e out d = Inr (out', d', True)" for out d out' d'
  proof -
    have "file_size d' \<noteq> 0"
      using that assms by (auto simp: request_readfile_def refuse_def Let_def result_simps split: if_splits option.splits)
    then show ?thesis using readfile_size [OF that] by simp
  qed
  show ?thesis
  proof (cases "request_init e rq")
    case (Inr r)
    obtain rq1 name where r: "r = (rq1, name)" by (cases r)
    show ?thesis
    proof (cases name)
      case None
      then show ?thesis using Inr r by (simp add: do_server_request_def do_server_request_uncached_def)
    next
      case (Some f)
      show ?thesis
      proof (cases "request_readfile e (to_client rq1) (file_data_init\<lparr>file_name := f\<rparr>)")
        case (Inl x)
        then show ?thesis using Inr r Some by (simp add: do_server_request_def do_server_request_uncached_def)
      next
        case (Inr y)
        obtain out d ok where y: "y = (out, d, ok)" by (cases y)
        show ?thesis
        proof (cases ok)
          case True
          then have "\<not> file_size d \<le> 0" using pos [of "to_client rq1" _ out d] Inr y by auto
          then show ?thesis using \<open>request_init e rq = Inr r\<close> r Some Inr y True
            by (cases "request_sendfile out d") (simp_all add: do_server_request_def do_server_request_uncached_def)
        next
          case False
          then show ?thesis using \<open>request_init e rq = Inr r\<close> r Some Inr y
            by (simp add: do_server_request_def do_server_request_uncached_def)
        qed
      qed
    qed
  qed (simp add: do_server_request_def do_server_request_uncached_def)
qed

theorem uncached_server_is_the_lab4_server_witness:
  "do_server_request (demo_env ''./a'' ''hi!'') 0 None (demo_conn ''a'') =
    bindE (do_server_request_uncached (demo_env ''./a'' ''hi!'') (demo_conn ''a'')) (\<lambda>rq'. Inr (None, rq'))"
proof (rule uncached_server_is_the_lab4_server)
  have "to_int32 3 \<noteq> 0" using to_int32_small [of 3] by simp
  then show "\<forall>f st. files (demo_env ''./a'' ''hi!'') f = Some st \<longrightarrow> to_int32 (st_size st) \<noteq> 0"
    by (simp add: demo_env_def demo_stat_def)
qed

section \<open>What the server does not survive\<close>

text \<open>Property C38. A request for an empty file crashes the Lab 5 server, with a cache of any
  size and with none: the file passes the size test, and \<open>file_data_copy\<close> follows its NULL
  buffer (without a cache, \<open>add_to_hash_table\<close> is given a NULL table).\<close>

theorem empty_file_crashes_the_server:
  assumes "request_init e rq = Inr (rq1, Some f)" and "allowed_name f"
    and "files e f = Some st" and "is_regular st" and "owner_readable st" and "st_size st = 0"
    and "0 \<le> m" and "case wc of None \<Rightarrow> m = 0 | Some c \<Rightarrow> \<not> cache_mutex c \<and> lookup c f = None"
  shows "do_server_request e m wc rq = Inl Undefined"
proof -
  have "to_int32 0 = 0" by (simp add: to_int32_def)
  then have r: "request_readfile e out (file_data_init\<lparr>file_name := f\<rparr>) = Inr (out, file_data_init\<lparr>file_name := f\<rparr>, True)" for out
    using assms(2-6) by (simp add: request_readfile_def allowed_name_def file_data_init_def Let_def)
  have fd: "file_data_copy after (file_data_init\<lparr>file_name := f\<rparr>) = Inl Undefined" "file_size (file_data_init\<lparr>file_name := f\<rparr>) = 0" for after
    by (simp_all add: file_data_copy_def file_data_init_def)
  show ?thesis
  proof (cases wc)
    case None
    then show ?thesis using assms(1,8) r fd(2) by (simp add: do_server_request_def on_cache_def)
  next
    case (Some c)
    then have "find_in_hash_table c f = Inr (c, None)" "mutex_lock c = Inr (c\<lparr>cache_mutex := True\<rparr>)"
      using assms(8) by (simp_all add: find_in_hash_table_ok mutex_lock_def)
    then have "add_to_hash_table c f (file_data_init\<lparr>file_name := f\<rparr>) = Inl Undefined"
      using fd(1) by (simp add: add_to_hash_table_def)
    then show ?thesis using Some assms(1,7) r fd(2) \<open>find_in_hash_table c f = Inr (c, None)\<close>
      by (simp add: do_server_request_def on_cache_def)
  qed
qed

theorem empty_file_crashes_the_server_witness:
  "do_server_request (demo_env ''./e'' []) 8 (Some demo_cache) (demo_conn ''e'') = Inl Undefined \<and>
   do_server_request (demo_env ''./e'' []) 0 None (demo_conn ''e'') = Inl Undefined"
proof -
  let ?e = "demo_env ''./e'' []"
  obtain rq1 where i: "request_init ?e (demo_conn ''e'') = Inr (rq1, Some ''./e'')"
    using demo_request [of "''e''" ?e] by (auto simp: is_space_def NUL_def)
  have a: "allowed_name ''./e''" by (simp add: allowed_name_def ends_in_source_def)
  have f: "files ?e ''./e'' = Some (demo_stat [])" "is_regular (demo_stat [])" "owner_readable (demo_stat [])" "st_size (demo_stat []) = 0"
    by (simp_all add: demo_env_def demo_stat_def)
  note run = empty_file_crashes_the_server [OF i a f]
  show ?thesis using run [of 8 "Some demo_cache"] run [of 0 None] by (simp add: demo_cache_ok)
qed

text \<open>A request for a file that does not exist, with a name of 8100 characters or
  more, overflows the array in which the error page is put together.\<close>

theorem long_name_overflows_the_error_page:
  assumes "request_init e rq = Inr (rq1, Some f)" and "files e f = None" and "8100 \<le> length f"
    and "case wc of None \<Rightarrow> m = 0 | Some c \<Rightarrow> \<not> cache_mutex c \<and> lookup c f = None"
  shows "do_server_request e m wc rq = Inl Undefined"
proof -
  have "refuse out (file_data_init\<lparr>file_name := f\<rparr>) errnum shortmsg longmsg = Inl Undefined" for out errnum shortmsg longmsg
    using assms(3) by (simp add: refuse_def request_error_def error_body_def file_data_init_def Let_def MAXBUF_def CRLF_def)
  then have r: "request_readfile e out (file_data_init\<lparr>file_name := f\<rparr>) = Inl Undefined" for out
    using assms(2) by (simp add: request_readfile_def file_data_init_def)
  show ?thesis
  proof (cases wc)
    case None
    then show ?thesis using assms(1,4) r by (simp add: do_server_request_def)
  next
    case (Some c)
    then have "find_in_hash_table c f = Inr (c, None)" using assms(4) by (simp add: find_in_hash_table_ok)
    then show ?thesis using Some assms(1) r by (cases "m = 0") (simp_all add: do_server_request_def on_cache_def)
  qed
qed

theorem long_name_overflows_the_error_page_witness:
  "do_server_request (demo_env ''./a'' ''hi!'') 8 (Some demo_cache) (demo_conn (replicate 8150 CHR ''x'')) = Inl Undefined"
proof -
  let ?e = "demo_env ''./a'' ''hi!''" and ?f = "replicate 8150 CHR ''x''"
  obtain rq1 where i: "request_init ?e (demo_conn ?f) = Inr (rq1, Some (''./'' @ ?f))"
    using demo_request [of ?f ?e] by (auto simp: is_space_def NUL_def)
  have "''./'' @ ?f \<noteq> ''./a''"
  proof
    assume "''./'' @ ?f = ''./a''"
    then have "length (''./'' @ ?f) = length ''./a''" by (rule arg_cong)
    then show False by simp
  qed
  then have "files ?e (''./'' @ ?f) = None" by (simp only: demo_env_def env.simps if_False)
  from long_name_overflows_the_error_page [OF i this, where m = 8 and wc = "Some demo_cache"] show ?thesis
    by (simp add: demo_cache_ok)
qed

section \<open>The file set\<close>

text \<open>fileset.c and client.c agree on the index: when the generator returns (it
  does, or it aborts), and wrote at least one file, the client that reads the index gets, file
  by file, the name, the checksum and the length of what is on the disk, and those are the
  values with which it will accept the file from the server.\<close>

theorem client_reads_the_index_that_fileset_wrote:
  assumes "\<forall>i. sent (open_file i) = []" and "\<forall>i. 0 < size_of i \<and> size_of i < 2147483648"
    and "0 < target" and "\<forall>c\<in>set dir. \<not> is_space c" and "NUL \<notin> set dir" and "length dir \<le> 1000"
  shows "\<exists>r. fileset_loop dir size_of random open_file target
        \<lparr>nr_files = 0, current_fileset_sz = 0, idx_buffer = [], disk = []\<rparr> = Some r \<and>
    (case r of
       Inl e \<Rightarrow> aborts e
     | Inr st \<Rightarrow> target \<le> current_fileset_sz st \<and>
         (\<forall>fd. readable fd \<longrightarrow> arriving fd = index_text st \<longrightarrow>
            init_fileset fd stale_buf = Inr (map (entry_info \<circ> entry_of) (disk st))))"
proof -
  let ?st0 = "\<lparr>nr_files = 0, current_fileset_sz = 0, idx_buffer = [], disk = []\<rparr>"
  have "fileset_ok dir ?st0" by (simp add: fileset_ok_def)
  from fileset_loop_ok [OF assms(1,2) this] obtain r where
    r: "fileset_loop dir size_of random open_file target ?st0 = Some r"
    "case r of Inl e \<Rightarrow> aborts e | Inr st' \<Rightarrow> fileset_ok dir st' \<and> target \<le> current_fileset_sz st'" by blast
  have "init_fileset fd stale_buf = Inr (map (entry_info \<circ> entry_of) (disk st))"
    if "r = Inr st" "readable fd" "arriving fd = index_text st" for st fd
    using generated_index [OF _ assms(4-6) _ that(2,3)] that(1) r(2) assms(3) by simp
  then show ?thesis using r by (auto split: sum.splits)
qed

theorem client_reads_the_index_that_fileset_wrote_witness:
  "\<exists>r. fileset_loop ''d'' (\<lambda>i. 3) (\<lambda>i j. i + j) (\<lambda>i. \<lparr>sent = [], accepts = []\<rparr>) 5
      \<lparr>nr_files = 0, current_fileset_sz = 0, idx_buffer = [], disk = []\<rparr> = Some r \<and>
    (case r of Inl e \<Rightarrow> aborts e
     | Inr st \<Rightarrow> init_fileset \<lparr>arriving = index_text st, replies = []\<rparr> [] = Inr (map (entry_info \<circ> entry_of) (disk st)))"
  using client_reads_the_index_that_fileset_wrote [of "\<lambda>i. \<lparr>sent = [], accepts = []\<rparr>" "\<lambda>i. 3" 5 "''d''" "\<lambda>i j. i + j" "[]"]
  by (fastforce simp: is_space_def NUL_def readable_def split: sum.splits)

end
