(* ===== verification/Word_Count.thy ===== *)
theory Word_Count
  imports File_Data C_Text
begin

text \<open>
  warmup/wc.c: the words of a text are split off and counted in a hash table with chained
  buckets. The hash function is the one of webserver_5/hash_table.h with another number of
  buckets. A bucket is the list of its entries; \<open>found\<close> gives what \<open>malloc\<close> finds in the
  occurrence field of the n-th entry that is allocated, since \<open>add_to_list\<close> increments this
  field of a new entry without setting it first unless the entry opens its bucket.
\<close>

definition WC_BUCKETS :: nat where
  "WC_BUCKETS = 200000"

record word_entry =
  entry_word :: string
  occurrence :: "32 word"

record word_count =
  wc_list :: "int \<Rightarrow> word_entry list"
  allocated :: nat
  found :: "nat \<Rightarrow> 32 word"

definition wc_hash_fn :: "string \<Rightarrow> 64 word" where
  "wc_hash_fn str = hash_loop 332319848 str mod of_nat WC_BUCKETS"

definition wc_hash_val :: "string \<Rightarrow> int" where
  "wc_hash_val str = sint (ucast (wc_hash_fn str) :: 32 word)"

text \<open>The search loop of \<open>add_to_list\<close> on a bucket that is not empty; the flag says that an
  entry was added.\<close>

fun bump_or_append :: "word_entry list \<Rightarrow> string \<Rightarrow> 32 word \<Rightarrow> word_entry list \<times> bool" where
  "bump_or_append [] word junk = ([\<lparr>entry_word = word, occurrence = junk + 1\<rparr>], True)"
| "bump_or_append (e # es) word junk =
     (if entry_word e = word then (e\<lparr>occurrence := occurrence e + 1\<rparr> # es, False)
      else (let (es', b) = bump_or_append es word junk in (e # es', b)))"

definition wc_add_to_list :: "word_entry list \<Rightarrow> string \<Rightarrow> 32 word \<Rightarrow> word_entry list \<times> bool" where
  "wc_add_to_list es word junk =
     (if es = [] then ([\<lparr>entry_word = word, occurrence = 1\<rparr>], True) else bump_or_append es word junk)"

definition wc_add_to_hash_table :: "word_count \<Rightarrow> string \<Rightarrow> word_count result" where
  "wc_add_to_hash_table wc word =
     (let i = wc_hash_val word in
      bindE (assertE (i \<ge> 0 \<and> i < int WC_BUCKETS)) (\<lambda>_.
      let (es, b) = wc_add_to_list (wc_list wc i) word (found wc (allocated wc))
      in Inr (wc\<lparr>wc_list := (wc_list wc)(i := es),
                allocated := (if b then Suc (allocated wc) else allocated wc)\<rparr>)))"

text \<open>What \<open>strncpy\<close> and the terminator leave in \<open>temp_str\<close>, as a C string.\<close>

definition temp_str :: "string \<Rightarrow> nat \<Rightarrow> nat \<Rightarrow> string" where
  "temp_str words start n = takeWhile (\<lambda>c. c \<noteq> NUL) (take n (drop start words))"

text \<open>The loop of \<open>wc_init\<close>, for any \<open>add_to_hash_table\<close>: Linked_Words runs it on pointers.\<close>

function wc_loop :: "('s \<Rightarrow> string \<Rightarrow> 's result) \<Rightarrow> string \<Rightarrow> nat \<Rightarrow> nat \<Rightarrow> bool \<Rightarrow> 's \<Rightarrow> 's result" where
  "wc_loop add words i start_index last_char_is_space wc =
     (if i < length words then
        if is_space (words ! i) \<or> i = length words - 1 then
          if \<not> last_char_is_space then
            bindE (add wc (temp_str words start_index (i - start_index))) (\<lambda>wc'.
            wc_loop add words (Suc i) i True wc')
          else wc_loop add words (Suc i) (Suc start_index) last_char_is_space wc
        else if last_char_is_space then wc_loop add words (Suc i) (Suc start_index) False wc
        else wc_loop add words (Suc i) start_index last_char_is_space wc
      else Inr wc)"
  by pat_completeness auto
termination by (relation "measure (\<lambda>(_, words, i, _). length words - i)") auto

declare wc_loop.simps [simp del]

text \<open>\<open>wc_init\<close>; the counter of the loop is an \<open>int\<close>.\<close>

definition wc_init :: "(nat \<Rightarrow> 32 word) \<Rightarrow> string \<Rightarrow> word_count result" where
  "wc_init junk words =
     (if length words \<ge> 2147483648 then Inl Undefined
      else wc_loop wc_add_to_hash_table words 0 0 False \<lparr>wc_list = (\<lambda>_. []), allocated = 0, found = junk\<rparr>)"

definition print_entry :: "word_entry \<Rightarrow> string" where
  "print_entry e = entry_word e @ '':'' @ show_int (sint (occurrence e)) @ [newline]"

definition print_list :: "word_entry list \<Rightarrow> string" where
  "print_list es = concat (map print_entry es)"

definition wc_output :: "word_count \<Rightarrow> string" where
  "wc_output wc = concat (map (\<lambda>i. print_list (wc_list wc (int i))) [0..<WC_BUCKETS])"

section \<open>The words that are counted\<close>

text \<open>The words of a text, by the book.\<close>

function words_of :: "string \<Rightarrow> string list" where
  "words_of s =
     (let t = dropWhile is_space s in
      if t = [] then [] else takeWhile (\<lambda>c. \<not> is_space c) t # words_of (dropWhile (\<lambda>c. \<not> is_space c) t))"
  by pat_completeness auto
termination
proof (relation "measure length", simp)
  fix s t :: string
  assume t: "t = dropWhile is_space s" "t \<noteq> []"
  obtain c cs where c: "t = c # cs" using t(2) by (cases t) auto
  then have "\<not> is_space c" using t hd_dropWhile [of is_space s] by simp
  then have "length (dropWhile (\<lambda>c. \<not> is_space c) t) < length t"
    by (simp add: c le_imp_less_Suc length_dropWhile_le)
  also have "length t \<le> length s" unfolding t(1) by (rule length_dropWhile_le)
  finally show "(dropWhile (\<lambda>c. \<not> is_space c) t, s) \<in> measure length" by simp
qed

declare words_of.simps [simp del]

lemma words_of_Nil [simp]: "words_of [] = []"
  by (simp add: words_of.simps)

lemma words_of_space [simp]: "is_space c \<Longrightarrow> words_of (c # s) = words_of s"
  by (subst (1 2) words_of.simps) simp

lemma words_of_word:
  "\<not> is_space c \<Longrightarrow>
   words_of (c # s) = (c # takeWhile (\<lambda>c. \<not> is_space c) s) # words_of (dropWhile (\<lambda>c. \<not> is_space c) s)"
  by (subst words_of.simps) simp

text \<open>The words that the loop cuts out of the rest of the text, when \<open>cur\<close> has gone by.\<close>

fun tokens :: "bool \<Rightarrow> string \<Rightarrow> string \<Rightarrow> string list" where
  "tokens sp cur [] = []"
| "tokens sp cur (c # cs) =
     (if is_space c \<or> cs = [] then (if \<not> sp then cur # tokens True [] cs else tokens True [] cs)
      else tokens False (if sp then [c] else cur @ [c]) cs)"

lemma tokens_words:
  "tokens True [] cs = words_of (butlast cs) \<and>
   (cs \<noteq> [] \<longrightarrow> tokens False cur cs =
     (cur @ takeWhile (\<lambda>c. \<not> is_space c) (butlast cs)) # words_of (dropWhile (\<lambda>c. \<not> is_space c) (butlast cs)))"
proof (induction cs arbitrary: cur)
  case (Cons c cs)
  then show ?case by (cases "is_space c") (auto simp: words_of_word)
qed simp

text \<open>All words of the text without its last character, and the empty word when the text
  starts with a space.\<close>

definition counted_words :: "string \<Rightarrow> string list" where
  "counted_words t =
     (if t = [] then [] else if is_space (hd t) \<or> length t = 1 then [] # words_of (butlast t)
      else words_of (butlast t))"

lemma tokens_counted: "tokens False [] t = counted_words t"
proof (cases t)
  case (Cons c cs)
  then show ?thesis
    using tokens_words [of "c # cs" "[]"] by (auto simp: counted_words_def words_of_word neq_Nil_conv)
qed (simp add: counted_words_def)

definition c_word :: "string \<Rightarrow> string" where
  "c_word w = takeWhile (\<lambda>c. c \<noteq> NUL) w"

lemma wc_loop_tokens:
  assumes "i \<le> length t" and "if sp then Suc start = i else start \<le> i \<and> cur = take (i - start) (drop start t)"
  shows "wc_loop add t i start sp wc = foldE add wc (map c_word (tokens sp (if sp then [] else cur) (drop i t)))"
  using assms
proof (induction "length t - i" arbitrary: i start sp cur wc)
  case 0
  then show ?case by (simp add: wc_loop.simps)
next
  case (Suc n)
  then have i: "i < length t" by simp
  then have d: "drop i t = t ! i # drop (Suc i) t" by (simp add: Cons_nth_drop_Suc)
  have e: "drop (Suc i) t = [] \<longleftrightarrow> i = length t - 1" using i by auto
  note IH = Suc.hyps(1) [of "Suc i"]
  have n: "n = length t - Suc i" "Suc i \<le> length t" using Suc.hyps(2) i by simp_all
  show ?case
  proof (cases "is_space (t ! i) \<or> i = length t - 1")
    case True
    show ?thesis
    proof (cases sp)
      case l: True
      have "wc_loop add t i start sp wc = wc_loop add t (Suc i) (Suc start) True wc"
        using i True l by (subst wc_loop.simps) simp
      also have "\<dots> = foldE add wc (map c_word (tokens True [] (drop (Suc i) t)))"
        using IH [of True "Suc start" "[]" wc] n Suc.prems(2) l by simp
      finally show ?thesis using True e l by (auto simp: d)
    next
      case l: False
      have "temp_str t start (i - start) = c_word cur" using Suc.prems(2) l by (simp add: temp_str_def c_word_def)
      then have "wc_loop add t i start sp wc =
          bindE (add wc (c_word cur)) (\<lambda>wc'. wc_loop add t (Suc i) i True wc')"
        using i True l by (subst wc_loop.simps) simp
      also have "\<dots> = bindE (add wc (c_word cur))
          (\<lambda>wc'. foldE add wc' (map c_word (tokens True [] (drop (Suc i) t))))"
        using IH [of True i "[]"] n by simp
      finally show ?thesis using True e l by (auto simp: d)
    qed
  next
    case False
    show ?thesis
    proof (cases sp)
      case l: True
      have "wc_loop add t i start sp wc = wc_loop add t (Suc i) (Suc start) False wc"
        using i False l by (subst wc_loop.simps) simp
      also have "\<dots> = foldE add wc (map c_word (tokens False [t ! i] (drop (Suc i) t)))"
        using IH [of False "Suc start" "[t ! i]" wc] n Suc.prems(2) l i by (simp add: d)
      finally show ?thesis using False e l by (simp add: d)
    next
      case l: False
      have cur: "cur @ [t ! i] = take (Suc i - start) (drop start t)"
        using Suc.prems(2) l i take_Suc_conv_app_nth [of "i - start" "drop start t"]
          diff_less_mono [of i "length t" start]
        by (simp add: Suc_diff_le)
      have "wc_loop add t i start sp wc = wc_loop add t (Suc i) start False wc"
        using i False l by (subst wc_loop.simps) simp
      also have "\<dots> = foldE add wc (map c_word (tokens False (cur @ [t ! i]) (drop (Suc i) t)))"
        using IH [of False start "cur @ [t ! i]" wc] n Suc.prems(2) l cur by simp
      finally show ?thesis using False e l by (simp add: d)
    qed
  qed
qed

lemma wc_init_words:
  assumes "length t < 2147483648"
  shows "wc_init junk t =
    foldE wc_add_to_hash_table \<lparr>wc_list = (\<lambda>_. []), allocated = 0, found = junk\<rparr> (map c_word (counted_words t))"
  using wc_loop_tokens [of 0 t False 0 "[]"] assms by (simp add: wc_init_def tokens_counted)

section \<open>The table as a map from words to counts\<close>

definition tally :: "word_entry list \<Rightarrow> string \<Rightarrow> 32 word option" where
  "tally es = map_of (map (\<lambda>e. (entry_word e, occurrence e)) es)"

definition wc_tally :: "word_count \<Rightarrow> string \<Rightarrow> 32 word option" where
  "wc_tally wc w = tally (wc_list wc (wc_hash_val w)) w"

definition wc_ok :: "word_count \<Rightarrow> bool" where
  "wc_ok wc \<longleftrightarrow> found wc = (\<lambda>_. 0) \<and>
     (\<forall>i. distinct (map entry_word (wc_list wc i)) \<and> (\<forall>e\<in>set (wc_list wc i). wc_hash_val (entry_word e) = i))"

lemma tally_simps [simp]:
  "tally [] = Map.empty" "tally (e # es) = (tally es)(entry_word e \<mapsto> occurrence e)"
  by (simp_all add: tally_def)

lemma wc_hash_range: "0 \<le> wc_hash_val w \<and> wc_hash_val w < int WC_BUCKETS"
proof -
  have "uint (wc_hash_fn w) < 200000" by (simp add: wc_hash_fn_def WC_BUCKETS_def uint_mod)
  then show ?thesis using int_of_hash [of "wc_hash_fn w"] by (simp add: wc_hash_val_def WC_BUCKETS_def)
qed

lemma bump_tally:
  "distinct (map entry_word es) \<Longrightarrow>
   tally (fst (bump_or_append es w j)) = (tally es)(w \<mapsto> (case tally es w of None \<Rightarrow> j + 1 | Some n \<Rightarrow> n + 1)) \<and>
   map entry_word (fst (bump_or_append es w j)) =
     (if w \<in> entry_word ` set es then map entry_word es else map entry_word es @ [w])"
proof (induction es)
  case (Cons e es)
  then show ?case
    by (cases "entry_word e = w") (auto simp: split_beta fun_upd_twist)
qed simp

lemma add_to_list_tally:
  assumes "distinct (map entry_word es)"
  shows "tally (fst (wc_add_to_list es w 0)) = (tally es)(w \<mapsto> (case tally es w of None \<Rightarrow> 1 | Some n \<Rightarrow> n + 1))"
    and "map entry_word (fst (wc_add_to_list es w 0)) =
      (if w \<in> entry_word ` set es then map entry_word es else map entry_word es @ [w])"
  using bump_tally [OF assms, of w 0] by (auto simp: wc_add_to_list_def cong: option.case_cong)

lemma wc_add_ok:
  assumes "wc_ok wc"
  shows "\<exists>wc'. wc_add_to_hash_table wc w = Inr wc' \<and> wc_ok wc' \<and>
    wc_tally wc' = (wc_tally wc)(w \<mapsto> (case wc_tally wc w of None \<Rightarrow> 1 | Some n \<Rightarrow> n + 1))"
proof -
  define i where "i = wc_hash_val w"
  define es where "es = wc_list wc i"
  have d: "distinct (map entry_word es)" and hs: "\<forall>e\<in>set es. wc_hash_val (entry_word e) = i"
    using assms by (simp_all add: wc_ok_def es_def)
  note t = add_to_list_tally [OF d, of w]
  obtain es' b where a: "wc_add_to_list es w 0 = (es', b)" by (cases "wc_add_to_list es w 0")
  define wc' where "wc' = wc\<lparr>wc_list := (wc_list wc)(i := es'),
    allocated := (if b then Suc (allocated wc) else allocated wc)\<rparr>"
  have "wc_add_to_hash_table wc w = Inr wc'"
    using wc_hash_range [of w] assms a
    by (simp add: wc_add_to_hash_table_def wc'_def wc_ok_def es_def i_def)
  moreover have "wc_ok wc'"
  proof -
    have n: "map entry_word es' = (if w \<in> entry_word ` set es then map entry_word es else map entry_word es @ [w])"
      using t(2) a by simp
    have "distinct (map entry_word es')" using n d by (auto simp: image_iff)
    moreover have "set (map entry_word es') \<subseteq> insert w (set (map entry_word es))" unfolding n by auto
    then have "\<forall>e\<in>set es'. wc_hash_val (entry_word e) = i" using hs by (force simp: i_def)
    ultimately show ?thesis using assms by (simp add: wc_ok_def wc'_def)
  qed
  moreover have "wc_tally wc' = (wc_tally wc)(w \<mapsto> (case wc_tally wc w of None \<Rightarrow> 1 | Some n \<Rightarrow> n + 1))"
    using t(1) a by (auto simp: wc_tally_def wc'_def fun_eq_iff i_def es_def)
  ultimately show ?thesis by blast
qed

lemma wc_counts:
  "\<exists>wc. foldE wc_add_to_hash_table \<lparr>wc_list = (\<lambda>_. []), allocated = 0, found = (\<lambda>_. 0)\<rparr> ws = Inr wc \<and> wc_ok wc \<and>
    wc_tally wc = (\<lambda>w. if w \<in> set ws then Some (of_nat (count_list ws w)) else None)"
proof (induction ws rule: rev_induct)
  case Nil
  show ?case by (simp add: wc_ok_def wc_tally_def fun_eq_iff)
next
  case (snoc w ws)
  then obtain wc where wc: "foldE wc_add_to_hash_table \<lparr>wc_list = (\<lambda>_. []), allocated = 0, found = (\<lambda>_. 0)\<rparr> ws = Inr wc"
    "wc_ok wc" and t: "wc_tally wc = (\<lambda>w. if w \<in> set ws then Some (of_nat (count_list ws w)) else None)" by blast
  obtain wc' where "wc_add_to_hash_table wc w = Inr wc'" "wc_ok wc'"
    and t': "wc_tally wc' = (wc_tally wc)(w \<mapsto> (case wc_tally wc w of None \<Rightarrow> 1 | Some n \<Rightarrow> n + 1))"
    using wc_add_ok [OF wc(2)] by blast
  moreover have "wc_tally wc' = (\<lambda>v. if v \<in> set (ws @ [w]) then Some (of_nat (count_list (ws @ [w]) v)) else None)"
    unfolding t' t by (auto simp: fun_eq_iff count_notin)
  ultimately show ?case using wc(1) by (simp add: foldE_append)
qed

text \<open>The entries in the order of the output.\<close>

definition entries :: "word_count \<Rightarrow> word_entry list" where
  "entries wc = concat (map (\<lambda>i. wc_list wc (int i)) [0..<WC_BUCKETS])"

lemma wc_output_entries: "wc_output wc = print_list (entries wc)"
proof -
  have "concat (map (\<lambda>i. print_list (wc_list wc (int i))) is) =
      print_list (concat (map (\<lambda>i. wc_list wc (int i)) is))" for "is"
    by (induction "is") (simp_all add: print_list_def)
  then show ?thesis by (simp add: wc_output_def entries_def)
qed

section \<open>A text that starts with a word and ends in a space\<close>

lemma words_of_snoc_space:
  assumes "is_space c"
  shows "words_of (s @ [c]) = words_of s"
proof (induction s rule: words_of.induct)
  case (1 s)
  show ?case
  proof (cases "dropWhile is_space s = []")
    case True
    then have "\<forall>x\<in>set s. is_space x" by simp
    then have "dropWhile is_space (s @ [c]) = []" using assms by simp
    then show ?thesis using True by (subst (1 2) words_of.simps) simp
  next
    case False
    define t where "t = dropWhile is_space s"
    have a: "dropWhile is_space (s @ [c]) = t @ [c]"
      using False by (auto simp: t_def dropWhile_append3 dropWhile_append1)
    have k: "takeWhile (\<lambda>c. \<not> is_space c) (t @ [c]) = takeWhile (\<lambda>c. \<not> is_space c) t"
      using assms by (simp add: takeWhile_append takeWhile_eq_all_conv [THEN iffD2])
    have d: "words_of (dropWhile (\<lambda>c. \<not> is_space c) (t @ [c])) = words_of (dropWhile (\<lambda>c. \<not> is_space c) t)"
    proof (cases "\<forall>x\<in>set t. \<not> is_space x")
      case True
      then have "dropWhile (\<lambda>c. \<not> is_space c) t = []" by simp
      then show ?thesis using True assms by (simp add: dropWhile_append2 dropWhile_eq_Nil_conv [THEN iffD2])
    next
      case F: False
      then have "dropWhile (\<lambda>c. \<not> is_space c) (t @ [c]) = dropWhile (\<lambda>c. \<not> is_space c) t @ [c]"
        by (auto simp: dropWhile_append1)
      then show ?thesis using 1 False by (simp add: t_def)
    qed
    show ?thesis
      using False a by (subst (1 2) words_of.simps) (simp add: Let_def k d t_def [symmetric])
  qed
qed

lemma words_of_chars: "w \<in> set (words_of s) \<Longrightarrow> set w \<subseteq> set s"
proof (induction s rule: words_of.induct)
  case (1 s)
  let ?t = "dropWhile is_space s"
  have ne: "?t \<noteq> []" using "1.prems" by (auto simp: words_of.simps [of s] Let_def split: if_splits)
  then have "w = takeWhile (\<lambda>c. \<not> is_space c) ?t \<or> w \<in> set (words_of (dropWhile (\<lambda>c. \<not> is_space c) ?t))"
    using "1.prems" unfolding words_of.simps [of s] Let_def by (simp split: if_splits)
  then show ?case
  proof
    assume "w = takeWhile (\<lambda>c. \<not> is_space c) ?t"
    then show ?thesis by (auto dest!: set_takeWhileD dest: set_dropWhileD)
  next
    assume "w \<in> set (words_of (dropWhile (\<lambda>c. \<not> is_space c) ?t))"
    then have "set w \<subseteq> set (dropWhile (\<lambda>c. \<not> is_space c) ?t)" using "1.IH" ne by simp
    then show ?thesis by (auto dest!: set_dropWhileD)
  qed
qed

lemma c_word_id: "NUL \<notin> set w \<Longrightarrow> c_word w = w"
  by (auto simp: c_word_def takeWhile_eq_all_conv)

lemma counted_words_proper:
  assumes "t \<noteq> []" and "\<not> is_space (hd t)" and "is_space (last t)"
  shows "counted_words t = words_of t"
proof -
  have "length t \<noteq> 1" using assms by (cases t) auto
  moreover have "words_of t = words_of (butlast t)"
    using assms words_of_snoc_space [of "last t" "butlast t"] by simp
  ultimately show ?thesis using assms by (simp add: counted_words_def)
qed

section \<open>What is printed\<close>

lemma tally_entry:
  "distinct (map entry_word es) \<Longrightarrow> tally es w = Some n \<longleftrightarrow> \<lparr>entry_word = w, occurrence = n\<rparr> \<in> set es"
proof -
  assume "distinct (map entry_word es)"
  then have "tally es w = Some n \<longleftrightarrow> (w, n) \<in> (\<lambda>e. (entry_word e, occurrence e)) ` set es"
    by (simp add: tally_def comp_def map_of_eq_Some_iff)
  also have "\<dots> \<longleftrightarrow> \<lparr>entry_word = w, occurrence = n\<rparr> \<in> set es"
  proof
    assume "(w, n) \<in> (\<lambda>e. (entry_word e, occurrence e)) ` set es"
    then obtain e where e: "e \<in> set es" "entry_word e = w" "occurrence e = n" by auto
    have "e = \<lparr>entry_word = w, occurrence = n\<rparr>" using e(2,3) by simp
    then show "\<lparr>entry_word = w, occurrence = n\<rparr> \<in> set es" using e(1) by simp
  qed force
  finally show ?thesis .
qed

lemma set_entries:
  assumes "wc_ok wc"
  shows "\<lparr>entry_word = w, occurrence = n\<rparr> \<in> set (entries wc) \<longleftrightarrow> wc_tally wc w = Some n"
proof -
  let ?e = "\<lparr>entry_word = w, occurrence = n\<rparr>"
  have "?e \<in> set (entries wc) \<longleftrightarrow> (\<exists>i<WC_BUCKETS. ?e \<in> set (wc_list wc (int i)))"
    by (auto simp: entries_def)
  also have "\<dots> \<longleftrightarrow> ?e \<in> set (wc_list wc (wc_hash_val w))"
  proof
    assume "\<exists>i<WC_BUCKETS. ?e \<in> set (wc_list wc (int i))"
    then obtain i where "?e \<in> set (wc_list wc (int i))" by blast
    moreover from this have "wc_hash_val w = int i" using assms by (force simp: wc_ok_def)
    ultimately show "?e \<in> set (wc_list wc (wc_hash_val w))" by simp
  next
    assume "?e \<in> set (wc_list wc (wc_hash_val w))"
    then show "\<exists>i<WC_BUCKETS. ?e \<in> set (wc_list wc (int i))"
      using wc_hash_range [of w] by (intro exI [of _ "nat (wc_hash_val w)"]) (simp add: nat_less_iff)
  qed
  finally show ?thesis using assms by (simp add: wc_tally_def tally_entry wc_ok_def)
qed

lemma distinct_buckets:
  assumes "wc_ok wc"
  shows "distinct (map entry_word (concat (map (\<lambda>i. wc_list wc (int i)) [0..<n])))"
proof (induction n)
  case (Suc n)
  have h: "wc_hash_val (entry_word e) = int i" if "e \<in> set (wc_list wc (int i))" for e i
    using that assms by (simp add: wc_ok_def)
  have "distinct (map entry_word (wc_list wc (int n)))" using assms by (simp add: wc_ok_def)
  moreover have "entry_word ` (\<Union>i<n. set (wc_list wc (int i))) \<inter> entry_word ` set (wc_list wc (int n)) = {}"
    by (force dest!: h)
  ultimately show ?case using Suc by (simp add: atLeast0LessThan)
qed simp

lemma distinct_entries: "wc_ok wc \<Longrightarrow> distinct (map entry_word (entries wc))"
  unfolding entries_def by (rule distinct_buckets)

lemma length_words_of: "length (words_of s) \<le> length s"
proof (induction s rule: words_of.induct)
  case (1 s)
  show ?case
  proof (cases "dropWhile is_space s")
    case (Cons c cs)
    then have "\<not> is_space c" using hd_dropWhile [of is_space s] by simp
    then have "length (dropWhile (\<lambda>c. \<not> is_space c) (c # cs)) \<le> length cs" by (simp add: length_dropWhile_le)
    moreover have "length (c # cs) \<le> length s" using length_dropWhile_le [of is_space s] Cons by simp
    ultimately show ?thesis using 1 Cons by (subst words_of.simps) simp
  qed (simp add: words_of.simps)
qed

text \<open>A line of the output by the book.\<close>

definition count_line :: "string list \<Rightarrow> string \<Rightarrow> string" where
  "count_line ws w = w @ '':'' @ show_nat (count_list ws w) @ [newline]"

lemma print_counted:
  assumes "length ws < 2147483648"
  shows "print_entry \<lparr>entry_word = w, occurrence = of_nat (count_list ws w)\<rparr> = count_line ws w"
proof -
  have "count_list ws w < 2147483648" using count_le_length [of ws w] assms by simp
  then have "sint (of_nat (count_list ws w) :: 32 word) = int (count_list ws w)"
    by (simp add: signed_of_nat signed_take_bit_int_eq_self)
  then show ?thesis by (simp add: print_entry_def count_line_def show_int_def)
qed

lemma output_of_counts:
  assumes "wc_ok wc" and "wc_tally wc = (\<lambda>w. if w \<in> set ws then Some (of_nat (count_list ws w)) else None)"
    and "length ws < 2147483648"
  shows "\<exists>vs. wc_output wc = concat (map (count_line ws) vs) \<and> distinct vs \<and> set vs = set ws"
proof (intro exI conjI)
  have e: "e \<in> set (entries wc) \<longleftrightarrow> entry_word e \<in> set ws \<and> e = \<lparr>entry_word = entry_word e, occurrence = of_nat (count_list ws (entry_word e))\<rparr>" for e
    using set_entries [OF assms(1), of "entry_word e" "occurrence e"] by (cases e) (auto simp: assms(2))
  have "map print_entry (entries wc) = map (count_line ws) (map entry_word (entries wc))"
    using e print_counted [OF assms(3)] by (simp only: map_map comp_def) (rule map_cong [OF refl], metis)
  then show "wc_output wc = concat (map (count_line ws) (map entry_word (entries wc)))"
    by (simp only: wc_output_entries print_list_def)
  show "distinct (map entry_word (entries wc))" by (rule distinct_entries [OF assms(1)])
  have "w \<in> entry_word ` set (entries wc)" if "w \<in> set ws" for w
    using that e [of "\<lparr>entry_word = w, occurrence = of_nat (count_list ws w)\<rparr>"] by (force simp: image_iff)
  then show "set (map entry_word (entries wc)) = set ws" using e by auto
qed

end
