(* ===== verification/Linked_Table.thy ===== *)
theory Linked_Table
  imports Request_Queue
begin

text \<open>
  Chained buckets at pointer level, over any payload: the loops over a collision list that
  webserver_5/hash_table.h and warmup/wc.c write out in every function, and what the operations
  built from them do to a table of buckets that share one heap. A bucket is the pointer to its
  first node; \<open>same\<close> is the comparison of the code with the name it looks for.
\<close>

section \<open>The loops\<close>

text \<open>The search with the node before the current one; it stops at the end with NULL.\<close>

partial_function (option) search_chain ::
  "'v node heap \<Rightarrow> ('v \<Rightarrow> bool) \<Rightarrow> ptr \<Rightarrow> ptr \<Rightarrow> (ptr \<times> ptr) result option" where
  "search_chain h same cur last_entry =
     (if cur = NULL then Some (Inr (cur, last_entry))
      else case load h cur of
        Inl e \<Rightarrow> Some (Inl e)
      | Inr n \<Rightarrow> if same (val n) then Some (Inr (cur, last_entry)) else search_chain h same (nxt n) cur)"

text \<open>A node at the end of the list: \<open>malloc\<close> is not checked. \<open>fill\<close> makes the payload from
  what \<open>malloc\<close> found.\<close>

definition hang_entry :: "'v node heap \<Rightarrow> ptr \<Rightarrow> ('v \<Rightarrow> 'v) \<Rightarrow> 'v node heap result" where
  "hang_entry h last_entry fill =
     bindE (load h last_entry) (\<lambda>l.
     let (p, h1) = malloc h in
     bindE (store h1 last_entry (l\<lparr>nxt := p\<rparr>)) (\<lambda>h2.
     bindE (load h2 p) (\<lambda>n. store h2 p \<lparr>nxt = NULL, val = fill (val n)\<rparr>)))"

definition first_entry :: "'v node heap \<Rightarrow> 'v \<Rightarrow> ('v node heap \<times> ptr) result" where
  "first_entry h v =
     (let (p, h1) = malloc h in bindE (store h1 p \<lparr>nxt = NULL, val = v\<rparr>) (\<lambda>h2. Inr (h2, p)))"

text \<open>Unhooking the node that the search found.\<close>

definition unhook_entry :: "'v node heap \<Rightarrow> ptr \<Rightarrow> ptr \<Rightarrow> ptr \<Rightarrow> ('v node heap \<times> ptr) result" where
  "unhook_entry h list_head cur last_entry =
     bindE (load h cur) (\<lambda>n.
     if last_entry = NULL then Inr (h, nxt n)
     else bindE (load h last_entry) (\<lambda>l.
          bindE (store h last_entry (l\<lparr>nxt := nxt n\<rparr>)) (\<lambda>h1. Inr (h1, list_head))))"

lemma roomy_Malloc:
  assumes "roomy h"
  obtains a c where "Malloc h = Inr (Addr a, h\<lparr>cells := (cells h)(a \<mapsto> c), calls := Suc (calls h)\<rparr>)"
    and "cells h a = None" and "roomy (h\<lparr>cells := (cells h)(a \<mapsto> c), calls := Suc (calls h)\<rparr>)"
proof (rule roomy_malloc [OF assms])
  fix a c
  let ?h = "h\<lparr>cells := (cells h)(a \<mapsto> c), calls := Suc (calls h)\<rparr>"
  assume "malloc h = (Addr a, ?h)" "cells h a = None" "roomy ?h"
  then show thesis by (intro that [of a c]) (simp_all add: Malloc_def)
qed

section \<open>The chain of one bucket\<close>

lemma search_chain_absent:
  "chain (cells h) cur xs NULL \<Longrightarrow> \<forall>x\<in>set xs. \<not> same (snd x) \<Longrightarrow>
   search_chain h same cur prev = Some (Inr (NULL, if xs = [] then prev else Addr (fst (last xs))))"
proof (induction xs arbitrary: cur prev)
  case Nil
  then show ?case by (subst search_chain.simps) simp
next
  case (Cons x xs)
  obtain a v where x: "x = (a, v)" by (cases x)
  from Cons.prems x obtain n where "cur = Addr a" "cells h a = Some \<lparr>nxt = n, val = v\<rparr>"
    "chain (cells h) n xs NULL" "\<not> same v" by auto
  then show ?case using Cons.IH [of n "Addr a"] Cons.prems(2) x
    by (subst search_chain.simps) (simp add: heap_simps)
qed

lemma search_chain_found:
  "chain (cells h) cur (ys @ (a, v) # zs) NULL \<Longrightarrow> \<forall>x\<in>set ys. \<not> same (snd x) \<Longrightarrow> same v \<Longrightarrow>
   search_chain h same cur prev = Some (Inr (Addr a, if ys = [] then prev else Addr (fst (last ys))))"
proof (induction ys arbitrary: cur prev)
  case Nil
  then show ?case by (subst search_chain.simps) (auto simp: heap_simps)
next
  case (Cons x ys)
  obtain b w where x: "x = (b, w)" by (cases x)
  from Cons.prems x obtain n where "cur = Addr b" "cells h b = Some \<lparr>nxt = n, val = w\<rparr>"
    "chain (cells h) n (ys @ (a, v) # zs) NULL" "\<not> same w" by auto
  then show ?case using Cons.IH [of n "Addr b"] Cons.prems(2,3) x
    by (subst search_chain.simps) (simp add: heap_simps)
qed

text \<open>Where the search for a name ends.\<close>

lemma split_at_same:
  obtains "\<forall>x\<in>set xs. \<not> same (snd x)"
  | ys a v zs where "xs = ys @ (a, v) # zs" "\<forall>x\<in>set ys. \<not> same (snd x)" "same v"
  using split_list_first_propE [of xs "\<lambda>x. same (snd x)"] by (metis prod.collapse)

text \<open>The payloads that \<open>malloc\<close> may find in a new node.\<close>

definition leftovers :: "'v node heap \<Rightarrow> 'v set" where
  "leftovers h = {val c | n m a c. policy h n m = Some (a, c)}"

lemma leftovers_upd [simp]:
  "leftovers (h\<lparr>cells := m\<rparr>) = leftovers h" "leftovers (h\<lparr>calls := n\<rparr>) = leftovers h"
  "leftovers (h\<lparr>cells := m, calls := n\<rparr>) = leftovers h"
  by (simp_all add: leftovers_def)

text \<open>What an operation on one bucket may do: it replaces the nodes \<open>xs\<close> by \<open>ys\<close>, and
  nothing else changes.\<close>

definition rechains :: "'v node heap \<Rightarrow> (nat \<times> 'v) list \<Rightarrow> 'v node heap \<Rightarrow> ptr \<Rightarrow> (nat \<times> 'v) list \<Rightarrow> bool" where
  "rechains h xs h' p ys \<longleftrightarrow> chain (cells h') p ys NULL \<and> distinct (map fst ys) \<and>
     (\<forall>a. a \<notin> footprint xs \<longrightarrow> a \<notin> footprint ys \<longrightarrow> cells h' a = cells h a) \<and>
     dom (cells h') = (dom (cells h) - footprint xs) \<union> footprint ys"

lemma first_entry_rechains:
  assumes "roomy h"
  shows "\<exists>h' a. first_entry h v = Inr (h', Addr a) \<and> cells h a = None \<and> roomy h' \<and> rechains h [] h' (Addr a) [(a, v)] \<and>
    leftovers h' = leftovers h"
proof -
  obtain a c where m: "malloc h = (Addr a, h\<lparr>cells := (cells h)(a \<mapsto> c), calls := Suc (calls h)\<rparr>)"
    "cells h a = None" "roomy (h\<lparr>cells := (cells h)(a \<mapsto> c), calls := Suc (calls h)\<rparr>)"
    by (rule roomy_malloc [OF assms])
  let ?h = "h\<lparr>cells := (cells h)(a \<mapsto> \<lparr>nxt = NULL, val = v\<rparr>), calls := Suc (calls h)\<rparr>"
  have "first_entry h v = Inr (?h, Addr a)" using m(1) by (simp add: first_entry_def store_def)
  moreover have "roomy ?h" using m(3) by (simp add: roomy_def)
  ultimately show ?thesis using m(2) by (intro exI [of _ ?h] exI [of _ a]) (auto simp: rechains_def)
qed

lemma hang_entry_rechains:
  assumes "roomy h" and c: "chain (cells h) p xs NULL" "distinct (map fst xs)" and ne: "xs \<noteq> []"
  shows "\<exists>h' a j. hang_entry h (Addr (fst (last xs))) fill = Inr h' \<and> cells h a = None \<and> roomy h' \<and>
    rechains h xs h' p (xs @ [(a, fill j)]) \<and> j \<in> leftovers h \<and> leftovers h' = leftovers h"
proof -
  obtain ys b w where xs: "xs = ys @ [(b, w)]" using ne by (metis rev_exhaust surj_pair)
  have cb: "chain (cells h) p ys (Addr b)" "cells h b = Some \<lparr>nxt = NULL, val = w\<rparr>"
    using c(1) by (simp_all add: xs chain_snoc)
  obtain a k where m: "malloc h = (Addr a, h\<lparr>cells := (cells h)(a \<mapsto> k), calls := Suc (calls h)\<rparr>)"
    "cells h a = None" "roomy (h\<lparr>cells := (cells h)(a \<mapsto> k), calls := Suc (calls h)\<rparr>)"
    by (rule roomy_malloc [OF assms(1)])
  then have "policy h (calls h) (cells h) = Some (a, k)"
    by (cases "policy h (calls h) (cells h)") (auto simp: malloc_def dest!: arg_cong [of _ _ cells] fun_upd_eqD)
  then have old: "val k \<in> leftovers h" unfolding leftovers_def by blast
  have ab: "a \<noteq> b" using m(2) cb(2) by auto
  have new: "a \<notin> footprint xs" using chain_allocated [OF c(1)] m(2) by auto
  let ?m = "(cells h)(b \<mapsto> \<lparr>nxt = Addr a, val = w\<rparr>, a \<mapsto> \<lparr>nxt = NULL, val = fill (val k)\<rparr>)"
  let ?h = "h\<lparr>cells := ?m, calls := Suc (calls h)\<rparr>"
  have "hang_entry h (Addr (fst (last xs))) fill = Inr ?h"
    using m(1) cb(2) ab by (simp add: hang_entry_def load_def store_def xs fun_upd_twist)
  moreover have "roomy ?h" using m(3) by (simp add: roomy_def)
  moreover have "chain ((cells h)(b \<mapsto> \<lparr>nxt = Addr a, val = w\<rparr>)) p xs (Addr a)"
    using chain_redirect_last [of "cells h" p ys b w NULL "Addr a"] c by (simp add: xs)
  then have "chain ?m p (xs @ [(a, fill (val k))]) NULL" using new by (simp add: chain_snoc)
  moreover have "dom ?m = (dom (cells h) - footprint xs) \<union> footprint (xs @ [(a, fill (val k))])"
    using chain_allocated [OF c(1)] by (auto simp: xs)
  ultimately show ?thesis using m(2) new c(2) old
    by (intro exI [of _ ?h] exI [of _ a] exI [of _ "val k"]) (auto simp: rechains_def xs)
qed

lemma store_rechains:
  assumes "roomy h" and c: "chain (cells h) p (ys @ (a, v) # zs) NULL" "distinct (map fst (ys @ (a, v) # zs))"
  shows "\<exists>n h'. load h (Addr a) = Inr \<lparr>nxt = n, val = v\<rparr> \<and> store h (Addr a) \<lparr>nxt = n, val = w\<rparr> = Inr h' \<and> roomy h' \<and>
    rechains h (ys @ (a, v) # zs) h' p (ys @ (a, w) # zs) \<and> leftovers h' = leftovers h"
proof -
  obtain n where n: "chain (cells h) p ys (Addr a)" "cells h a = Some \<lparr>nxt = n, val = v\<rparr>" "chain (cells h) n zs NULL"
    using c(1) by (auto simp: chain_append)
  let ?m = "(cells h)(a \<mapsto> \<lparr>nxt = n, val = w\<rparr>)"
  have "chain ?m p (ys @ (a, w) # zs) NULL" using n c(2) by (auto simp: chain_append)
  moreover have "dom ?m = (dom (cells h) - footprint (ys @ (a, v) # zs)) \<union> footprint (ys @ (a, w) # zs)"
    using chain_allocated [OF c(1)] by auto
  ultimately show ?thesis using n(2) assms(1) c(2)
    by (intro exI [of _ n] exI [of _ "h\<lparr>cells := ?m\<rparr>"]) (auto simp: heap_simps rechains_def roomy_def)
qed

lemma free_first_rechains:
  assumes "roomy h" and "cells h a = Some \<lparr>nxt = n, val = v\<rparr>" and "chain (cells h) n zs NULL"
    and "distinct (map fst ((a, v) # zs))"
  shows "free h (Addr a) = Inr (h\<lparr>cells := (cells h)(a := None)\<rparr>)" and "roomy (h\<lparr>cells := (cells h)(a := None)\<rparr>)"
    and "rechains h ((a, v) # zs) (h\<lparr>cells := (cells h)(a := None)\<rparr>) n zs"
  using assms chain_allocated [OF assms(3)] by (auto simp: heap_simps roomy_def rechains_def)

lemma unhook_and_free:
  assumes "roomy h" and c: "chain (cells h) p (ys @ (a, v) # zs) NULL" "distinct (map fst (ys @ (a, v) # zs))"
  shows "\<exists>h1 p' h2. unhook_entry h p (Addr a) (if ys = [] then NULL else Addr (fst (last ys))) = Inr (h1, p') \<and>
    (\<exists>n. load h1 (Addr a) = Inr \<lparr>nxt = n, val = v\<rparr>) \<and> free h1 (Addr a) = Inr h2 \<and> roomy h2 \<and>
    rechains h (ys @ (a, v) # zs) h2 p' (ys @ zs)"
proof (cases ys rule: rev_cases)
  case Nil
  then obtain n where p: "p = Addr a" "cells h a = Some \<lparr>nxt = n, val = v\<rparr>" "chain (cells h) n zs NULL"
    using c(1) by auto
  let ?h = "h\<lparr>cells := (cells h)(a := None)\<rparr>"
  show ?thesis using p Nil free_first_rechains [OF assms(1) p(2,3)] c(2)
    by (intro exI [of _ h] exI [of _ n] exI [of _ ?h]) (simp add: unhook_entry_def heap_simps)
next
  case (snoc us y)
  obtain b w where y: "y = (b, w)" by (cases y)
  from c(1) snoc y obtain n where p: "chain (cells h) p us (Addr b)" "cells h b = Some \<lparr>nxt = Addr a, val = w\<rparr>"
    "cells h a = Some \<lparr>nxt = n, val = v\<rparr>" "chain (cells h) n zs NULL" by (auto simp: chain_append)
  have ab: "a \<noteq> b" using c(2) snoc y by auto
  let ?m = "(cells h)(b \<mapsto> \<lparr>nxt = n, val = w\<rparr>)"
  have m: "chain (?m(a := None)) p (ys @ zs) NULL"
    using p c(2) snoc y ab by (auto simp: chain_append)
  have "dom (?m(a := None)) = (dom (cells h) - footprint (ys @ (a, v) # zs)) \<union> footprint (ys @ zs)"
    using chain_allocated [OF c(1)] c(2) p ab by (auto simp: snoc y)
  then have "rechains h (ys @ (a, v) # zs) (h\<lparr>cells := ?m(a := None)\<rparr>) p (ys @ zs)"
    using m c(2) by (auto simp: rechains_def snoc y)
  moreover have "roomy (h\<lparr>cells := ?m(a := None)\<rparr>)" using assms(1) by (auto simp: roomy_def)
  ultimately show ?thesis using p ab
    by (intro exI [of _ "h\<lparr>cells := ?m\<rparr>"] exI [of _ p] exI [of _ "h\<lparr>cells := ?m(a := None)\<rparr>"])
      (simp add: unhook_entry_def heap_simps snoc y)
qed

section \<open>All buckets\<close>

text \<open>A family of lists without an element in common, such as the addresses of the buckets.\<close>

definition separated :: "(int \<Rightarrow> nat list) \<Rightarrow> bool" where
  "separated F \<longleftrightarrow> (\<forall>i. distinct (F i)) \<and> (\<forall>i j. i \<noteq> j \<longrightarrow> set (F i) \<inter> set (F j) = {})"

definition all_of :: "(int \<Rightarrow> nat list) \<Rightarrow> nat set" where
  "all_of F = (\<Union>i. set (F i))"

lemma all_of_mem: "a \<in> set (F i) \<Longrightarrow> a \<in> all_of F"
  by (auto simp: all_of_def)

lemma separatedD:
  "separated F \<Longrightarrow> distinct (F i)"
  "separated F \<Longrightarrow> a \<in> set (F i) \<Longrightarrow> a \<in> set (F j) \<Longrightarrow> i = j"
  by (auto simp: separated_def)

lemma separated_add:
  assumes "separated F" and "a \<notin> all_of F"
  shows "separated (F(i := F i @ [a]))" and "all_of (F(i := F i @ [a])) = insert a (all_of F)"
proof -
  have "a \<notin> set (F j)" for j using assms(2) by (auto simp: all_of_def)
  then show "separated (F(i := F i @ [a]))" using assms(1) by (auto simp: separated_def)
  show "all_of (F(i := F i @ [a])) = insert a (all_of F)" by (auto simp: all_of_def split: if_splits)
qed

lemma separated_remove:
  assumes "separated F" and "F i = ys @ a # zs"
  shows "separated (F(i := ys @ zs))" and "all_of (F(i := ys @ zs)) = all_of F - {a}"
proof -
  have i: "a \<notin> set (ys @ zs)" using separatedD(1) [OF assms(1), of i] assms(2) by simp
  have other: "a \<notin> set (F j)" if "j \<noteq> i" for j
    using separatedD(2) [OF assms(1), of a i j] assms(2) that by auto
  have sub: "set (ys @ zs) \<subseteq> set (F i)" using assms(2) by auto
  have "distinct ((F(i := ys @ zs)) j)" for j
    using separatedD(1) [OF assms(1), of i] separatedD(1) [OF assms(1), of j] assms(2) by (cases "j = i") auto
  moreover have "set ((F(i := ys @ zs)) j) \<inter> set ((F(i := ys @ zs)) k) = {}" if "j \<noteq> k" for j k
  proof -
    have "set ((F(i := ys @ zs)) j) \<subseteq> set (F j)" "set ((F(i := ys @ zs)) k) \<subseteq> set (F k)" using sub by auto
    moreover have "set (F j) \<inter> set (F k) = {}" using assms(1) that by (simp add: separated_def)
    ultimately show ?thesis by blast
  qed
  ultimately show "separated (F(i := ys @ zs))" by (simp add: separated_def)
  have "set ((F(i := ys @ zs)) j) = set (F j) - {a}" for j using i other assms(2) by (cases "j = i") auto
  then show "all_of (F(i := ys @ zs)) = all_of F - {a}" unfolding all_of_def by blast
qed

definition addresses :: "(int \<Rightarrow> (nat \<times> 'v) list) \<Rightarrow> int \<Rightarrow> nat list" where
  "addresses T i = map fst (T i)"

lemma addresses_upd: "addresses (T(i := xs)) = (addresses T)(i := map fst xs)"
  by (auto simp: addresses_def)

text \<open>The heap holds the buckets and nothing else.\<close>

definition table_rep :: "'v node heap \<Rightarrow> (int \<Rightarrow> ptr) \<Rightarrow> (int \<Rightarrow> (nat \<times> 'v) list) \<Rightarrow> bool" where
  "table_rep h heads T \<longleftrightarrow> (\<forall>i. chain (cells h) (heads i) (T i) NULL) \<and> separated (addresses T) \<and>
     dom (cells h) = all_of (addresses T)"

lemma table_repD:
  assumes "table_rep h heads T"
  shows "chain (cells h) (heads i) (T i) NULL" and "distinct (map fst (T i))"
    and "dom (cells h) = all_of (addresses T)" and "separated (addresses T)"
  using assms separatedD(1) [of "addresses T" i] by (auto simp: table_rep_def addresses_def)

lemma table_rep_change:
  assumes rep: "table_rep h heads T" and r: "rechains h (T i) h' p ys"
    and sep: "separated ((addresses T)(i := map fst ys))"
    and all: "all_of ((addresses T)(i := map fst ys)) = (all_of (addresses T) - footprint (T i)) \<union> footprint ys"
  shows "table_rep h' (heads(i := p)) (T(i := ys))"
proof -
  have "chain (cells h') (heads j) (T j) NULL" if "j \<noteq> i" for j
  proof (rule chain_agree [OF table_repD(1) [OF rep, of j]], intro ballI)
    fix a assume a: "a \<in> footprint (T j)"
    then have "a \<notin> footprint (T i)"
      using separatedD(2) [OF table_repD(4) [OF rep], of a j i] that by (auto simp: addresses_def)
    moreover have "a \<notin> footprint ys"
      using separatedD(2) [OF sep, of a j i] that a by (auto simp: addresses_def)
    ultimately show "cells h' a = cells h a" using r by (simp add: rechains_def)
  qed
  then show ?thesis using r sep all table_repD(3) [OF rep]
    by (simp add: table_rep_def addresses_upd rechains_def)
qed

lemma table_rep_add:
  assumes rep: "table_rep h heads T" and r: "rechains h (T i) h' p (T i @ [(a, v)])" and new: "cells h a = None"
  shows "table_rep h' (heads(i := p)) (T(i := T i @ [(a, v)]))"
proof -
  have a: "a \<notin> all_of (addresses T)" using new table_repD(3) [OF rep] by auto
  have e: "map fst (T i @ [(a, v)]) = addresses T i @ [a]" by (simp add: addresses_def)
  have "footprint (T i) \<subseteq> all_of (addresses T)" by (auto simp: all_of_def addresses_def)
  then show ?thesis
    using separated_add [OF table_repD(4) [OF rep] a, of i]
    by (intro table_rep_change [OF rep r]) (simp_all add: e del: map_append, auto simp: addresses_def)
qed

lemma table_rep_remove:
  assumes rep: "table_rep h heads T" and t: "T i = ys @ (a, v) # zs" and r: "rechains h (T i) h' p (ys @ zs)"
  shows "table_rep h' (heads(i := p)) (T(i := ys @ zs))"
proof -
  have e: "addresses T i = map fst ys @ a # map fst zs" "map fst (ys @ zs) = map fst ys @ map fst zs"
    using t by (simp_all add: addresses_def)
  have "a \<notin> footprint (ys @ zs)" using table_repD(2) [OF rep, of i] t by auto
  moreover have "footprint (T i) \<subseteq> all_of (addresses T)" by (auto simp: all_of_def addresses_def)
  ultimately show ?thesis
    using separated_remove [OF table_repD(4) [OF rep] e(1)] t
    by (intro table_rep_change [OF rep r]) (simp_all add: e(2) del: map_append, auto)
qed

lemma table_rep_alter:
  assumes rep: "table_rep h heads T" and r: "rechains h (T i) h' p ys" and same: "map fst ys = map fst (T i)"
  shows "table_rep h' (heads(i := p)) (T(i := ys))"
proof (rule table_rep_change [OF rep r])
  have "(addresses T)(i := map fst ys) = addresses T" by (auto simp: addresses_def same)
  moreover have "footprint ys = footprint (T i)" using arg_cong [OF same, of set] by simp
  moreover have "footprint (T i) \<subseteq> all_of (addresses T)" by (auto simp: all_of_def addresses_def)
  ultimately show "separated ((addresses T)(i := map fst ys))"
    and "all_of ((addresses T)(i := map fst ys)) = (all_of (addresses T) - footprint (T i)) \<union> footprint ys"
    using table_repD(4) [OF rep] by auto
qed

section \<open>Heaps without some of their cells\<close>

definition without :: "('a \<rightharpoonup> 'b) \<Rightarrow> 'a set \<Rightarrow> 'a \<rightharpoonup> 'b" where
  "without m A = m |` (- A)"

lemma without_simps [simp]:
  "without m {} = m"
  "without (m(a := None)) A = without m (insert a A)"
  "without (without m A) A' = without m (A \<union> A')"
  "dom (without m A) = dom m - A"
  by (auto simp: without_def restrict_map_def fun_eq_iff split: if_splits)

lemma without_all: "dom m \<subseteq> A \<Longrightarrow> without m A = Map.empty"
  by (auto simp: without_def restrict_map_def fun_eq_iff)

lemma without_other: "a \<notin> A \<Longrightarrow> without m A a = m a"
  by (simp add: without_def)

end
