(* ===== verification/Linked_Words.thy ===== *)
theory Linked_Words
  imports Word_Count Linked_Table
begin

text \<open>
  The word count of warmup/wc.c with its pointers: the buckets are chains of \<open>WORD_ENTRY\<close> nodes,
  and every entry points to a copy of its word, a block of its own. The result: the program does
  to the pointers what Word_Count says of lists, with the values that \<open>malloc\<close> found in the nodes,
  and \<open>wc_destroy\<close> frees every node and every word.
\<close>

record wl_entry =
  wl_word :: ptr
  wl_occurrence :: "32 word"

record wl_table =
  wl_heads :: "int \<Rightarrow> ptr"
  wl_entries :: "wl_entry node heap"
  wl_words :: "string heap"

section \<open>The functions\<close>

partial_function (option) search_word ::
  "wl_entry node heap \<Rightarrow> string heap \<Rightarrow> string \<Rightarrow> ptr \<Rightarrow> ptr \<Rightarrow> (ptr \<times> ptr) result option" where
  "search_word h ws word cur last_entry =
     (if cur = NULL then Some (Inr (cur, last_entry))
      else (case load h cur of
          Inl e \<Rightarrow> Some (Inl e)
        | Inr n \<Rightarrow> (case load ws (wl_word (val n)) of
              Inl e \<Rightarrow> Some (Inl e)
            | Inr w \<Rightarrow> if w = word then Some (Inr (cur, last_entry)) else search_word h ws word (nxt n) cur)))"

text \<open>A copy of the word, of exactly its length; neither \<open>malloc\<close> is checked.\<close>

definition new_word :: "string heap \<Rightarrow> string \<Rightarrow> (string heap \<times> ptr) result" where
  "new_word ws word = (let (p, ws1) = malloc ws in bindE (store ws1 p word) (\<lambda>ws2. Inr (ws2, p)))"

definition bump_entry :: "wl_entry node heap \<Rightarrow> ptr \<Rightarrow> wl_entry node heap result" where
  "bump_entry h cur = bindE (load h cur) (\<lambda>n.
     store h cur (n\<lparr>val := (val n)\<lparr>wl_occurrence := wl_occurrence (val n) + 1\<rparr>\<rparr>))"

text \<open>The occurrence of an entry that is hung up at the end is what \<open>malloc\<close> found, plus one.\<close>

definition wl_add_to_list ::
  "wl_entry node heap \<Rightarrow> string heap \<Rightarrow> ptr \<Rightarrow> string \<Rightarrow> (wl_entry node heap \<times> string heap \<times> ptr) result" where
  "wl_add_to_list h ws list_head word =
     (if list_head = NULL then
        bindE (new_word ws word) (\<lambda>(ws', w).
        bindE (first_entry h \<lparr>wl_word = w, wl_occurrence = 1\<rparr>) (\<lambda>(h', p). Inr (h', ws', p)))
      else
        bindE (loopE (search_word h ws word list_head NULL)) (\<lambda>(cur, last_entry).
        if cur \<noteq> NULL then bindE (bump_entry h cur) (\<lambda>h'. Inr (h', ws, list_head))
        else bindE (new_word ws word) (\<lambda>(ws', w).
             bindE (hang_entry h last_entry (\<lambda>j. \<lparr>wl_word = w, wl_occurrence = wl_occurrence j + 1\<rparr>)) (\<lambda>h'.
             Inr (h', ws', list_head)))))"

definition wl_add_to_hash_table :: "wl_table \<Rightarrow> string \<Rightarrow> wl_table result" where
  "wl_add_to_hash_table s word =
     (let i = wc_hash_val word in
      bindE (assertE (i \<ge> 0 \<and> i < int WC_BUCKETS)) (\<lambda>_.
      bindE (wl_add_to_list (wl_entries s) (wl_words s) (wl_heads s i) word) (\<lambda>(h, ws, p).
      Inr (s\<lparr>wl_heads := (wl_heads s)(i := p), wl_entries := h, wl_words := ws\<rparr>))))"

definition wl_init :: "wl_entry node heap \<Rightarrow> string heap \<Rightarrow> string \<Rightarrow> wl_table result" where
  "wl_init h ws words =
     (if length words \<ge> 2147483648 then Inl Undefined
      else wc_loop wl_add_to_hash_table words 0 0 False \<lparr>wl_heads = (\<lambda>_. NULL), wl_entries = h, wl_words = ws\<rparr>)"

partial_function (option) print_words ::
  "wl_entry node heap \<Rightarrow> string heap \<Rightarrow> ptr \<Rightarrow> string \<Rightarrow> string result option" where
  "print_words h ws cur out =
     (if cur = NULL then Some (Inr out)
      else (case load h cur of
          Inl e \<Rightarrow> Some (Inl e)
        | Inr n \<Rightarrow> (case load ws (wl_word (val n)) of
              Inl e \<Rightarrow> Some (Inl e)
            | Inr w \<Rightarrow> print_words h ws (nxt n)
                (out @ print_entry \<lparr>entry_word = w, occurrence = wl_occurrence (val n)\<rparr>))))"

definition wl_print_list :: "wl_table \<Rightarrow> string \<Rightarrow> int \<Rightarrow> string result" where
  "wl_print_list s out i = loopE (print_words (wl_entries s) (wl_words s) (wl_heads s i) out)"

definition wl_output :: "wl_table \<Rightarrow> string result" where
  "wl_output s = foldE (wl_print_list s) [] (map int [0..<WC_BUCKETS])"

partial_function (option) delete_words ::
  "wl_entry node heap \<Rightarrow> string heap \<Rightarrow> ptr \<Rightarrow> (wl_entry node heap \<times> string heap) result option" where
  "delete_words h ws cur =
     (if cur = NULL then Some (Inr (h, ws))
      else (case load h cur of
          Inl e \<Rightarrow> Some (Inl e)
        | Inr n \<Rightarrow> (case free ws (wl_word (val n)) of
              Inl e \<Rightarrow> Some (Inl e)
            | Inr ws' \<Rightarrow> (case free h cur of
                  Inl e \<Rightarrow> Some (Inl e)
                | Inr h' \<Rightarrow> delete_words h' ws' (nxt n)))))"

definition wl_delete_list :: "wl_table \<Rightarrow> int \<Rightarrow> wl_table result" where
  "wl_delete_list s i = bindE (loopE (delete_words (wl_entries s) (wl_words s) (wl_heads s i)))
     (\<lambda>(h, ws). Inr (s\<lparr>wl_entries := h, wl_words := ws\<rparr>))"

text \<open>The table is not used afterwards; what is left are the two heaps.\<close>

definition wl_destroy :: "wl_table \<Rightarrow> wl_table result" where
  "wl_destroy s = foldE wl_delete_list s (map int [0..<WC_BUCKETS])"

section \<open>The representation\<close>

text \<open>An entry with its address, the address of its word, the word and its count.\<close>

record wl_bead =
  w_addr :: nat
  w_block :: nat
  w_text :: string
  w_count :: "32 word"

definition word_node :: "wl_bead \<Rightarrow> nat \<times> wl_entry" where
  "word_node x = (w_addr x, \<lparr>wl_word = Addr (w_block x), wl_occurrence = w_count x\<rparr>)"

definition word_item :: "wl_bead \<Rightarrow> word_entry" where
  "word_item x = \<lparr>entry_word = w_text x, occurrence = w_count x\<rparr>"

definition text_blocks :: "(int \<Rightarrow> wl_bead list) \<Rightarrow> int \<Rightarrow> nat list" where
  "text_blocks B i = map w_block (B i)"

definition words_rep :: "string heap \<Rightarrow> (int \<Rightarrow> wl_bead list) \<Rightarrow> bool" where
  "words_rep ws B \<longleftrightarrow> (\<forall>i. \<forall>x\<in>set (B i). cells ws (w_block x) = Some (w_text x)) \<and>
     separated (text_blocks B) \<and> dom (cells ws) = all_of (text_blocks B)"

definition wl_nodes :: "(int \<Rightarrow> wl_bead list) \<Rightarrow> int \<Rightarrow> (nat \<times> wl_entry) list" where
  "wl_nodes B i = map word_node (B i)"

definition wl_rep :: "wl_table \<Rightarrow> (int \<Rightarrow> word_entry list) \<Rightarrow> (int \<Rightarrow> wl_bead list) \<Rightarrow> bool" where
  "wl_rep s L B \<longleftrightarrow> table_rep (wl_entries s) (wl_heads s) (wl_nodes B) \<and> words_rep (wl_words s) B \<and>
     L = (\<lambda>i. map word_item (B i)) \<and> (\<forall>i. B i \<noteq> [] \<longrightarrow> 0 \<le> i \<and> i < int WC_BUCKETS) \<and>
     roomy (wl_entries s) \<and> roomy (wl_words s)"

lemma wl_repD:
  assumes "wl_rep s L B"
  shows "table_rep (wl_entries s) (wl_heads s) (wl_nodes B)" and "words_rep (wl_words s) B"
    and "L i = map word_item (B i)" and "B i \<noteq> [] \<Longrightarrow> 0 \<le> i \<and> i < int WC_BUCKETS"
    and "roomy (wl_entries s)" and "roomy (wl_words s)"
  using assms by (simp_all add: wl_rep_def)

lemma word_node_simps [simp]:
  "fst (word_node x) = w_addr x" "wl_word (snd (word_node x)) = Addr (w_block x)" "wl_occurrence (snd (word_node x)) = w_count x"
  "entry_word (word_item x) = w_text x" "occurrence (word_item x) = w_count x"
  by (simp_all add: word_node_def word_item_def)

lemma wl_nodes_upd: "wl_nodes (B(i := xs)) = (wl_nodes B)(i := map word_node xs)"
  by (auto simp: wl_nodes_def)

lemma text_blocks_upd: "text_blocks (B(i := xs)) = (text_blocks B)(i := map w_block xs)"
  by (auto simp: text_blocks_def)

lemma words_repD:
  "words_rep ws B \<Longrightarrow> x \<in> set (B i) \<Longrightarrow> cells ws (w_block x) = Some (w_text x)"
  by (simp add: words_rep_def)

lemma new_word_ok:
  assumes rep: "words_rep ws B" and "roomy ws"
  obtains ws' k where "new_word ws word = Inr (ws', Addr k)" and "roomy ws'"
    and "\<And>a c. words_rep ws' (B(i := B i @ [\<lparr>w_addr = a, w_block = k, w_text = word, w_count = c\<rparr>]))"
proof -
  obtain k c where m: "malloc ws = (Addr k, ws\<lparr>cells := (cells ws)(k \<mapsto> c), calls := Suc (calls ws)\<rparr>)"
    "cells ws k = None" "roomy (ws\<lparr>cells := (cells ws)(k \<mapsto> c), calls := Suc (calls ws)\<rparr>)"
    by (rule roomy_malloc [OF assms(2)])
  let ?ws = "ws\<lparr>cells := (cells ws)(k \<mapsto> word), calls := Suc (calls ws)\<rparr>"
  have k: "k \<notin> all_of (text_blocks B)" using rep m(2) by (auto simp: words_rep_def)
  then have other: "w_block x \<noteq> k" if "x \<in> set (B j)" for x j using that by (auto simp: all_of_def text_blocks_def)
  have e: "text_blocks (B(i := B i @ [\<lparr>w_addr = a, w_block = k, w_text = word, w_count = n\<rparr>])) =
      (text_blocks B)(i := text_blocks B i @ [k])" for a n
    by (auto simp: text_blocks_def)
  have "words_rep ?ws (B(i := B i @ [\<lparr>w_addr = a, w_block = k, w_text = word, w_count = n\<rparr>]))" for a n
    unfolding words_rep_def e
    using rep separated_add [of "text_blocks B" k i] k other by (auto simp: words_rep_def)
  moreover have "new_word ws word = Inr (?ws, Addr k)" using m(1) by (simp add: new_word_def store_def)
  moreover have "roomy ?ws" using m(3) by (simp add: roomy_def)
  ultimately show thesis using that by blast
qed

section \<open>One bucket\<close>

lemma search_word_search_chain:
  "chain (cells h) cur (map word_node xs) NULL \<Longrightarrow> \<forall>x\<in>set xs. cells ws (w_block x) = Some (w_text x) \<Longrightarrow>
   search_word h ws word cur prev = search_chain h (\<lambda>e. load ws (wl_word e) = Inr word) cur prev"
proof (induction xs arbitrary: cur prev)
  case Nil
  then show ?case by (subst search_word.simps, subst search_chain.simps) simp
next
  case (Cons x xs)
  then show ?case
    by (subst search_word.simps, subst search_chain.simps) (auto simp: word_node_def heap_simps)
qed

lemma first_text:
  obtains "word \<notin> w_text ` set xs"
  | ys x zs where "xs = ys @ x # zs" "w_text x = word" "word \<notin> w_text ` set ys"
  using split_list_first_propE [of xs "\<lambda>x. w_text x = word"] by (metis imageE)

lemma bump_items:
  "word \<notin> w_text ` set xs \<Longrightarrow>
   bump_or_append (map word_item xs) word j = (map word_item xs @ [\<lparr>entry_word = word, occurrence = j + 1\<rparr>], True)"
  "word \<notin> w_text ` set xs \<Longrightarrow> w_text x = word \<Longrightarrow>
   bump_or_append (map word_item (xs @ x # zs)) word j = (map word_item (xs @ x\<lparr>w_count := w_count x + 1\<rparr> # zs), False)"
  by (induction xs) (auto simp: word_item_def)

lemma junk_irrelevant: "\<not> snd (wc_add_to_list es w j) \<Longrightarrow> wc_add_to_list es w k = wc_add_to_list es w j"
proof -
  have "\<not> snd (bump_or_append es w j) \<Longrightarrow> bump_or_append es w k = bump_or_append es w j"
    by (induction es) (auto simp: split_beta)
  then show "\<not> snd (wc_add_to_list es w j) \<Longrightarrow> wc_add_to_list es w k = wc_add_to_list es w j"
    by (auto simp: wc_add_to_list_def)
qed

text \<open>What finding no memory trouble means for the values that a new entry can start from.\<close>

definition junk_counts :: "wl_entry node heap \<Rightarrow> 32 word set" where
  "junk_counts h = insert 0 (wl_occurrence ` leftovers h)"

text \<open>A call of \<open>add_to_list\<close> on the bucket \<open>i\<close>.\<close>

definition adds :: "wl_table \<Rightarrow> (int \<Rightarrow> wl_bead list) \<Rightarrow> int \<Rightarrow> string \<Rightarrow> 32 word \<Rightarrow> bool" where
  "adds s B i word j \<longleftrightarrow> (\<exists>h ws p xs. wl_add_to_list (wl_entries s) (wl_words s) (wl_heads s i) word = Inr (h, ws, p) \<and>
     map word_item xs = fst (wc_add_to_list (map word_item (B i)) word j) \<and>
     table_rep h ((wl_heads s)(i := p)) ((wl_nodes B)(i := map word_node xs)) \<and> words_rep ws (B(i := xs)) \<and>
     roomy h \<and> roomy ws \<and> leftovers h = leftovers (wl_entries s))"

lemma add_to_empty_bucket:
  assumes rep: "wl_rep s L B" and e: "B i = []"
  shows "adds s B i word 0"
proof -
  note D = wl_repD [OF rep]
  have n: "wl_nodes B i = []" using e by (simp add: wl_nodes_def)
  then have head: "wl_heads s i = NULL" using table_repD(1) [OF D(1), of i] by simp
  obtain ws k where w: "new_word (wl_words s) word = Inr (ws, Addr k)" "roomy ws"
    "\<And>a c. words_rep ws (B(i := B i @ [\<lparr>w_addr = a, w_block = k, w_text = word, w_count = c\<rparr>]))"
    by (rule new_word_ok [OF D(2,6)]) blast
  let ?v = "\<lparr>wl_word = Addr k, wl_occurrence = 1\<rparr>"
  obtain h a where f: "first_entry (wl_entries s) ?v = Inr (h, Addr a)" "cells (wl_entries s) a = None" "roomy h"
    "rechains (wl_entries s) [] h (Addr a) [(a, ?v)]" "leftovers h = leftovers (wl_entries s)"
    using first_entry_rechains [OF D(5)] by blast
  let ?x = "\<lparr>w_addr = a, w_block = k, w_text = word, w_count = 1\<rparr>"
  have "table_rep h ((wl_heads s)(i := Addr a)) ((wl_nodes B)(i := wl_nodes B i @ [(a, ?v)]))"
    by (rule table_rep_add [OF D(1) _ f(2)]) (use f(4) n in simp)
  then show ?thesis unfolding adds_def using w(1,2) w(3) [of a 1] f(1,3,5) head n e
    by (intro exI [of _ h] exI [of _ ws] exI [of _ "Addr a"] exI [of _ "[?x]"])
      (simp add: wl_add_to_list_def wc_add_to_list_def word_item_def word_node_def)
qed

lemma bucket_search:
  assumes "wl_rep s L B"
  shows "search_word (wl_entries s) (wl_words s) word (wl_heads s i) NULL =
     search_chain (wl_entries s) (\<lambda>e. load (wl_words s) (wl_word e) = Inr word) (wl_heads s i) NULL"
  using table_repD(1) [OF wl_repD(1) [OF assms], of i] words_repD [OF wl_repD(2) [OF assms]]
  by (intro search_word_search_chain [where xs = "B i"]) (auto simp: wl_nodes_def)

lemma bucket_same:
  "wl_rep s L B \<Longrightarrow> x \<in> set (B i) \<Longrightarrow> load (wl_words s) (wl_word (snd (word_node x))) = Inr word \<longleftrightarrow> w_text x = word"
  using words_repD [OF wl_repD(2)] by (simp add: load_def)

lemma add_known_word:
  assumes rep: "wl_rep s L B" and b: "B i = ys @ x # zs" and w: "w_text x = word" "word \<notin> w_text ` set ys"
  shows "adds s B i word 0"
proof -
  note D = wl_repD [OF rep]
  let ?same = "\<lambda>e. load (wl_words s) (wl_word e) = Inr word" and ?x = "x\<lparr>w_count := w_count x + 1\<rparr>"
  obtain v where v: "word_node x = (w_addr x, v)" "wl_occurrence v = w_count x" "wl_word v = Addr (w_block x)"
    using word_node_simps [of x] by (metis prod.collapse)
  have n: "wl_nodes B i = map word_node ys @ (w_addr x, v) # map word_node zs" using b v by (simp add: wl_nodes_def)
  note c = table_repD(1,2) [OF D(1), of i, unfolded n]
  have head: "wl_heads s i \<noteq> NULL" using chain_to_NULL [OF c(1)] by simp
  have "\<forall>y\<in>set (map word_node ys). \<not> ?same (snd y)" using bucket_same [OF rep, of _ i word] b w(2) by auto
  moreover have "?same v" using bucket_same [OF rep, of x i word] b w(1) v by simp
  ultimately have f: "search_word (wl_entries s) (wl_words s) word (wl_heads s i) NULL =
      Some (Inr (Addr (w_addr x), if map word_node ys = [] then NULL else Addr (fst (last (map word_node ys)))))"
    unfolding bucket_search [OF rep] by (rule search_chain_found [OF c(1)])
  let ?v = "v\<lparr>wl_occurrence := w_count x + 1\<rparr>"
  obtain q h where h: "load (wl_entries s) (Addr (w_addr x)) = Inr \<lparr>nxt = q, val = v\<rparr>"
    "store (wl_entries s) (Addr (w_addr x)) \<lparr>nxt = q, val = ?v\<rparr> = Inr h" "roomy h"
    "rechains (wl_entries s) (wl_nodes B i) h (wl_heads s i) (map word_node ys @ (w_addr x, ?v) # map word_node zs)"
    "leftovers h = leftovers (wl_entries s)"
    using store_rechains [OF D(5) c, of ?v] n by auto
  have x: "map word_node (ys @ ?x # zs) = map word_node ys @ (w_addr x, ?v) # map word_node zs"
    using v by (cases v) (simp add: word_node_def)
  have "table_rep h ((wl_heads s)(i := wl_heads s i)) ((wl_nodes B)(i := map word_node (ys @ ?x # zs)))"
    unfolding x by (rule table_rep_alter [OF D(1) h(4)]) (simp add: n)
  moreover have "text_blocks (B(i := ys @ ?x # zs)) = text_blocks B" using b by (auto simp: text_blocks_def)
  then have "words_rep (wl_words s) (B(i := ys @ ?x # zs))"
    using D(2) words_repD [OF D(2), of _ i] b unfolding words_rep_def by simp
  moreover have "wl_add_to_list (wl_entries s) (wl_words s) (wl_heads s i) word = Inr (h, wl_words s, wl_heads s i)"
    using f head h(1,2) v(2) by (simp add: wl_add_to_list_def bump_entry_def)
  moreover have "map word_item (ys @ ?x # zs) = fst (wc_add_to_list (map word_item (B i)) word 0)"
    using bump_items(2) [of word ys x zs 0] w b by (simp add: wc_add_to_list_def)
  ultimately show ?thesis unfolding adds_def using h(3,5) D(6) by blast
qed

lemma add_new_word:
  assumes rep: "wl_rep s L B" and ne: "B i \<noteq> []" and w: "word \<notin> w_text ` set (B i)"
  shows "\<exists>j\<in>junk_counts (wl_entries s). adds s B i word j"
proof -
  note D = wl_repD [OF rep]
  note c = table_repD(1,2) [OF D(1), of i]
  have n: "wl_nodes B i \<noteq> []" "wl_nodes B i = map word_node (B i)" using ne by (simp_all add: wl_nodes_def)
  then have head: "wl_heads s i \<noteq> NULL" using chain_to_NULL [OF c(1)] by simp
  have "\<forall>y\<in>set (wl_nodes B i). \<not> load (wl_words s) (wl_word (snd y)) = Inr word"
    using bucket_same [OF rep, of _ i word] w by (auto simp: wl_nodes_def)
  then have f: "search_word (wl_entries s) (wl_words s) word (wl_heads s i) NULL =
      Some (Inr (NULL, Addr (fst (last (wl_nodes B i)))))"
    unfolding bucket_search [OF rep] using search_chain_absent [OF c(1)] n(1) by simp
  obtain ws k where k: "new_word (wl_words s) word = Inr (ws, Addr k)" "roomy ws"
    "\<And>a c. words_rep ws (B(i := B i @ [\<lparr>w_addr = a, w_block = k, w_text = word, w_count = c\<rparr>]))"
    by (rule new_word_ok [OF D(2,6)]) blast
  let ?fill = "\<lambda>j. \<lparr>wl_word = Addr k, wl_occurrence = wl_occurrence j + 1\<rparr>"
  obtain h a j where h: "hang_entry (wl_entries s) (Addr (fst (last (wl_nodes B i)))) ?fill = Inr h"
    "cells (wl_entries s) a = None" "roomy h" "rechains (wl_entries s) (wl_nodes B i) h (wl_heads s i) (wl_nodes B i @ [(a, ?fill j)])"
    "j \<in> leftovers (wl_entries s)" "leftovers h = leftovers (wl_entries s)"
    using hang_entry_rechains [OF D(5) c n(1), of ?fill] by blast
  let ?x = "\<lparr>w_addr = a, w_block = k, w_text = word, w_count = wl_occurrence j + 1\<rparr>"
  have x: "map word_node (B i @ [?x]) = wl_nodes B i @ [(a, ?fill j)]" by (simp add: n(2) word_node_def)
  have "table_rep h ((wl_heads s)(i := wl_heads s i)) ((wl_nodes B)(i := map word_node (B i @ [?x])))"
    unfolding x by (rule table_rep_add [OF D(1) h(4,2)])
  moreover have "wl_add_to_list (wl_entries s) (wl_words s) (wl_heads s i) word = Inr (h, ws, wl_heads s i)"
    using f head h(1) k(1) by (simp add: wl_add_to_list_def)
  moreover have "map word_item (B i @ [?x]) = fst (wc_add_to_list (map word_item (B i)) word (wl_occurrence j))"
    using bump_items(1) [OF w] ne by (simp add: wc_add_to_list_def word_item_def)
  ultimately have "adds s B i word (wl_occurrence j)" unfolding adds_def using h(3,6) k(2,3) by blast
  then show ?thesis using h(5) by (auto simp: junk_counts_def)
qed

lemma adds_some:
  assumes "wl_rep s L B"
  shows "\<exists>j\<in>junk_counts (wl_entries s). adds s B i word j"
proof (cases rule: first_text [of word "B i"])
  case 1
  then show ?thesis using add_new_word [OF assms, of i word] add_to_empty_bucket [OF assms, of i word]
    by (cases "B i = []") (auto simp: junk_counts_def)
next
  case (2 ys x zs)
  then show ?thesis using add_known_word [OF assms, of i ys x zs word] by (auto simp: junk_counts_def)
qed

section \<open>The table\<close>

lemma wl_add_ok:
  assumes rep: "wl_rep s L B"
  shows "\<exists>s' B' j. wl_add_to_hash_table s word = Inr s' \<and> j \<in> junk_counts (wl_entries s) \<and>
    leftovers (wl_entries s') = leftovers (wl_entries s) \<and>
    wl_rep s' (L(wc_hash_val word := fst (wc_add_to_list (L (wc_hash_val word)) word j))) B'"
proof -
  note D = wl_repD [OF rep]
  define i where "i = wc_hash_val word"
  have i: "0 \<le> i" "i < int WC_BUCKETS" using wc_hash_range [of word] by (simp_all add: i_def)
  obtain j where j: "j \<in> junk_counts (wl_entries s)" and "adds s B i word j" using adds_some [OF rep] by blast
  then obtain h ws p xs where a: "wl_add_to_list (wl_entries s) (wl_words s) (wl_heads s i) word = Inr (h, ws, p)"
    "map word_item xs = fst (wc_add_to_list (map word_item (B i)) word j)"
    "table_rep h ((wl_heads s)(i := p)) ((wl_nodes B)(i := map word_node xs))" "words_rep ws (B(i := xs))"
    "roomy h" "roomy ws" "leftovers h = leftovers (wl_entries s)"
    unfolding adds_def by blast
  let ?s = "s\<lparr>wl_heads := (wl_heads s)(i := p), wl_entries := h, wl_words := ws\<rparr>"
  have "wl_rep ?s (L(i := fst (wc_add_to_list (L i) word j))) (B(i := xs))"
    unfolding wl_rep_def wl_nodes_upd using a(2-6) i D(3,4) by (auto simp: fun_eq_iff)
  moreover have "wl_add_to_hash_table s word = Inr ?s"
    using a(1) i by (simp add: wl_add_to_hash_table_def i_def [symmetric])
  ultimately show ?thesis using j a(7) unfolding i_def [symmetric]
    by (intro exI [of _ ?s] exI [of _ "B(i := xs)"] exI [of _ j]) simp
qed

text \<open>A run over pointers is a run over lists, for some values that \<open>malloc\<close> may have found.\<close>

lemma wl_adds_ok:
  "wl_rep s (wc_list wc) B \<Longrightarrow>
   \<exists>s' wc' B' junk. foldE wl_add_to_hash_table s ws = Inr s' \<and>
     foldE wc_add_to_hash_table (wc\<lparr>found := junk\<rparr>) ws = Inr wc' \<and> wl_rep s' (wc_list wc') B' \<and>
     (\<forall>k<allocated wc. junk k = found wc k) \<and> (\<forall>k\<ge>allocated wc. junk k \<in> junk_counts (wl_entries s))"
proof (induction ws arbitrary: s wc B)
  case Nil
  let ?junk = "\<lambda>k. if k < allocated wc then found wc k else 0"
  show ?case using Nil by (intro exI [of _ s] exI [of _ "wc\<lparr>found := ?junk\<rparr>"] exI [of _ B] exI [of _ ?junk])
      (simp add: junk_counts_def)
next
  case (Cons w ws)
  define i where "i = wc_hash_val w"
  obtain s1 B1 j where s1: "wl_add_to_hash_table s w = Inr s1" "j \<in> junk_counts (wl_entries s)"
    "leftovers (wl_entries s1) = leftovers (wl_entries s)"
    "wl_rep s1 ((wc_list wc)(i := fst (wc_add_to_list (wc_list wc i) w j))) B1"
    using wl_add_ok [OF Cons.prems, of w] unfolding i_def by blast
  obtain es b where es: "wc_add_to_list (wc_list wc i) w j = (es, b)" by (cases "wc_add_to_list (wc_list wc i) w j")
  define n where "n = (if b then Suc (allocated wc) else allocated wc)"
  define wc1 where "wc1 = wc\<lparr>wc_list := (wc_list wc)(i := es), allocated := n, found := (found wc)(allocated wc := j)\<rparr>"
  have "wl_rep s1 (wc_list wc1) B1" using s1(4) es by (simp add: wc1_def)
  from Cons.IH [OF this] obtain s' wc' B' junk where r: "foldE wl_add_to_hash_table s1 ws = Inr s'"
    "foldE wc_add_to_hash_table (wc1\<lparr>found := junk\<rparr>) ws = Inr wc'" "wl_rep s' (wc_list wc') B'"
    and old: "\<forall>k<n. junk k = found wc1 k" and new: "\<forall>k\<ge>n. junk k \<in> junk_counts (wl_entries s1)"
    unfolding wc1_def by auto
  have same: "junk_counts (wl_entries s1) = junk_counts (wl_entries s)" using s1(3) by (simp add: junk_counts_def)
  have "wc_add_to_list (wc_list wc i) w (junk (allocated wc)) = (es, b)"
    using es old junk_irrelevant [of "wc_list wc i" w j] by (cases b) (simp_all add: n_def wc1_def)
  then have "wc_add_to_hash_table (wc\<lparr>found := junk\<rparr>) w = Inr (wc1\<lparr>found := junk\<rparr>)"
    using wc_hash_range [of w] by (simp add: wc_add_to_hash_table_def wc1_def n_def i_def [symmetric])
  then have "foldE wc_add_to_hash_table (wc\<lparr>found := junk\<rparr>) (w # ws) = Inr wc'" using r(2) by simp
  moreover have "\<forall>k<allocated wc. junk k = found wc k" using old by (simp add: wc1_def n_def)
  moreover have "junk k \<in> junk_counts (wl_entries s)" if k: "k \<ge> allocated wc" for k
    using old new s1(2) same k by (cases "k = allocated wc \<and> b") (auto simp: n_def wc1_def Suc_le_eq)
  ultimately show ?case using s1(1) r(1,3) by auto
qed

section \<open>The output\<close>

lemma print_words_ok:
  "chain (cells h) cur (map word_node xs) NULL \<Longrightarrow> \<forall>x\<in>set xs. cells ws (w_block x) = Some (w_text x) \<Longrightarrow>
   print_words h ws cur out = Some (Inr (out @ print_list (map word_item xs)))"
proof (induction xs arbitrary: cur out)
  case Nil
  then show ?case by (subst print_words.simps) (simp add: print_list_def)
next
  case (Cons x xs)
  then show ?case
    by (subst print_words.simps) (auto simp: word_node_def word_item_def [of x] print_list_def heap_simps)
qed

lemma wl_print_list_ok:
  assumes "wl_rep s L B"
  shows "wl_print_list s out i = Inr (out @ print_list (L i))"
proof -
  have "print_words (wl_entries s) (wl_words s) (wl_heads s i) out = Some (Inr (out @ print_list (map word_item (B i))))"
    using table_repD(1) [OF wl_repD(1) [OF assms], of i] words_repD [OF wl_repD(2) [OF assms]]
    by (intro print_words_ok) (auto simp: wl_nodes_def)
  then show ?thesis using wl_repD(3) [OF assms, of i] by (simp add: wl_print_list_def)
qed

lemma wl_output_ok:
  assumes "wl_rep s (wc_list wc) B"
  shows "wl_output s = Inr (wc_output wc)"
proof -
  have "foldE (wl_print_list s) out is = Inr (out @ concat (map (\<lambda>i. print_list (wc_list wc i)) is))" for out "is"
    by (induction "is" arbitrary: out) (simp_all add: wl_print_list_ok [OF assms])
  then show ?thesis by (simp add: wl_output_def wc_output_def comp_def)
qed

section \<open>The deletion\<close>

lemma delete_words_ok:
  "chain (cells h) p (map word_node xs) NULL \<Longrightarrow> distinct (map w_addr xs) \<Longrightarrow> distinct (map w_block xs) \<Longrightarrow>
   \<forall>x\<in>set xs. cells ws (w_block x) = Some (w_text x) \<Longrightarrow>
   delete_words h ws p = Some (Inr (h\<lparr>cells := without (cells h) (w_addr ` set xs)\<rparr>,
     ws\<lparr>cells := without (cells ws) (w_block ` set xs)\<rparr>))"
proof (induction xs arbitrary: h ws p)
  case Nil
  then show ?case by (subst delete_words.simps) simp
next
  case (Cons x xs)
  let ?v = "\<lparr>wl_word = Addr (w_block x), wl_occurrence = w_count x\<rparr>"
  obtain n where n: "p = Addr (w_addr x)" "cells h (w_addr x) = Some \<lparr>nxt = n, val = ?v\<rparr>"
    "chain (cells h) n (map word_node xs) NULL" using Cons.prems(1) word_node_def [of x] by auto
  let ?h = "h\<lparr>cells := (cells h)(w_addr x := None)\<rparr>" and ?ws = "ws\<lparr>cells := (cells ws)(w_block x := None)\<rparr>"
  have new: "w_addr x \<notin> w_addr ` set xs" "\<forall>y\<in>set xs. w_block y \<noteq> w_block x"
    using Cons.prems(2,3) by (simp, simp, metis imageI)
  have "chain (cells ?h) n (map word_node xs) NULL"
    by (rule chain_agree [OF n(3)]) (use Cons.prems(2) in \<open>auto simp: image_iff\<close>)
  then have "delete_words ?h ?ws n = Some (Inr (?h\<lparr>cells := without (cells ?h) (w_addr ` set xs)\<rparr>,
     ?ws\<lparr>cells := without (cells ?ws) (w_block ` set xs)\<rparr>))"
    by (rule Cons.IH) (use Cons.prems(2-4) new(2) in simp_all)
  then show ?case using n(1,2) Cons.prems(4)
    by (subst delete_words.simps) (simp add: load_def free_def)
qed

text \<open>The buckets \<open>js\<close> are still as they were.\<close>

definition buckets_left :: "wl_table \<Rightarrow> (int \<Rightarrow> wl_bead list) \<Rightarrow> int list \<Rightarrow> bool" where
  "buckets_left s B js \<longleftrightarrow> (\<forall>i\<in>set js. chain (cells (wl_entries s)) (wl_heads s i) (map word_node (B i)) NULL \<and>
     (\<forall>x\<in>set (B i). cells (wl_words s) (w_block x) = Some (w_text x)))"

definition wl_freed :: "wl_table \<Rightarrow> nat set \<Rightarrow> nat set \<Rightarrow> wl_table" where
  "wl_freed s A K = s\<lparr>wl_entries := (wl_entries s)\<lparr>cells := without (cells (wl_entries s)) A\<rparr>,
     wl_words := (wl_words s)\<lparr>cells := without (cells (wl_words s)) K\<rparr>\<rparr>"

lemma wl_delete_lists_ok:
  "separated (addresses (wl_nodes B)) \<Longrightarrow> separated (text_blocks B) \<Longrightarrow> distinct js \<Longrightarrow> buckets_left s B js \<Longrightarrow>
   foldE wl_delete_list s js = Inr (wl_freed s (\<Union>i\<in>set js. w_addr ` set (B i)) (\<Union>i\<in>set js. w_block ` set (B i)))"
proof (induction js arbitrary: s)
  case Nil
  then show ?case by (simp add: wl_freed_def)
next
  case (Cons j js)
  have a: "addresses (wl_nodes B) i = map w_addr (B i)" for i
    by (simp add: addresses_def wl_nodes_def)
  let ?A = "w_addr ` set (B j)" and ?K = "w_block ` set (B j)"
  have one: "wl_delete_list s j = Inr (wl_freed s ?A ?K)"
    using delete_words_ok [of "wl_entries s" "wl_heads s j" "B j" "wl_words s"] Cons.prems(4)
      separatedD(1) [OF Cons.prems(1), of j] separatedD(1) [OF Cons.prems(2), of j]
    by (simp add: a text_blocks_def buckets_left_def wl_delete_list_def wl_freed_def)
  have "buckets_left (wl_freed s ?A ?K) B js" unfolding buckets_left_def
  proof (intro ballI conjI)
    fix i assume i: "i \<in> set js"
    then have ij: "i \<noteq> j" using Cons.prems(3) by auto
    have other: "w_addr x \<notin> ?A" "w_block x \<notin> ?K" if "x \<in> set (B i)" for x
      using separatedD(2) [OF Cons.prems(1), of "w_addr x" i j] separatedD(2) [OF Cons.prems(2), of "w_block x" i j] that ij
      by (auto simp: a text_blocks_def)
    have "chain (cells (wl_entries s)) (wl_heads s i) (map word_node (B i)) NULL"
      using Cons.prems(4) i by (simp add: buckets_left_def)
    then show "chain (cells (wl_entries (wl_freed s ?A ?K))) (wl_heads (wl_freed s ?A ?K) i) (map word_node (B i)) NULL"
      unfolding wl_freed_def by (simp, rule chain_agree) (use other in \<open>auto simp: without_other\<close>)
    fix x assume "x \<in> set (B i)"
    then show "cells (wl_words (wl_freed s ?A ?K)) (w_block x) = Some (w_text x)"
      using other(2) [of x] Cons.prems(4) i by (simp add: buckets_left_def wl_freed_def without_other)
  qed
  then have "foldE wl_delete_list (wl_freed s ?A ?K) js = Inr (wl_freed (wl_freed s ?A ?K)
      (\<Union>i\<in>set js. w_addr ` set (B i)) (\<Union>i\<in>set js. w_block ` set (B i)))"
    using Cons.prems(1-3) by (intro Cons.IH) simp_all
  then show ?case using one by (simp add: wl_freed_def)
qed

lemma wl_destroy_ok:
  assumes rep: "wl_rep s L B"
  shows "\<exists>s'. wl_destroy s = Inr s' \<and> cells (wl_entries s') = Map.empty \<and> cells (wl_words s') = Map.empty"
proof -
  note D = wl_repD [OF rep]
  let ?js = "map int [0..<WC_BUCKETS]"
  have empty: "B i = []" if "i \<notin> set ?js" for i
    using D(4) [of i] that by (force simp: image_iff dest: bspec [of _ _ "nat i"])
  let ?A = "\<Union>i\<in>set ?js. w_addr ` set (B i)" and ?K = "\<Union>i\<in>set ?js. w_block ` set (B i)"
  have "all_of (addresses (wl_nodes B)) \<subseteq> ?A" "all_of (text_blocks B) \<subseteq> ?K"
    using empty unfolding all_of_def addresses_def wl_nodes_def text_blocks_def by fastforce+
  then have "without (cells (wl_entries s)) ?A = Map.empty" "without (cells (wl_words s)) ?K = Map.empty"
    using table_repD(3) [OF D(1)] D(2) by (simp_all add: words_rep_def without_all del: set_map)
  moreover have "buckets_left s B ?js"
    using table_repD(1) [OF D(1)] words_repD [OF D(2)] by (simp add: buckets_left_def wl_nodes_def)
  then have "wl_destroy s = Inr (wl_freed s ?A ?K)" unfolding wl_destroy_def
    using table_repD(4) [OF D(1)] D(2) by (intro wl_delete_lists_ok) (simp_all add: words_rep_def distinct_map)
  ultimately show ?thesis by (simp add: wl_freed_def del: set_map)
qed

section \<open>The program\<close>

text \<open>For any answers of \<open>malloc\<close>, as long as it has memory: the program with its pointers does
  what the program over lists does with some of the values that \<open>malloc\<close> may have found, and
  gives all memory back.\<close>

lemma word_count_refines:
  assumes "length t < 2147483648" and "roomy h" and "roomy ws" and "cells h = Map.empty" and "cells ws = Map.empty"
  shows "\<exists>junk wc s s'. wc_init junk t = Inr wc \<and> (\<forall>k. junk k \<in> junk_counts h) \<and>
    wl_init h ws t = Inr s \<and> wl_output s = Inr (wc_output wc) \<and>
    wl_destroy s = Inr s' \<and> cells (wl_entries s') = Map.empty \<and> cells (wl_words s') = Map.empty"
proof -
  let ?s = "\<lparr>wl_heads = (\<lambda>_. NULL), wl_entries = h, wl_words = ws\<rparr>" and ?ws = "map c_word (counted_words t)"
  let ?wc = "\<lparr>wc_list = (\<lambda>_. []), allocated = 0, found = (\<lambda>_. 0)\<rparr>"
  have "wl_rep ?s (wc_list ?wc) (\<lambda>_. [])" using assms(2-5)
    by (simp add: wl_rep_def table_rep_def words_rep_def separated_def all_of_def addresses_def wl_nodes_def text_blocks_def)
  from wl_adds_ok [OF this, of ?ws] obtain s wc B junk where r: "foldE wl_add_to_hash_table ?s ?ws = Inr s"
    "foldE wc_add_to_hash_table (?wc\<lparr>found := junk\<rparr>) ?ws = Inr wc" "wl_rep s (wc_list wc) B" "\<forall>k. junk k \<in> junk_counts h"
    by auto
  have "wl_init h ws t = Inr s"
    using wc_loop_tokens [of 0 t False 0 "[]" wl_add_to_hash_table ?s] r(1) assms(1) by (simp add: wl_init_def tokens_counted)
  moreover have "wc_init junk t = Inr wc" using wc_init_words [OF assms(1), of junk] r(2) by simp
  ultimately show ?thesis using r(3,4) wl_output_ok [OF r(3)] wl_destroy_ok [OF r(3)] by blast
qed

end
