(* ===== verification/Fact_Program.thy ===== *)
theory Fact_Program
  imports C_Text
begin

text \<open>
  warmup/fact.c: the argument of the program is read with \<open>strtol\<close> and its factorial is printed.
  The recursion has \<open>int\<close> arithmetic, whose overflow is undefined in C. A \<open>long\<close> has 64 bits.
\<close>

definition in_int :: "int \<Rightarrow> bool" where
  "in_int i \<longleftrightarrow> - 2147483648 \<le> i \<and> i < 2147483648"

function recursive_factorial :: "int \<Rightarrow> int result" where
  "recursive_factorial num =
     (if num = 1 then Inr num
      else if in_int (num - 1) then
        bindE (recursive_factorial (num - 1)) (\<lambda>r. if in_int (num * r) then Inr (num * r) else Inl Undefined)
      else Inl Undefined)"
  by pat_completeness auto
termination by (relation "measure (\<lambda>num. nat (num + 2147483648))") (auto simp: in_int_def)

declare recursive_factorial.simps [simp del]

section \<open>strtol with base 0\<close>

definition any_digit :: "char \<Rightarrow> nat" where
  "any_digit c = (let k = of_char c :: nat in
     if 48 \<le> k \<and> k \<le> 57 then k - 48 else if 65 \<le> k \<and> k \<le> 90 then k - 55
     else if 97 \<le> k \<and> k \<le> 122 then k - 87 else 36)"

definition clamp_long :: "int \<Rightarrow> int" where
  "clamp_long i = max (- 9223372036854775808) (min 9223372036854775807 i)"

text \<open>The value and the text that \<open>endptr\<close> points to.\<close>

definition strtol_base0 :: "string \<Rightarrow> int \<times> string" where
  "strtol_base0 s0 =
     (let s = dropWhile is_space s0;
          sign = takeWhile (\<lambda>c. c \<in> {CHR 0x2B, CHR 0x2D}) (take 1 s);
          s1 = drop (length sign) s;
          hex = (case s1 of z # x # d # _ \<Rightarrow> z = CHR ''0'' \<and> x \<in> {CHR ''x'', CHR ''X''} \<and> any_digit d < 16 | _ \<Rightarrow> False);
          base = (if hex then 16 else if has_prefix ''0'' s1 then 8 else 10);
          s2 = (if hex then drop 2 s1 else s1);
          ds = takeWhile (\<lambda>c. any_digit c < base) s2;
          n = int (foldl (\<lambda>v c. base * v + any_digit c) 0 ds)
      in if ds = [] then (0, s0)
         else (clamp_long (if sign = [CHR 0x2D] then - n else n), dropWhile (\<lambda>c. any_digit c < base) s2))"

section \<open>The program\<close>

text \<open>What \<open>main\<close> prints; it always returns 0.\<close>

definition fact_main :: "string list \<Rightarrow> string result" where
  "fact_main argv =
     (let error = ''Huh?'' @ [newline] in
      if length argv = 2 then
        let (num, endptr) = strtol_base0 (argv ! 1) in
        if endptr = [] \<and> num > 0 then
          if num > 12 then Inr (''Overflow'' @ [newline])
          else bindE (recursive_factorial (sint (of_int num :: 32 word))) (\<lambda>r. Inr (show_int r @ [newline]))
        else Inr error
      else Inr error)"

section \<open>Facts\<close>

lemma recursive_factorial_eq:
  "recursive_factorial n = (if 1 \<le> n \<and> n \<le> 12 then Inr (fact (nat n)) else Inl Undefined)"
proof (induction n rule: recursive_factorial.induct)
  case (1 n)
  consider "n = 1" | "1 < n" "n \<le> 12" | "n = 13" | "n < 1 \<or> 13 < n" by linarith
  then show ?case
  proof cases
    case 2
    have f: "(fact (nat n) :: int) = n * fact (nat (n - 1))"
      using 2 fact_num_eq_if [of "nat n", where 'a = int] by (simp add: nat_diff_distrib)
    have "(fact (nat n) :: int) \<le> fact 12" using 2 by (intro fact_mono) simp
    then have "in_int (n * fact (nat (n - 1)))"
      unfolding in_int_def f [symmetric] using order_trans [OF _ fact_ge_zero [of "nat n", where 'a = int], of "- 2147483648"]
      by (simp add: fact_numeral)
    moreover have "in_int (n - 1)" using 2 by (simp add: in_int_def)
    ultimately show ?thesis using 1 2 f by (subst recursive_factorial.simps) simp
  next
    case 3
    then have "in_int (n - 1)" by (simp add: in_int_def)
    then show ?thesis using 1 3 by (subst recursive_factorial.simps) (simp add: in_int_def fact_numeral)
  next
    case 4
    then have "n \<noteq> 1" "\<not> (1 \<le> n - 1 \<and> n - 1 \<le> 12)" by linarith+
    then show ?thesis using 1 4 by (subst recursive_factorial.simps) (cases "in_int (n - 1)"; auto)
  qed (simp add: recursive_factorial.simps)
qed

lemma show_nat_hd: "0 < n \<Longrightarrow> hd (show_nat n) \<noteq> CHR ''0''"
proof (induction n rule: show_nat.induct)
  case (1 n)
  show ?case
  proof (cases "n < 10")
    case True
    have "of_char (digit_char n) = (48 + n :: nat)" using True by (rule of_digit_char)
    then have "digit_char n \<noteq> CHR ''0''" using "1.prems" by auto
    then show ?thesis using True by (subst show_nat.simps) simp
  next
    case False
    then show ?thesis using 1 by (subst show_nat.simps) simp
  qed
qed

lemma any_digit_decimal: "is_digit c \<Longrightarrow> any_digit c = digit_value c \<and> any_digit c < 10"
  by (auto simp: is_digit_def any_digit_def digit_value_def Let_def)

lemma foldl_digits:
  "\<forall>c\<in>set ds. is_digit c \<Longrightarrow> foldl (\<lambda>v c. 10 * v + any_digit c) k ds = foldl (\<lambda>v c. 10 * v + digit_value c) k ds"
  by (induction ds arbitrary: k) (auto simp: any_digit_decimal)

lemma strtol_decimal:
  assumes "0 < n"
  shows "strtol_base0 (show_nat n) = (clamp_long (int n), [])"
    and "strtol_base0 (CHR 0x2D # show_nat n) = (clamp_long (- int n), [])"
proof -
  obtain c cs where c: "show_nat n = c # cs" by (cases "show_nat n") auto
  have ds: "\<forall>d\<in>set (c # cs). is_digit d" using show_nat_digits [of _ n] c by simp
  then have d: "is_digit c" "c \<noteq> CHR ''0''" using show_nat_hd [OF assms] c by simp_all
  have all: "\<forall>d\<in>set (c # cs). any_digit d < 10" using ds any_digit_decimal by blast
  then have t: "takeWhile (\<lambda>c. any_digit c < 10) (c # cs) = c # cs" "dropWhile (\<lambda>c. any_digit c < 10) (c # cs) = []"
    by (simp_all add: takeWhile_eq_all_conv [THEN iffD2] dropWhile_eq_Nil_conv [THEN iffD2])
  have v: "foldl (\<lambda>v c. 10 * v + any_digit c) 0 (c # cs) = n"
    using digits_value_show [of n] foldl_digits [OF ds, of 0] by (simp only: digits_value_def c)
  have p: "(case c # cs of z # x # d # _ \<Rightarrow> z = CHR ''0'' \<and> x \<in> {CHR ''x'', CHR ''X''} \<and> any_digit d < 16 | _ \<Rightarrow> False) = False"
    using d(2) by (auto split: list.splits)
  note sp = digit_not_space [OF d(1)] and sg = digit_not_sign [OF d(1)]
  have s: "dropWhile is_space (c # cs) = c # cs" "takeWhile (\<lambda>c. c \<in> {CHR 0x2B, CHR 0x2D}) (take 1 (c # cs)) = []"
    using sp sg by simp_all
  have "has_prefix ''0'' (c # cs) = False" using d(2) by simp
  then show "strtol_base0 (show_nat n) = (clamp_long (int n), [])"
    unfolding strtol_base0_def c Let_def s list.size(3) drop_0 p if_False \<open>has_prefix ''0'' (c # cs) = False\<close> t v by simp
  have s': "dropWhile is_space (CHR 0x2D # c # cs) = CHR 0x2D # c # cs"
    "takeWhile (\<lambda>c. c \<in> {CHR 0x2B, CHR 0x2D}) (take 1 (CHR 0x2D # c # cs)) = [CHR 0x2D]"
    "drop (length [CHR 0x2D]) (CHR 0x2D # c # cs) = c # cs"
    by (simp_all add: is_space_def)
  show "strtol_base0 (CHR 0x2D # show_nat n) = (clamp_long (- int n), [])"
    unfolding strtol_base0_def c Let_def s' p if_False \<open>has_prefix ''0'' (c # cs) = False\<close> t v by simp
qed

lemma strtol_show_int: "strtol_base0 (show_int n) = (clamp_long n, [])"
proof -
  consider "n = 0" | "0 < n" | "n < 0" by linarith
  then show ?thesis
  proof cases
    case 1
    have "digit_char 0 = CHR ''0''" by code_simp
    then show ?thesis using 1 by (simp add: show_int_def show_nat.simps strtol_base0_def
          is_space_def any_digit_def clamp_long_def Let_def)
  qed (use strtol_decimal [of "nat n"] strtol_decimal [of "nat (- n)"] in \<open>simp_all add: show_int_def\<close>)
qed

end
