(* ===== verification/Tree_Copy.thy ===== *)
theory Tree_Copy
  imports C_Text "HOL-Library.Sublist"
begin

text \<open>
  warmup/cpr.c: the copy of a directory with everything below it. The file system is a map
  from the names on the way from the root to inodes, without symbolic links; a path of the
  program is a C string that is resolved step by step. The environment says which system
  calls fail, how many bytes \<open>read\<close> and \<open>write\<close> move and what \<open>readdir\<close> gives next. A
  failure exits with status 1. Memory is not exhausted.
\<close>

section \<open>The file system\<close>

type_synonym path = "string list"

datatype file_kind = is_regular: Regular (data: string) | Directory | Other

record inode =
  kind :: file_kind
  perm :: "12 word"

type_synonym file_system = "path \<rightharpoonup> inode"

record os =
  files :: file_system
  sys_calls :: nat

text \<open>
  The n-th system call fails when \<open>fault\<close> says so, otherwise it moves at most the given
  numbers of bytes. \<open>next_entry\<close> depends on the files when the directory was opened, the files
  now, the directory and the names that were read; it is \<open>None\<close> for the \<open>NULL\<close> of \<open>readdir\<close>,
  at the end of the directory or after an error. \<open>created_mode\<close> stands for the mode
  argument of \<open>open\<close>, which the program does not pass.
\<close>

record os_env =
  fault :: "nat \<Rightarrow> bool"
  read_count :: "nat \<Rightarrow> nat"
  write_count :: "nat \<Rightarrow> nat"
  next_entry :: "file_system \<Rightarrow> file_system \<Rightarrow> path \<Rightarrow> string list \<Rightarrow> string option"
  created_mode :: "nat \<Rightarrow> 12 word"
  umask :: "12 word"
  cwd :: path

definition slash :: char where
  "slash = CHR 0x2F"

definition dot :: string where
  "dot = [CHR 0x2E]"

definition dot_dot :: string where
  "dot_dot = [CHR 0x2E, CHR 0x2E]"

fun split_path :: "string \<Rightarrow> string list" where
  "split_path [] = [[]]"
| "split_path (c # s) = (if c = slash then [] # split_path s
     else (case split_path s of [] \<Rightarrow> [[c]] | w # ws \<Rightarrow> (c # w) # ws))"

definition is_dir :: "inode option \<Rightarrow> bool" where
  "is_dir x \<longleftrightarrow> (case x of None \<Rightarrow> False | Some i \<Rightarrow> kind i = Directory)"

definition walk_step :: "path \<Rightarrow> string \<Rightarrow> path" where
  "walk_step p c = (if c = [] \<or> c = dot then p else if c = dot_dot then butlast p else p @ [c])"

fun walk :: "file_system \<Rightarrow> path \<Rightarrow> string list \<Rightarrow> path option" where
  "walk fs p [] = Some p"
| "walk fs p (c # cs) = (if is_dir (fs p) then walk fs (walk_step p c) cs else None)"

definition resolve :: "os_env \<Rightarrow> file_system \<Rightarrow> string \<Rightarrow> path option" where
  "resolve env fs s =
     (if s = [] then None else walk fs (if hd s = slash then [] else cwd env) (split_path s))"

text \<open>The last name of the argument of \<open>mkdir\<close> may be followed by slashes.\<close>

definition strip_slashes :: "string \<Rightarrow> string" where
  "strip_slashes s = rev (dropWhile (\<lambda>c. c = slash) (rev s))"

definition resolve_new :: "os_env \<Rightarrow> file_system \<Rightarrow> string \<Rightarrow> path option" where
  "resolve_new env fs s = resolve env fs (strip_slashes s)"

section \<open>System calls\<close>

definition sys_call :: "os_env \<Rightarrow> os \<Rightarrow> os result" where
  "sys_call env st = (if fault env (sys_calls st) then Inl (Exit_with 1) else Inr (st\<lparr>sys_calls := Suc (sys_calls st)\<rparr>))"

definition lookup :: "os_env \<Rightarrow> os \<Rightarrow> string \<Rightarrow> (path \<times> inode) result" where
  "lookup env st name = (case resolve env (files st) name of
      None \<Rightarrow> Inl (Exit_with 1)
    | Some p \<Rightarrow> (case files st p of None \<Rightarrow> Inl (Exit_with 1) | Some i \<Rightarrow> Inr (p, i)))"

definition sys_stat :: "os_env \<Rightarrow> string \<Rightarrow> os \<Rightarrow> (inode \<times> os) result" where
  "sys_stat env name st = bindE (sys_call env st) (\<lambda>st.
     bindE (lookup env st name) (\<lambda>(p, i). Inr (i, st)))"

definition sys_open :: "os_env \<Rightarrow> string \<Rightarrow> os \<Rightarrow> (path \<times> os) result" where
  "sys_open env name st = bindE (sys_call env st) (\<lambda>st.
     bindE (lookup env st name) (\<lambda>(p, i). Inr (p, st)))"

text \<open>\<open>open\<close> with \<open>O_CREAT | O_WRONLY\<close>: a file that exists keeps its bytes.\<close>

definition sys_creat :: "os_env \<Rightarrow> string \<Rightarrow> os \<Rightarrow> (path \<times> os) result" where
  "sys_creat env name st = bindE (sys_call env st) (\<lambda>st.
     case resolve env (files st) name of
       None \<Rightarrow> Inl (Exit_with 1)
     | Some p \<Rightarrow> (case files st p of
          None \<Rightarrow> Inr (p, st\<lparr>files := (files st)(p \<mapsto>
            \<lparr>kind = Regular [], perm = created_mode env (sys_calls st)\<rparr>)\<rparr>)
        | Some i \<Rightarrow> if kind i = Directory then Inl (Exit_with 1) else Inr (p, st)))"

definition sys_opendir :: "os_env \<Rightarrow> string \<Rightarrow> os \<Rightarrow> (path \<times> os) result" where
  "sys_opendir env name st = bindE (sys_call env st) (\<lambda>st.
     bindE (lookup env st name) (\<lambda>(p, i). if kind i = Directory then Inr (p, st) else Inl (Exit_with 1)))"

definition S_IRWXU :: "12 word" where
  "S_IRWXU = 0x1C0"

definition sys_mkdir :: "os_env \<Rightarrow> string \<Rightarrow> 12 word \<Rightarrow> os \<Rightarrow> os result" where
  "sys_mkdir env name mode st = bindE (sys_call env st) (\<lambda>st.
     case resolve_new env (files st) name of
       None \<Rightarrow> Inl (Exit_with 1)
     | Some p \<Rightarrow> (case files st p of
          Some i \<Rightarrow> Inl (Exit_with 1)
        | None \<Rightarrow> Inr (st\<lparr>files := (files st)(p \<mapsto>
            \<lparr>kind = Directory, perm = and mode (not (umask env))\<rparr>)\<rparr>)))"

definition set_perm :: "path \<Rightarrow> 12 word \<Rightarrow> os \<Rightarrow> os" where
  "set_perm p m st = st\<lparr>files := (files st)(p := map_option (\<lambda>i. i\<lparr>perm := m\<rparr>) (files st p))\<rparr>"

definition sys_fchmod :: "os_env \<Rightarrow> path \<Rightarrow> 12 word \<Rightarrow> os \<Rightarrow> os result" where
  "sys_fchmod env fd m st = bindE (sys_call env st) (\<lambda>st. Inr (set_perm fd m st))"

definition sys_chmod :: "os_env \<Rightarrow> string \<Rightarrow> 12 word \<Rightarrow> os \<Rightarrow> os result" where
  "sys_chmod env name m st = bindE (sys_call env st) (\<lambda>st.
     bindE (lookup env st name) (\<lambda>(p, i). Inr (set_perm p m st)))"

definition content :: "os \<Rightarrow> path \<Rightarrow> string" where
  "content st p = (case files st p of
      None \<Rightarrow> []
    | Some i \<Rightarrow> (case kind i of Regular b \<Rightarrow> b | Directory \<Rightarrow> [] | Other \<Rightarrow> []))"

text \<open>The bytes of a file from a position on are replaced; the file may grow.\<close>

definition overwrite :: "nat \<Rightarrow> string \<Rightarrow> inode \<Rightarrow> inode" where
  "overwrite pos buf i = (case kind i of
      Regular old \<Rightarrow> i\<lparr>kind := Regular (take pos old @ buf @ drop (pos + length buf) old)\<rparr>
    | Directory \<Rightarrow> i | Other \<Rightarrow> i)"

definition sys_read :: "os_env \<Rightarrow> path \<Rightarrow> nat \<Rightarrow> os \<Rightarrow> (string \<times> os) result" where
  "sys_read env fd pos st = bindE (sys_call env st) (\<lambda>st'.
     Inr (take (min 4096 (Suc (read_count env (sys_calls st)))) (drop pos (content st fd)), st'))"

definition sys_write :: "os_env \<Rightarrow> path \<Rightarrow> nat \<Rightarrow> string \<Rightarrow> os \<Rightarrow> (nat \<times> os) result" where
  "sys_write env fd pos buf st = bindE (sys_call env st) (\<lambda>st'.
     let out = take (write_count env (sys_calls st)) buf in
     Inr (length out, st'\<lparr>files := (files st)(fd := map_option (overwrite pos out) (files st fd))\<rparr>))"

section \<open>The program\<close>

definition S_IFREG :: nat where
  "S_IFREG = 32768"

definition kind_bits :: "file_kind \<Rightarrow> nat" where
  "kind_bits k = (case k of Regular _ \<Rightarrow> S_IFREG | Directory \<Rightarrow> 16384 | Other \<Rightarrow> 4096)"

definition st_mode :: "inode \<Rightarrow> nat" where
  "st_mode i = kind_bits (kind i) + unat (perm i)"

text \<open>The loop for the part of the name behind the last slash; without a slash it reads the byte
  before the string.\<close>

primrec base_name :: "string \<Rightarrow> nat \<Rightarrow> string result" where
  "base_name s 0 = Inl Undefined"
| "base_name s (Suc i) = (if s ! i = slash then Inr (drop (Suc i) s) else base_name s i)"

text \<open>The loop of \<open>copy_file\<close>; what \<open>write\<close> returns is compared with 0 only.\<close>

partial_function (option) copy_loop :: "os_env \<Rightarrow> path \<Rightarrow> nat \<Rightarrow> path \<Rightarrow> nat \<Rightarrow> os \<Rightarrow> os result option" where
  "copy_loop env src_fd src_pos dst_fd dst_pos st =
     (case sys_read env src_fd src_pos st of
        Inl e \<Rightarrow> Some (Inl e)
      | Inr r \<Rightarrow>
          if fst r = [] then Some (Inr (snd r))
          else (case sys_write env dst_fd dst_pos (fst r) (snd r) of
              Inl e \<Rightarrow> Some (Inl e)
            | Inr w \<Rightarrow> copy_loop env src_fd (src_pos + length (fst r)) dst_fd (dst_pos + fst w) (snd w)))"

definition copy_file :: "os_env \<Rightarrow> string \<Rightarrow> string \<Rightarrow> os \<Rightarrow> os result" where
  "copy_file env src_file dst_location st =
     bindE (sys_stat env src_file st) (\<lambda>(i, st).
     bindE (assertE (st_mode i \<noteq> 0 \<and> S_IFREG \<noteq> 0)) (\<lambda>_.
     bindE (sys_open env src_file st) (\<lambda>(src_fd, st).
     bindE (base_name src_file (length src_file)) (\<lambda>file_name.
     bindE (sys_creat env (dst_location @ [slash] @ file_name) st) (\<lambda>(dst_fd, st).
     bindE (loopE (copy_loop env src_fd 0 dst_fd 0 st)) (\<lambda>st.
     bindE (sys_fchmod env dst_fd (perm i) st) (\<lambda>st.
     bindE (sys_call env st) (\<lambda>st. sys_call env st))))))))"

text \<open>\<open>copy_dir\<close> up to its loop: the open directory, the files at this point, the permissions.\<close>

definition enter_dir :: "os_env \<Rightarrow> string \<Rightarrow> string \<Rightarrow> os \<Rightarrow> (path \<times> file_system \<times> 12 word \<times> os) result" where
  "enter_dir env src_dir dst_dir st =
     bindE (sys_opendir env src_dir st) (\<lambda>(dir_p, st1).
     bindE (sys_stat env src_dir st1) (\<lambda>(i, st2).
     bindE (sys_mkdir env dst_dir S_IRWXU st2) (\<lambda>st3. Inr (dir_p, files st1, perm i, st3))))"

definition leave_dir :: "os_env \<Rightarrow> string \<Rightarrow> 12 word \<Rightarrow> os \<Rightarrow> os result" where
  "leave_dir env dst_dir dir_permission st =
     bindE (sys_chmod env dst_dir dir_permission st) (\<lambda>st. sys_call env st)"

text \<open>The loop of \<open>copy_dir\<close> with what follows it. The recursive call stands with its first part.\<close>

partial_function (option) copy_entries ::
  "os_env \<Rightarrow> string \<Rightarrow> string \<Rightarrow> path \<times> file_system \<Rightarrow> 12 word \<Rightarrow> string list \<Rightarrow> os \<Rightarrow> os result option" where
  "copy_entries env src_dir dst_dir dir_p dir_permission seen st =
     (case next_entry env (snd dir_p) (files st) (fst dir_p) seen of
        None \<Rightarrow> Some (leave_dir env dst_dir dir_permission st)
      | Some d_name \<Rightarrow>
          if d_name = dot \<or> d_name = dot_dot
          then copy_entries env src_dir dst_dir dir_p dir_permission (d_name # seen) st
          else (case sys_stat env (src_dir @ [slash] @ d_name) st of
              Inl e \<Rightarrow> Some (Inl e)
            | Inr s \<Rightarrow>
                if is_regular (kind (fst s)) then
                  (case copy_file env (src_dir @ [slash] @ d_name) dst_dir (snd s) of
                     Inl e \<Rightarrow> Some (Inl e)
                   | Inr st' \<Rightarrow> copy_entries env src_dir dst_dir dir_p dir_permission (d_name # seen) st')
                else if kind (fst s) = Directory then
                  (case enter_dir env (src_dir @ [slash] @ d_name) (dst_dir @ [slash] @ d_name) (snd s) of
                     Inl e \<Rightarrow> Some (Inl e)
                   | Inr x \<Rightarrow>
                       Option.bind (copy_entries env (src_dir @ [slash] @ d_name) (dst_dir @ [slash] @ d_name)
                           (fst x, fst (snd x)) (fst (snd (snd x))) [] (snd (snd (snd x))))
                         (\<lambda>r. case r of
                            Inl e \<Rightarrow> Some (Inl e)
                          | Inr st' \<Rightarrow> copy_entries env src_dir dst_dir dir_p dir_permission (d_name # seen) st'))
                else copy_entries env src_dir dst_dir dir_p dir_permission (d_name # seen) (snd s)))"

definition copy_dir :: "os_env \<Rightarrow> string \<Rightarrow> string \<Rightarrow> os \<Rightarrow> os result option" where
  "copy_dir env src_dir dst_dir st =
     (case enter_dir env src_dir dst_dir st of
        Inl e \<Rightarrow> Some (Inl e)
      | Inr x \<Rightarrow> copy_entries env src_dir dst_dir (fst x, fst (snd x)) (fst (snd (snd x))) [] (snd (snd (snd x))))"

definition cpr_main :: "os_env \<Rightarrow> string list \<Rightarrow> os \<Rightarrow> os result" where
  "cpr_main env argv st =
     (if length argv \<noteq> 3 then Inl (Exit_with 1) else loopE (copy_dir env (argv ! 1) (argv ! 2) st))"

end
