(* ===== verification/Tree_Copy_Facts.thy ===== *)
theory Tree_Copy_Facts
  imports Tree_Copy
begin

text \<open>
  What the copy of a directory does to the file system: \<open>graft\<close> is the specification, the rest
  of the theory shows that \<open>copy_dir\<close> implements it when \<open>write\<close> is never short and
  \<open>readdir\<close> does not stop early.
\<close>

section \<open>Paths\<close>

definition valid_name :: "string \<Rightarrow> bool" where
  "valid_name n \<longleftrightarrow> n \<noteq> [] \<and> n \<noteq> dot \<and> n \<noteq> dot_dot \<and> slash \<notin> set n"

lemma split_path_nonempty [simp]: "split_path s \<noteq> []"
  by (induction s) (auto split: list.splits)

lemma split_path_name: "slash \<notin> set n \<Longrightarrow> split_path n = [n]"
  by (induction n) auto

lemma split_path_slash: "slash \<notin> set n \<Longrightarrow> split_path (a @ slash # n) = split_path a @ [n]"
  by (induction a) (auto simp: split_path_name split: list.splits)

lemma split_path_snoc_slash: "split_path (a @ [slash]) = split_path a @ [[]]"
  using split_path_slash [of "[]" a] by simp

lemma strip_slashes_snoc [simp]: "strip_slashes (s @ [slash]) = strip_slashes s"
  by (simp add: strip_slashes_def)

lemma strip_slashes_other: "c \<noteq> slash \<Longrightarrow> strip_slashes (s @ [c]) = s @ [c]"
  by (simp add: strip_slashes_def)

lemma strip_slashes_name:
  assumes "n \<noteq> []" and "slash \<notin> set n"
  shows "strip_slashes (a @ slash # n) = a @ slash # n"
proof -
  have "last n \<noteq> slash" using assms last_in_set by metis
  then have "strip_slashes ((a @ slash # butlast n) @ [last n]) = (a @ slash # butlast n) @ [last n]"
    by (rule strip_slashes_other)
  then show ?thesis using assms(1) by simp
qed

lemma walk_append:
  "walk fs p (cs @ ds) = (case walk fs p cs of None \<Rightarrow> None | Some q \<Rightarrow> walk fs q ds)"
  by (induction cs arbitrary: p) auto

lemma walk_step_name: "valid_name n \<Longrightarrow> walk_step p n = p @ [n]"
  by (simp add: walk_step_def valid_name_def)

text \<open>Directories that are added do not disturb the resolution.\<close>

lemma walk_mono:
  assumes "\<forall>q. is_dir (fs q) \<longrightarrow> is_dir (fs' q)"
  shows "walk fs p cs = Some q \<Longrightarrow> walk fs' p cs = Some q"
  using assms by (induction cs arbitrary: p) (auto split: if_splits)

lemma resolve_mono:
  assumes "\<forall>q. is_dir (fs q) \<longrightarrow> is_dir (fs' q)"
  shows "resolve env fs s = Some q \<Longrightarrow> resolve env fs' s = Some q"
  using walk_mono [OF assms] by (auto simp: resolve_def split: if_splits)

lemma resolve_entry:
  assumes "resolve env fs s = Some p" and "is_dir (fs p)" and "valid_name n"
  shows "resolve env fs (s @ slash # n) = Some (p @ [n])"
proof -
  have "split_path (s @ slash # n) = split_path s @ [n]"
    using assms(3) by (simp add: valid_name_def split_path_slash)
  then show ?thesis using assms by (auto simp: resolve_def walk_append walk_step_name split: if_splits)
qed

lemma resolve_new_entry:
  assumes "resolve env fs s = Some p" and "is_dir (fs p)" and "valid_name n"
  shows "resolve_new env fs (s @ slash # n) = Some (p @ [n])"
  using assms resolve_entry [OF assms] by (simp add: resolve_new_def strip_slashes_name valid_name_def)

text \<open>The new directory is found under the name that it was made with.\<close>

lemma resolve_made:
  assumes "resolve_new env fs s = Some p" and "\<forall>q. is_dir (fs q) \<longrightarrow> is_dir (fs' q)" and "is_dir (fs' p)"
  shows "resolve env fs' s = Some p"
proof -
  have "resolve env fs' (strip_slashes s) = Some p \<Longrightarrow> resolve env fs' s = Some p"
  proof (induction s rule: rev_induct)
    case (snoc c s)
    show ?case
    proof (cases "c = slash")
      case True
      then have s: "resolve env fs' s = Some p" using snoc by simp
      then show ?thesis using assms(3) True
        by (auto simp: resolve_def split_path_snoc_slash walk_append walk_step_def split: if_splits)
    qed (use snoc in \<open>simp add: strip_slashes_other\<close>)
  qed (simp add: strip_slashes_def)
  moreover have "resolve env fs' (strip_slashes s) = Some p"
    using resolve_mono [where fs = fs and fs' = fs'] assms(1,2) by (simp add: resolve_new_def)
  ultimately show ?thesis by blast
qed

lemma base_name_behind: "slash \<notin> set n \<Longrightarrow> i \<le> length n \<Longrightarrow>
  base_name (a @ slash # n) (Suc (length a) + i) = Inr n"
proof (induction i)
  case (Suc i)
  have "n ! i \<in> set n" using Suc.prems(2) by (intro nth_mem) simp
  then have "n ! i \<noteq> slash" using Suc.prems(1) by auto
  then show ?case using Suc by (simp add: nth_append)
qed simp

lemma base_name_entry: "valid_name n \<Longrightarrow> base_name (a @ slash # n) (length (a @ slash # n)) = Inr n"
  using base_name_behind [of n "length n" a] by (simp add: valid_name_def)

text \<open>What the file system is like at every moment: finite, and every name stands in a directory.\<close>

definition wf_fs :: "file_system \<Rightarrow> bool" where
  "wf_fs fs \<longleftrightarrow> finite (dom fs) \<and> (\<forall>p n. fs (p @ [n]) \<noteq> None \<longrightarrow> is_dir (fs p) \<and> valid_name n)"

section \<open>The specification\<close>

definition visible :: "inode option \<Rightarrow> inode option" where
  "visible x = (case x of None \<Rightarrow> None | Some i \<Rightarrow> if kind i = Other then None else Some i)"

text \<open>Regular files and directories below \<open>s\<close> appear below \<open>d\<close>; nothing else changes.\<close>

definition graft :: "file_system \<Rightarrow> path \<Rightarrow> path \<Rightarrow> file_system" where
  "graft fs s d = (\<lambda>q. if prefix d q then visible (fs (s @ drop (length d) q)) else fs q)"

text \<open>The state of the copy when the entries \<open>seen\<close> are done.\<close>

definition graft_part :: "file_system \<Rightarrow> path \<Rightarrow> path \<Rightarrow> inode \<Rightarrow> string list \<Rightarrow> file_system" where
  "graft_part fs s d i seen = (\<lambda>q. if q = d then Some i
     else if prefix d q then (if q ! length d \<in> set seen then visible (fs (s @ drop (length d) q)) else None)
     else fs q)"

text \<open>What a file system is like at and below a directory.\<close>

definition source_ok :: "file_system \<Rightarrow> path \<Rightarrow> bool" where
  "source_ok fs s \<longleftrightarrow> is_dir (fs s) \<and> finite {p. fs (s @ p) \<noteq> None} \<and>
     (\<forall>p n. fs (s @ p @ [n]) \<noteq> None \<longrightarrow> is_dir (fs (s @ p)) \<and> valid_name n)"

definition apart :: "path \<Rightarrow> path \<Rightarrow> bool" where
  "apart s d \<longleftrightarrow> \<not> prefix s d \<and> \<not> prefix d s"

lemma apart_below: "apart s d \<Longrightarrow> \<not> prefix d (s @ p) \<and> s @ p \<noteq> d"
  by (auto simp: apart_def dest: prefix_same_cases [of d "s @ p" s])

lemma apart_entry: "apart s d \<Longrightarrow> apart (s @ [n]) (d @ [m])"
  using apart_below [of s d "[n]"] by (auto simp: apart_def dest: append_prefixD)

lemma source_closed:
  assumes "source_ok fs s" and "fs (s @ p @ q) \<noteq> None" and "q \<noteq> []"
  shows "is_dir (fs (s @ p))"
  using assms(2,3)
proof (induction q rule: rev_induct)
  case (snoc n q)
  then have "is_dir (fs (s @ p @ q))" using assms(1) unfolding source_ok_def by (metis append.assoc)
  then show ?case using snoc.IH by (cases "q = []") (auto simp: is_dir_def split: option.splits)
qed simp

lemma source_entry:
  assumes "source_ok fs s" and "is_dir (fs (s @ [n]))"
  shows "source_ok fs (s @ [n])"
proof -
  have "{p. fs ((s @ [n]) @ p) \<noteq> None} = (\<lambda>p. n # p) -` {p. fs (s @ p) \<noteq> None}" by auto
  then have "finite {p. fs ((s @ [n]) @ p) \<noteq> None}"
    using assms(1) finite_vimageI [of "{p. fs (s @ p) \<noteq> None}" "\<lambda>p. n # p"] by (simp add: source_ok_def)
  moreover have "fs (s @ [n] @ p @ [m]) \<noteq> None \<Longrightarrow> is_dir (fs (s @ [n] @ p)) \<and> valid_name m" for p m
    using assms(1) unfolding source_ok_def by (metis append.assoc)
  ultimately show ?thesis using assms(2) by (simp add: source_ok_def)
qed

lemma graft_part_source [simp]: "apart s d \<Longrightarrow> graft_part fs s d i seen (s @ p) = fs (s @ p)"
  using apart_below [of s d p] by (simp add: graft_part_def)

lemma graft_part_top [simp]: "graft_part fs s d i seen d = Some i"
  by (simp add: graft_part_def)

lemma graft_part_below:
  "graft_part fs s d i seen (d @ n # p) = (if n \<in> set seen then visible (fs (s @ n # p)) else None)"
  by (simp add: graft_part_def)

lemma graft_part_else: "\<not> prefix d q \<Longrightarrow> graft_part fs s d i seen q = fs q"
  by (auto simp: graft_part_def)

text \<open>Two file systems agree when they agree at \<open>d\<close>, below it and elsewhere.\<close>

lemma agree_at_dir:
  assumes "f d = g d" and "\<And>n p. f (d @ n # p) = g (d @ n # p)" and "\<And>q. \<not> prefix d q \<Longrightarrow> f q = g q"
  shows "f = g"
proof
  fix q show "f q = g q"
  proof (cases "prefix d q")
    case True
    then obtain p where "q = d @ p" by (auto simp: prefix_def)
    then show ?thesis using assms(1,2) by (cases p) auto
  qed (rule assms(3))
qed

lemma graft_part_Nil:
  assumes "\<forall>p. fs (d @ p) = None"
  shows "fs(d \<mapsto> i) = graft_part fs s d i []"
  by (rule agree_at_dir [of _ d]) (use assms in \<open>auto simp: graft_part_below graft_part_else\<close>)

lemma graft_part_skip:
  assumes "\<And>p. visible (fs (s @ n # p)) = None"
  shows "graft_part fs s d i (n # seen) = graft_part fs s d i seen"
  by (rule agree_at_dir [of _ d]) (use assms in \<open>auto simp: graft_part_below graft_part_else\<close>)

lemma graft_part_file:
  assumes "fs (s @ [n]) = Some f" and "kind f = Regular c" and "\<And>p. p \<noteq> [] \<Longrightarrow> fs (s @ n # p) = None"
  shows "(graft_part fs s d i seen)(d @ [n] \<mapsto> f) = graft_part fs s d i (n # seen)"
proof (rule agree_at_dir [of _ d])
  fix m p
  show "((graft_part fs s d i seen)(d @ [n] \<mapsto> f)) (d @ m # p) = graft_part fs s d i (n # seen) (d @ m # p)"
    using assms by (cases "p = []") (auto simp: graft_part_below visible_def)
qed (auto simp: graft_part_else)

lemma graft_part_dir:
  assumes "apart s d"
  shows "graft (graft_part fs s d i seen) (s @ [n]) (d @ [n]) = graft_part fs s d i (n # seen)"
proof (rule agree_at_dir [of _ d])
  have s: "graft_part fs s d i seen (s @ m # p) = fs (s @ m # p)" for m p
    using graft_part_source [OF assms, of fs i seen "m # p"] by simp
  fix m p
  show "graft (graft_part fs s d i seen) (s @ [n]) (d @ [n]) (d @ m # p) = graft_part fs s d i (n # seen) (d @ m # p)"
    by (auto simp: graft_def graft_part_below s)
qed (auto simp: graft_def graft_part_else dest: append_prefixD)

lemma graft_part_all:
  assumes "source_ok fs s" and "fs s = Some i" and "\<And>n. fs (s @ [n]) \<noteq> None \<Longrightarrow> n \<in> set seen"
  shows "graft_part fs s d i seen = graft fs s d"
proof (rule agree_at_dir [of _ d])
  have "kind i \<noteq> Other" using assms(1,2) by (auto simp: source_ok_def is_dir_def)
  then show "graft_part fs s d i seen d = graft fs s d d" using assms(2) by (simp add: graft_def visible_def)
  fix n p
  have "fs (s @ n # p) = None" if "n \<notin> set seen"
  proof (rule ccontr)
    assume "fs (s @ n # p) \<noteq> None"
    moreover have "fs (s @ [n]) = None" using assms(3) that by blast
    ultimately show False using source_closed [OF assms(1), of "[n]" p] by (cases "p = []") (auto simp: is_dir_def)
  qed
  then show "graft_part fs s d i seen (d @ n # p) = graft fs s d (d @ n # p)"
    by (simp add: graft_part_below graft_def visible_def)
qed (simp add: graft_part_else graft_def)

section \<open>The copy of a file\<close>

text \<open>The result of a piece of the program that should leave the files as given.\<close>

definition reaches :: "os_env \<Rightarrow> os result \<Rightarrow> file_system \<Rightarrow> bool" where
  "reaches env r fs \<longleftrightarrow> (case r of Inl e \<Rightarrow> e = Exit_with 1 \<and> (\<exists>k. fault env k) | Inr st \<Rightarrow> files st = fs)"

lemma reaches_simps [simp]:
  "reaches env (Inl e) fs \<longleftrightarrow> e = Exit_with 1 \<and> (\<exists>k. fault env k)"
  "reaches env (Inr st) fs \<longleftrightarrow> files st = fs"
  by (simp_all add: reaches_def)

lemma reaches_bind:
  "reaches env m fs \<Longrightarrow> (\<And>st. files st = fs \<Longrightarrow> reaches env (f st) fs') \<Longrightarrow> reaches env (bindE m f) fs'"
  by (cases m) simp_all

lemma sys_call_reaches [simp]: "reaches env (sys_call env st) fs \<longleftrightarrow> fault env (sys_calls st) \<or> files st = fs"
  by (auto simp: sys_call_def)

text \<open>Every call fails with a fault or does its work.\<close>

lemma sys_call_cases:
  obtains "sys_call env st = Inl (Exit_with 1)" "\<exists>k. fault env k"
  | st' where "sys_call env st = Inr st'" "files st' = files st" "st' = st\<lparr>sys_calls := Suc (sys_calls st)\<rparr>"
  by (cases "fault env (sys_calls st)") (auto simp: sys_call_def)

lemma found_cases:
  assumes "resolve env (files st) name = Some p" and "files st p = Some i"
  obtains "sys_stat env name st = Inl (Exit_with 1)" "\<exists>k. fault env k"
  | st' where "sys_stat env name st = Inr (i, st')" "files st' = files st"
proof (cases rule: sys_call_cases [of env st])
  case 1
  then show ?thesis by (intro that(1)) (simp_all add: sys_stat_def)
next
  case (2 st')
  then show ?thesis using assms by (intro that(2) [of st']) (simp_all add: sys_stat_def lookup_def)
qed

lemma open_cases:
  assumes "resolve env (files st) name = Some p" and "files st p = Some i"
  obtains "sys_open env name st = Inl (Exit_with 1)" "\<exists>k. fault env k"
  | st' where "sys_open env name st = Inr (p, st')" "files st' = files st"
proof (cases rule: sys_call_cases [of env st])
  case 1
  then show ?thesis by (intro that(1)) (simp_all add: sys_open_def)
next
  case (2 st')
  then show ?thesis using assms by (intro that(2) [of st']) (simp_all add: sys_open_def lookup_def)
qed

lemma creat_cases:
  assumes "resolve env (files st) name = Some p" and "files st p = None"
  obtains "sys_creat env name st = Inl (Exit_with 1)" "\<exists>k. fault env k"
  | st' m where "sys_creat env name st = Inr (p, st')"
      "files st' = (files st)(p \<mapsto> \<lparr>kind = Regular [], perm = m\<rparr>)"
proof (cases "fault env (sys_calls st)")
  case True
  then show ?thesis by (intro that(1)) (auto simp: sys_creat_def sys_call_def)
next
  case False
  let ?m = "created_mode env (Suc (sys_calls st))"
  show ?thesis
    by (rule that(2) [of "st\<lparr>sys_calls := Suc (sys_calls st), files := (files st)(p \<mapsto> \<lparr>kind = Regular [], perm = ?m\<rparr>)\<rparr>" ?m])
      (use False assms in \<open>simp_all add: sys_creat_def sys_call_def\<close>)
qed

lemma copy_loop_all:
  assumes full: "\<And>k. 4096 \<le> write_count env k" and ne: "src \<noteq> dst"
  shows "content st src = c \<Longrightarrow> files st dst = Some j \<Longrightarrow> kind j = Regular (take pos c) \<Longrightarrow> pos \<le> length c \<Longrightarrow>
    \<exists>r. copy_loop env src pos dst pos st = Some r \<and> reaches env r ((files st)(dst \<mapsto> j\<lparr>kind := Regular c\<rparr>))"
proof (induction "length c - pos" arbitrary: pos st j rule: less_induct)
  case less
  consider "sys_call env st = Inl (Exit_with 1)" "\<exists>k. fault env k"
    | st1 where "sys_call env st = Inr st1" "files st1 = files st" by (cases rule: sys_call_cases [of env st]) blast+
  then show ?case
  proof cases
    case 1
    then show ?thesis by (subst copy_loop.simps) (simp add: sys_read_def)
  next
    case (2 st1)
    define buf where "buf = take (min 4096 (Suc (read_count env (sys_calls st)))) (drop pos c)"
    have r: "sys_read env src pos st = Inr (buf, st1)" using 2 less.prems(1) by (simp add: sys_read_def buf_def)
    show ?thesis
    proof (cases "buf = []")
      case True
      then have "pos = length c" using less.prems(4) by (simp add: buf_def)
      moreover from this have "j\<lparr>kind := Regular c\<rparr> = j" using less.prems(3) by (cases j) simp
      ultimately show ?thesis using r True less.prems(2) 2(2)
        by (subst copy_loop.simps) (simp add: fun_upd_idem)
    next
      case False
      have len: "length buf \<le> 4096" by (simp add: buf_def)
      have put: "take pos c @ buf = take (pos + length buf) c" and fit: "pos + length buf \<le> length c"
        using less.prems(4) by (auto simp: buf_def take_add min_def)
      show ?thesis
      proof (cases "fault env (sys_calls st1)")
        case True
        then show ?thesis using r False by (subst copy_loop.simps) (auto simp: sys_write_def sys_call_def)
      next
        case ok: False
        define j' where "j' = j\<lparr>kind := Regular (take (pos + length buf) c)\<rparr>"
        define st2 where "st2 = st1\<lparr>sys_calls := Suc (sys_calls st1), files := (files st)(dst \<mapsto> j')\<rparr>"
        have o: "overwrite pos buf j = j'" using less.prems(3,4) put by (simp add: overwrite_def j'_def min_def)
        have w: "sys_write env dst pos buf st1 = Inr (length buf, st2)"
          using ok full [of "sys_calls st1"] len less.prems(2) 2(2) o
          by (simp add: sys_write_def sys_call_def Let_def st2_def)
        have c: "content st2 src = c" "files st2 dst = Some j'" "kind j' = Regular (take (pos + length buf) c)"
          using less.prems(1) ne by (simp_all add: st2_def content_def j'_def)
        have "0 < length buf" using False by simp
        then have "length c - (pos + length buf) < length c - pos" using fit by linarith
        from less.hyps [OF this c fit]
        obtain r' where "copy_loop env src (pos + length buf) dst (pos + length buf) st2 = Some r'"
          "reaches env r' ((files st2)(dst \<mapsto> j'\<lparr>kind := Regular c\<rparr>))" by blast
        moreover have "(files st2)(dst \<mapsto> j'\<lparr>kind := Regular c\<rparr>) = (files st)(dst \<mapsto> j\<lparr>kind := Regular c\<rparr>)"
          by (simp add: st2_def j'_def)
        moreover have "copy_loop env src pos dst pos st = copy_loop env src (pos + length buf) dst (pos + length buf) st2"
          using r w False by (subst copy_loop.simps) simp
        ultimately show ?thesis by simp
      qed
    qed
  qed
qed

lemma copy_file_reaches:
  assumes full: "\<And>k. 4096 \<le> write_count env k"
    and src: "resolve env (files st) (src @ slash # n) = Some (s @ [n])" "files st (s @ [n]) = Some i" "kind i = Regular c"
    and dst: "resolve env (files st) (dst @ slash # n) = Some (d @ [n])" "files st (d @ [n]) = None"
    and n: "valid_name n"
  shows "reaches env (copy_file env (src @ slash # n) dst st) ((files st)(d @ [n] \<mapsto> i))"
proof (cases rule: found_cases [OF src(1,2)])
  case 1
  then show ?thesis by (simp add: copy_file_def)
next
  case (2 st1)
  note one = this
  have m: "st_mode i \<noteq> 0 \<and> S_IFREG \<noteq> 0" using src(3) by (simp add: st_mode_def kind_bits_def S_IFREG_def)
  have src1: "resolve env (files st1) (src @ slash # n) = Some (s @ [n])" "files st1 (s @ [n]) = Some i"
    using one src by simp_all
  show ?thesis
  proof (cases rule: open_cases [OF src1])
    case 1
    then show ?thesis using one m by (simp add: copy_file_def)
  next
    case (2 st2)
    note two = this
    have f2: "files st2 = files st" using one two by simp
    have dst2: "resolve env (files st2) (dst @ slash # n) = Some (d @ [n])" "files st2 (d @ [n]) = None"
      using f2 dst by simp_all
    show ?thesis
    proof (cases rule: creat_cases [OF dst2])
      case 1
      then show ?thesis using one two m base_name_entry [OF n, of src] by (simp add: copy_file_def)
    next
      case three: (2 st3 m3)
      let ?j = "\<lparr>kind = Regular [], perm = m3\<rparr>"
      have ne: "s @ [n] \<noteq> d @ [n]" using src(2) dst(2) by auto
      have c: "content st3 (s @ [n]) = c" using three(2) ne src(2,3) f2 by (simp add: content_def)
      obtain r where r: "copy_loop env (s @ [n]) 0 (d @ [n]) 0 st3 = Some r"
        "reaches env r ((files st3)(d @ [n] \<mapsto> ?j\<lparr>kind := Regular c\<rparr>))"
        using copy_loop_all [OF full ne c, of ?j 0] three(2) by auto
      have fin: "reaches env (bindE (sys_fchmod env (d @ [n]) (perm i) st4)
          (\<lambda>st. bindE (sys_call env st) (\<lambda>st. sys_call env st))) ((files st)(d @ [n] \<mapsto> i))"
        if "files st4 = (files st3)(d @ [n] \<mapsto> ?j\<lparr>kind := Regular c\<rparr>)" for st4
      proof -
        have "i = \<lparr>kind = Regular c, perm = perm i\<rparr>" using src(3) by (cases i) simp
        then have "files (set_perm (d @ [n]) (perm i) st4) = (files st)(d @ [n] \<mapsto> i)"
          using that three(2) f2 by (simp add: set_perm_def)
        then show ?thesis by (auto simp: sys_fchmod_def sys_call_def set_perm_def)
      qed
      have "copy_file env (src @ slash # n) dst st =
          bindE r (\<lambda>st. bindE (sys_fchmod env (d @ [n]) (perm i) st) (\<lambda>st. bindE (sys_call env st) (\<lambda>st. sys_call env st)))"
        using one two three(1) m base_name_entry [OF n, of src] r(1) by (simp add: copy_file_def)
      then show ?thesis using reaches_bind [OF r(2)] fin by simp
    qed
  qed
qed

end
