(* ===== verification/Tree_Copy_Dir.thy ===== *)
theory Tree_Copy_Dir
  imports Tree_Copy_Facts
begin

text \<open>
  The copy of a directory: \<open>copy_dir\<close> ends and leaves the grafted file system, by induction on
  the height of the directory and, inside, on the number of entries that \<open>readdir\<close> has left.
\<close>

text \<open>While the entries of a directory stay the same, \<open>readdir\<close> gives each of them once, and
  perhaps the two dots, before it returns \<open>NULL\<close>.\<close>

definition readdir_ok :: "os_env \<Rightarrow> file_system \<Rightarrow> path \<Rightarrow> bool" where
  "readdir_ok env fs s \<longleftrightarrow> (\<forall>p fs0 fs1 seen. is_dir (fs (s @ p)) \<longrightarrow>
     (\<forall>n. fs0 (s @ p @ [n]) = fs (s @ p @ [n]) \<and> fs1 (s @ p @ [n]) = fs (s @ p @ [n])) \<longrightarrow>
     (case next_entry env fs0 fs1 (s @ p) seen of
        None \<Rightarrow> \<forall>n. fs (s @ p @ [n]) \<noteq> None \<longrightarrow> n \<in> set seen
      | Some n \<Rightarrow> n \<notin> set seen \<and> (n = dot \<or> n = dot_dot \<or> fs (s @ p @ [n]) \<noteq> None)))"

definition ready :: "os_env \<Rightarrow> file_system \<Rightarrow> string \<Rightarrow> path \<Rightarrow> string \<Rightarrow> path \<Rightarrow> nat \<Rightarrow> bool" where
  "ready env fs src s dst d h \<longleftrightarrow> resolve env fs src = Some s \<and> source_ok fs s \<and> readdir_ok env fs s \<and>
     (\<forall>p. fs (s @ p) \<noteq> None \<longrightarrow> length p \<le> h) \<and>
     resolve_new env fs dst = Some d \<and> (\<forall>p. fs (d @ p) = None) \<and> apart s d"

lemma is_dir_Some [simp]: "is_dir (Some i) \<longleftrightarrow> kind i = Directory"
  by (simp add: is_dir_def)

lemma is_dir_None [simp]: "\<not> is_dir None"
  by (simp add: is_dir_def)

lemma is_dirD: "is_dir x \<Longrightarrow> \<exists>i. x = Some i \<and> kind i = Directory"
  by (cases x) simp_all

lemma source_name:
  assumes "source_ok fs s" and "fs (s @ n # p) \<noteq> None"
  shows "valid_name n" and "fs (s @ [n]) \<noteq> None"
proof -
  show f: "fs (s @ [n]) \<noteq> None"
    using assms(2) source_closed [OF assms(1), of "[n]" p] by (cases "p = []") (auto dest!: is_dirD)
  have "fs (s @ p @ [n]) \<noteq> None \<Longrightarrow> valid_name n" for p using assms(1) by (simp add: source_ok_def)
  from this [of "[]"] show "valid_name n" using f by simp
qed

lemma readdir_entry:
  assumes "readdir_ok env fs s" and "\<And>p. fs' (s @ p) = fs (s @ p)"
  shows "readdir_ok env fs' (s @ [n])"
proof -
  have eq: "fs' (s @ n # p) = fs (s @ n # p)" for p using assms(2) [of "n # p"] by simp
  show ?thesis unfolding readdir_ok_def
  proof (intro allI impI)
    fix p fs0 fs1 seen
    assume "is_dir (fs' ((s @ [n]) @ p))"
      and "\<forall>m. fs0 ((s @ [n]) @ p @ [m]) = fs' ((s @ [n]) @ p @ [m]) \<and> fs1 ((s @ [n]) @ p @ [m]) = fs' ((s @ [n]) @ p @ [m])"
    then show "case next_entry env fs0 fs1 ((s @ [n]) @ p) seen of
        None \<Rightarrow> \<forall>m. fs' ((s @ [n]) @ p @ [m]) \<noteq> None \<longrightarrow> m \<in> set seen
      | Some m \<Rightarrow> m \<notin> set seen \<and> (m = dot \<or> m = dot_dot \<or> fs' ((s @ [n]) @ p @ [m]) \<noteq> None)"
      using assms(1) [unfolded readdir_ok_def, rule_format, of "n # p" fs0 fs1 seen]
      by (simp add: eq cong: option.case_cong)
  qed
qed

text \<open>In the middle of the copy an entry that is a directory can be copied.\<close>

lemma ready_entry:
  assumes R: "ready env fs src s dst d h" and g: "fs (s @ [n]) = Some g" "kind g = Directory"
    and seen: "n \<notin> set seen" and i: "kind i = Directory"
  shows "\<exists>h'<h. ready env (graft_part fs s d i seen) (src @ slash # n) (s @ [n]) (dst @ slash # n) (d @ [n]) h'"
proof -
  let ?G = "graft_part fs s d i seen"
  have src: "resolve env fs src = Some s" and ok: "source_ok fs s" and rd: "readdir_ok env fs s"
    and h: "\<And>p. fs (s @ p) \<noteq> None \<Longrightarrow> length p \<le> h" and dst: "resolve_new env fs dst = Some d"
    and none: "\<And>p. fs (d @ p) = None" and ap: "apart s d"
    using R by (auto simp: ready_def)
  have n: "valid_name n" using source_name(1) [OF ok, of n "[]"] g(1) by simp
  have "is_dir (fs q) \<Longrightarrow> is_dir (?G q)" for q
    using none by (cases "prefix d q") (auto simp: graft_part_else prefix_def)
  then have mono: "\<forall>q. is_dir (fs q) \<longrightarrow> is_dir (?G q)" by blast
  have agree: "?G (s @ p) = fs (s @ p)" for p using ap by simp
  have agree': "?G (s @ m # p) = fs (s @ m # p)" for m p using agree [of "m # p"] by simp
  have "?G s = fs s" using agree [of "[]"] by simp
  then have dirs: "is_dir (?G s)" "is_dir (?G d)" using ok i by (simp_all add: source_ok_def)
  have r: "resolve env ?G (src @ slash # n) = Some (s @ [n])"
    using resolve_entry [OF resolve_mono [OF mono src] dirs(1) n] .
  have rn: "resolve_new env ?G (dst @ slash # n) = Some (d @ [n])"
    using resolve_new_entry [OF resolve_made [OF dst mono dirs(2)] dirs(2) n] .
  have "source_ok fs (s @ [n])" using source_entry [OF ok] g by simp
  then have so: "source_ok ?G (s @ [n])" using agree' by (simp add: source_ok_def)
  have "\<And>p. ?G ((s @ [n]) @ p) \<noteq> None \<Longrightarrow> length p \<le> h - 1" using h agree' by force
  moreover have "\<And>p. ?G ((d @ [n]) @ p) = None" using seen by (simp add: graft_part_below)
  moreover have "0 < h" using h [of "[n]"] g(1) by simp
  ultimately show ?thesis
    using r rn so apart_entry [OF ap, of n n] readdir_entry [OF rd agree, of n]
    by (intro exI [of _ "h - 1"]) (simp add: ready_def)
qed

section \<open>One entry\<close>

text \<open>Directories of less height are copied.\<close>

definition lower_copies :: "os_env \<Rightarrow> nat \<Rightarrow> bool" where
  "lower_copies env h \<longleftrightarrow> (\<forall>h' src s dst d st. h' < h \<longrightarrow> ready env (files st) src s dst d h' \<longrightarrow>
     (\<exists>r. copy_dir env src dst st = Some r \<and> reaches env r (graft (files st) s d)))"

lemma lower_copiesD:
  "lower_copies env h \<Longrightarrow> h' < h \<Longrightarrow> ready env (files st) src s dst d h' \<Longrightarrow>
   \<exists>r. copy_dir env src dst st = Some r \<and> reaches env r (graft (files st) s d)"
  unfolding lower_copies_def by blast

definition copy_entry :: "os_env \<Rightarrow> string \<Rightarrow> string \<Rightarrow> string \<Rightarrow> inode \<Rightarrow> os \<Rightarrow> os result option" where
  "copy_entry env src_dir dst_dir n g st =
     (if is_regular (kind g) then Some (copy_file env (src_dir @ slash # n) dst_dir st)
      else if kind g = Directory then copy_dir env (src_dir @ slash # n) (dst_dir @ slash # n) st
      else Some (Inr st))"

lemma copy_entries_entry:
  assumes "next_entry env (snd dp) (files st) (fst dp) seen = Some n" and "n \<noteq> dot" "n \<noteq> dot_dot"
    and "sys_stat env (src @ slash # n) st = Inr (g, st1)"
  shows "copy_entries env src dst dp m seen st =
    Option.bind (copy_entry env src dst n g st1)
      (\<lambda>r. case r of Inl e \<Rightarrow> Some (Inl e) | Inr st' \<Rightarrow> copy_entries env src dst dp m (n # seen) st')"
  using assms by (subst copy_entries.simps) (auto simp: copy_entry_def copy_dir_def split: sum.splits)

lemma copy_entry_reaches:
  assumes R: "ready env fs src s dst d h" and full: "\<And>k. 4096 \<le> write_count env k"
    and IH: "lower_copies env h"
    and g: "fs (s @ [n]) = Some g" and seen: "n \<notin> set seen" and i: "kind i = Directory"
    and st: "files st = graft_part fs s d i seen"
    and src: "resolve env (files st) (src @ slash # n) = Some (s @ [n])"
    and dst: "resolve env (files st) (dst @ slash # n) = Some (d @ [n])"
  shows "\<exists>r. copy_entry env src dst n g st = Some r \<and> reaches env r (graft_part fs s d i (n # seen))"
proof -
  have ok: "source_ok fs s" and ap: "apart s d" using R by (auto simp: ready_def)
  have n: "valid_name n" using source_name(1) [OF ok, of n "[]"] g by simp
  have s: "files st (s @ [n]) = Some g" using g ap st by simp
  have d: "files st (d @ [n]) = None" using seen st by (simp add: graft_part_below)
  have leaf: "fs (s @ n # p) = None" if "kind g \<noteq> Directory" "p \<noteq> []" for p
  proof (rule ccontr)
    assume "fs (s @ n # p) \<noteq> None"
    then show False using source_closed [OF ok, of "[n]" p] that g by simp
  qed
  show ?thesis
  proof (cases "kind g")
    case (Regular c)
    have "(graft_part fs s d i seen)(d @ [n] \<mapsto> g) = graft_part fs s d i (n # seen)"
      by (rule graft_part_file [where fs = fs and n = n, OF g Regular]) (use leaf Regular in simp)
    then show ?thesis using copy_file_reaches [OF full src s Regular dst d n] st Regular
      by (simp add: copy_entry_def)
  next
    case Directory
    obtain h' where "h' < h" "ready env (files st) (src @ slash # n) (s @ [n]) (dst @ slash # n) (d @ [n]) h'"
      using ready_entry [OF R g Directory seen i] st by auto
    from lower_copiesD [OF IH this] show ?thesis
      using Directory graft_part_dir [OF ap] st by (auto simp: copy_entry_def)
  next
    case Other
    have "visible (fs (s @ n # p)) = None" for p
      using leaf [of p] g Other by (cases "p = []") (auto simp: visible_def)
    then show ?thesis using graft_part_skip [of fs s n] st Other by (simp add: copy_entry_def)
  qed
qed

section \<open>The loop over the entries\<close>

definition entries_left :: "file_system \<Rightarrow> path \<Rightarrow> string list \<Rightarrow> string set" where
  "entries_left fs s seen = ({dot, dot_dot} \<union> {n. fs (s @ [n]) \<noteq> None}) - set seen"

lemma fewer_left:
  assumes "source_ok fs s" and "n \<in> entries_left fs s seen"
  shows "card (entries_left fs s (n # seen)) < card (entries_left fs s seen)"
proof -
  have "{n. fs (s @ [n]) \<noteq> None} = (\<lambda>n. [n]) -` {p. fs (s @ p) \<noteq> None}" by auto
  then have "finite (entries_left fs s seen)"
    using assms(1) finite_vimageI [of "{p. fs (s @ p) \<noteq> None}" "\<lambda>n. [n]"]
    by (simp add: entries_left_def source_ok_def inj_def)
  moreover have "entries_left fs s (n # seen) = entries_left fs s seen - {n}" by (auto simp: entries_left_def)
  ultimately show ?thesis using assms(2) by (simp add: card_Diff1_less del: card_Diff_insert)
qed

lemma leave_dir_reaches:
  assumes "resolve env (files st) dst = Some d" and "files st = graft_part fs s d i seen"
  shows "reaches env (leave_dir env dst m st) (graft_part fs s d (i\<lparr>perm := m\<rparr>) seen)"
proof -
  have "files (set_perm d m st') = graft_part fs s d (i\<lparr>perm := m\<rparr>) seen" if "files st' = files st" for st'
    by (rule agree_at_dir [of _ d]) (use that assms(2) in \<open>auto simp: set_perm_def graft_part_below graft_part_else\<close>)
  note set = this
  have f: "files st d = Some i" using assms(2) by simp
  show ?thesis
  proof (cases rule: sys_call_cases [of env st])
    case 1
    then show ?thesis by (simp add: leave_dir_def sys_chmod_def)
  next
    case (2 st')
    then have "leave_dir env dst m st = sys_call env (set_perm d m st')"
      using assms(1) f by (simp add: leave_dir_def sys_chmod_def lookup_def)
    then show ?thesis using set [OF 2(2)] by simp
  qed
qed

lemma copy_entries_reaches:
  assumes R: "ready env fs src s dst d h" and full: "\<And>k. 4096 \<le> write_count env k"
    and IH: "lower_copies env h"
    and f: "fs s = Some f" and i: "kind i = Directory"
  shows "files st = graft_part fs s d i seen \<Longrightarrow>
    \<exists>r. copy_entries env src dst (s, fs) (perm f) seen st = Some r \<and> reaches env r (graft fs s d)"
proof (induction "card (entries_left fs s seen)" arbitrary: seen st rule: less_induct)
  case less
  have ok: "source_ok fs s" and ap: "apart s d" and rd: "readdir_ok env fs s"
    and none: "\<And>p. fs (d @ p) = None" and rn: "resolve_new env fs dst = Some d"
    and rs: "resolve env fs src = Some s"
    using R by (auto simp: ready_def)
  have "is_dir (fs q) \<Longrightarrow> is_dir (files st q)" for q
    using none less.prems by (cases "prefix d q") (auto simp: graft_part_else prefix_def)
  then have mono: "\<forall>q. is_dir (fs q) \<longrightarrow> is_dir (files st q)" by blast
  have dirs: "is_dir (files st s)" "is_dir (files st d)"
    using mono ok less.prems i by (simp_all add: source_ok_def)
  have src: "resolve env (files st) src = Some s" by (rule resolve_mono [OF mono rs])
  have dst: "resolve env (files st) dst = Some d" by (rule resolve_made [OF rn mono dirs(2)])
  have agree: "files st (s @ p) = fs (s @ p)" for p using ap less.prems by simp
  have "is_dir (fs s)" using ok by (simp add: source_ok_def)
  then have law: "case next_entry env fs (files st) s seen of
      None \<Rightarrow> \<forall>n. fs (s @ [n]) \<noteq> None \<longrightarrow> n \<in> set seen
    | Some n \<Rightarrow> n \<notin> set seen \<and> (n = dot \<or> n = dot_dot \<or> fs (s @ [n]) \<noteq> None)"
    using rd [unfolded readdir_ok_def, rule_format, of "[]" fs "files st" seen] agree
    by (simp only: append_Nil append_Nil2 simp_thms)
  show ?case
  proof (cases "next_entry env fs (files st) s seen")
    case None
    have fd: "f = i\<lparr>perm := perm f\<rparr>" using f i \<open>is_dir (fs s)\<close> by (cases f; cases i) simp
    have "graft_part fs s d (i\<lparr>perm := perm f\<rparr>) seen = graft fs s d"
      using graft_part_all [OF ok f, of seen] law None fd by simp
    then show ?thesis using leave_dir_reaches [OF dst less.prems, of "perm f"] None
      by (subst copy_entries.simps) simp
  next
    case (Some n)
    then have n: "n \<notin> set seen" "n = dot \<or> n = dot_dot \<or> fs (s @ [n]) \<noteq> None" using law by simp_all
    then have left: "n \<in> entries_left fs s seen" by (auto simp: entries_left_def)
    note again = less.hyps [OF fewer_left [OF ok left]]
    show ?thesis
    proof (cases "n = dot \<or> n = dot_dot")
      case True
      then have "\<not> valid_name n" by (auto simp: valid_name_def)
      then have "fs (s @ n # p) = None" for p using source_name(1) [OF ok, of n p] by blast
      then have "visible (fs (s @ n # p)) = None" for p by (simp add: visible_def)
      then have "files st = graft_part fs s d i (n # seen)" using less.prems by (simp add: graft_part_skip)
      from again [OF this] show ?thesis using Some True by (subst copy_entries.simps) auto
    next
      case False
      then obtain g where g: "fs (s @ [n]) = Some g" using n(2) by auto
      have v: "valid_name n" using source_name(1) [OF ok, of n "[]"] g by simp
      have esrc: "resolve env (files st) (src @ slash # n) = Some (s @ [n])"
        using resolve_entry [OF src dirs(1) v] .
      have edst: "resolve env (files st) (dst @ slash # n) = Some (d @ [n])"
        using resolve_entry [OF dst dirs(2) v] .
      have gs: "files st (s @ [n]) = Some g" using g agree by simp
      show ?thesis
      proof (cases rule: found_cases [OF esrc gs])
        case 1
        then show ?thesis using Some False by (subst copy_entries.simps) simp
      next
        case (2 st1)
        have st1: "files st1 = graft_part fs s d i seen" using 2(2) less.prems by simp
        obtain r where r: "copy_entry env src dst n g st1 = Some r"
          "reaches env r (graft_part fs s d i (n # seen))"
          using copy_entry_reaches [OF R full IH g n(1) i st1] esrc edst 2(2) by auto
        have eq: "copy_entries env src dst (s, fs) (perm f) seen st =
            (case r of Inl e \<Rightarrow> Some (Inl e) | Inr st' \<Rightarrow> copy_entries env src dst (s, fs) (perm f) (n # seen) st')"
          using copy_entries_entry [where dp = "(s, fs)", of env st seen n src g st1 dst "perm f"] Some False 2(1) r(1) by simp
        show ?thesis
        proof (cases r)
          case (Inl e)
          then show ?thesis using eq r(2) by simp
        next
          case (Inr st')
          then show ?thesis using eq r(2) again [of st'] by simp
        qed
      qed
    qed
  qed
qed

section \<open>The directory\<close>

lemma enter_dir_reaches:
  assumes "ready env (files st) src s dst d h" and f: "files st s = Some f"
  obtains "enter_dir env src dst st = Inl (Exit_with 1)" "\<exists>k. fault env k"
  | st' i where "enter_dir env src dst st = Inr (s, files st, perm f, st')"
      "kind i = Directory" "files st' = graft_part (files st) s d i []"
proof -
  have src: "resolve env (files st) src = Some s" and ok: "source_ok (files st) s"
    and none: "\<forall>p. files st (d @ p) = None" and rn: "resolve_new env (files st) dst = Some d"
    using assms(1) by (auto simp: ready_def)
  have d: "files st d = None" using none [rule_format, of "[]"] by simp
  have k: "kind f = Directory" using ok f by (simp add: source_ok_def)
  let ?i = "\<lparr>kind = Directory, perm = and S_IRWXU (not (umask env))\<rparr>"
  show thesis
  proof (cases "enter_dir env src dst st")
    case (Inl e)
    then have "e = Exit_with 1 \<and> (\<exists>k. fault env k)"
      using src f k rn d by (auto simp: enter_dir_def sys_opendir_def sys_stat_def sys_mkdir_def sys_call_def lookup_def split: if_splits)
    then show thesis using that(1) Inl by simp
  next
    case (Inr x)
    then obtain st' where "enter_dir env src dst st = Inr (s, files st, perm f, st')"
      "files st' = (files st)(d \<mapsto> ?i)"
      using src f k rn d by (auto simp: enter_dir_def sys_opendir_def sys_stat_def sys_mkdir_def sys_call_def lookup_def split: if_splits)
    moreover have "(files st)(d \<mapsto> ?i) = graft_part (files st) s d ?i []" by (rule graft_part_Nil [OF none])
    ultimately show thesis by (intro that(2) [of st' ?i]) simp_all
  qed
qed

lemma copy_dir_reaches:
  assumes full: "\<And>k. 4096 \<le> write_count env k"
  shows "ready env (files st) src s dst d h \<Longrightarrow>
    \<exists>r. copy_dir env src dst st = Some r \<and> reaches env r (graft (files st) s d)"
proof (induction h arbitrary: st src s dst d rule: less_induct)
  case (less h)
  then obtain f where f: "files st s = Some f" by (auto simp: ready_def source_ok_def is_dir_def split: option.splits)
  have low: "lower_copies env h" unfolding lower_copies_def using less.IH by blast
  show ?case
  proof (cases rule: enter_dir_reaches [OF less.prems f])
    case 1
    then show ?thesis by (simp add: copy_dir_def)
  next
    case (2 st' i)
    then show ?thesis using copy_entries_reaches [OF less.prems full low f 2(2,3)]
      by (simp add: copy_dir_def)
  qed
qed

end
