(* ===== verification/Warmup_Properties.thy ===== *)
theory Warmup_Properties
  imports Linked_Words Fact_Program Tree_Copy_Dir
begin

text \<open>The properties of the warm-up programs.\<close>

section \<open>wc.c\<close>

text \<open>
  Over lists: the word count prints one line for every word of the text, with the number of its
  occurrences, and nothing else, for a text that starts with a word and ends in a space, below 2
  GiB, when \<open>malloc\<close> gives zeroed memory.
\<close>
theorem wc_counts_words:
  assumes "length t < 2147483648" and "t \<noteq> []" and "\<not> is_space (hd t)" and "is_space (last t)" and "NUL \<notin> set t"
  shows "\<exists>wc vs. wc_init (\<lambda>_. 0) t = Inr wc \<and> wc_output wc = concat (map (count_line (words_of t)) vs) \<and>
    distinct vs \<and> set vs = set (words_of t)"
proof -
  have "c_word w = w" if "w \<in> set (words_of t)" for w
    using words_of_chars [OF that] assms(5) by (intro c_word_id) auto
  then have "map c_word (counted_words t) = words_of t"
    using counted_words_proper [OF assms(2-4)] by (simp add: map_idI)
  then obtain wc where wc: "wc_init (\<lambda>_. 0) t = Inr wc" "wc_ok wc"
    "wc_tally wc = (\<lambda>w. if w \<in> set (words_of t) then Some (of_nat (count_list (words_of t) w)) else None)"
    using wc_counts [of "words_of t"] wc_init_words [OF assms(1)] by auto
  then show ?thesis
    using output_of_counts [OF wc(2,3)] length_words_of [of t] assms(1) by auto
qed

theorem wc_counts_words_witness:
  "\<exists>wc vs. wc_init (\<lambda>_. 0) ''to be or not to be '' = Inr wc \<and>
    wc_output wc = concat (map (count_line (words_of ''to be or not to be '')) vs) \<and>
    distinct vs \<and> set vs = set (words_of ''to be or not to be '')"
  by (rule wc_counts_words) (simp_all add: is_space_def NUL_def)



text \<open>Without the zeroed memory: the words an and kc share a bucket, and the count of the second
  goes on from whatever was in its memory before.\<close>

lemma recycled_memory_miscounts:
  "\<exists>wc. wc_init (\<lambda>_. 41) ''an kc '' = Inr wc \<and> wc_tally wc ''an'' = Some 1 \<and> wc_tally wc ''kc'' = Some 42"
proof -
  have h: "wc_hash_val ''an'' = 187906" "wc_hash_val ''kc'' = 187906"
    by (simp_all add: wc_hash_val_def wc_hash_fn_def WC_BUCKETS_def byte_word_def Let_def)
  have w: "map c_word (counted_words ''an kc '') = [''an'', ''kc'']"
    by (simp add: counted_words_def is_space_def words_of_word c_word_def NUL_def)
  show ?thesis
    by (subst wc_init_words)
      (simp_all add: w h wc_add_to_hash_table_def wc_add_to_list_def wc_tally_def WC_BUCKETS_def)
qed

section \<open>fact.c\<close>

text \<open>
  Given any decimal number, however long, the program prints its factorial from 1 to
  12, says Overflow above and Huh? below; the recursion never overflows.
\<close>
theorem fact_prints_factorials:
  "fact_main [prog, show_int n] = Inr
     (if n \<le> 0 then ''Huh?'' @ [newline]
      else if n \<le> 12 then show_nat (fact (nat n)) @ [newline]
      else ''Overflow'' @ [newline])"
proof -
  consider "n \<le> 0" | "0 < n" "n \<le> 12" | "12 < n" by linarith
  then show ?thesis
  proof cases
    case 1
    then have "\<not> clamp_long n > 0" by (simp add: clamp_long_def)
    then show ?thesis using 1 by (simp add: fact_main_def strtol_show_int)
  next
    case 2
    then have c: "clamp_long n = n" by (simp add: clamp_long_def)
    have w: "sint (of_int n :: 32 word) = n" using 2 by (simp add: signed_of_int signed_take_bit_int_eq_self)
    have "show_int (int m) = show_nat m" for m by (simp add: show_int_def)
    then have f: "show_int (fact (nat n)) = show_nat (fact (nat n))" by (simp only: of_nat_fact [where 'a = int, symmetric])
    have r: "recursive_factorial n = Inr (fact (nat n))" using 2 by (simp add: recursive_factorial_eq)
    have "fact_main [prog, show_int n] = Inr (show_nat (fact (nat n)) @ [newline])"
      unfolding fact_main_def using 2 by (simp add: strtol_show_int c w r f)
    then show ?thesis using 2 by simp
  next
    case 3
    then have "clamp_long n > 12" by (simp add: clamp_long_def)
    then show ?thesis using 3 by (simp add: fact_main_def strtol_show_int)
  qed
qed

section \<open>cpr.c\<close>

lemma wf_above: "wf_fs fs \<Longrightarrow> fs (p @ q) \<noteq> None \<Longrightarrow> fs p \<noteq> None"
proof (induction q rule: rev_induct)
  case (snoc n q)
  then have "is_dir (fs (p @ q))" unfolding wf_fs_def by (metis append.assoc)
  then show ?case using snoc by (auto dest: is_dirD)
qed simp

lemma wf_source:
  assumes "wf_fs fs" and "is_dir (fs s)"
  shows "source_ok fs s" and "\<exists>h. \<forall>p. fs (s @ p) \<noteq> None \<longrightarrow> length p \<le> h"
proof -
  have "{p. fs (s @ p) \<noteq> None} = (\<lambda>p. s @ p) -` dom fs" by auto
  then have fin: "finite {p. fs (s @ p) \<noteq> None}"
    using assms(1) finite_vimageI [of "dom fs" "\<lambda>p. s @ p"] by (simp add: wf_fs_def inj_def)
  have "is_dir (fs (s @ p)) \<and> valid_name n" if "fs (s @ p @ [n]) \<noteq> None" for p n
    using assms(1) that unfolding wf_fs_def by (metis append.assoc)
  then show "source_ok fs s" using assms(2) fin by (simp add: source_ok_def)
  show "\<exists>h. \<forall>p. fs (s @ p) \<noteq> None \<longrightarrow> length p \<le> h"
    using fin Max_ge [of "length ` {p. fs (s @ p) \<noteq> None}"] by blast
qed


definition sample_fs :: file_system where
  "sample_fs = [[] \<mapsto> \<lparr>kind = Directory, perm = 0x1ED\<rparr>, [''a''] \<mapsto> \<lparr>kind = Directory, perm = 0x1ED\<rparr>,
     [''a'', ''f''] \<mapsto> \<lparr>kind = Regular ''text'', perm = 0x1A4\<rparr>]"

definition sample_readdir :: "file_system \<Rightarrow> file_system \<Rightarrow> path \<Rightarrow> string list \<Rightarrow> string option" where
  "sample_readdir fs0 fs d seen = find (\<lambda>n. n \<notin> set seen \<and> (n = dot \<or> n = dot_dot \<or> fs (d @ [n]) \<noteq> None)) [dot, dot_dot, ''f'']"

definition sample_env :: os_env where
  "sample_env = \<lparr>fault = (\<lambda>_. False), read_count = (\<lambda>_. 2), write_count = (\<lambda>_. 4096), next_entry = sample_readdir,
     created_mode = (\<lambda>_. 0), umask = 0x12, cwd = []\<rparr>"

lemma sample_readdir_ok: "readdir_ok sample_env sample_fs [''a'']"
proof -
  have p: "p = []" if "is_dir (sample_fs ([''a''] @ p))" for p
    using that by (auto simp: sample_fs_def split: if_splits)
  have n: "n = ''f''" if "sample_fs ([''a''] @ [n]) \<noteq> None" for n
    using that by (auto simp: sample_fs_def split: if_splits)
  have f: "\<exists>i. sample_fs [''a'', ''f''] = Some i" by (simp add: sample_fs_def)
  show ?thesis unfolding readdir_ok_def
  proof (intro allI impI)
    fix p fs0 fs1 seen
    assume d: "is_dir (sample_fs ([''a''] @ p))"
      and a: "\<forall>n. fs0 ([''a''] @ p @ [n]) = sample_fs ([''a''] @ p @ [n]) \<and> fs1 ([''a''] @ p @ [n]) = sample_fs ([''a''] @ p @ [n])"
    have "p = []" by (rule p [OF d])
    then have a1: "fs1 [''a'', n] = sample_fs [''a'', n]" for n using a by simp
    have e: "next_entry sample_env fs0 fs1 [''a''] seen =
        find (\<lambda>n. n \<notin> set seen \<and> (n = dot \<or> n = dot_dot \<or> sample_fs [''a'', n] \<noteq> None)) [dot, dot_dot, ''f'']"
      by (simp add: sample_env_def sample_readdir_def a1)
    have "case next_entry sample_env fs0 fs1 [''a''] seen of
        None \<Rightarrow> \<forall>n. sample_fs [''a'', n] \<noteq> None \<longrightarrow> n \<in> set seen
      | Some n \<Rightarrow> n \<notin> set seen \<and> (n = dot \<or> n = dot_dot \<or> sample_fs [''a'', n] \<noteq> None)"
    proof (cases "next_entry sample_env fs0 fs1 [''a''] seen")
      case None
      then have "''f'' \<in> set seen" using f unfolding e find_None_iff by (auto dest!: spec [of _ "''f''"])
      then show ?thesis using None n by auto
    next
      case (Some m)
      then have "m \<notin> set seen \<and> (m = dot \<or> m = dot_dot \<or> sample_fs [''a'', m] \<noteq> None)"
        unfolding e find_Some_iff by (elim exE conjE) simp
      then show ?thesis using Some by simp
    qed
    then show "case next_entry sample_env fs0 fs1 ([''a''] @ p) seen of
        None \<Rightarrow> \<forall>n. sample_fs ([''a''] @ p @ [n]) \<noteq> None \<longrightarrow> n \<in> set seen
      | Some n \<Rightarrow> n \<notin> set seen \<and> (n = dot \<or> n = dot_dot \<or> sample_fs ([''a''] @ p @ [n]) \<noteq> None)"
      unfolding \<open>p = []\<close> append_Nil append_Nil2 append_Cons .
  qed
qed


text \<open>A short \<open>write\<close> is not noticed: the copy loses bytes.\<close>

lemma short_write_loses_bytes:
  "\<exists>st'. copy_loop (sample_env\<lparr>write_count := \<lambda>_. 1\<rparr>) [''a'', ''f''] 0 [''b''] 0
      \<lparr>files = sample_fs([''b''] \<mapsto> \<lparr>kind = Regular [], perm = 0\<rparr>), sys_calls = 0\<rparr> = Some (Inr st') \<and>
    content st' [''b''] = ''tt''"
  by (subst copy_loop.simps, simp add: sys_read_def sys_write_def sys_call_def sample_env_def content_def
      sample_fs_def overwrite_def Let_def)+

end
