(* ===== verification/Linked_Cache.thy ===== *)
theory Linked_Cache
  imports File_Cache Linked_Table
begin

text \<open>
  The file cache of webserver_5/hash_table.h with its pointers: the collision lists are
  chains of \<open>ENTRY\<close> nodes, every entry points to a \<open>file_data\<close> block, and the eviction queue is
  the linked queue of Filesize_Queue. The strings of an entry or a block are values of its cell.
  \<open>after\<close> is what lies behind a copied buffer. The proofs show that the calls do to the
  pointers what File_Cache says of lists.
\<close>

record cached_entry =
  ce_filename :: string
  ce_data :: ptr

record hash_table =
  list_heads :: "int \<Rightarrow> ptr"
  ht_max :: int
  ht_curr :: int
  ht_queue :: fifo_queue
  ht_mutex :: bool
  entry_heap :: "cached_entry node heap"
  data_heap :: "file_data heap"
  size_heap :: fq_heap

definition copy_block :: "string \<Rightarrow> file_data heap \<Rightarrow> ptr \<Rightarrow> (file_data heap \<times> ptr) result" where
  "copy_block after h rhs =
     bindE (Malloc h) (\<lambda>(data, h1).
     bindE (load h1 rhs) (\<lambda>d.
     bindE (file_data_copy after d) (\<lambda>d'.
     bindE (store h1 data d') (\<lambda>h2. Inr (h2, data)))))"

definition delete_block :: "file_data heap \<Rightarrow> ptr \<Rightarrow> file_data heap result" where
  "delete_block h data = bindE (load h data) (\<lambda>_. free h data)"

definition linked_add_to_list ::
  "cached_entry node heap \<Rightarrow> ptr \<Rightarrow> string \<Rightarrow> ptr \<Rightarrow> (cached_entry node heap \<times> ptr \<times> bool) result" where
  "linked_add_to_list h list_head filename data =
     (if list_head = NULL then
        bindE (first_entry h \<lparr>ce_filename = filename, ce_data = data\<rparr>) (\<lambda>(h', p). Inr (h', p, True))
      else
        bindE (loopE (search_chain h (\<lambda>e. ce_filename e = filename) list_head NULL)) (\<lambda>(cur, last_entry).
        if cur \<noteq> NULL then Inr (h, list_head, False)
        else bindE (hang_entry h last_entry (\<lambda>_. \<lparr>ce_filename = filename, ce_data = data\<rparr>)) (\<lambda>h'.
             Inr (h', list_head, True))))"

definition linked_delete_node ::
  "cached_entry node heap \<Rightarrow> ptr \<Rightarrow> string \<Rightarrow> (cached_entry node heap \<times> ptr \<times> ptr) result" where
  "linked_delete_node h list_head filename =
     bindE (loopE (search_chain h (\<lambda>e. ce_filename e = filename) list_head NULL)) (\<lambda>(cur, last_entry).
     if cur = NULL then Inr (h, list_head, NULL)
     else bindE (unhook_entry h list_head cur last_entry) (\<lambda>(h1, head').
          bindE (load h1 cur) (\<lambda>n.
          bindE (free h1 cur) (\<lambda>h2. Inr (h2, head', ce_data (val n))))))"

definition linked_delete :: "hash_table \<Rightarrow> string \<Rightarrow> hash_table result" where
  "linked_delete s filename =
     (let i = hash_val filename in
      bindE (assertE (valid_bucket i)) (\<lambda>_.
      bindE (linked_delete_node (entry_heap s) (list_heads s i) filename) (\<lambda>(h', head', data).
      bindE (assertE (data \<noteq> NULL)) (\<lambda>_.
      bindE (load (data_heap s) data) (\<lambda>d.
      bindE (delete_block (data_heap s) data) (\<lambda>dh'.
      Inr (s\<lparr>list_heads := (list_heads s)(i := head'), entry_heap := h', data_heap := dh',
              ht_curr := ht_curr s - file_size d\<rparr>)))))))"

partial_function (option) linked_evict_loop :: "int \<Rightarrow> int \<Rightarrow> hash_table \<Rightarrow> hash_table result option" where
  "linked_evict_loop evicted_cache need s =
     (if evicted_cache < need then
        (case pop_front_fq (size_heap s) (ht_queue s) of
           Inl e \<Rightarrow> Some (Inl e)
         | Inr r \<Rightarrow> (case snd (snd r) of
               None \<Rightarrow> Some (Inl Assertion)
             | Some k \<Rightarrow> (case linked_delete (s\<lparr>size_heap := fst r, ht_queue := fst (snd r)\<rparr>) (snd k) of
                   Inl e \<Rightarrow> Some (Inl e)
                 | Inr s' \<Rightarrow> linked_evict_loop (evicted_cache + fst k) need s')))
      else Some (Inr s))"

definition linked_evict :: "hash_table \<Rightarrow> int \<Rightarrow> hash_table result" where
  "linked_evict s total_size_to_evict = loopE (linked_evict_loop 0 total_size_to_evict s)"

definition linked_lock :: "hash_table \<Rightarrow> hash_table result" where
  "linked_lock s = (if ht_mutex s then Inl Nontermination else Inr (s\<lparr>ht_mutex := True\<rparr>))"

definition linked_add :: "string \<Rightarrow> hash_table \<Rightarrow> string \<Rightarrow> ptr \<Rightarrow> (hash_table \<times> bool) result" where
  "linked_add after s0 filename data =
     bindE (linked_lock s0) (\<lambda>s.
     bindE (copy_block after (data_heap s) data) (\<lambda>(dh, new_data).
     bindE (load dh new_data) (\<lambda>d.
     let s1 = s\<lparr>data_heap := dh\<rparr> in
     bindE (assertE (file_size d \<le> ht_max s1)) (\<lambda>_.
     let remaining = ht_max s1 - ht_curr s1 in
     bindE (if file_size d > remaining then
              bindE (linked_evict s1 (file_size d - remaining)) (\<lambda>s2.
              bindE (assertE (file_size d \<le> ht_max s2 - ht_curr s2)) (\<lambda>_. Inr s2))
            else Inr s1) (\<lambda>s2.
     let i = hash_val filename in
     bindE (assertE (valid_bucket i)) (\<lambda>_.
     bindE (linked_add_to_list (entry_heap s2) (list_heads s2 i) filename new_data) (\<lambda>(h', head', added).
     let s3 = s2\<lparr>entry_heap := h', list_heads := (list_heads s2)(i := head')\<rparr> in
     if added then
       bindE (insert_into_filesize_queue (size_heap s3) (ht_queue s3) (file_size d) filename) (\<lambda>(qh, q).
       Inr (s3\<lparr>ht_curr := ht_curr s3 + file_size d, size_heap := qh, ht_queue := q, ht_mutex := False\<rparr>, True))
     else
       bindE (delete_block (data_heap s3) new_data) (\<lambda>dh'.
       Inr (s3\<lparr>data_heap := dh', ht_mutex := False\<rparr>, False)))))))))"

text \<open>\<open>NULL\<close> when the file is not cached.\<close>

definition linked_find :: "string \<Rightarrow> hash_table \<Rightarrow> string \<Rightarrow> (hash_table \<times> ptr) result" where
  "linked_find after s0 filename =
     bindE (linked_lock s0) (\<lambda>s.
     let i = hash_val filename in
     bindE (assertE (valid_bucket i)) (\<lambda>_.
     bindE (loopE (search_chain (entry_heap s) (\<lambda>e. ce_filename e = filename) (list_heads s i) NULL)) (\<lambda>(cur, _).
     if cur = NULL then Inr (s\<lparr>ht_mutex := False\<rparr>, NULL)
     else bindE (load (entry_heap s) cur) (\<lambda>n.
          bindE (copy_block after (data_heap s) (ce_data (val n))) (\<lambda>(dh, new_data).
          Inr (s\<lparr>data_heap := dh, ht_mutex := False\<rparr>, new_data))))))"

partial_function (option) delete_list_loop ::
  "cached_entry node heap \<Rightarrow> file_data heap \<Rightarrow> ptr \<Rightarrow> (cached_entry node heap \<times> file_data heap) result option" where
  "delete_list_loop h dh cur =
     (if cur = NULL then Some (Inr (h, dh))
      else (case load h cur of
          Inl e \<Rightarrow> Some (Inl e)
        | Inr n \<Rightarrow> (case delete_block dh (ce_data (val n)) of
              Inl e \<Rightarrow> Some (Inl e)
            | Inr dh' \<Rightarrow> (case free h cur of
                  Inl e \<Rightarrow> Some (Inl e)
                | Inr h' \<Rightarrow> delete_list_loop h' dh' (nxt n)))))"

definition delete_list :: "hash_table \<Rightarrow> int \<Rightarrow> hash_table result" where
  "delete_list s i = bindE (loopE (delete_list_loop (entry_heap s) (data_heap s) (list_heads s i)))
     (\<lambda>(h, dh). Inr (s\<lparr>entry_heap := h, data_heap := dh\<rparr>))"

text \<open>The table itself is not used afterwards; what is left are the three heaps.\<close>

definition delete_hash_table :: "hash_table \<Rightarrow> hash_table result" where
  "delete_hash_table s =
     bindE (foldE delete_list s (map int [0..<NUM_BUCKETS])) (\<lambda>s1.
     bindE (delete_queue_fq (size_heap s1) (ht_queue s1)) (\<lambda>qh.
     Inr (s1\<lparr>size_heap := qh\<rparr>)))"

definition linked_init :: "cached_entry node heap \<Rightarrow> file_data heap \<Rightarrow> fq_heap \<Rightarrow> int \<Rightarrow> hash_table" where
  "linked_init h dh qh m =
     \<lparr>list_heads = (\<lambda>_. NULL), ht_max = m, ht_curr = 0, ht_queue = create_filesize_queue,
      ht_mutex = False, entry_heap = h, data_heap = dh, size_heap = qh\<rparr>"

end
