(* ===== verification/Linked_Cache_Facts.thy ===== *)
theory Linked_Cache_Facts
  imports Linked_Cache
begin

text \<open>
  The linked cache implements the cache of File_Cache: \<open>linked_rep\<close> relates the two, and every
  call keeps the relation. The blocks \<open>E\<close> of the data heap belong to the callers.
\<close>

section \<open>The representation\<close>

text \<open>An entry with its address, the address of its block, its name and the file.\<close>

record bead =
  b_addr :: nat
  b_block :: nat
  b_name :: string
  b_file :: file_data

definition node_of :: "bead \<Rightarrow> nat \<times> cached_entry" where
  "node_of x = (b_addr x, \<lparr>ce_filename = b_name x, ce_data = Addr (b_block x)\<rparr>)"

definition value_of :: "bead \<Rightarrow> entry" where
  "value_of x = \<lparr>entry_name = b_name x, entry_data = b_file x\<rparr>"

definition nodes_of :: "(int \<Rightarrow> bead list) \<Rightarrow> int \<Rightarrow> (nat \<times> cached_entry) list" where
  "nodes_of B i = map node_of (B i)"

definition blocks_of :: "(int \<Rightarrow> bead list) \<Rightarrow> int \<Rightarrow> nat list" where
  "blocks_of B i = map b_block (B i)"

definition data_rep :: "file_data heap \<Rightarrow> (int \<Rightarrow> bead list) \<Rightarrow> nat set \<Rightarrow> bool" where
  "data_rep h B E \<longleftrightarrow> (\<forall>i. \<forall>x\<in>set (B i). cells h (b_block x) = Some (b_file x)) \<and> separated (blocks_of B) \<and>
     dom (cells h) = all_of (blocks_of B) \<union> E \<and> all_of (blocks_of B) \<inter> E = {}"

definition queue_is :: "fq_heap \<Rightarrow> fifo_queue \<Rightarrow> file_key list \<Rightarrow> bool" where
  "queue_is h q xs \<longleftrightarrow> (\<exists>ys. queue_rep h q ys \<and> map snd ys = xs \<and> dom (cells h) = footprint ys)"

definition linked_rep :: "hash_table \<Rightarrow> cache \<Rightarrow> (int \<Rightarrow> bead list) \<Rightarrow> nat set \<Rightarrow> bool" where
  "linked_rep s wc B E \<longleftrightarrow>
     table_rep (entry_heap s) (list_heads s) (nodes_of B) \<and> data_rep (data_heap s) B E \<and>
     buckets wc = (\<lambda>i. map value_of (B i)) \<and> (\<forall>i. \<not> valid_bucket i \<longrightarrow> B i = []) \<and>
     queue_is (size_heap s) (ht_queue s) (filesize_queue wc) \<and>
     roomy (entry_heap s) \<and> roomy (data_heap s) \<and> roomy (size_heap s) \<and>
     ht_max s = max_buffer_size wc \<and> ht_curr s = curr_buffer_size wc \<and> ht_mutex s = cache_mutex wc"

lemma value_of_simps [simp]: "entry_name (value_of x) = b_name x" "entry_data (value_of x) = b_file x"
  by (simp_all add: value_of_def)

lemma node_of_simps [simp]:
  "fst (node_of x) = b_addr x" "ce_filename (snd (node_of x)) = b_name x" "ce_data (snd (node_of x)) = Addr (b_block x)"
  by (simp_all add: node_of_def)

lemma nodes_upd: "nodes_of (B(i := xs)) = (nodes_of B)(i := map node_of xs)"
  by (auto simp: nodes_of_def)

lemma blocks_upd: "blocks_of (B(i := xs)) = (blocks_of B)(i := map b_block xs)"
  by (auto simp: blocks_of_def)

section \<open>The blocks\<close>

lemma block_mem: "x \<in> set (B i) \<Longrightarrow> b_block x \<in> all_of (blocks_of B)"
  by (auto simp: all_of_def blocks_of_def)

lemma data_repD:
  "data_rep h B E \<Longrightarrow> x \<in> set (B i) \<Longrightarrow> cells h (b_block x) = Some (b_file x)"
  "data_rep h B E \<Longrightarrow> x \<in> set (B i) \<Longrightarrow> b_block x \<notin> E"
  using block_mem [of x B i] unfolding data_rep_def by blast+

lemma data_new:
  assumes "data_rep h B E" and "cells h k = None" and "cells h' = (cells h)(k \<mapsto> d)"
  shows "data_rep h' B (insert k E)"
proof -
  have k: "k \<notin> all_of (blocks_of B)" using assms(1,2) by (auto simp: data_rep_def)
  then have "b_block x \<noteq> k" if "x \<in> set (B i)" for x i using that by (auto simp: all_of_def blocks_of_def)
  then show ?thesis using assms k by (auto simp: data_rep_def)
qed

lemma data_adopt:
  assumes "data_rep h B (insert k E)" and "k \<notin> E" and "cells h k = Some d" and x: "b_block x = k" "b_file x = d"
  shows "data_rep h (B(i := B i @ [x])) E"
proof -
  have k: "k \<notin> all_of (blocks_of B)" using assms(1) by (auto simp: data_rep_def)
  have "map b_block (B i @ [x]) = blocks_of B i @ [k]" using x by (simp add: blocks_of_def)
  then have e: "blocks_of (B(i := B i @ [x])) = (blocks_of B)(i := blocks_of B i @ [k])" by (simp only: blocks_upd)
  show ?thesis unfolding data_rep_def e
    using assms separated_add [of "blocks_of B" k i] k by (auto simp: data_rep_def)
qed

lemma data_release:
  assumes rep: "data_rep h B E" and b: "B i = ys @ x # zs"
  shows "data_rep h (B(i := ys @ zs)) (insert (b_block x) E)" and "b_block x \<notin> E"
    and "cells h (b_block x) = Some (b_file x)"
proof -
  have "blocks_of B i = map b_block ys @ b_block x # map b_block zs" using b by (simp add: blocks_of_def)
  note r = separated_remove [of "blocks_of B" i, OF _ this]
  have e: "blocks_of (B(i := ys @ zs)) = (blocks_of B)(i := map b_block ys @ map b_block zs)" by (simp add: blocks_upd)
  have x: "x \<in> set (B i)" using b by simp
  show "b_block x \<notin> E" "cells h (b_block x) = Some (b_file x)" using data_repD [OF rep x] by simp_all
  have "cells h (b_block y) = Some (b_file y)" if "y \<in> set ((B(i := ys @ zs)) j)" for j y
    using data_repD(1) [OF rep, of y j] that b by (auto split: if_splits)
  then show "data_rep h (B(i := ys @ zs)) (insert (b_block x) E)" unfolding data_rep_def e
    using rep r block_mem [of x B i, OF x] by (auto simp: data_rep_def)
qed

lemma data_drop:
  assumes "data_rep h B (insert k E)" and "k \<notin> E" and "roomy h"
  shows "\<exists>h'. delete_block h (Addr k) = Inr h' \<and> data_rep h' B E \<and> roomy h' \<and>
    (\<forall>j. j \<noteq> k \<longrightarrow> cells h' j = cells h j)"
proof -
  have "k \<in> dom (cells h)" using assms(1) by (auto simp: data_rep_def)
  then obtain d where d: "cells h k = Some d" by blast
  have "k \<notin> all_of (blocks_of B)" using assms(1) by (auto simp: data_rep_def)
  then have "b_block x \<noteq> k" if "x \<in> set (B i)" for x i using that by (auto simp: all_of_def blocks_of_def)
  then have "data_rep (h\<lparr>cells := (cells h)(k := None)\<rparr>) B E"
    using assms(1,2) by (auto simp: data_rep_def)
  then show ?thesis using d assms(3)
    by (intro exI [of _ "h\<lparr>cells := (cells h)(k := None)\<rparr>"]) (auto simp: delete_block_def heap_simps roomy_def)
qed

lemma copy_block_ok:
  assumes "roomy h" and "cells h k = Some d" and "file_data_copy after d = Inr d'"
  shows "\<exists>h' k'. copy_block after h (Addr k) = Inr (h', Addr k') \<and> cells h k' = None \<and>
    cells h' = (cells h)(k' \<mapsto> d') \<and> roomy h'"
proof -
  obtain a c where m: "Malloc h = Inr (Addr a, h\<lparr>cells := (cells h)(a \<mapsto> c), calls := Suc (calls h)\<rparr>)"
    "cells h a = None" "roomy (h\<lparr>cells := (cells h)(a \<mapsto> c), calls := Suc (calls h)\<rparr>)"
    by (rule roomy_Malloc [OF assms(1)])
  have "a \<noteq> k" using m(2) assms(2) by auto
  then show ?thesis using m assms(2,3)
    by (intro exI [of _ "h\<lparr>cells := (cells h)(a \<mapsto> d'), calls := Suc (calls h)\<rparr>"] exI [of _ a])
      (simp add: copy_block_def load_def store_def roomy_def)
qed

section \<open>One collision list\<close>

lemma linked_add_old:
  assumes "chain (cells h) p xs NULL" and "f \<in> (ce_filename \<circ> snd) ` set xs"
  shows "linked_add_to_list h p f data = Inr (h, p, False)"
proof (cases rule: split_at_same [of xs "\<lambda>e. ce_filename e = f"])
  case 1
  then show ?thesis using assms(2) by auto
next
  case (2 ys a v zs)
  have "p \<noteq> NULL" using assms(1) 2(1) by (cases ys) auto
  moreover have "search_chain h (\<lambda>e. ce_filename e = f) p NULL = Some (Inr (Addr a, if ys = [] then NULL else Addr (fst (last ys))))"
    by (rule search_chain_found) (use assms(1) 2 in simp_all)
  ultimately show ?thesis by (simp add: linked_add_to_list_def)
qed

lemma linked_add_new:
  assumes "roomy h" and c: "chain (cells h) p xs NULL" "distinct (map fst xs)" and f: "f \<notin> (ce_filename \<circ> snd) ` set xs"
  shows "\<exists>h' p' a. linked_add_to_list h p f data = Inr (h', p', True) \<and> cells h a = None \<and> roomy h' \<and>
    rechains h xs h' p' (xs @ [(a, \<lparr>ce_filename = f, ce_data = data\<rparr>)])"
proof (cases "xs = []")
  case True
  then have "p = NULL" using c by simp
  then show ?thesis using first_entry_rechains [OF assms(1), of "\<lparr>ce_filename = f, ce_data = data\<rparr>"] True
    by (auto simp: linked_add_to_list_def)
next
  case False
  then have "p \<noteq> NULL" using chain_to_NULL [OF c(1)] by simp
  moreover have "search_chain h (\<lambda>e. ce_filename e = f) p NULL = Some (Inr (NULL, Addr (fst (last xs))))"
    using search_chain_absent [OF c(1), of "\<lambda>e. ce_filename e = f"] f False by force
  ultimately show ?thesis
    using hang_entry_rechains [OF assms(1) c False, of "\<lambda>_. \<lparr>ce_filename = f, ce_data = data\<rparr>"]
    by (auto simp: linked_add_to_list_def)
qed

lemma linked_delete_node_found:
  assumes "roomy h" and c: "chain (cells h) p (ys @ (a, v) # zs) NULL" "distinct (map fst (ys @ (a, v) # zs))"
    and f: "ce_filename v = f" "f \<notin> (ce_filename \<circ> snd) ` set ys"
  shows "\<exists>h' p'. linked_delete_node h p f = Inr (h', p', ce_data v) \<and> roomy h' \<and>
    rechains h (ys @ (a, v) # zs) h' p' (ys @ zs)"
proof -
  have "search_chain h (\<lambda>e. ce_filename e = f) p NULL = Some (Inr (Addr a, if ys = [] then NULL else Addr (fst (last ys))))"
    by (rule search_chain_found [OF c(1)]) (use f in \<open>force+\<close>)
  then show ?thesis using unhook_and_free [OF assms(1) c] by (auto simp: linked_delete_node_def)
qed

lemma delete_node_split:
  "f \<notin> entry_name ` set us \<Longrightarrow> entry_name e = f \<Longrightarrow>
   delete_node_from_list (us @ e # vs) f = (us @ vs, Some (entry_data e))"
  by (induction us) auto

lemma delete_node_absent: "f \<notin> entry_name ` set es \<Longrightarrow> snd (delete_node_from_list es f) = None"
  by (induction es) (auto simp: split_beta)

end
