(* ===== verification/Linked_Cache_Sim.thy ===== *)
theory Linked_Cache_Sim
  imports Linked_Cache_Facts
begin

text \<open>Every call of the linked cache does what the call of File_Cache does.\<close>

lemma linked_repD:
  assumes "linked_rep s wc B E"
  shows "table_rep (entry_heap s) (list_heads s) (nodes_of B)" and "data_rep (data_heap s) B E"
    and "buckets wc i = map value_of (B i)" and "\<not> valid_bucket i \<Longrightarrow> B i = []"
    and "queue_is (size_heap s) (ht_queue s) (filesize_queue wc)"
    and "roomy (entry_heap s)" and "roomy (data_heap s)" and "roomy (size_heap s)"
    and "ht_max s = max_buffer_size wc" and "ht_curr s = curr_buffer_size wc" and "ht_mutex s = cache_mutex wc"
  using assms by (auto simp: linked_rep_def)

lemma bucket_chain:
  assumes "linked_rep s wc B E"
  shows "chain (cells (entry_heap s)) (list_heads s i) (map node_of (B i)) NULL"
    and "distinct (map fst (map node_of (B i)))"
  using table_repD(1,2) [OF linked_repD(1) [OF assms], of i] by (simp_all add: nodes_of_def)

text \<open>The first bead with a name.\<close>

lemma first_bead:
  assumes "f \<in> b_name ` set xs"
  obtains ys x zs where "xs = ys @ x # zs" and "b_name x = f" and "f \<notin> b_name ` set ys"
proof -
  have "\<exists>x\<in>set xs. b_name x = f" using assms by auto
  then obtain ys x zs where "xs = ys @ x # zs" "b_name x = f" "\<forall>y\<in>set ys. b_name y \<noteq> f"
    by (rule split_list_first_propE)
  then show thesis using that by (metis (mono_tags, lifting) imageE)
qed

section \<open>Removing a file\<close>

lemma linked_delete_ok:
  assumes rep: "linked_rep s wc B E" and d: "delete_from_hash_table wc f = Inr wc'"
  shows "\<exists>s' B'. linked_delete s f = Inr s' \<and> linked_rep s' wc' B' E \<and>
    (\<forall>k\<in>E. cells (data_heap s') k = cells (data_heap s) k) \<and> filesize_queue wc' = filesize_queue wc"
proof -
  define i where "i = hash_val f"
  have v: "valid_bucket i" by (simp add: i_def)
  note D = linked_repD [OF rep]
  have "f \<in> b_name ` set (B i)"
  proof (rule ccontr)
    assume "f \<notin> b_name ` set (B i)"
    then have "f \<notin> entry_name ` set (buckets wc i)" by (auto simp: D(3))
    from delete_node_absent [OF this] show False
      using d by (auto simp: delete_from_hash_table_def i_def [symmetric] result_simps split: prod.splits)
  qed
  then obtain ys x zs where b: "B i = ys @ x # zs" "b_name x = f" "f \<notin> b_name ` set ys" by (rule first_bead)
  have "f \<notin> entry_name ` set (map value_of ys)" using b(3) by auto
  then have "delete_node_from_list (buckets wc i) f = (map value_of (ys @ zs), Some (b_file x))"
    using delete_node_split [of f "map value_of ys" "value_of x" "map value_of zs"] b(2) by (simp add: D(3) b(1))
  then have wc': "wc' = wc\<lparr>buckets := (buckets wc)(i := map value_of (ys @ zs)),
      curr_buffer_size := curr_buffer_size wc - file_size (b_file x)\<rparr>"
    using d v by (simp add: delete_from_hash_table_def i_def [symmetric])
  let ?n = "\<lparr>ce_filename = b_name x, ce_data = Addr (b_block x)\<rparr>"
  have nx: "node_of x = (b_addr x, ?n)" by (simp add: node_of_def)
  have c: "chain (cells (entry_heap s)) (list_heads s i) (map node_of ys @ (b_addr x, ?n) # map node_of zs) NULL"
    "distinct (map fst (map node_of ys @ (b_addr x, ?n) # map node_of zs))"
    using bucket_chain [OF rep, of i] by (simp_all add: b(1) nx)
  have "f \<notin> (ce_filename \<circ> snd) ` set (map node_of ys)" using b(3) by auto
  then obtain h' p' where del: "linked_delete_node (entry_heap s) (list_heads s i) f = Inr (h', p', Addr (b_block x))"
    "roomy h'" "rechains (entry_heap s) (map node_of ys @ (b_addr x, ?n) # map node_of zs) h' p' (map node_of ys @ map node_of zs)"
    using linked_delete_node_found [OF D(6) c, of f] b(2) by auto
  note rel = data_release [OF D(2) b(1)]
  obtain dh' where dr: "delete_block (data_heap s) (Addr (b_block x)) = Inr dh'" "data_rep dh' (B(i := ys @ zs)) E"
    "roomy dh'" "\<forall>j. j \<noteq> b_block x \<longrightarrow> cells dh' j = cells (data_heap s) j"
    using data_drop [OF rel(1,2) D(7)] by blast
  let ?s = "s\<lparr>list_heads := (list_heads s)(i := p'), entry_heap := h', data_heap := dh',
    ht_curr := ht_curr s - file_size (b_file x)\<rparr>"
  have "linked_delete s f = Inr ?s"
    using del(1) dr(1) rel(3) v by (simp add: linked_delete_def i_def [symmetric] heap_simps)
  moreover have "table_rep h' ((list_heads s)(i := p')) (nodes_of (B(i := ys @ zs)))"
  proof -
    have t: "nodes_of B i = map node_of ys @ (b_addr x, ?n) # map node_of zs" by (simp add: nodes_of_def b(1) nx)
    have "rechains (entry_heap s) (nodes_of B i) h' p' (map node_of ys @ map node_of zs)" using del(3) by (simp add: t)
    from table_rep_remove [OF D(1) t this] show ?thesis by (simp add: nodes_upd)
  qed
  then have "linked_rep ?s wc' (B(i := ys @ zs)) E"
    using D(4-11) dr(2,3) del(2) D(3) valid_hash [of f]
    by (auto simp: linked_rep_def wc' i_def fun_eq_iff)
  moreover have "\<forall>k\<in>E. cells (data_heap ?s) k = cells (data_heap s) k" using dr(4) rel(2) by (simp, metis)
  ultimately show ?thesis by (intro exI [of _ ?s] exI [of _ "B(i := ys @ zs)"]) (simp add: wc')
qed

section \<open>Evictions\<close>

lemma queue_pop_ok:
  assumes "queue_is h q (x # xs)" and "roomy h"
  shows "\<exists>h' q'. pop_front_fq h q = Inr (h', q', Some x) \<and> queue_is h' q' xs \<and> roomy h'"
proof -
  obtain a ys where r: "queue_rep h q ((a, x) # ys)" "map snd ys = xs" "dom (cells h) = footprint ((a, x) # ys)"
    using assms(1) by (auto simp: queue_is_def)
  obtain q' where p: "pop_front_fq h q = Inr (h\<lparr>cells := (cells h)(a := None)\<rparr>, q', Some x)"
    "queue_rep (h\<lparr>cells := (cells h)(a := None)\<rparr>) q' ys" using pop_fq_rep [OF r(1)] by blast
  have "a \<notin> footprint ys" using r(1) by (auto simp: queue_rep_def)
  then have "dom ((cells h)(a := None)) = footprint ys" using r(3) by auto
  then show ?thesis using p r(2) assms(2)
    by (intro exI [of _ "h\<lparr>cells := (cells h)(a := None)\<rparr>"] exI [of _ q']) (auto simp: queue_is_def roomy_def)
qed

lemma linked_evict_loop_ok:
  "linked_rep s wc B E \<Longrightarrow> filesize_queue wc = q \<Longrightarrow> evict_loop q ev need wc = Inr wc' \<Longrightarrow>
   \<exists>s' B'. linked_evict_loop ev need s = Some (Inr s') \<and> linked_rep s' wc' B' E \<and>
     (\<forall>k\<in>E. cells (data_heap s') k = cells (data_heap s) k)"
proof (induction q arbitrary: ev wc s B)
  case Nil
  then have "\<not> ev < need" "wc' = wc" by (auto split: if_splits)
  then show ?case using Nil.prems(1) by (subst linked_evict_loop.simps) auto
next
  case (Cons x q)
  show ?case
  proof (cases "ev < need")
    case False
    then show ?thesis using Cons.prems by (subst linked_evict_loop.simps) auto
  next
    case True
    then obtain wc1 where d: "delete_from_hash_table (wc\<lparr>filesize_queue := q\<rparr>) (snd x) = Inr wc1"
      "evict_loop q (ev + fst x) need wc1 = Inr wc'"
      using Cons.prems(3) by (auto simp: result_simps)
    note D = linked_repD [OF Cons.prems(1)]
    obtain h' q' where p: "pop_front_fq (size_heap s) (ht_queue s) = Inr (h', q', Some x)" "queue_is h' q' q" "roomy h'"
      using queue_pop_ok [of "size_heap s" "ht_queue s" x q] D(5,8) Cons.prems(2) by auto
    let ?s = "s\<lparr>size_heap := h', ht_queue := q'\<rparr>"
    have "linked_rep ?s (wc\<lparr>filesize_queue := q\<rparr>) B E"
      using Cons.prems(1) p(2,3) by (simp add: linked_rep_def)
    from linked_delete_ok [OF this d(1)] obtain s1 B1 where s1: "linked_delete ?s (snd x) = Inr s1"
      "linked_rep s1 wc1 B1 E" "\<forall>k\<in>E. cells (data_heap s1) k = cells (data_heap s) k" "filesize_queue wc1 = q"
      by auto
    from Cons.IH [OF s1(2,4) d(2)] obtain s' B' where
      "linked_evict_loop (ev + fst x) need s1 = Some (Inr s')" "linked_rep s' wc' B' E"
      "\<forall>k\<in>E. cells (data_heap s') k = cells (data_heap s1) k" by blast
    then show ?thesis using True p(1) s1(1,3)
      by (subst linked_evict_loop.simps) auto
  qed
qed

lemma linked_evict_ok:
  assumes "linked_rep s wc B E" and "evict_cache wc need = Inr wc'"
  shows "\<exists>s' B'. linked_evict s need = Inr s' \<and> linked_rep s' wc' B' E \<and>
     (\<forall>k\<in>E. cells (data_heap s') k = cells (data_heap s) k)"
  using linked_evict_loop_ok [OF assms(1) refl assms(2) [unfolded evict_cache_def]]
  by (auto simp: linked_evict_def)

section \<open>Entering a file\<close>

lemma queue_insert_ok:
  assumes "queue_is h q xs" and "roomy h"
  shows "\<exists>h' q'. insert_into_filesize_queue h q sz f = Inr (h', q') \<and> queue_is h' q' (insert_desc (sz, f) xs) \<and> roomy h'"
proof -
  obtain ys where r: "queue_rep h q ys" "map snd ys = xs" "dom (cells h) = footprint ys"
    using assms(1) by (auto simp: queue_is_def)
  have fr: "fresh_policy (policy h)" using assms(2) by (simp add: roomy_def)
  obtain a junk where m: "policy h (calls h) (cells h) = Some (a, junk)"
    using assms(2) by (force simp: roomy_def)
  obtain h' q' us zs where i: "insert_into_filesize_queue h q sz f = Inr (h', q')" "ys = us @ zs"
    "queue_rep h' q' (us @ (a, (sz, f)) # zs)"
    "insert_desc (sz, f) (map snd ys) = map snd us @ (sz, f) # map snd zs" "policy h' = policy h"
    using insert_fq_rep [OF r(1) fr m, of sz f] by blast
  have "dom (cells h') = insert a (dom (cells h))" using insert_fq_dom [OF m i(1)] .
  then have "dom (cells h') = footprint (us @ (a, (sz, f)) # zs)" using r(3) i(2) by auto
  moreover from this have "finite (dom (cells h'))" by simp
  moreover have "map snd (us @ (a, (sz, f)) # zs) = insert_desc (sz, f) xs" using i(2,4) r(2) by simp
  ultimately have "queue_is h' q' (insert_desc (sz, f) xs)" "roomy h'"
    using i(3,5) assms(2) unfolding queue_is_def roomy_def by (blast, simp)
  then show ?thesis using i(1) by blast
qed

text \<open>The end of \<open>add_to_hash_table\<close>, once there is room.\<close>

lemma linked_enter_ok:
  assumes rep: "linked_rep s wc B (insert k E)" and k: "k \<notin> E" and d: "cells (data_heap s) k = Some d"
    and v: "r = (let i = hash_val f; (es, b) = add_to_list (buckets wc i) f d in
     if b then (mutex_unlock (wc\<lparr>buckets := (buckets wc)(i := es), curr_buffer_size := curr_buffer_size wc + file_size d,
              filesize_queue := insert_desc (file_size d, f) (filesize_queue wc)\<rparr>), True)
     else (mutex_unlock wc, False))"
  shows "\<exists>s' B'. bindE (linked_add_to_list (entry_heap s) (list_heads s (hash_val f)) f (Addr k)) (\<lambda>(h', head', added).
     let s3 = s\<lparr>entry_heap := h', list_heads := (list_heads s)(hash_val f := head')\<rparr> in
     if added then
       bindE (insert_into_filesize_queue (size_heap s3) (ht_queue s3) (file_size d) f) (\<lambda>(qh, q).
       Inr (s3\<lparr>ht_curr := ht_curr s3 + file_size d, size_heap := qh, ht_queue := q, ht_mutex := False\<rparr>, True))
     else bindE (delete_block (data_heap s3) (Addr k)) (\<lambda>dh'. Inr (s3\<lparr>data_heap := dh', ht_mutex := False\<rparr>, False)))
    = Inr (s', snd r) \<and> linked_rep s' (fst r) B' E \<and> (\<forall>j\<in>E. cells (data_heap s') j = cells (data_heap s) j)"
proof -
  define i where "i = hash_val f"
  have vi: "valid_bucket i" by (simp add: i_def)
  note D = linked_repD [OF rep]
  note c = bucket_chain [OF rep, of i]
  show ?thesis
  proof (cases "f \<in> b_name ` set (B i)")
    case True
    then have "f \<in> entry_name ` set (buckets wc i)" by (simp add: D(3) image_comp comp_def)
    then have r: "r = (wc\<lparr>cache_mutex := False\<rparr>, False)"
      using v by (simp add: add_to_list_old i_def mutex_unlock_def)
    have "f \<in> (ce_filename \<circ> snd) ` set (map node_of (B i))" using True by (simp add: image_comp comp_def)
    note old = linked_add_old [OF c(1) this, of "Addr k"]
    obtain dh' where dr: "delete_block (data_heap s) (Addr k) = Inr dh'" "data_rep dh' B E" "roomy dh'"
      "\<forall>j. j \<noteq> k \<longrightarrow> cells dh' j = cells (data_heap s) j" using data_drop [OF D(2) k D(7)] by blast
    have "linked_rep (s\<lparr>data_heap := dh', ht_mutex := False\<rparr>) (fst r) B E"
      using rep dr(2,3) by (simp add: linked_rep_def r)
    then show ?thesis using old dr(1,4) k
      by (intro exI [of _ "s\<lparr>data_heap := dh', ht_mutex := False\<rparr>"] exI [of _ B]) (auto simp: i_def r Let_def)
  next
    case False
    then have "f \<notin> entry_name ` set (buckets wc i)" by (auto simp: D(3))
    then have r: "r = (wc\<lparr>buckets := (buckets wc)(i := buckets wc i @ [\<lparr>entry_name = f, entry_data = d\<rparr>]),
        curr_buffer_size := curr_buffer_size wc + file_size d,
        filesize_queue := insert_desc (file_size d, f) (filesize_queue wc), cache_mutex := False\<rparr>, True)"
      using v by (simp add: add_to_list_new i_def mutex_unlock_def Let_def)
    have "f \<notin> (ce_filename \<circ> snd) ` set (map node_of (B i))" using False by auto
    from linked_add_new [OF D(6) c this, of "Addr k"] obtain h' p' a where
      new: "linked_add_to_list (entry_heap s) (list_heads s i) f (Addr k) = Inr (h', p', True)"
      "cells (entry_heap s) a = None" "roomy h'"
      "rechains (entry_heap s) (map node_of (B i)) h' p' (map node_of (B i) @ [(a, \<lparr>ce_filename = f, ce_data = Addr k\<rparr>)])" by blast
    obtain qh q where q: "insert_into_filesize_queue (size_heap s) (ht_queue s) (file_size d) f = Inr (qh, q)"
      "queue_is qh q (insert_desc (file_size d, f) (filesize_queue wc))" "roomy qh"
      using queue_insert_ok [OF D(5,8), of "file_size d" f] by blast
    define x where "x = \<lparr>b_addr = a, b_block = k, b_name = f, b_file = d\<rparr>"
    have nx: "node_of x = (a, \<lparr>ce_filename = f, ce_data = Addr k\<rparr>)" "value_of x = \<lparr>entry_name = f, entry_data = d\<rparr>"
      by (simp_all add: x_def node_of_def value_of_def)
    let ?B = "B(i := B i @ [x])"
    have "table_rep h' ((list_heads s)(i := p')) (nodes_of ?B)"
      using table_rep_add [OF D(1), of i h' p' a "\<lparr>ce_filename = f, ce_data = Addr k\<rparr>"] new(2,4)
      by (simp add: nodes_upd nx) (simp add: nodes_of_def)
    moreover have "data_rep (data_heap s) ?B E"
      by (rule data_adopt [OF D(2) k d]) (simp_all add: x_def)
    moreover have "buckets (fst r) = (\<lambda>i. map value_of (?B i))" by (auto simp: r D(3) nx fun_eq_iff)
    ultimately have "linked_rep (s\<lparr>entry_heap := h', list_heads := (list_heads s)(i := p'), ht_curr := ht_curr s + file_size d,
        size_heap := qh, ht_queue := q, ht_mutex := False\<rparr>) (fst r) ?B E"
      using D(4,6-11) new(3) q(2,3) vi by (auto simp: linked_rep_def r)
    then show ?thesis using new(1) q(1) i_def
      by (intro exI [of _ "s\<lparr>entry_heap := h', list_heads := (list_heads s)(i := p'), ht_curr := ht_curr s + file_size d,
        size_heap := qh, ht_queue := q, ht_mutex := False\<rparr>"] exI [of _ ?B]) (simp add: r Let_def)
  qed
qed

section \<open>The calls\<close>

lemma linked_lock_ok:
  assumes "linked_rep s wc B E" and "mutex_lock wc = Inr wc1"
  shows "linked_lock s = Inr (s\<lparr>ht_mutex := True\<rparr>)" and "wc1 = wc\<lparr>cache_mutex := True\<rparr>"
    and "linked_rep (s\<lparr>ht_mutex := True\<rparr>) wc1 B E"
  using assms by (auto simp: linked_lock_def mutex_lock_def linked_rep_def split: if_splits)

lemma linked_copy_ok:
  assumes rep: "linked_rep s wc B E" and d: "cells (data_heap s) k = Some d" and c: "file_data_copy after d = Inr d'"
  shows "\<exists>dh k'. copy_block after (data_heap s) (Addr k) = Inr (dh, Addr k') \<and> k' \<notin> E \<and> cells dh k' = Some d' \<and>
    linked_rep (s\<lparr>data_heap := dh\<rparr>) wc B (insert k' E) \<and> (\<forall>j\<in>E. cells dh j = cells (data_heap s) j)"
proof -
  note D = linked_repD [OF rep]
  obtain dh k' where n: "copy_block after (data_heap s) (Addr k) = Inr (dh, Addr k')" "cells (data_heap s) k' = None"
    "cells dh = (cells (data_heap s))(k' \<mapsto> d')" "roomy dh" using copy_block_ok [OF D(7) d c] by blast
  have k': "k' \<notin> E" using D(2) n(2) by (auto simp: data_rep_def)
  have "linked_rep (s\<lparr>data_heap := dh\<rparr>) wc B (insert k' E)"
    using rep data_new [OF D(2) n(2,3)] n(4) by (simp add: linked_rep_def)
  then show ?thesis using n(1,3) k' by (intro exI [of _ dh] exI [of _ k']) auto
qed

text \<open>The last step of \<open>add_to_hash_table\<close>.\<close>

definition entering :: "string \<Rightarrow> file_data \<Rightarrow> cache \<Rightarrow> (cache \<times> bool) result" where
  "entering f d wc = bindE (assertE (valid_bucket (hash_val f))) (\<lambda>_.
     case add_to_list (buckets wc (hash_val f)) f d of (es, b) \<Rightarrow>
     if b then Inr (mutex_unlock (wc\<lparr>buckets := (buckets wc)(hash_val f := es),
         curr_buffer_size := curr_buffer_size wc + file_size d,
         filesize_queue := insert_desc (file_size d, f) (filesize_queue wc)\<rparr>), True)
     else Inr (mutex_unlock wc, False))"

lemma linked_add_ok:
  assumes rep: "linked_rep s wc B E" and k: "k \<in> E" and d: "cells (data_heap s) k = Some d"
    and call: "add_to_hash_table wc f d = Inr (wc', b)"
  shows "\<exists>s' B'. linked_add (heap_after wc) s f (Addr k) = Inr (s', b) \<and> linked_rep s' wc' B' E \<and>
    (\<forall>j\<in>E. cells (data_heap s') j = cells (data_heap s) j)"
proof -
  obtain wc1 d' wc2 where v: "mutex_lock wc = Inr wc1" "file_data_copy (heap_after wc) d = Inr d'"
    "file_size d' \<le> max_buffer_size wc1"
    "(if max_buffer_size wc1 - curr_buffer_size wc1 < file_size d' then
        bindE (evict_cache wc1 (file_size d' - (max_buffer_size wc1 - curr_buffer_size wc1))) (\<lambda>wc2.
        bindE (assertE (file_size d' \<le> max_buffer_size wc2 - curr_buffer_size wc2)) (\<lambda>_. Inr wc2))
      else Inr wc1) = Inr wc2"
    and r: "(wc', b) = (let i = hash_val f; (es, b) = add_to_list (buckets wc2 i) f d' in
     if b then (mutex_unlock (wc2\<lparr>buckets := (buckets wc2)(i := es), curr_buffer_size := curr_buffer_size wc2 + file_size d',
              filesize_queue := insert_desc (file_size d', f) (filesize_queue wc2)\<rparr>), True)
     else (mutex_unlock wc2, False))"
  proof -
    from call [unfolded add_to_hash_table_def Let_def bindE_eq_Inr [of "mutex_lock wc"]] obtain wc1 where
      1: "mutex_lock wc = Inr wc1" and c: "bindE (file_data_copy (heap_after wc1) d) (\<lambda>new_data.
         bindE (assertE (file_size new_data \<le> max_buffer_size wc1)) (\<lambda>_.
         bindE (if max_buffer_size wc1 - curr_buffer_size wc1 < file_size new_data then
              bindE (evict_cache wc1 (file_size new_data - (max_buffer_size wc1 - curr_buffer_size wc1))) (\<lambda>wc1.
              bindE (assertE (file_size new_data \<le> max_buffer_size wc1 - curr_buffer_size wc1)) (\<lambda>_. Inr wc1))
            else Inr wc1) (\<lambda>wc1. entering f new_data wc1))) = Inr (wc', b)"
      unfolding entering_def by auto
    from c obtain d' wc2 where "file_data_copy (heap_after wc1) d = Inr d'" "file_size d' \<le> max_buffer_size wc1"
      "(if max_buffer_size wc1 - curr_buffer_size wc1 < file_size d' then
        bindE (evict_cache wc1 (file_size d' - (max_buffer_size wc1 - curr_buffer_size wc1))) (\<lambda>wc2.
        bindE (assertE (file_size d' \<le> max_buffer_size wc2 - curr_buffer_size wc2)) (\<lambda>_. Inr wc2))
      else Inr wc1) = Inr wc2" "entering f d' wc2 = Inr (wc', b)"
      unfolding bindE_eq_Inr [of "file_data_copy _ _"] bindE_eq_Inr [of "assertE _"] bindE_eq_Inr [of "If _ _ _"] by (auto simp: result_simps)
    moreover have "heap_after wc1 = heap_after wc" using 1 by (auto simp: mutex_lock_def split: if_splits)
    ultimately show thesis using 1 by (intro that [of wc1 d' wc2]) (auto simp: entering_def split: prod.splits if_splits)
  qed
  note l = linked_lock_ok [OF rep v(1)]
  have dl: "cells (data_heap (s\<lparr>ht_mutex := True\<rparr>)) k = Some d" using d by simp
  obtain dh k' where n: "copy_block (heap_after wc) (data_heap s) (Addr k) = Inr (dh, Addr k')" "k' \<notin> E"
    "cells dh k' = Some d'" "linked_rep (s\<lparr>ht_mutex := True, data_heap := dh\<rparr>) wc1 B (insert k' E)"
    "\<forall>j\<in>E. cells dh j = cells (data_heap s) j"
    using linked_copy_ok [OF l(3) dl v(2)] by auto
  let ?s = "s\<lparr>ht_mutex := True, data_heap := dh\<rparr>"
  note D = linked_repD [OF n(4)]
  have "\<exists>s2 B2. (if ht_max ?s - ht_curr ?s < file_size d' then
        bindE (linked_evict ?s (file_size d' - (ht_max ?s - ht_curr ?s))) (\<lambda>s2.
        bindE (assertE (file_size d' \<le> ht_max s2 - ht_curr s2)) (\<lambda>_. Inr s2))
      else Inr ?s) = Inr s2 \<and> linked_rep s2 wc2 B2 (insert k' E) \<and>
      (\<forall>j\<in>insert k' E. cells (data_heap s2) j = cells dh j)"
  proof (cases "max_buffer_size wc1 - curr_buffer_size wc1 < file_size d'")
    case True
    then obtain ev: "evict_cache wc1 (file_size d' - (max_buffer_size wc1 - curr_buffer_size wc1)) = Inr wc2"
      and a: "file_size d' \<le> max_buffer_size wc2 - curr_buffer_size wc2"
      using v(4) by (auto simp: result_simps)
    obtain s2 B2 where e: "linked_evict ?s (file_size d' - (max_buffer_size wc1 - curr_buffer_size wc1)) = Inr s2"
      "linked_rep s2 wc2 B2 (insert k' E)" "\<forall>j\<in>insert k' E. cells (data_heap s2) j = cells (data_heap ?s) j"
      using linked_evict_ok [OF n(4) ev] by blast
    show ?thesis using True e a linked_repD(9,10) [OF e(2)] D(9,10)
      by (intro exI [of _ s2] exI [of _ B2]) simp
  next
    case False
    then show ?thesis using v(4) n(4) D(9,10) by (intro exI [of _ ?s] exI [of _ B]) simp
  qed
  then obtain s2 B2 where s2: "(if ht_max ?s - ht_curr ?s < file_size d' then
        bindE (linked_evict ?s (file_size d' - (ht_max ?s - ht_curr ?s))) (\<lambda>s2.
        bindE (assertE (file_size d' \<le> ht_max s2 - ht_curr s2)) (\<lambda>_. Inr s2))
      else Inr ?s) = Inr s2" "linked_rep s2 wc2 B2 (insert k' E)" "\<forall>j\<in>insert k' E. cells (data_heap s2) j = cells dh j"
    by blast
  have "cells (data_heap s2) k' = Some d'" using s2(3) n(3) by simp
  from linked_enter_ok [OF s2(2) n(2) this r] obtain s' B' where e: "linked_rep s' wc' B' E"
    "\<forall>j\<in>E. cells (data_heap s') j = cells (data_heap s2) j"
    and eq: "bindE (linked_add_to_list (entry_heap s2) (list_heads s2 (hash_val f)) f (Addr k')) (\<lambda>(h', head', added).
     let s3 = s2\<lparr>entry_heap := h', list_heads := (list_heads s2)(hash_val f := head')\<rparr> in
     if added then
       bindE (insert_into_filesize_queue (size_heap s3) (ht_queue s3) (file_size d') f) (\<lambda>(qh, q).
       Inr (s3\<lparr>ht_curr := ht_curr s3 + file_size d', size_heap := qh, ht_queue := q, ht_mutex := False\<rparr>, True))
     else bindE (delete_block (data_heap s3) (Addr k')) (\<lambda>dh'. Inr (s3\<lparr>data_heap := dh', ht_mutex := False\<rparr>, False)))
    = Inr (s', b)" by auto
  have max: "file_size d' \<le> ht_max s" using v(3) D(9) by simp
  have "linked_add (heap_after wc) s f (Addr k) = Inr (s', b)"
    using n(1,3) max s2(1) eq unfolding linked_add_def l(1)
    by (simp add: heap_simps Let_def)
  then show ?thesis using e s2(3) n(5) by (intro exI [of _ s'] exI [of _ B']) simp
qed

end
