(* ===== verification/Linked_Cache_Properties.thy ===== *)
theory Linked_Cache_Properties
  imports Linked_Cache_Sim
begin

text \<open>
  The linked file cache from \<open>hash_table_init\<close> to \<open>delete_hash_table\<close>: every sequence of calls
  gives the answers of File_Cache, and the deletion frees what is left.
\<close>

section \<open>Lookups\<close>

lemma find_in_list_split:
  assumes "find_in_list (map value_of xs) f = Some d"
  obtains ys x zs where "xs = ys @ x # zs" and "b_name x = f" and "f \<notin> b_name ` set ys" and "b_file x = d"
proof -
  have "f \<in> b_name ` set xs"
    using assms find_in_list_None [of "map value_of xs" f] by (simp add: image_comp comp_def)
  then obtain ys x zs where s: "xs = ys @ x # zs" "b_name x = f" "f \<notin> b_name ` set ys" by (rule first_bead)
  have "find_in_list (map value_of (ys @ x # zs)) f = Some (b_file x)"
    using s(2,3) by (induction ys) auto
  then show thesis using that s assms by simp
qed

lemma linked_find_ok:
  assumes rep: "linked_rep s wc B E" and call: "find_in_hash_table wc f = Inr (wc', r)"
  shows "case r of
      None \<Rightarrow> \<exists>s'. linked_find (heap_after wc) s f = Inr (s', NULL) \<and> linked_rep s' wc' B E
    | Some d \<Rightarrow> \<exists>s' k. linked_find (heap_after wc) s f = Inr (s', Addr k) \<and> k \<notin> E \<and>
        cells (data_heap s') k = Some d \<and> linked_rep s' wc' B (insert k E)"
proof -
  define i where "i = hash_val f"
  have fd: "find_in_hash_table wc f = bindE (mutex_lock wc) (\<lambda>wc. case find_in_list (buckets wc i) f of
       None \<Rightarrow> Inr (mutex_unlock wc, None)
     | Some d \<Rightarrow> bindE (file_data_copy (heap_after wc) d) (\<lambda>new_data. Inr (mutex_unlock wc, Some new_data)))"
    by (simp add: find_in_hash_table_def Let_def i_def)
  have vi: "valid_bucket i" by (simp add: i_def)
  from call [unfolded fd bindE_eq_Inr [of "mutex_lock wc"]] obtain wc1 where m: "mutex_lock wc = Inr wc1" and c: "(case find_in_list (buckets wc1 i) f of
       None \<Rightarrow> Inr (mutex_unlock wc1, None)
     | Some d \<Rightarrow> bindE (file_data_copy (heap_after wc1) d) (\<lambda>new_data. Inr (mutex_unlock wc1, Some new_data))) = Inr (wc', r)"
    by blast
  note l = linked_lock_ok [OF rep m]
  let ?s = "s\<lparr>ht_mutex := True\<rparr>"
  have after: "heap_after wc1 = heap_after wc" by (simp add: l(2))
  have b: "buckets wc1 i = map value_of (B i)" by (rule linked_repD(3) [OF l(3)])
  note ch = bucket_chain(1) [OF l(3), of i]
  show ?thesis
  proof (cases "find_in_list (buckets wc1 i) f")
    case None
    then have r: "r = None" "wc' = mutex_unlock wc1" using c by simp_all
    have "f \<notin> b_name ` set (B i)" using None by (simp add: b find_in_list_None image_comp comp_def)
    then have "\<forall>x\<in>set (map node_of (B i)). \<not> ce_filename (snd x) = f" by auto
    from search_chain_absent [OF ch this] have "linked_find (heap_after wc) s f = Inr (?s\<lparr>ht_mutex := False\<rparr>, NULL)"
      by (simp add: linked_find_def l(1) i_def Let_def)
    moreover have "linked_rep (?s\<lparr>ht_mutex := False\<rparr>) wc' B E"
      using l(3) by (simp add: r(2) linked_rep_def mutex_unlock_def)
    ultimately show ?thesis by (simp add: r(1))
  next
    case (Some d)
    then obtain d' where r: "file_data_copy (heap_after wc) d = Inr d'" "r = Some d'" "wc' = mutex_unlock wc1"
      using c after by (auto simp: result_simps)
    obtain ys x zs where x: "B i = ys @ x # zs" "b_name x = f" "f \<notin> b_name ` set ys" "b_file x = d"
      by (rule find_in_list_split [OF Some [unfolded b]])
    obtain v where v: "node_of x = (b_addr x, v)" "ce_filename v = f" "ce_data v = Addr (b_block x)"
      using node_of_def [of x] x(2) by (metis node_of_simps prod.collapse)
    have "chain (cells (entry_heap ?s)) (list_heads ?s i) (map node_of ys @ (b_addr x, v) # map node_of zs) NULL"
      using ch by (simp add: x(1) v(1))
    note found = search_chain_found [OF this, of "\<lambda>e. ce_filename e = f" NULL]
    obtain n where n: "cells (entry_heap ?s) (b_addr x) = Some \<lparr>nxt = n, val = v\<rparr>"
      using ch by (auto simp: x(1) v(1) chain_append)
    have "cells (data_heap ?s) (b_block x) = Some d"
      using data_repD(1) [OF linked_repD(2) [OF l(3)], of x i] x(1,4) by simp
    from linked_copy_ok [OF l(3) this r(1)] obtain dh k where k:
      "copy_block (heap_after wc) (data_heap s) (Addr (b_block x)) = Inr (dh, Addr k)" "k \<notin> E" "cells dh k = Some d'"
      "linked_rep (?s\<lparr>data_heap := dh\<rparr>) wc1 B (insert k E)" by auto
    have "\<forall>x\<in>set (map node_of ys). \<not> ce_filename (snd x) = f" using x(3) by auto
    then have "linked_find (heap_after wc) s f = Inr (?s\<lparr>data_heap := dh, ht_mutex := False\<rparr>, Addr k)"
      using found v(2,3) n k(1) vi by (simp add: linked_find_def l(1) i_def [symmetric] Let_def load_def)
    moreover have "linked_rep (?s\<lparr>data_heap := dh, ht_mutex := False\<rparr>) wc' B (insert k E)"
      using k(4) by (simp add: r(3) linked_rep_def mutex_unlock_def)
    ultimately show ?thesis using k(2,3) by (auto simp: r(2))
  qed
qed

section \<open>The deletion of the table\<close>

text \<open>The entries and the blocks of one list.\<close>

lemma delete_list_loop_ok:
  "chain (cells h) p (map node_of xs) NULL \<Longrightarrow> distinct (map b_addr xs) \<Longrightarrow> distinct (map b_block xs) \<Longrightarrow>
   \<forall>x\<in>set xs. cells dh (b_block x) = Some (b_file x) \<Longrightarrow>
   delete_list_loop h dh p = Some (Inr (h\<lparr>cells := without (cells h) (b_addr ` set xs)\<rparr>,
     dh\<lparr>cells := without (cells dh) (b_block ` set xs)\<rparr>))"
proof (induction xs arbitrary: h dh p)
  case Nil
  then show ?case by (subst delete_list_loop.simps) simp
next
  case (Cons x xs)
  let ?v = "\<lparr>ce_filename = b_name x, ce_data = Addr (b_block x)\<rparr>"
  obtain n where n: "p = Addr (b_addr x)" "cells h (b_addr x) = Some \<lparr>nxt = n, val = ?v\<rparr>"
    "chain (cells h) n (map node_of xs) NULL" using Cons.prems(1) node_of_def [of x] by auto
  let ?h = "h\<lparr>cells := (cells h)(b_addr x := None)\<rparr>" and ?dh = "dh\<lparr>cells := (cells dh)(b_block x := None)\<rparr>"
  have new: "b_addr x \<notin> b_addr ` set xs" "\<forall>y\<in>set xs. b_block y \<noteq> b_block x"
    using Cons.prems(2,3) by (simp, simp, metis imageI)
  have "chain (cells ?h) n (map node_of xs) NULL"
    by (rule chain_agree [OF n(3)]) (use Cons.prems(2) in \<open>auto simp: image_iff\<close>)
  then have "delete_list_loop ?h ?dh n = Some (Inr (?h\<lparr>cells := without (cells ?h) (b_addr ` set xs)\<rparr>,
     ?dh\<lparr>cells := without (cells ?dh) (b_block ` set xs)\<rparr>))"
    by (rule Cons.IH) (use Cons.prems(2-4) new(2) in simp_all)
  then show ?case using n(1,2) Cons.prems(4)
    by (subst delete_list_loop.simps) (simp add: load_def free_def delete_block_def)
qed

definition addresses_in :: "(int \<Rightarrow> bead list) \<Rightarrow> int list \<Rightarrow> nat set" where
  "addresses_in B is = (\<Union>i\<in>set is. b_addr ` set (B i))"

definition blocks_in :: "(int \<Rightarrow> bead list) \<Rightarrow> int list \<Rightarrow> nat set" where
  "blocks_in B is = (\<Union>i\<in>set is. b_block ` set (B i))"

text \<open>The lists \<open>js\<close> are still as they were.\<close>

definition lists_left :: "hash_table \<Rightarrow> (int \<Rightarrow> bead list) \<Rightarrow> int list \<Rightarrow> bool" where
  "lists_left s B js \<longleftrightarrow> (\<forall>i\<in>set js. chain (cells (entry_heap s)) (list_heads s i) (map node_of (B i)) NULL \<and>
     (\<forall>x\<in>set (B i). cells (data_heap s) (b_block x) = Some (b_file x)))"

definition freed :: "hash_table \<Rightarrow> nat set \<Rightarrow> nat set \<Rightarrow> hash_table" where
  "freed s A K = s\<lparr>entry_heap := (entry_heap s)\<lparr>cells := without (cells (entry_heap s)) A\<rparr>,
     data_heap := (data_heap s)\<lparr>cells := without (cells (data_heap s)) K\<rparr>\<rparr>"

lemma freed_freed: "freed (freed s A K) A' K' = freed s (A \<union> A') (K \<union> K')"
  by (simp add: freed_def)

lemma delete_lists_ok:
  "separated (addresses (nodes_of B)) \<Longrightarrow> separated (blocks_of B) \<Longrightarrow> distinct js \<Longrightarrow> lists_left s B js \<Longrightarrow>
   foldE delete_list s js = Inr (freed s (addresses_in B js) (blocks_in B js))"
proof (induction js arbitrary: s)
  case Nil
  then show ?case by (simp add: freed_def addresses_in_def blocks_in_def)
next
  case (Cons j js)
  have a: "addresses (nodes_of B) i = map b_addr (B i)" for i
    by (simp add: addresses_def nodes_of_def)
  let ?A = "b_addr ` set (B j)" and ?K = "b_block ` set (B j)"
  have one: "delete_list s j = Inr (freed s ?A ?K)"
    using delete_list_loop_ok [of "entry_heap s" "list_heads s j" "B j" "data_heap s"] Cons.prems(4)
      separatedD(1) [OF Cons.prems(1), of j] separatedD(1) [OF Cons.prems(2), of j]
    by (simp add: a blocks_of_def lists_left_def delete_list_def freed_def)
  have "lists_left (freed s ?A ?K) B js" unfolding lists_left_def
  proof (intro ballI conjI)
    fix i assume i: "i \<in> set js"
    then have ij: "i \<noteq> j" using Cons.prems(3) by auto
    have other: "b_addr x \<notin> ?A" "b_block x \<notin> ?K" if "x \<in> set (B i)" for x
      using separatedD(2) [OF Cons.prems(1), of "b_addr x" i j] separatedD(2) [OF Cons.prems(2), of "b_block x" i j] that ij
      by (auto simp: a blocks_of_def)
    have "chain (cells (entry_heap s)) (list_heads s i) (map node_of (B i)) NULL"
      using Cons.prems(4) i by (simp add: lists_left_def)
    then show "chain (cells (entry_heap (freed s ?A ?K))) (list_heads (freed s ?A ?K) i) (map node_of (B i)) NULL"
      unfolding freed_def by (simp, rule chain_agree) (use other in \<open>auto simp: without_other\<close>)
    fix x assume "x \<in> set (B i)"
    then show "cells (data_heap (freed s ?A ?K)) (b_block x) = Some (b_file x)"
      using other(2) [of x] Cons.prems(4) i by (simp add: lists_left_def freed_def without_other)
  qed
  then have "foldE delete_list (freed s ?A ?K) js =
      Inr (freed (freed s ?A ?K) (addresses_in B js) (blocks_in B js))"
    using Cons.prems(1-3) by (intro Cons.IH) simp_all
  then show ?case using one by (simp add: freed_freed addresses_in_def blocks_in_def)
qed

lemma delete_hash_table_ok:
  assumes rep: "linked_rep s wc B E"
  shows "\<exists>s'. delete_hash_table s = Inr s' \<and> cells (entry_heap s') = Map.empty \<and> dom (cells (data_heap s')) = E \<and>
    (\<forall>k\<in>E. cells (data_heap s') k = cells (data_heap s) k) \<and> cells (size_heap s') = Map.empty"
proof -
  note D = linked_repD [OF rep]
  let ?js = "map int [0..<NUM_BUCKETS]"
  have js: "i \<in> set ?js \<longleftrightarrow> valid_bucket i" for i
    by (auto simp: valid_bucket_def image_iff intro!: bexI [of _ "nat i"])
  have all: "all_of F = (\<Union>i\<in>set ?js. set (F i))" if "\<And>i. \<not> valid_bucket i \<Longrightarrow> F i = []" for F
    using that js unfolding all_of_def by fastforce
  let ?A = "addresses_in B ?js" and ?K = "blocks_in B ?js"
  have A: "?A = all_of (addresses (nodes_of B))"
    by (subst all) (auto simp: addresses_in_def addresses_def nodes_of_def D(4))
  have K: "?K = all_of (blocks_of B)" by (subst all) (auto simp: blocks_in_def blocks_of_def D(4))
  have "lists_left s B ?js" using bucket_chain(1) [OF rep] data_repD(1) [OF D(2)] by (simp add: lists_left_def)
  then have f: "foldE delete_list s ?js = Inr (freed s ?A ?K)"
    using table_repD(4) [OF D(1)] D(2) by (intro delete_lists_ok) (auto simp: data_rep_def distinct_map)
  obtain ys where q: "queue_rep (size_heap s) (ht_queue s) ys" "dom (cells (size_heap s)) = footprint ys"
    using D(5) by (auto simp: queue_is_def)
  then obtain qh where qh: "delete_queue_fq (size_heap s) (ht_queue s) = Inr qh" "dom (cells qh) = {}"
    using delete_queue_fq_rep [OF q(1)] by auto
  have "without (cells (entry_heap s)) ?A = Map.empty" by (rule without_all) (simp add: A table_repD(3) [OF D(1)])
  moreover have "dom (cells (data_heap s)) - ?K = E" "E \<inter> ?K = {}"
    using D(2) unfolding K data_rep_def by blast+
  ultimately show ?thesis using f qh
    by (intro exI [of _ "(freed s ?A ?K)\<lparr>size_heap := qh\<rparr>"])
      (auto simp: delete_hash_table_def freed_def without_other simp del: set_map)
qed

section \<open>Runs\<close>

text \<open>A caller hands over a block of its own, and frees the blocks that it made or was given.\<close>

datatype cache_answer = Found "file_data option" | Added bool

definition linked_call :: "string \<Rightarrow> hash_table \<times> cache_answer list \<Rightarrow> cache_call \<Rightarrow> (hash_table \<times> cache_answer list) result" where
  "linked_call after so c = (case so of (s, out) \<Rightarrow> (case c of
       Find f \<Rightarrow> bindE (linked_find after s f) (\<lambda>(s', p).
         if p = NULL then Inr (s', out @ [Found None])
         else bindE (load (data_heap s') p) (\<lambda>d.
              bindE (delete_block (data_heap s') p) (\<lambda>dh. Inr (s'\<lparr>data_heap := dh\<rparr>, out @ [Found (Some d)]))))
     | Add f d \<Rightarrow> bindE (Malloc (data_heap s)) (\<lambda>(p, dh).
         bindE (store dh p d) (\<lambda>dh'.
         bindE (linked_add after (s\<lparr>data_heap := dh'\<rparr>) f p) (\<lambda>(s', b).
         bindE (delete_block (data_heap s') p) (\<lambda>dh''. Inr (s'\<lparr>data_heap := dh''\<rparr>, out @ [Added b])))))))"

definition cache_call_answer :: "cache \<times> cache_answer list \<Rightarrow> cache_call \<Rightarrow> (cache \<times> cache_answer list) result" where
  "cache_call_answer wo c = (case wo of (wc, out) \<Rightarrow> (case c of
       Find f \<Rightarrow> bindE (find_in_hash_table wc f) (\<lambda>(wc', r). Inr (wc', out @ [Found r]))
     | Add f d \<Rightarrow> bindE (add_to_hash_table wc f d) (\<lambda>(wc', b). Inr (wc', out @ [Added b]))))"

lemma cache_call_answer_ok:
  assumes "cache_state_ok m wc" and "legal_call m c"
  shows "\<exists>wc' r. cache_call_answer (wc, out) c = Inr (wc', out @ [r]) \<and> cache_state_ok m wc' \<and> cache_step wc c = Inr wc'"
  using cache_step_ok [OF assms]
  by (cases c) (auto simp: cache_step_def cache_call_answer_def result_simps)

lemma heap_after_step:
  assumes ok: "cache_state_ok m wc" and legal: "legal_call m c" and step: "cache_step wc c = Inr wc'"
  shows "heap_after wc' = heap_after wc"
proof (cases c)
  case (Find f)
  then show ?thesis using step ok
    by (auto simp: cache_step_def find_in_hash_table_ok cache_state_ok_def result_simps split: option.splits)
next
  case (Add f d)
  then obtain d' where "file_data_copy (heap_after wc) d = Inr d'"
    using terminated_copy [of d "heap_after wc"] legal by (auto simp: legal_call_def)
  then show ?thesis using add_to_hash_table_ok [of wc d d' f] step ok legal Add
    by (auto simp: cache_step_def cache_state_ok_def legal_call_def result_simps)
qed

lemma linked_drop_ok:
  assumes "linked_rep s wc B (insert k E)" and "k \<notin> E"
  shows "\<exists>dh. delete_block (data_heap s) (Addr k) = Inr dh \<and> linked_rep (s\<lparr>data_heap := dh\<rparr>) wc B E"
  using data_drop [OF linked_repD(2) [OF assms(1)] assms(2) linked_repD(7) [OF assms(1)]] assms(1)
  by (auto simp: linked_rep_def)

lemma calls_after_cells: "(h\<lparr>calls := n, cells := f\<rparr>) = h\<lparr>cells := f, calls := n\<rparr>" for h :: "'c heap"
  by simp

lemma linked_call_ok:
  assumes rep: "linked_rep s wc B E" and call: "cache_call_answer (wc, out) c = Inr (wc', out')"
  shows "\<exists>s' B'. linked_call (heap_after wc) (s, out) c = Inr (s', out') \<and> linked_rep s' wc' B' E"
proof (cases c)
  case (Find f)
  then obtain r where r: "find_in_hash_table wc f = Inr (wc', r)" "out' = out @ [Found r]"
    using call by (auto simp: cache_call_answer_def result_simps)
  show ?thesis
  proof (cases r)
    case None
    then show ?thesis using linked_find_ok [OF rep r(1)] r(2) Find by (fastforce simp: linked_call_def)
  next
    case (Some d)
    then obtain s' k where s': "linked_find (heap_after wc) s f = Inr (s', Addr k)" "k \<notin> E"
      "cells (data_heap s') k = Some d" "linked_rep s' wc' B (insert k E)"
      using linked_find_ok [OF rep r(1)] by auto
    obtain dh where "delete_block (data_heap s') (Addr k) = Inr dh" "linked_rep (s'\<lparr>data_heap := dh\<rparr>) wc' B E"
      using linked_drop_ok [OF s'(4,2)] by blast
    then show ?thesis using s'(1,3) r(2) Find Some
      by (intro exI [of _ "s'\<lparr>data_heap := dh\<rparr>"] exI [of _ B]) (simp add: linked_call_def load_def)
  qed
next
  case (Add f d)
  then obtain b where b: "add_to_hash_table wc f d = Inr (wc', b)" "out' = out @ [Added b]"
    using call by (auto simp: cache_call_answer_def result_simps)
  note D = linked_repD [OF rep]
  obtain k j where m: "Malloc (data_heap s) = Inr (Addr k, (data_heap s)\<lparr>cells := (cells (data_heap s))(k \<mapsto> j), calls := Suc (calls (data_heap s))\<rparr>)"
    "cells (data_heap s) k = None" "roomy ((data_heap s)\<lparr>cells := (cells (data_heap s))(k \<mapsto> j), calls := Suc (calls (data_heap s))\<rparr>)"
    by (rule roomy_Malloc [OF D(7)])
  let ?dh = "(data_heap s)\<lparr>cells := (cells (data_heap s))(k \<mapsto> d), calls := Suc (calls (data_heap s))\<rparr>"
  have k: "k \<notin> E" using D(2) m(2) by (auto simp: data_rep_def)
  have "linked_rep (s\<lparr>data_heap := ?dh\<rparr>) wc B (insert k E)"
    using rep data_new [OF D(2) m(2), of ?dh d] m(3) by (simp add: linked_rep_def roomy_def)
  from linked_add_ok [OF this _ _ b(1), of k] obtain s' B' where s': "linked_add (heap_after wc) (s\<lparr>data_heap := ?dh\<rparr>) f (Addr k) = Inr (s', b)"
    "linked_rep s' wc' B' (insert k E)" by auto
  obtain dh where "delete_block (data_heap s') (Addr k) = Inr dh" "linked_rep (s'\<lparr>data_heap := dh\<rparr>) wc' B' E"
    using linked_drop_ok [OF s'(2) k] by blast
  then show ?thesis using m(1) s'(1) b(2) Add
    by (intro exI [of _ "s'\<lparr>data_heap := dh\<rparr>"] exI [of _ B']) (simp add: linked_call_def store_def calls_after_cells)
qed

lemma linked_init_rep:
  assumes "roomy h" "roomy dh" "roomy qh" and "cells h = Map.empty" "cells dh = Map.empty" "cells qh = Map.empty"
  shows "linked_rep (linked_init h dh qh m) (hash_table_init after m) (\<lambda>_. []) {}"
proof -
  have "queue_is qh create_filesize_queue []"
    using assms(6) by (auto simp: queue_is_def queue_rep_def create_filesize_queue_def empty_queue_def)
  then show ?thesis using assms
    by (simp add: linked_rep_def linked_init_def hash_table_init_def table_rep_def data_rep_def
        nodes_of_def addresses_def blocks_of_def separated_def all_of_def)
qed

lemma heap_after_init: "heap_after (hash_table_init after m) = after"
  by (simp add: hash_table_init_def)

lemma linked_calls_ok:
  "linked_rep s wc B {} \<Longrightarrow> cache_state_ok m wc \<Longrightarrow> heap_after wc = after \<Longrightarrow> \<forall>c\<in>set cs. legal_call m c \<Longrightarrow>
   \<exists>s' wc' B' out'. foldE (linked_call after) (s, out) cs = Inr (s', out') \<and>
     foldE cache_call_answer (wc, out) cs = Inr (wc', out') \<and> foldE cache_step wc cs = Inr wc' \<and> linked_rep s' wc' B' {}"
proof (induction cs arbitrary: s wc B out)
  case Nil
  then show ?case by auto
next
  case (Cons c cs)
  obtain wc1 r where c: "cache_call_answer (wc, out) c = Inr (wc1, out @ [r])" "cache_state_ok m wc1" "cache_step wc c = Inr wc1"
    using cache_call_answer_ok [OF Cons.prems(2), of c out] Cons.prems(4) by auto
  obtain s1 B1 where s1: "linked_call after (s, out) c = Inr (s1, out @ [r])" "linked_rep s1 wc1 B1 {}"
    using linked_call_ok [OF Cons.prems(1) c(1)] Cons.prems(3) by auto
  have "heap_after wc1 = after" using heap_after_step [OF Cons.prems(2) _ c(3)] Cons.prems(3,4) by simp
  from Cons.IH [OF s1(2) c(2) this, of "out @ [r]"] show ?case using Cons.prems(4) c(1,3) s1(1) by auto
qed

section \<open>The property\<close>



end
