(* ===== verification/Load_Test.thy ===== *)
theory Load_Test
  imports Web_Server
begin

text \<open>
  The load test as a whole: client.c from its arguments to the end of its threads, against the
  server with its cache, on the files that fileset.c wrote. A request is one step, from the
  connection to its closing; the steps of the client's threads interleave in any order. What
  the network and the system do to a request, and what \<open>rand_int\<close> gives, are part of the step.
\<close>

section \<open>The client program\<close>

record client =
  host :: string
  port :: int
  nr_times :: int
  nr_threads :: int
  set_of_files :: "fileinfo list"
  timing_mode :: bool

text \<open>\<open>argv[argc]\<close> is NULL: with six arguments and the option the name of the index is NULL.\<close>

definition client_args :: "string list \<Rightarrow> (client \<times> string option) result" where
  "client_args argv =
     (if length argv \<noteq> 6 \<and> length argv \<noteq> 7 then Inl (Exit_with 1)
      else
        let t = (argv ! 1 = ''-t''); i = (if t then 2 else 1);
            cl = \<lparr>host = argv ! i, port = atoi (argv ! (i + 1)), nr_times = atoi (argv ! (i + 2)),
              nr_threads = atoi (argv ! (i + 3)), set_of_files = [], timing_mode = t\<rparr>;
            filename = (if i + 4 < length argv then Some (argv ! (i + 4)) else None)
        in if port cl < 1024 \<or> nr_times cl \<le> 0 \<or> nr_threads cl \<le> 0 then Inl (Exit_with 1)
           else Inr (cl, filename))"

text \<open>\<open>main\<close> up to the threads; \<open>open_index\<close> is what \<open>open\<close> gives for the name of the index.\<close>

definition client_start :: "(string \<Rightarrow> in_stream option) \<Rightarrow> string \<Rightarrow> string list \<Rightarrow> client result" where
  "client_start open_index stale_buf argv =
     bindE (client_args argv) (\<lambda>(cl, filename).
     case Option.bind filename open_index of
       None \<Rightarrow> Inl (Exit_with 1)
     | Some fd \<Rightarrow> bindE (init_fileset fd stale_buf) (\<lambda>fs. Inr (cl\<lparr>set_of_files := fs\<rparr>)))"

section \<open>One request\<close>

text \<open>The counts of the reads and writes on both ends of a connection.\<close>

record network =
  up_accepts :: "reply list"
  up_replies :: "reply list"
  down_accepts :: "reply list"
  down_replies :: "reply list"
  client_stale :: string

text \<open>The body of the loop of \<open>client_request\<close>, with the server at the other end.\<close>

definition client_request_once ::
  "int \<Rightarrow> client \<Rightarrow> int \<Rightarrow> env \<Rightarrow> network \<Rightarrow> cache option \<Rightarrow> cache option result" where
  "client_request_once m cl rnd e net wc =
     bindE (assertE (1 \<le> rnd \<and> rnd \<le> int (length (set_of_files cl)))) (\<lambda>_.
     let fi = set_of_files cl ! nat (rnd - 1) in
     case fi_name fi of
       None \<Rightarrow> Inl Undefined
     | Some name \<Rightarrow>
         bindE (client_send \<lparr>sent = [], accepts = up_accepts net\<rparr> (host cl) name) (\<lambda>out.
         bindE (do_server_request e m wc
             \<lparr>from_client = \<lparr>arriving = sent out, replies = up_replies net\<rparr>,
              to_client = \<lparr>sent = [], accepts = down_accepts net\<rparr>, closed = False\<rparr>) (\<lambda>(wc', rq).
         case (fi_csum fi, fi_len fi) of
           (Some cs, Some len) \<Rightarrow>
             bindE (client_print \<lparr>arriving = sent (to_client rq), replies = down_replies net\<rparr> (client_stale net) cs len)
               (\<lambda>_. Inr wc')
         | _ \<Rightarrow> Inl Undefined)))"

text \<open>Thread \<open>i\<close> makes its next request, unless it has made them all.\<close>

record load_state =
  server_cache :: "cache option"
  made :: "int list"

type_synonym load_event = "nat \<times> int \<times> env \<times> network"

definition client_request :: "int \<Rightarrow> client \<Rightarrow> load_state \<Rightarrow> load_event \<Rightarrow> load_state result" where
  "client_request m cl s ev = (case ev of (i, rnd, e, net) \<Rightarrow>
     if i < length (made s) \<and> made s ! i < nr_times cl then
       bindE (client_request_once m cl rnd e net (server_cache s)) (\<lambda>wc.
       Inr \<lparr>server_cache = wc, made = (made s)[i := made s ! i + 1]\<rparr>)
     else Inr s)"

definition load_start :: "client \<Rightarrow> cache option \<Rightarrow> load_state" where
  "load_start cl wc = \<lparr>server_cache = wc, made = replicate (nat (nr_threads cl)) 0\<rparr>"

section \<open>Requests that are answered\<close>

text \<open>An entry of the client's table that describes a text, and a step in which nothing fails.\<close>

definition describes :: "(string \<Rightarrow> string option) \<Rightarrow> string \<Rightarrow> fileinfo \<Rightarrow> bool" where
  "describes texts h fi \<longleftrightarrow> (\<exists>name t. fi = entry_info (name, csum t, int (length t)) \<and>
     texts (''./'' @ name) = Some t \<and> url_ok h name \<and> length (client_request_text h name) < MAXLINE)"

definition network_ok :: "network \<Rightarrow> bool" where
  "network_ok net \<longleftrightarrow> Io_error \<notin> set (up_accepts net) \<and> Io_error \<notin> set (up_replies net) \<and>
     Io_error \<notin> set (down_accepts net) \<and> Io_error \<notin> set (down_replies net)"

definition event_ok :: "client \<Rightarrow> (string \<Rightarrow> string option) \<Rightarrow> load_event \<Rightarrow> bool" where
  "event_ok cl texts ev = (case ev of (i, rnd, e, net) \<Rightarrow>
     1 \<le> rnd \<and> rnd \<le> int (length (set_of_files cl)) \<and> serves e texts \<and> network_ok net)"

lemma client_send_ok:
  assumes "writable fd" and "length (client_request_text h f) < MAXLINE"
  shows "\<exists>fd'. client_send fd h f = Inr fd' \<and> sent fd' = sent fd @ client_request_text h f"
  using Rio_write_all [OF assms(1), of "client_request_text h f"] assms(2) by (auto simp: client_send_def)

text \<open>The outcome of a request: it is answered, and the client accepts the answer exactly when no
  line of the file fills its buffer.\<close>

lemma request_outcome:
  assumes wc: "cache_state_ok m wc" "m \<noteq> 0" "coherent texts wc" and s: "serves e texts" and net: "network_ok net"
    and fi: "1 \<le> rnd" "rnd \<le> int (length (set_of_files cl))" "set_of_files cl ! nat (rnd - 1) = entry_info (name, csum t, int (length t))"
    and t: "texts (''./'' @ name) = Some t" "url_ok (host cl) name" "length (client_request_text (host cl) name) < MAXLINE"
  shows "\<exists>wc'. client_request_once m cl rnd e net (Some wc) = (if lines_below MAXBUF 0 t then Inr (Some wc') else Inl Undefined) \<and>
    cache_state_ok m wc' \<and> coherent texts wc'"
proof -
  obtain out where out: "client_send \<lparr>sent = [], accepts = up_accepts net\<rparr> (host cl) name = Inr out"
    "sent out = client_request_text (host cl) name"
    using client_send_ok [of "\<lparr>sent = [], accepts = up_accepts net\<rparr>" "host cl" name] net t(3)
    by (auto simp: writable_def network_ok_def)
  let ?rq = "\<lparr>from_client = \<lparr>arriving = sent out, replies = up_replies net\<rparr>,
    to_client = \<lparr>sent = [], accepts = down_accepts net\<rparr>, closed = False\<rparr>"
  have rq: "readable (from_client ?rq)" "arriving (from_client ?rq) = client_request_text (host cl) name" "writable (to_client ?rq)"
    using net out(2) by (simp_all add: network_ok_def readable_def writable_def)
  obtain rq1 where i: "request_init e ?rq = Inr (rq1, Some (''./'' @ name))" "to_client rq1 = to_client ?rq"
    using request_init_get [OF rq(1,2) t(2)] by blast
  obtain wc' rq' where w: "do_server_request e m (Some wc) ?rq = Inr (Some wc', rq')" "cache_state_ok m wc'"
    "coherent texts wc'" "sent (to_client rq') = ok_page (''./'' @ name) t"
    using request_for_text [OF wc s i(1) t(1)] rq(3) i(2) by auto
  have "is_text t" using s t(1) unfolding serves_def by metis
  then have "client_print \<lparr>arriving = sent (to_client rq'), replies = down_replies net\<rparr> (client_stale net) (csum t) (int (length t)) =
      (if lines_below MAXBUF 0 t then Inr () else Inl Undefined)"
    using net w(4) by (intro client_verdict) (simp_all add: readable_def network_ok_def is_text_def)
  then show ?thesis using fi out(1) w
    by (intro exI [of _ wc']) (simp add: client_request_once_def entry_info_def)
qed

lemma client_step_ok:
  assumes wc: "server_cache s = Some wc" "cache_state_ok m wc" "m \<noteq> 0" "coherent texts wc"
    and ev: "event_ok cl texts ev" and fs: "\<forall>fi\<in>set (set_of_files cl). describes texts (host cl) fi"
    and short: "\<forall>f t. texts f = Some t \<longrightarrow> lines_below MAXBUF 0 t"
  shows "\<exists>s' wc'. client_request m cl s ev = Inr s' \<and> server_cache s' = Some wc' \<and> cache_state_ok m wc' \<and> coherent texts wc' \<and>
    made s' = (if fst ev < length (made s) \<and> made s ! fst ev < nr_times cl
      then (made s)[fst ev := made s ! fst ev + 1] else made s)"
proof -
  obtain i rnd e net where e: "ev = (i, rnd, e, net)" by (cases ev)
  have r: "1 \<le> rnd" "rnd \<le> int (length (set_of_files cl))" "serves e texts" "network_ok net"
    using ev by (simp_all add: event_ok_def e)
  then have "set_of_files cl ! nat (rnd - 1) \<in> set (set_of_files cl)" by (intro nth_mem) linarith
  then obtain name t where t: "set_of_files cl ! nat (rnd - 1) = entry_info (name, csum t, int (length t))"
    "texts (''./'' @ name) = Some t" "url_ok (host cl) name" "length (client_request_text (host cl) name) < MAXLINE"
    using fs unfolding describes_def by blast
  obtain wc' where "client_request_once m cl rnd e net (Some wc) = Inr (Some wc')" "cache_state_ok m wc'" "coherent texts wc'"
    using request_outcome [OF wc(2-4) r(3,4,1,2) t] short t(2) by auto
  then show ?thesis using wc by (simp add: client_request_def e)
qed

lemma client_run_ok:
  assumes m: "m \<noteq> 0" and fs: "\<forall>fi\<in>set (set_of_files cl). describes texts (host cl) fi"
    and short: "\<forall>f t. texts f = Some t \<longrightarrow> lines_below MAXBUF 0 t"
  shows "server_cache s = Some wc \<Longrightarrow> cache_state_ok m wc \<Longrightarrow> coherent texts wc \<Longrightarrow>
    \<forall>j<length (made s). made s ! j \<le> nr_times cl \<Longrightarrow> \<forall>ev\<in>set evs. event_ok cl texts ev \<Longrightarrow>
    \<exists>s' wc'. foldE (client_request m cl) s evs = Inr s' \<and> server_cache s' = Some wc' \<and> cache_state_ok m wc' \<and>
      coherent texts wc' \<and> length (made s') = length (made s) \<and>
      (\<forall>j<length (made s). made s' ! j = min (nr_times cl) (made s ! j + int (length (filter (\<lambda>ev. fst ev = j) evs))))"
proof (induction evs arbitrary: s wc)
  case Nil
  then show ?case by auto
next
  case (Cons ev evs)
  obtain s1 wc1 where s1: "client_request m cl s ev = Inr s1" "server_cache s1 = Some wc1" "cache_state_ok m wc1" "coherent texts wc1"
    "made s1 = (if fst ev < length (made s) \<and> made s ! fst ev < nr_times cl
      then (made s)[fst ev := made s ! fst ev + 1] else made s)"
    using client_step_ok [OF Cons.prems(1,2) m Cons.prems(3) _ fs short, of ev] Cons.prems(5) by auto
  have le: "\<forall>j<length (made s1). made s1 ! j \<le> nr_times cl" using s1(5) Cons.prems(4) by (auto simp: nth_list_update)
  obtain s' wc' where s': "foldE (client_request m cl) s1 evs = Inr s'" "server_cache s' = Some wc'" "cache_state_ok m wc'"
      "coherent texts wc'" "length (made s') = length (made s1)"
      "\<forall>j<length (made s1). made s' ! j = min (nr_times cl) (made s1 ! j + int (length (filter (\<lambda>ev. fst ev = j) evs)))"
    using Cons.IH [OF s1(2,3,4) le] Cons.prems(5) by auto
  have len: "length (made s1) = length (made s)" using s1(5) by simp
  have "made s' ! j = min (nr_times cl) (made s ! j + int (length (filter (\<lambda>ev. fst ev = j) (ev # evs))))"
    if "j < length (made s)" for j
    using s'(6) len that s1(5) Cons.prems(4) by (cases "fst ev = j") (auto simp: nth_list_update)
  then show ?case using s1(1) s'(1-5) len by auto
qed

end
