(* ===== verification/Load_Properties.thy ===== *)
theory Load_Properties
  imports Load_Test Web_Properties
begin

text \<open>
  The load test on the files that the generator wrote: it passes when every file is shorter
  than the client's buffer, and a longer file makes the client write behind its buffer.
\<close>

section \<open>The files on the disk\<close>

definition texts_of :: "fileset \<Rightarrow> string \<Rightarrow> string option" where
  "texts_of st = map_of (map (\<lambda>f. (''./'' @ fst f, snd f)) (disk st))"

text \<open>The system gives the server the files of the disk.\<close>

definition stores :: "env \<Rightarrow> fileset \<Rightarrow> bool" where
  "stores e st \<longleftrightarrow> NUL \<in> set (behind e) \<and> (\<forall>f\<in>set (disk st). \<exists>x. files e (''./'' @ fst f) = Some x \<and> is_regular x \<and>
     owner_readable x \<and> can_open x \<and> st_size x = int (length (snd f)) \<and> readable (contents x) \<and> arriving (contents x) = snd f)"

lemma digits_value_pad: "digits_value (pad5 i) = i"
proof -
  have "foldl (\<lambda>v c. 10 * v + digit_value c) 0 (replicate n CHR ''0'' @ ds) = foldl (\<lambda>v c. 10 * v + digit_value c) 0 ds" for n ds
    by (induction n) (simp_all add: digit_value_def)
  then show ?thesis using digits_value_show [of i] by (simp add: pad5_def digits_value_def)
qed

lemma set_file_name_inj: "set_file_name dir i = set_file_name dir j \<Longrightarrow> i = j"
proof -
  assume "set_file_name dir i = set_file_name dir j"
  then have "pad5 i = pad5 j" by (simp add: set_file_name_def)
  then have "digits_value (pad5 i) = digits_value (pad5 j)" by (rule arg_cong)
  then show ?thesis by (simp only: digits_value_pad)
qed

lemma texts_of_disk:
  assumes ok: "fileset_ok dir st" and f: "f \<in> set (disk st)"
  shows "texts_of st (''./'' @ fst f) = Some (snd f)"
proof -
  have "distinct (map (set_file_name dir) [0..<length (disk st)])"
    unfolding distinct_map by (auto intro!: inj_onI dest: set_file_name_inj)
  moreover have "map fst (disk st) = map (set_file_name dir) [0..<length (disk st)]" using ok unfolding fileset_ok_def by blast
  ultimately have "distinct (map fst (disk st))" by (simp only:)
  then have "distinct (map fst (map (\<lambda>f. (''./'' @ fst f, snd f)) (disk st)))" by (auto simp: distinct_map inj_on_def)
  then show ?thesis using f unfolding texts_of_def by (intro map_of_is_SomeI) auto
qed

lemma texts_ofE:
  assumes "texts_of st g = Some t"
  obtains f where "f \<in> set (disk st)" and "g = ''./'' @ fst f" and "t = snd f"
  using map_of_SomeD [OF assms [unfolded texts_of_def]] that by auto

section \<open>The names\<close>

lemma strstr_dots: "c \<noteq> CHR ''.'' \<Longrightarrow> strstr (s @ c # t) ''..'' = (strstr s ''..'' \<or> strstr t ''..'')"
proof (induction s)
  case (Cons x s)
  then show ?case by (cases s) auto
qed auto

lemma strrchr_end: "strrchr s c = Some t \<Longrightarrow> t \<noteq> [] \<and> last s = last t"
  by (induction s) (auto split: option.splits if_splits)

lemma digits_no_dots: "\<forall>c\<in>set s. is_digit c \<Longrightarrow> \<not> strstr s ''..''"
  by (induction s) (auto simp: is_digit_def)

lemma pad5_digits: "\<forall>c\<in>set (pad5 i). is_digit c" and pad5_nonempty: "pad5 i \<noteq> []"
  using show_nat_digits [of _ i] by (auto simp: pad5_def is_digit_def split: if_splits)

lemma generated_name_allowed:
  assumes "\<not> strstr dir ''..''"
  shows "allowed_name (''./'' @ set_file_name dir i)"
proof -
  have "\<not> strstr ([CHR ''.''] @ CHR ''/'' # dir @ CHR ''/'' # pad5 i) ''..''"
    using assms digits_no_dots [OF pad5_digits, of i] strstr_dots [of "CHR ''/''" "[CHR ''.'']"] strstr_dots [of "CHR ''/''" dir]
    by (simp del: append.simps)
  moreover have "is_digit (last (''./'' @ set_file_name dir i))"
    using pad5_digits [of i] pad5_nonempty [of i] by (simp add: set_file_name_def)
  then have "\<not> ends_in_source (''./'' @ set_file_name dir i)"
    by (auto simp: is_digit_def ends_in_source_def simp del: append.simps dest!: strrchr_end split: option.splits)
  ultimately show ?thesis by (simp add: allowed_name_def set_file_name_def)
qed

lemma stores_serves:
  assumes ok: "fileset_ok dir st" and dir: "\<not> strstr dir ''..''" and e: "stores e st"
  shows "serves e (texts_of st)"
  unfolding serves_def
proof (intro conjI allI impI)
  show "NUL \<in> set (behind e)" using e by (simp add: stores_def)
  fix g t assume "texts_of st g = Some t"
  then obtain f where f: "f \<in> set (disk st)" "g = ''./'' @ fst f" "t = snd f" by (rule texts_ofE)
  obtain i where "fst f = set_file_name dir i" by (rule generated_name [OF ok f(1)])
  then show "allowed_name g" using generated_name_allowed [OF dir, of i] f(2) by simp
  have "set t \<subseteq> range printable" "t \<noteq> []" "length t < 2147483648" using ok f(1,3) by (auto simp: fileset_ok_def)
  then show "is_text t" using printable_not_end(2) by (auto simp: is_text_def)
  show "\<exists>x. files e g = Some x \<and> is_regular x \<and> owner_readable x \<and> can_open x \<and> st_size x = int (length t) \<and>
      readable (contents x) \<and> arriving (contents x) = t" using e f by (simp add: stores_def)
qed

text \<open>A generated file is one line, so it is read whole or overflows.\<close>

lemma lines_below_one: "newline \<notin> set s \<Longrightarrow> lines_below m k s = (k + length s < m)"
  by (induction s arbitrary: k) auto

lemma generated_lines:
  assumes "fileset_ok dir st" and "f \<in> set (disk st)"
  shows "lines_below MAXBUF 0 (snd f) = (length (snd f) < MAXBUF)"
  using assms printable_not_end(1) by (intro lines_below_one [where k = 0, simplified]) (auto simp: fileset_ok_def)

definition plain_host :: "string \<Rightarrow> bool" where
  "plain_host h \<longleftrightarrow> newline \<notin> set h \<and> NUL \<notin> set h \<and> length h < 6000"

lemma generated_url:
  assumes "index_name f" and "plain_host h"
  shows "url_ok h f" and "length (client_request_text h f) < MAXLINE"
  using assms by (auto simp: index_name_def plain_host_def url_ok_def client_request_text_def CRLF_def MAXLINE_def)

lemma generated_describes:
  assumes ok: "fileset_ok dir st" and dir: "\<forall>c\<in>set dir. \<not> is_space c" "NUL \<notin> set dir" "length dir \<le> 1000"
    and h: "plain_host h"
  shows "\<forall>fi\<in>set (map (entry_info \<circ> entry_of) (disk st)). describes (texts_of st) h fi"
proof
  fix fi assume "fi \<in> set (map (entry_info \<circ> entry_of) (disk st))"
  then obtain f where f: "f \<in> set (disk st)" "fi = entry_info (fst f, csum (snd f), int (length (snd f)))"
    by (auto simp: entry_of_def)
  then show "describes (texts_of st) h fi"
    using texts_of_disk [OF ok f(1)] generated_url [OF generated_index_name [OF ok dir f(1)] h]
    unfolding describes_def by blast
qed

section \<open>A whole load test\<close>

text \<open>A directory and an index for the test.\<close>

definition plain_dir :: "string \<Rightarrow> bool" where
  "plain_dir dir \<longleftrightarrow> (\<forall>c\<in>set dir. \<not> is_space c) \<and> NUL \<notin> set dir \<and> length dir \<le> 1000 \<and> \<not> strstr dir ''..''"

definition index_is :: "(string \<Rightarrow> in_stream option) \<Rightarrow> fileset \<Rightarrow> bool" where
  "index_is open_index st \<longleftrightarrow> (\<forall>n fd. open_index n = Some fd \<longrightarrow> readable fd \<and> arriving fd = index_text st)"

lemma client_knows_the_files:
  assumes "fileset_ok dir st" and "0 < current_fileset_sz st" and "plain_dir dir" and "index_is open_index st"
    and "client_start open_index stale_buf argv = Inr cl"
  shows "set_of_files cl = map (entry_info \<circ> entry_of) (disk st)" and "0 < nr_times cl" and "0 < nr_threads cl"
proof -
  obtain cl0 filename fs fd where c: "client_args argv = Inr (cl0, filename)" "Option.bind filename open_index = Some fd"
    "init_fileset fd stale_buf = Inr fs" "cl = cl0\<lparr>set_of_files := fs\<rparr>"
    using assms(5) by (auto simp: client_start_def result_simps split: option.splits)
  have "readable fd" "arriving fd = index_text st"
    using c(2) assms(4) by (auto simp: index_is_def bind_eq_Some_conv)
  then show "set_of_files cl = map (entry_info \<circ> entry_of) (disk st)"
    using generated_index [OF assms(1) _ _ _ assms(2), of fd stale_buf] assms(3) c(3,4) by (simp add: plain_dir_def)
  show "0 < nr_times cl" "0 < nr_threads cl"
    using c(1,4) by (auto simp: client_args_def Let_def split: if_splits)
qed


text \<open>Property C19. The limit in the load test is real: the files of the generator have no newline,
  so the client reads each as one line, and a file of 8192 bytes or more makes it write behind
  its buffer, whatever the state of the cache. (The generator never makes a file smaller than
  4096 bytes, and the default mean size is 12288.)\<close>

theorem long_files_overflow_the_client:
  assumes "\<forall>i. sent (open_file i) = []" and "\<forall>i. 0 < size_of i \<and> size_of i < 2147483648" and "0 < target"
    and "fileset_loop dir size_of random open_file target no_files = Some (Inr st)"
    and "plain_dir dir" and "index_is open_index st"
    and "client_start open_index stale_buf argv = Inr cl" and "plain_host (host cl)"
    and "cache_state_ok m wc" and "m \<noteq> 0" and "coherent (texts_of st) wc" and "stores e st" and "network_ok net"
    and "1 \<le> rnd" and "rnd \<le> int (length (disk st))" and "MAXBUF \<le> length (snd (disk st ! nat (rnd - 1)))"
  shows "client_request_once m cl rnd e net (Some wc) = Inl Undefined"
proof -
  note ok = generated_set [OF assms(1-4)]
  note cl = client_knows_the_files [OF ok assms(5-7)]
  have dir: "\<forall>c\<in>set dir. \<not> is_space c" "NUL \<notin> set dir" "length dir \<le> 1000" "\<not> strstr dir ''..''"
    using assms(5) by (simp_all add: plain_dir_def)
  define f where "f = disk st ! nat (rnd - 1)"
  have rnd: "nat (rnd - 1) < length (disk st)" using assms(14,15) by linarith
  then have f: "f \<in> set (disk st)" by (simp add: f_def)
  have e: "set_of_files cl ! nat (rnd - 1) = entry_info (fst f, csum (snd f), int (length (snd f)))"
    using rnd by (simp add: cl(1) f_def entry_of_def)
  note url = generated_url [OF generated_index_name [OF ok(1) dir(1-3) f] assms(8)]
  have n: "rnd \<le> int (length (set_of_files cl))" using assms(15) by (simp add: cl(1))
  have "\<not> lines_below MAXBUF 0 (snd f)" using generated_lines [OF ok(1) f] assms(16) by (simp add: f_def)
  then show ?thesis
    using request_outcome [OF assms(9-11) stores_serves [OF ok(1) dir(4) assms(12)] assms(13,14) n e texts_of_disk [OF ok(1) f] url]
    by auto
qed

section \<open>Concrete runs\<close>

definition demo_args :: "string list" where
  "demo_args = [''client'', ''h'', ''2000'', ''1'', ''1'', ''d.idx'']"

definition demo_index :: "nat \<Rightarrow> string \<Rightarrow> in_stream option" where
  "demo_index n f = Some \<lparr>arriving = index_text (demo_set n), replies = []\<rparr>"

definition demo_client :: "nat \<Rightarrow> client" where
  "demo_client n = \<lparr>host = ''h'', port = 2000, nr_times = 1, nr_threads = 1,
     set_of_files = map (entry_info \<circ> entry_of) (disk (demo_set n)), timing_mode = False\<rparr>"

definition demo_network :: network where
  "demo_network = \<lparr>up_accepts = [Chunk 1], up_replies = [Chunk 3], down_accepts = [Interrupted], down_replies = [Chunk 10], client_stale = []\<rparr>"

lemma demo_run_ok:
  assumes n: "0 < n" "n < 100000"
  shows "index_is (demo_index n) (demo_set n)" and "client_start (demo_index n) [] demo_args = Inr (demo_client n)"
    and "stores (demo_env ''./d/00000'' (snd (hd (disk (demo_set n))))) (demo_set n)"
proof -
  have plain: "plain_dir ''d''" by (simp add: plain_dir_def is_space_def NUL_def)
  have new: "\<forall>i :: nat. sent \<lparr>sent = [], accepts = []\<rparr> = []" by simp
  have ok: "fileset_ok ''d'' (demo_set n)" "0 < current_fileset_sz (demo_set n)"
    by (rule generated_set [OF new _ _ demo_set_made [OF n]]; use n in simp)+
  show i: "index_is (demo_index n) (demo_set n)" by (simp add: index_is_def demo_index_def readable_def)
  have a: "client_args demo_args = Inr (\<lparr>host = ''h'', port = 2000, nr_times = 1, nr_threads = 1, set_of_files = [], timing_mode = False\<rparr>, Some ''d.idx'')"
    by code_simp
  have "init_fileset \<lparr>arriving = index_text (demo_set n), replies = []\<rparr> [] = Inr (map (entry_info \<circ> entry_of) (disk (demo_set n)))"
    using plain ok by (intro generated_index [where dir = "''d''"]) (simp_all add: plain_dir_def readable_def)
  then show "client_start (demo_index n) [] demo_args = Inr (demo_client n)"
    by (simp add: client_start_def a demo_index_def demo_client_def)
  show "stores (demo_env ''./d/00000'' (snd (hd (disk (demo_set n))))) (demo_set n)"
    by (simp add: stores_def demo_env_def demo_disk demo_stat_def readable_def)
qed


theorem long_files_overflow_the_client_witness:
  "client_request_once 8 (demo_client 8192) 1 (demo_env ''./d/00000'' (snd (hd (disk (demo_set 8192))))) demo_network
     (Some demo_cache) = Inl Undefined"
proof -
  have n: "(0 :: nat) < 8192" "(8192 :: nat) < 100000" by simp_all
  have new: "\<forall>i :: nat. sent \<lparr>sent = [], accepts = []\<rparr> = []" by simp
  have plain: "plain_dir ''d''" by (simp add: plain_dir_def is_space_def NUL_def)
  have h: "plain_host (host (demo_client 8192))" by (simp add: plain_host_def demo_client_def newline_def NUL_def)
  have co: "coherent (texts_of (demo_set 8192)) demo_cache" by (simp add: coherent_def demo_cache_ok)
  have s: "length (disk (demo_set 8192)) = 1" "length (snd (disk (demo_set 8192) ! 0)) = 8192" "network_ok demo_network"
    by (simp_all add: demo_disk network_ok_def demo_network_def)
  show ?thesis
    by (rule long_files_overflow_the_client [OF new _ _ demo_set_made [OF n] plain demo_run_ok(1,2) [OF n] h demo_cache_state _ co demo_run_ok(3) [OF n]])
      (use s in \<open>simp_all add: MAXBUF_def\<close>)
qed

end
