(* ===== verification/Fileset_Clear.thy ===== *)
theory Fileset_Clear
  imports Tree_Copy_Facts
begin

text \<open>
  How fileset.c prepares its directory, over the file system of Tree_Copy: it makes the
  directory or removes the regular files in it. Failures of \<open>opendir\<close>, \<open>stat\<close> and \<open>unlink\<close> do not
  end the program here.
\<close>

section \<open>The program\<close>

definition attempt :: "(os \<Rightarrow> ('a \<times> os) result) \<Rightarrow> os \<Rightarrow> 'a option \<times> os" where
  "attempt f st = (case f st of
      Inl _ \<Rightarrow> (None, st\<lparr>sys_calls := Suc (sys_calls st)\<rparr>)
    | Inr r \<Rightarrow> (Some (fst r), snd r))"

definition sys_unlink :: "os_env \<Rightarrow> string \<Rightarrow> os \<Rightarrow> (unit \<times> os) result" where
  "sys_unlink env name st = bindE (sys_call env st) (\<lambda>st.
     bindE (lookup env st name) (\<lambda>(p, i).
     if kind i = Directory then Inl (Exit_with 1) else Inr ((), st\<lparr>files := (files st)(p := None)\<rparr>)))"

partial_function (option) clear_loop :: "os_env \<Rightarrow> string \<Rightarrow> path \<times> file_system \<Rightarrow> string list \<Rightarrow> os \<Rightarrow> os option" where
  "clear_loop env dir d seen st =
     (case next_entry env (snd d) (files st) (fst d) seen of
        None \<Rightarrow> Some st
      | Some d_name \<Rightarrow>
          let (r, st1) = attempt (sys_stat env (dir @ [slash] @ d_name)) st in
          (case r of
             None \<Rightarrow> clear_loop env dir d (d_name # seen) st1
           | Some i \<Rightarrow>
               if is_regular (kind i) then clear_loop env dir d (d_name # seen) (snd (attempt (sys_unlink env (dir @ [slash] @ d_name)) st1))
               else clear_loop env dir d (d_name # seen) st1))"

definition prepare_dir :: "os_env \<Rightarrow> string \<Rightarrow> os \<Rightarrow> os result" where
  "prepare_dir env dir st =
     (let (d, st1) = attempt (sys_opendir env dir) st in
      case d of
        Some p \<Rightarrow> loopE (map_option Inr (clear_loop env dir (p, files st1) [] st1))
      | None \<Rightarrow> sys_mkdir env dir 0x1ED st1)"

section \<open>What it does\<close>

text \<open>Some of the regular files of a directory are gone.\<close>

definition cleared :: "file_system \<Rightarrow> path \<Rightarrow> string set \<Rightarrow> file_system" where
  "cleared fs d R = (\<lambda>q. if \<exists>n\<in>R. q = d @ [n] then None else fs q)"

definition regular_in :: "file_system \<Rightarrow> path \<Rightarrow> string set" where
  "regular_in fs d = {n. \<exists>i. fs (d @ [n]) = Some i \<and> is_regular (kind i)}"

text \<open>\<open>readdir\<close> gives every entry once, also when entries that it gave are removed meanwhile.\<close>

definition listing_ok :: "os_env \<Rightarrow> file_system \<Rightarrow> path \<Rightarrow> bool" where
  "listing_ok env fs d \<longleftrightarrow> (\<forall>fs1 seen.
     (\<forall>n. fs1 (d @ [n]) = fs (d @ [n]) \<or> n \<in> set seen \<and> fs1 (d @ [n]) = None) \<longrightarrow>
     (case next_entry env fs fs1 d seen of
        None \<Rightarrow> \<forall>n. fs (d @ [n]) \<noteq> None \<longrightarrow> n \<in> set seen
      | Some n \<Rightarrow> n \<notin> set seen \<and> (n = dot \<or> n = dot_dot \<or> fs (d @ [n]) \<noteq> None)))"

lemma cleared_Nil [simp]: "cleared fs d {} = fs"
  by (simp add: cleared_def)

lemma cleared_add: "(cleared fs d R)(d @ [n] := None) = cleared fs d (insert n R)"
  by (auto simp: cleared_def fun_eq_iff)

lemma cleared_other: "n \<notin> R \<Longrightarrow> cleared fs d R (d @ [n]) = fs (d @ [n])"
  by (auto simp: cleared_def)

lemma cleared_dirs: "R \<subseteq> regular_in fs d \<Longrightarrow> is_dir (fs q) \<Longrightarrow> is_dir (cleared fs d R q)"
  by (auto simp: cleared_def regular_in_def is_dir_def)

lemma cleared_dir_itself: "cleared fs d R d = fs d"
  by (simp add: cleared_def)

text \<open>The entry that the loop looks at.\<close>

lemma stat_entry:
  assumes "resolve env (files st) dir = Some d" and "is_dir (files st d)" and "valid_name n" and "files st (d @ [n]) = Some i"
  shows "attempt (sys_stat env (dir @ slash # n)) st = (None, st\<lparr>sys_calls := Suc (sys_calls st)\<rparr>) \<and> fault env (sys_calls st) \<or>
    attempt (sys_stat env (dir @ slash # n)) st = (Some i, st\<lparr>sys_calls := Suc (sys_calls st)\<rparr>)"
  using resolve_entry [OF assms(1-3)] assms(4)
  by (simp add: attempt_def sys_stat_def sys_call_def lookup_def)

lemma unlink_entry:
  assumes "resolve env (files st) dir = Some d" and "is_dir (files st d)" and "valid_name n" and "files st (d @ [n]) = Some i"
    and "is_regular (kind i)"
  shows "\<exists>st'. snd (attempt (sys_unlink env (dir @ slash # n)) st) = st' \<and>
    (fault env (sys_calls st) \<and> files st' = files st \<or> files st' = (files st)(d @ [n] := None))"
  using resolve_entry [OF assms(1-3)] assms(4,5)
  by (auto simp: attempt_def sys_unlink_def sys_call_def lookup_def)

text \<open>The dots: \<open>stat\<close> finds a directory, or nothing.\<close>

lemma stat_dots:
  assumes "resolve env (files st) dir = Some d" and "is_dir (files st d)" and "n = dot \<or> n = dot_dot"
    and "\<forall>q. is_dir (files st (d @ q)) \<longrightarrow> is_dir (files st (butlast d))"
  shows "\<exists>r. attempt (sys_stat env (dir @ slash # n)) st = (r, st\<lparr>sys_calls := Suc (sys_calls st)\<rparr>) \<and>
    (case r of None \<Rightarrow> True | Some i \<Rightarrow> \<not> is_regular (kind i))"
proof -
  have n: "slash \<notin> set n" using assms(3) by (auto simp: dot_def dot_dot_def slash_def)
  have ne: "dir \<noteq> []" using assms(1) by (auto simp: resolve_def)
  then have r: "resolve env (files st) (dir @ slash # n) = Some (walk_step d n)"
    using assms(1,2) split_path_slash [OF n, of dir] by (auto simp: resolve_def walk_append split: if_splits)
  have b: "is_dir (files st (butlast d))" using assms(2,4) by (metis append_Nil2)
  have "\<exists>i. files st (walk_step d n) = Some i \<and> kind i = Directory"
    using assms(2,3) b by (auto simp: walk_step_def is_dir_def dot_def dot_dot_def split: option.splits)
  then obtain i where i: "files st (walk_step d n) = Some i" "kind i = Directory" by blast
  then have "\<not> is_regular (kind i)" by simp
  then show ?thesis using r i(1) by (simp add: attempt_def sys_stat_def sys_call_def lookup_def)
qed

definition names_left :: "file_system \<Rightarrow> path \<Rightarrow> string list \<Rightarrow> string set" where
  "names_left fs d seen = ({dot, dot_dot} \<union> {n. fs (d @ [n]) \<noteq> None}) - set seen"

lemma names_fewer:
  assumes "finite {n. fs (d @ [n]) \<noteq> None}" and "n \<in> names_left fs d seen"
  shows "card (names_left fs d (n # seen)) < card (names_left fs d seen)"
proof -
  have "finite (names_left fs d seen)" using assms(1) by (simp add: names_left_def)
  moreover have "names_left fs d (n # seen) = names_left fs d seen - {n}" by (auto simp: names_left_def)
  ultimately show ?thesis using assms(2) by (simp add: card_Diff1_less del: card_Diff_insert)
qed

lemma clear_loop_ok:
  assumes dir: "resolve env fs dir = Some d" "is_dir (fs d)" "is_dir (fs (butlast d))"
    and names: "\<forall>n. fs (d @ [n]) \<noteq> None \<longrightarrow> valid_name n" "finite {n. fs (d @ [n]) \<noteq> None}"
    and list: "listing_ok env fs d"
  shows "files st = cleared fs d R \<Longrightarrow> R \<subseteq> regular_in fs d \<inter> set seen \<Longrightarrow>
    ((\<forall>k. \<not> fault env k) \<longrightarrow> regular_in fs d \<inter> set seen \<subseteq> R) \<Longrightarrow>
    \<exists>st' R'. clear_loop env dir (d, fs) seen st = Some st' \<and> files st' = cleared fs d R' \<and> R' \<subseteq> regular_in fs d \<and>
      ((\<forall>k. \<not> fault env k) \<longrightarrow> R' = regular_in fs d)"
proof (induction "card (names_left fs d seen)" arbitrary: seen st R rule: less_induct)
  case less
  have Rr: "R \<subseteq> regular_in fs d" using less.prems(2) by blast
  have "\<forall>n. files st (d @ [n]) = fs (d @ [n]) \<or> n \<in> set seen \<and> files st (d @ [n]) = None"
    using less.prems(1,2) by (auto simp: cleared_def)
  then have law: "case next_entry env fs (files st) d seen of
        None \<Rightarrow> \<forall>n. fs (d @ [n]) \<noteq> None \<longrightarrow> n \<in> set seen
      | Some n \<Rightarrow> n \<notin> set seen \<and> (n = dot \<or> n = dot_dot \<or> fs (d @ [n]) \<noteq> None)"
    using list unfolding listing_ok_def by blast
  have mono: "\<forall>q. is_dir (fs q) \<longrightarrow> is_dir (files st q)" using cleared_dirs [OF Rr] less.prems(1) by simp
  have here: "resolve env (files st) dir = Some d" "is_dir (files st d)" "is_dir (files st (butlast d))"
    using resolve_mono [OF mono dir(1)] mono dir(2,3) by simp_all
  show ?case
  proof (cases "next_entry env fs (files st) d seen")
    case None
    then have "regular_in fs d \<subseteq> set seen" using law by (auto simp: regular_in_def)
    then have "(\<forall>k. \<not> fault env k) \<longrightarrow> R = regular_in fs d" using less.prems(2,3) by blast
    then show ?thesis using None less.prems(1) Rr by (subst clear_loop.simps) auto
  next
    case (Some n)
    then have n: "n \<notin> set seen" "n = dot \<or> n = dot_dot \<or> fs (d @ [n]) \<noteq> None" using law by simp_all
    then have left: "n \<in> names_left fs d seen" by (auto simp: names_left_def)
    note again = less.hyps [OF names_fewer [OF names(2) left]]
    have nR: "n \<notin> R" using less.prems(2) n(1) by blast
    have skip: ?thesis
      if "clear_loop env dir (d, fs) seen st = clear_loop env dir (d, fs) (n # seen) st1" "files st1 = files st"
        "(\<forall>k. \<not> fault env k) \<longrightarrow> n \<notin> regular_in fs d" for st1
    proof -
      have "R \<subseteq> regular_in fs d \<inter> set (n # seen)" "(\<forall>k. \<not> fault env k) \<longrightarrow> regular_in fs d \<inter> set (n # seen) \<subseteq> R"
        using less.prems(2,3) that(3) by auto
      from again [OF _ this, of st1] show ?thesis using that(1,2) less.prems(1) by simp
    qed
    show ?thesis
    proof (cases "n = dot \<or> n = dot_dot")
      case True
      then have "\<not> valid_name n" by (auto simp: valid_name_def)
      then have "n \<notin> regular_in fs d" using names(1) by (auto simp: regular_in_def)
      moreover obtain r where r: "attempt (sys_stat env (dir @ slash # n)) st = (r, st\<lparr>sys_calls := Suc (sys_calls st)\<rparr>)"
        "case r of None \<Rightarrow> True | Some i \<Rightarrow> \<not> is_regular (kind i)"
        using stat_dots [OF here(1,2) True] here(3) by blast
      then have "clear_loop env dir (d, fs) seen st = clear_loop env dir (d, fs) (n # seen) (st\<lparr>sys_calls := Suc (sys_calls st)\<rparr>)"
        using Some by (subst clear_loop.simps) (auto split: option.splits)
      ultimately show ?thesis using skip [of "st\<lparr>sys_calls := Suc (sys_calls st)\<rparr>"] by simp
    next
      case False
      then obtain i where i: "fs (d @ [n]) = Some i" using n(2) by auto
      have v: "valid_name n" using names(1) i by simp
      have si: "files st (d @ [n]) = Some i" using i less.prems(1) cleared_other [OF nR] by simp
      consider "attempt (sys_stat env (dir @ slash # n)) st = (None, st\<lparr>sys_calls := Suc (sys_calls st)\<rparr>)" "\<exists>k. fault env k"
        | "attempt (sys_stat env (dir @ slash # n)) st = (Some i, st\<lparr>sys_calls := Suc (sys_calls st)\<rparr>)"
        using stat_entry [OF here(1,2) v si] by blast
      then show ?thesis
      proof cases
        case 1
        then have "clear_loop env dir (d, fs) seen st = clear_loop env dir (d, fs) (n # seen) (st\<lparr>sys_calls := Suc (sys_calls st)\<rparr>)"
          using Some by (subst clear_loop.simps) simp
        then show ?thesis by (rule skip) (use 1(2) in auto)
      next
        case 2
        let ?st = "st\<lparr>sys_calls := Suc (sys_calls st)\<rparr>"
        show ?thesis
        proof (cases "is_regular (kind i)")
          case False
          then have "clear_loop env dir (d, fs) seen st = clear_loop env dir (d, fs) (n # seen) ?st"
            using Some 2 by (subst clear_loop.simps) simp
          then show ?thesis by (rule skip) (use i False in \<open>auto simp: regular_in_def\<close>)
        next
          case True
          obtain st' where st': "snd (attempt (sys_unlink env (dir @ slash # n)) ?st) = st'"
            "fault env (sys_calls ?st) \<and> files st' = files ?st \<or> files st' = (files ?st)(d @ [n] := None)"
            using unlink_entry [of env ?st dir d n i] here v si True by auto
          have eq: "clear_loop env dir (d, fs) seen st = clear_loop env dir (d, fs) (n # seen) st'"
            using Some 2 True st'(1) by (subst clear_loop.simps) simp
          from st'(2) show ?thesis
          proof
            assume "fault env (sys_calls ?st) \<and> files st' = files ?st"
            then show ?thesis by (intro skip [OF eq]) auto
          next
            assume f: "files st' = (files ?st)(d @ [n] := None)"
            have "n \<in> regular_in fs d" using i True by (simp add: regular_in_def)
            then have "insert n R \<subseteq> regular_in fs d \<inter> set (n # seen)"
              "(\<forall>k. \<not> fault env k) \<longrightarrow> regular_in fs d \<inter> set (n # seen) \<subseteq> insert n R" using less.prems(2,3) by auto
            from again [OF _ this, of st'] show ?thesis using eq f less.prems(1) cleared_add [of fs d R n] by simp
          qed
        qed
      qed
    qed
  qed
qed

text \<open>
  A directory that exists loses regular files, all of them unless a system call fails, and
  nothing else changes; a missing one is made, empty.
\<close>

lemma prepare_dir_clears:
  assumes wf: "wf_fs (files st)" and dir: "resolve env (files st) dir = Some d" "is_dir (files st d)"
    and list: "listing_ok env (files st) d" and open_ok: "\<not> fault env (sys_calls st)"
  shows "\<exists>st' R. prepare_dir env dir st = Inr st' \<and> files st' = cleared (files st) d R \<and> R \<subseteq> regular_in (files st) d \<and>
    ((\<forall>k. \<not> fault env k) \<longrightarrow> R = regular_in (files st) d)"
proof -
  let ?st = "st\<lparr>sys_calls := Suc (sys_calls st)\<rparr>"
  obtain i where i: "files st d = Some i" "kind i = Directory" using dir(2) by (auto simp: is_dir_def split: option.splits)
  then have o: "attempt (sys_opendir env dir) st = (Some d, ?st)"
    using dir(1) open_ok by (simp add: attempt_def sys_opendir_def sys_call_def lookup_def)
  have b: "is_dir (files st (butlast d))"
    using wf dir(2) i(1) unfolding wf_fs_def by (cases d rule: rev_cases) auto
  have "{n. files st (d @ [n]) \<noteq> None} = (\<lambda>n. d @ [n]) -` dom (files st)" by auto
  then have fin: "finite {n. files st (d @ [n]) \<noteq> None}"
    using wf finite_vimageI [of "dom (files st)" "\<lambda>n. d @ [n]"] by (simp add: wf_fs_def inj_def)
  have "\<forall>n. files st (d @ [n]) \<noteq> None \<longrightarrow> valid_name n" using wf by (simp add: wf_fs_def)
  from clear_loop_ok [OF dir b this fin list, of ?st "{}" "[]"] obtain st' R where
    "clear_loop env dir (d, files st) [] ?st = Some st'" "files st' = cleared (files st) d R" "R \<subseteq> regular_in (files st) d"
    "(\<forall>k. \<not> fault env k) \<longrightarrow> R = regular_in (files st) d" by auto
  then show ?thesis using o by (auto simp: prepare_dir_def)
qed

lemma prepare_dir_makes:
  assumes "resolve env (files st) dir = None \<or> (\<exists>p. resolve env (files st) dir = Some p \<and> files st p = None)"
    and "resolve_new env (files st) dir = Some d" and "files st d = None"
  shows "prepare_dir env dir st = Inl (Exit_with 1) \<and> (\<exists>k. fault env k) \<or>
    (\<exists>st'. prepare_dir env dir st = Inr st' \<and>
      files st' = (files st)(d \<mapsto> \<lparr>kind = Directory, perm = and 0x1ED (not (umask env))\<rparr>))"
proof -
  have "attempt (sys_opendir env dir) st = (None, st\<lparr>sys_calls := Suc (sys_calls st)\<rparr>)"
    using assms(1) by (auto simp: attempt_def sys_opendir_def sys_call_def lookup_def)
  then show ?thesis using assms(2,3) by (auto simp: prepare_dir_def sys_mkdir_def sys_call_def)
qed

end
