(* ===== verification/Fileset_Main.thy ===== *)
theory Fileset_Main
  imports Fileset Fileset_Clear
begin

text \<open>
  The program fileset.c from its options to the index: the options that the popt library found,
  their checks, the directory, the files and the index. The files are new files in the
  directory and are kept apart from the file system in which the directory is prepared.
\<close>

record fileset_options =
  default_file_sz :: int
  default_nr_files :: int
  dir :: string

definition fileset_args :: "fileset_options option \<Rightarrow> fileset_options result" where
  "fileset_args parsed = (case parsed of
      None \<Rightarrow> Inl (Exit_with 1)
    | Some opt \<Rightarrow>
        if default_file_sz opt \<le> 1 then Inl (Exit_with 1)
        else if default_nr_files opt < 1 \<or> default_nr_files opt > 99999 then Inl (Exit_with 1)
        else if length (dir opt) > 1000 then Inl (Exit_with 1)
        else Inr opt)"

text \<open>A product of two values of type \<open>int\<close>.\<close>

definition int_times :: "int \<Rightarrow> int \<Rightarrow> int result" where
  "int_times i j = (if - 2147483648 \<le> i * j \<and> i * j < 2147483648 then Inr (i * j) else Inl Undefined)"

definition write_index :: "out_stream \<Rightarrow> fileset \<Rightarrow> out_stream result" where
  "write_index fd_idx made = bindE (Rio_write fd_idx (show_int (int (nr_files made)) @ [newline])) (\<lambda>fd.
     Rio_write fd (idx_buffer made))"

definition fileset_main ::
  "os_env \<Rightarrow> fileset_options option \<Rightarrow> (nat \<Rightarrow> int) \<Rightarrow> (nat \<Rightarrow> nat \<Rightarrow> nat) \<Rightarrow> (nat \<Rightarrow> out_stream) \<Rightarrow> out_stream \<Rightarrow> os \<Rightarrow>
   (os \<times> fileset \<times> out_stream) result" where
  "fileset_main env parsed size_of random open_file open_idx st =
     bindE (fileset_args parsed) (\<lambda>opt.
     bindE (prepare_dir env (dir opt) st) (\<lambda>st'.
     bindE (int_times (default_file_sz opt) 4096) (\<lambda>mean.
     bindE (int_times mean (default_nr_files opt)) (\<lambda>total_fileset_sz.
     bindE (loopE (fileset_loop (dir opt) size_of random open_file total_fileset_sz no_files)) (\<lambda>made.
     bindE (write_index open_idx made) (\<lambda>fd_idx. Inr (st', made, fd_idx)))))))"

lemma write_index_sent:
  assumes "write_index fd made = Inr fd'" and "sent fd = []"
  shows "sent fd' = index_text made"
  using assms by (auto simp: write_index_def index_text_def result_simps dest!: Rio_write_sent)

lemma Rio_write_aborts: "Rio_write fd b = Inl e \<Longrightarrow> aborts e"
  by (auto simp: Rio_write_def split: prod.splits if_splits)

text \<open>The options that pass the checks and do not overflow the total.\<close>

definition modest :: "fileset_options \<Rightarrow> bool" where
  "modest opt \<longleftrightarrow> 1 < default_file_sz opt \<and> 1 \<le> default_nr_files opt \<and> default_nr_files opt \<le> 99999 \<and>
     length (dir opt) \<le> 1000 \<and> default_file_sz opt * 4096 * default_nr_files opt < 2147483648"

lemma modest_total:
  assumes "modest opt"
  shows "fileset_args (Some opt) = Inr opt" and "int_times (default_file_sz opt) 4096 = Inr (default_file_sz opt * 4096)"
    and "int_times (default_file_sz opt * 4096) (default_nr_files opt) = Inr (default_file_sz opt * 4096 * default_nr_files opt)"
    and "0 < default_file_sz opt * 4096 * default_nr_files opt"
proof -
  have s: "0 < default_file_sz opt" "1 \<le> default_nr_files opt" using assms by (simp_all add: modest_def)
  then show pos: "0 < default_file_sz opt * 4096 * default_nr_files opt" by simp
  have "default_file_sz opt * 4096 * 1 \<le> default_file_sz opt * 4096 * default_nr_files opt"
    using s by (intro mult_left_mono) simp_all
  moreover have "default_file_sz opt * 4096 * default_nr_files opt < 2147483648" using assms by (simp only: modest_def)
  ultimately have "default_file_sz opt * 4096 < 2147483648" "- 2147483648 \<le> default_file_sz opt * 4096"
    "default_file_sz opt * 4096 * default_nr_files opt < 2147483648"
    "- 2147483648 \<le> default_file_sz opt * 4096 * default_nr_files opt" using s(1) pos by linarith+
  then show "int_times (default_file_sz opt) 4096 = Inr (default_file_sz opt * 4096)"
    "int_times (default_file_sz opt * 4096) (default_nr_files opt) = Inr (default_file_sz opt * 4096 * default_nr_files opt)"
    by (simp_all only: int_times_def if_True simp_thms)
  show "fileset_args (Some opt) = Inr opt" using assms by (simp add: fileset_args_def modest_def)
qed


definition demo_disk_before :: file_system where
  "demo_disk_before = [[] \<mapsto> \<lparr>kind = Directory, perm = 0x1ED\<rparr>, [''d''] \<mapsto> \<lparr>kind = Directory, perm = 0x1ED\<rparr>,
     [''d'', ''f''] \<mapsto> \<lparr>kind = Regular ''old'', perm = 0x1A4\<rparr>]"

definition demo_os_env :: os_env where
  "demo_os_env = \<lparr>fault = (\<lambda>_. False), read_count = (\<lambda>_. 0), write_count = (\<lambda>_. 0),
     next_entry = (\<lambda>fs0 fs1 p seen. if ''f'' \<in> set seen then None else Some ''f''),
     created_mode = (\<lambda>_. 0), umask = 0, cwd = []\<rparr>"


text \<open>The checks accept options whose total is not an \<open>int\<close>.\<close>

lemma large_set_overflows:
  assumes "1 < default_file_sz opt" and "1 \<le> default_nr_files opt" and "default_nr_files opt \<le> 99999" and "length (dir opt) \<le> 1000"
    and "2147483648 \<le> default_file_sz opt * 4096 * default_nr_files opt" and "prepare_dir env (dir opt) st = Inr st'"
  shows "fileset_main env (Some opt) size_of random open_file open_idx st = Inl Undefined"
  using assms by (simp add: fileset_main_def fileset_args_def int_times_def)

end
