(* ===== verification/Server_Shutdown.thy ===== *)
theory Server_Shutdown
  imports Pool_Properties Linked_Cache_Properties
begin

text \<open>
  The loop of server.c, and the end of \<open>server_exit\<close>: after the joins the main thread frees the
  request queue and the file cache. Without a cache the pointer to it is NULL.
\<close>

section \<open>The main loop\<close>

text \<open>
  One turn of the loop: what \<open>poll\<close> reports (\<open>None\<close> when it fails, else whether \<open>POLLIN\<close> is set for
  the fifo and for the listening socket) and what \<open>accept\<close> gives.
\<close>

definition server_loop :: "(bool \<times> bool) option \<Rightarrow> int option \<Rightarrow> pool \<Rightarrow> pool" where
  "server_loop polled accepted s = (case polled of
      None \<Rightarrow> s\<lparr>main_thread := Aborted (Exit_with 1)\<rparr>
    | Some (exit_in, connect_in) \<Rightarrow>
        if exit_in then s\<lparr>main_thread := Exit_requested\<rparr>
        else if \<not> connect_in then s\<lparr>main_thread := Aborted Assertion\<rparr>
        else (case accepted of
            None \<Rightarrow> s\<lparr>main_thread := Aborted (Exit_with 1)\<rparr>
          | Some connfd \<Rightarrow> server_request connfd s))"

text \<open>A turn in which the system calls succeed and an event is reported is a step of the process.
  When both events are there the exit comes first.\<close>

lemma server_loop_step:
  assumes "main_thread s = Accepting"
  shows "pool_step s Exit_event (server_loop (Some (True, b)) a s)"
    "pool_step s (Arrive c) (server_loop (Some (False, True)) (Some c) s)"
  using assms by (auto simp: server_loop_def intro: pool_step.intros)

text \<open>A process that opens the fifo and closes it without writing leaves \<open>POLLHUP\<close> without \<open>POLLIN\<close>:
  \<open>poll\<close> returns, and the assertion ends the server with all its connections.\<close>

lemma server_loop_hangup: "main_thread (server_loop (Some (False, False)) a s) = Aborted Assertion"
  by (simp add: server_loop_def)

section \<open>The frees\<close>

definition server_exit_frees :: "pool \<Rightarrow> hash_table option \<Rightarrow> ((req_heap \<times> req_queue) \<times> hash_table) result" where
  "server_exit_frees s cache =
     bindE (req_delete_queue (fst (request_queue s)) (snd (request_queue s))) (\<lambda>q.
     case cache of
       None \<Rightarrow> Inl Undefined
     | Some t \<Rightarrow> bindE (delete_hash_table t) (\<lambda>t'. Inr (q, t')))"

lemma request_queue_freed:
  assumes "req_rep (request_queue s) xs"
  shows "\<exists>q. req_delete_queue (fst (request_queue s)) (snd (request_queue s)) = Inr q \<and> req_rep q []"
  using req.drain_empties [OF assms] by (auto simp: req_delete_queue_def)



end
