(* ===== verification/Interrupt_Timer.thy ===== *)
theory Interrupt_Timer
  imports Sched_Reach Labelled_Runs
begin

text \<open>
  interrupt.c around the thread library: the registration of the handler, the one-shot timer
  that the handler arms again, and the printing with signals blocked. A timer that runs out
  makes SIGALRM pending; the kernel delivers it when it is unblocked. System calls do not fail.
\<close>

definition SIG_INTERVAL :: int where
  "SIG_INTERVAL = 200"

text \<open>What reaches the terminal: the text of a \<open>printf\<close>, or the line of the handler with its time
  difference.\<close>

datatype printout = Text string | Handler_report int

record process =
  lib :: sys
  init :: bool
  loud :: bool
  timer :: "int option"
  alarm_pending :: bool
  first :: bool
  start :: int
  diff :: int
  terminal :: "printout list"

definition set_interrupt :: "process \<Rightarrow> process" where
  "set_interrupt p = p\<lparr>timer := Some SIG_INTERVAL\<rparr>"

definition register_interrupt_handler :: "int \<Rightarrow> process \<Rightarrow> process result" where
  "register_interrupt_handler verbose p =
     bindE (assertE (\<not> init p)) (\<lambda>_. Inr (set_interrupt (p\<lparr>init := True, loud := (verbose \<noteq> 0)\<rparr>)))"

definition interrupts_quiet :: "process \<Rightarrow> process" where
  "interrupts_quiet p = p\<lparr>loud := False\<rparr>"

definition unintr_printf :: "string \<Rightarrow> process \<Rightarrow> process" where
  "unintr_printf s p =
     (let (enabled, s1) = interrupts_off (lib p);
          p1 = p\<lparr>lib := s1, terminal := terminal p @ [Text s]\<rparr>
      in p1\<lparr>lib := snd (interrupts_set enabled (lib p1))\<rparr>)"

text \<open>The report of a loud handler; \<open>now\<close> is what \<open>gettimeofday\<close> gives.\<close>

definition handler_report :: "int \<Rightarrow> process \<Rightarrow> process" where
  "handler_report now p =
     (let d = (if first p then diff p else now - start p)
      in p\<lparr>first := False, diff := d, start := now, terminal := terminal p @ [Handler_report d]\<rparr>)"

text \<open>\<open>interrupt_handler\<close> with its effects on the timer and the terminal; the kernel has blocked
  the signal.\<close>

definition run_handler :: "int \<Rightarrow> process \<Rightarrow> process result" where
  "run_handler now p =
     (let s0 = (lib p)\<lparr>interrupts := False\<rparr> in
      bindE (assertE (\<not> interrupts_enabled s0)) (\<lambda>_.
      let p1 = set_interrupt (if loud p then handler_report now p else p) in
      bindE (thread_yield THREAD_ANY (push_frame Handler_return s0)) (\<lambda>s'. Inr (p1\<lparr>lib := s'\<rparr>))))"

text \<open>\<open>spin\<close>: the clock is read again and again; the result is the number of readings.\<close>

partial_function (option) spin_loop :: "(nat \<Rightarrow> int) \<Rightarrow> int \<Rightarrow> int \<Rightarrow> nat \<Rightarrow> nat option" where
  "spin_loop clock begin_time usecs n =
     (if clock n - begin_time \<ge> usecs then Some n else spin_loop clock begin_time usecs (Suc n))"

definition spin :: "(nat \<Rightarrow> int) \<Rightarrow> int \<Rightarrow> nat option" where
  "spin clock usecs = spin_loop clock (clock 0) usecs 1"

section \<open>The process\<close>

datatype process_label =
  Lib_call api | Lib_continue | Register int | Quiet | Print string | Expire | Deliver int

text \<open>User code calls the functions of both files when the running thread has no call unfinished.\<close>

definition in_user_code :: "process \<Rightarrow> bool" where
  "in_user_code p \<longleftrightarrow> frames_of (lib p) (running_thread_id (lib p)) = []"

inductive process_step :: "process \<Rightarrow> process_label \<Rightarrow> process \<Rightarrow> bool" where
  lib_call: "in_user_code p \<Longrightarrow> api_call a (lib p) = Inr s' \<Longrightarrow> process_step p (Lib_call a) (p\<lparr>lib := s'\<rparr>)"
| lib_continue: "frames_of (lib p) (running_thread_id (lib p)) = f # fs \<Longrightarrow> resume f (pop_frame (lib p)) = Inr s' \<Longrightarrow>
    process_step p Lib_continue (p\<lparr>lib := s'\<rparr>)"
| register: "in_user_code p \<Longrightarrow> register_interrupt_handler v p = Inr p' \<Longrightarrow> process_step p (Register v) p'"
| quiet: "in_user_code p \<Longrightarrow> process_step p Quiet (interrupts_quiet p)"
| print: "in_user_code p \<Longrightarrow> process_step p (Print s) (unintr_printf s p)"
| expire: "timer p = Some u \<Longrightarrow> process_step p Expire (p\<lparr>timer := None, alarm_pending := True\<rparr>)"
| deliver: "init p \<Longrightarrow> alarm_pending p \<Longrightarrow> interrupts (lib p) \<Longrightarrow>
    run_handler now (p\<lparr>alarm_pending := False\<rparr>) = Inr p' \<Longrightarrow> process_step p (Deliver now) p'"

inductive_cases process_stepE: "process_step p l p'"

definition process_boot :: "sys \<Rightarrow> process" where
  "process_boot s = \<lparr>lib = s, init = False, loud = False, timer = None, alarm_pending = False,
     first = True, start = 0, diff = 0, terminal = []\<rparr>"

section \<open>What holds\<close>

lemma unintr_printf_lib: "lib (unintr_printf s p) = lib p"
  by (simp add: unintr_printf_def interrupts_off_def interrupts_set_def)

lemma unintr_printf_rest [simp]:
  "init (unintr_printf s p) = init p" "timer (unintr_printf s p) = timer p" "alarm_pending (unintr_printf s p) = alarm_pending p"
  by (simp_all add: unintr_printf_def interrupts_off_def interrupts_set_def)

text \<open>The handler does to the library what \<open>interrupt_handler\<close> does, and arms the timer.\<close>

lemma run_handler_lib:
  assumes "run_handler now p = Inr p'"
  shows "interrupt_handler (lib p) = Inr (lib p')" and "timer p' = Some SIG_INTERVAL" and "init p' = init p"
    and "alarm_pending p' = alarm_pending p"
  using assms
  by (auto simp: run_handler_def interrupt_handler_def interrupts_enabled_def set_interrupt_def handler_report_def Let_def
      result_simps split: if_splits)

lemma run_handler_returns:
  assumes "interrupt_handler (lib p) = Inr s'"
  shows "\<exists>p'. run_handler now p = Inr p'"
  using assms by (auto simp: run_handler_def interrupt_handler_def Let_def result_simps)

text \<open>The handler never fails, whatever the thread was doing, and runs the next ready thread.\<close>

lemma interrupt_handler_returns:
  assumes i: "sched_inv s"
  shows "\<exists>s'. interrupt_handler s = Inr s' \<and>
    running_thread_id s' = (case thread_queue s of [] \<Rightarrow> running_thread_id s | t # q \<Rightarrow> t)"
proof -
  define s0 where "s0 = push_frame Handler_return (s\<lparr>interrupts := False\<rparr>)"
  have e: "interrupt_handler s = thread_yield THREAD_ANY s0"
    by (simp add: interrupt_handler_def interrupts_enabled_def s0_def)
  have q: "thread_queue s0 = thread_queue s" "running_thread_id s0 = running_thread_id s" "state_of s0 = state_of s"
    "interrupts s0 = False" by (simp_all add: s0_def sys_simps)
  have core: "core_inv (running_thread_id s) (thread_queue s) (state_of s) (sleepers s)" using sched_invD(1) [OF i] .
  have head: "t \<noteq> running_thread_id s \<and> 0 \<le> t" if "thread_queue s = t # q" for t q
    using core_queued [OF core, of t] that core_running [OF core] by (auto simp: valid_tid_def core_inv_def)
  have switched: "\<exists>s'. switch_to False r t (s0\<lparr>interrupts := False, thread_queue := ts\<rparr>) = Inr s' \<and> running_thread_id s' = t"
    if t: "0 \<le> t" for r t ts
  proof -
    obtain s' where "switch_to False r t (s0\<lparr>interrupts := False, thread_queue := ts\<rparr>) = Inr s'"
      using switch_to_succeeds [OF t, of "s0\<lparr>interrupts := False, thread_queue := ts\<rparr>" False r] by auto
    then show ?thesis using switch_to_effect(1) by blast
  qed
  show ?thesis
  proof (cases rule: sched_inv_cases [OF i, case_names active exiting])
    case active
    show ?thesis
    proof (cases "thread_queue s")
      case Nil
      then show ?thesis using yield_any_empty [of s0] activeD(3,4) [OF active] q e by (simp add: sys_simps)
    next
      case (Cons t ts)
      then have "interrupt_handler s = switch_to False (running_thread_id s) t (s0\<lparr>interrupts := False, thread_queue := ts @ [running_thread_id s]\<rparr>)"
        using yield_any_switch [of s0 t ts] activeD(3,4) [OF active] q e head [OF Cons] by simp
      then show ?thesis using switched head [OF Cons] Cons by simp
    qed
  next
    case (exiting t ts fs)
    then have "interrupt_handler s = switch_to False (running_thread_id s) t (s0\<lparr>interrupts := False, thread_queue := ts\<rparr>)"
      using yield_any_leave [of s0 t ts] q e head [OF exiting(2)] by simp
    then show ?thesis using switched head [OF exiting(2)] exiting(2) by simp
  qed
qed

text \<open>\<open>spin\<close> ends when the clock gets there.\<close>

lemma spin_loop_ends:
  "\<exists>k\<ge>n. usecs \<le> clock k - b \<Longrightarrow> \<exists>m. spin_loop clock b usecs n = Some m \<and> n \<le> m \<and> usecs \<le> clock m - b"
proof -
  assume "\<exists>k\<ge>n. usecs \<le> clock k - b"
  then obtain k where "n \<le> k" "usecs \<le> clock k - b" by blast
  then show ?thesis
  proof (induction "k - n" arbitrary: n)
    case 0
    then show ?case by (subst spin_loop.simps) auto
  next
    case (Suc j)
    show ?case
    proof (cases "usecs \<le> clock n - b")
      case True
      then show ?thesis by (subst spin_loop.simps) auto
    next
      case False
      have "j = k - Suc n" "Suc n \<le> k" using Suc.hyps(2) Suc.prems False by (auto simp: le_Suc_eq intro: Suc_leI)
      from Suc.hyps(1) [OF this Suc.prems(2)] show ?thesis using False by (subst spin_loop.simps) (auto simp: Suc_leD)
    qed
  qed
qed

definition timer_inv :: "sys \<Rightarrow> process \<Rightarrow> bool" where
  "timer_inv s0 p \<longleftrightarrow> reachable s0 (lib p) \<and> (init p \<longrightarrow> timer p = Some SIG_INTERVAL \<or> alarm_pending p) \<and>
     (\<not> init p \<longrightarrow> timer p = None \<and> \<not> alarm_pending p)"

lemma timer_step:
  assumes "process_step p l p'" and "timer_inv s0 p"
  shows "timer_inv s0 p'"
  using assms
proof (cases rule: process_step.cases)
  case (lib_call a s')
  then have "sys_step (lib p) s'" by (auto simp: in_user_code_def intro: sys_step.call)
  then show ?thesis using lib_call assms(2) by (auto simp: timer_inv_def intro: reachable.step)
next
  case (lib_continue f fs s')
  then have "sys_step (lib p) s'" by (auto intro: sys_step.continue)
  then show ?thesis using lib_continue assms(2) by (auto simp: timer_inv_def intro: reachable.step)
next
  case (deliver now)
  note r = run_handler_lib [OF deliver(5)]
  have "sys_step (lib p) (lib p')" using deliver(4) r(1) by (auto intro: sys_step.tick)
  then show ?thesis using deliver r assms(2) by (auto simp: timer_inv_def intro: reachable.step)
qed (auto simp: timer_inv_def register_interrupt_handler_def set_interrupt_def interrupts_quiet_def unintr_printf_lib
    result_simps)

interpretation tmr: invariant_system process_step "timer_inv s0" for s0
  by unfold_locales (rule timer_step)

end
