(* ===== verification/Interrupt_Properties.thy ===== *)
theory Interrupt_Properties
  imports Interrupt_Timer Lock_Properties
begin

text \<open>Properties of interrupt.c with a concrete run.\<close>

text \<open>\<open>spin\<close> returns once the clock has advanced far enough.\<close>

lemma spin_waits:
  assumes "\<exists>k\<ge>1. usecs \<le> clock k - clock 0"
  shows "\<exists>n. spin clock usecs = Some n \<and> usecs \<le> clock n - clock 0"
  using spin_loop_ends [OF assms] by (auto simp: spin_def)

text \<open>A second registration fails the assertion.\<close>

lemma register_twice: "init p \<Longrightarrow> register_interrupt_handler v p = Inl Assertion"
  by (simp add: register_interrupt_handler_def)

text \<open>Property C32. Preemption never stops. In every run of a process that uses the thread library and
  interrupt.c, once the handler is registered the timer is set or SIGALRM is pending; a timer that
  is set can run out; and a pending signal that is not blocked can be delivered: the handler does
  not fail, it has set the timer again, and the processor has gone to the head of the ready queue.
  Printing through \<open>unintr_printf\<close> leaves the library as it was.\<close>

theorem preemption_never_stops:
  assumes "good_malloc ps pw pl pc" and "runs process_step (process_boot (boot ps pw pl pc b)) ls p"
  shows "(init p \<longrightarrow> timer p = Some SIG_INTERVAL \<or> alarm_pending p) \<and>
    (timer p \<noteq> None \<longrightarrow> (\<exists>p'. process_step p Expire p' \<and> alarm_pending p' \<and> lib p' = lib p)) \<and>
    (alarm_pending p \<longrightarrow> interrupts (lib p) \<longrightarrow> (\<exists>p'. process_step p (Deliver now) p' \<and> timer p' = Some SIG_INTERVAL \<and>
      running_thread_id (lib p') = (case thread_queue (lib p) of [] \<Rightarrow> running_thread_id (lib p) | t # q \<Rightarrow> t))) \<and>
    lib (unintr_printf text p) = lib p"
proof -
  have "timer_inv (boot ps pw pl pc b) (process_boot (boot ps pw pl pc b))"
    by (simp add: timer_inv_def process_boot_def reachable.start)
  with assms(2) have inv: "timer_inv (boot ps pw pl pc b) p" by (rule tmr.reachable_inv)
  then have i: "sched_inv (lib p)" using reachable_boot_inv [OF assms(1)] unfolding timer_inv_def by blast
  have "\<exists>p'. process_step p (Deliver now) p' \<and> timer p' = Some SIG_INTERVAL \<and>
      running_thread_id (lib p') = (case thread_queue (lib p) of [] \<Rightarrow> running_thread_id (lib p) | t # q \<Rightarrow> t)"
    if a: "alarm_pending p" "interrupts (lib p)"
  proof -
    have init: "init p" using inv a(1) by (auto simp: timer_inv_def)
    let ?p = "p\<lparr>alarm_pending := False\<rparr>"
    obtain s' where s': "interrupt_handler (lib ?p) = Inr s'"
      "running_thread_id s' = (case thread_queue (lib p) of [] \<Rightarrow> running_thread_id (lib p) | t # q \<Rightarrow> t)"
      using interrupt_handler_returns [OF i] by auto
    obtain p' where p': "run_handler now ?p = Inr p'" using run_handler_returns [OF s'(1)] by blast
    show ?thesis using process_step.deliver [OF init a p'] run_handler_lib(1,2) [OF p'] s' by auto
  qed
  moreover have "timer p \<noteq> None \<longrightarrow> (\<exists>p'. process_step p Expire p' \<and> alarm_pending p' \<and> lib p' = lib p)"
    using process_step.expire [of p] by fastforce
  ultimately show ?thesis using inv by (simp add: timer_inv_def unintr_printf_lib)
qed

theorem preemption_never_stops_witness:
  "\<exists>p p'. init p \<and> alarm_pending p \<and> process_step p (Deliver 5) p' \<and> timer p' = Some 200"
proof -
  let ?p0 = "process_boot demo_boot"
  have u: "in_user_code ?p0" "interrupts (lib ?p0)"
    by (simp_all add: in_user_code_def process_boot_def demo_boot_def boot_effect)
  obtain p1 where p1: "register_interrupt_handler 0 ?p0 = Inr p1" "init p1" "timer p1 = Some 200" "interrupts (lib p1)"
    using u(2) by (auto simp: register_interrupt_handler_def process_boot_def set_interrupt_def SIG_INTERVAL_def)
  let ?p2 = "p1\<lparr>timer := None, alarm_pending := True\<rparr>"
  have "runs process_step ?p0 ([] @ [Register 0]) p1"
    by (intro runs.extend [OF runs.start] process_step.register u(1) p1(1))
  then have "runs process_step ?p0 (([] @ [Register 0]) @ [Expire]) ?p2"
    by (rule runs.extend) (rule process_step.expire [OF p1(3)])
  from preemption_never_stops [OF demo_malloc this [unfolded demo_boot_def], of 5] p1(2,4)
  obtain p' where "process_step ?p2 (Deliver 5) p'" "timer p' = Some SIG_INTERVAL" by auto
  then show ?thesis using p1(2) by (intro exI [of _ ?p2] exI [of _ p']) (simp add: SIG_INTERVAL_def)
qed

end
