(* ===== verification/Concurrent_Requests.thy ===== *)
theory Concurrent_Requests
  imports Web_Properties
begin

text \<open>
  Requests that are handled at the same time: \<open>do_server_request\<close> of webserver_5/server_thread.c
  cut where it calls the cache. Each call of the cache holds the mutex of the table from its
  beginning to its end, so that it is one step; between two calls of one worker the others may
  change the cache in any way. The result: in every interleaving every connection gets the
  answer of the server of Lab 4, which has no cache.
\<close>

section \<open>The phases of a request\<close>

datatype phase =
    Begin conn
  | Finding conn string
  | Reading conn string
  | Adding conn file_data
  | Sending conn file_data
  | Finished conn

definition request_step :: "env \<Rightarrow> int \<Rightarrow> cache option \<Rightarrow> phase \<Rightarrow> (cache option \<times> phase) result" where
  "request_step e max_cache_size wc ph = (case ph of
       Begin rq \<Rightarrow>
         bindE (request_init e rq) (\<lambda>(rq, name). case name of
             None \<Rightarrow> Inr (wc, Finished rq)
           | Some f \<Rightarrow> Inr (wc, if max_cache_size \<noteq> 0 then Finding rq f else Reading rq f))
     | Finding rq f \<Rightarrow>
         bindE (on_cache (\<lambda>c. find_in_hash_table c f) wc) (\<lambda>(wc, temp_data).
         Inr (wc, case temp_data of Some d \<Rightarrow> Adding rq d | None \<Rightarrow> Reading rq f))
     | Reading rq f \<Rightarrow>
         bindE (request_readfile e (to_client rq) (file_data_init\<lparr>file_name := f\<rparr>)) (\<lambda>(out, data, ok).
         let rq = rq\<lparr>to_client := out\<rparr>
         in Inr (wc, if ok then Adding rq data else Finished (request_destroy rq)))
     | Adding rq data \<Rightarrow>
         bindE (if file_size data \<le> max_cache_size
                then on_cache (\<lambda>c. add_to_hash_table c (file_name data) data) wc
                else Inr (wc, False)) (\<lambda>(wc, added). Inr (wc, Sending rq data))
     | Sending rq data \<Rightarrow>
         bindE (request_sendfile (to_client rq) data) (\<lambda>out.
         Inr (wc, Finished (request_destroy (rq\<lparr>to_client := out\<rparr>))))
     | Finished rq \<Rightarrow> Inr (wc, Finished rq))"

text \<open>The workers, each with the request it is at, the requests it will be given, and the
  connections it is done with.\<close>

record worker =
  at_work :: "(env \<times> phase) option"
  to_come :: "(env \<times> conn) list"
  done_with :: "conn list"

record server_state =
  shared_cache :: "cache option"
  worker_of :: "nat \<Rightarrow> worker"

definition worker_step :: "int \<Rightarrow> server_state \<Rightarrow> nat \<Rightarrow> server_state result" where
  "worker_step m s i =
     (let w = worker_of s i; put = \<lambda>w'. (worker_of s)(i := w') in
      case at_work w of
        None \<Rightarrow> (case to_come w of
            [] \<Rightarrow> Inr s
          | (e, rq) # rs \<Rightarrow> Inr (s\<lparr>worker_of := put (w\<lparr>at_work := Some (e, Begin rq), to_come := rs\<rparr>)\<rparr>))
      | Some (e, ph) \<Rightarrow> (case ph of
            Finished rq \<Rightarrow> Inr (s\<lparr>worker_of := put (w\<lparr>at_work := None, done_with := done_with w @ [rq]\<rparr>)\<rparr>)
          | _ \<Rightarrow> bindE (request_step e m (shared_cache s) ph) (\<lambda>(wc, ph').
              Inr (s\<lparr>shared_cache := wc, worker_of := put (w\<lparr>at_work := Some (e, ph')\<rparr>)\<rparr>))))"

definition workers_start :: "cache option \<Rightarrow> (nat \<Rightarrow> (env \<times> conn) list) \<Rightarrow> server_state" where
  "workers_start wc jobs =
     \<lparr>shared_cache = wc, worker_of = (\<lambda>i. \<lparr>at_work = None, to_come = jobs i, done_with = []\<rparr>)\<rparr>"

text \<open>Without other workers the phases are \<open>do_server_request\<close>.\<close>

definition go_on :: "env \<Rightarrow> int \<Rightarrow> cache option \<times> phase \<Rightarrow> unit list \<Rightarrow> (cache option \<times> phase) result" where
  "go_on e m = foldE (\<lambda>(wc, ph) _. request_step e m wc ph)"

lemma go_on_Finished: "go_on e m (wc, Finished rq) us = Inr (wc, Finished rq)"
  by (induction us) (simp_all add: go_on_def request_step_def)

lemma go_on_step:
  "go_on e m (wc, ph) (u # us) = bindE (request_step e m wc ph) (\<lambda>s. go_on e m s us)"
  by (simp add: go_on_def)

lemma bindE_assoc: "bindE (bindE r f) g = bindE r (\<lambda>x. bindE (f x) g)"
  by (cases r) simp_all

lemma bindE_cong: "r = r' \<Longrightarrow> (\<And>x. r' = Inr x \<Longrightarrow> f x = g x) \<Longrightarrow> bindE r f = bindE r' g"
  by (cases r') simp_all

lemma go_on_Sending:
  "go_on e m (wc, Sending rq d) (u # us) =
     bindE (request_sendfile (to_client rq) d) (\<lambda>out. Inr (wc, Finished (request_destroy (rq\<lparr>to_client := out\<rparr>))))"
  by (simp add: go_on_step request_step_def bindE_assoc go_on_Finished)

lemma go_on_Adding:
  "go_on e m (wc, Adding rq d) (u # v # us) =
     bindE (if file_size d \<le> m then on_cache (\<lambda>c. add_to_hash_table c (file_name d) d) wc else Inr (wc, False))
       (\<lambda>(wc, added). bindE (request_sendfile (to_client rq) d)
       (\<lambda>out. Inr (wc, Finished (request_destroy (rq\<lparr>to_client := out\<rparr>)))))"
  unfolding go_on_step [of e m wc] request_step_def
  by (simp only: phase.case bindE_assoc, rule bindE_cong [OF refl]) (simp add: split_beta go_on_Sending)

lemma go_on_Reading:
  "go_on e m (wc, Reading rq f) (u # v # w # us) =
     bindE (request_readfile e (to_client rq) (file_data_init\<lparr>file_name := f\<rparr>)) (\<lambda>(out, data, ok).
     if \<not> ok then Inr (wc, Finished (request_destroy (rq\<lparr>to_client := out\<rparr>)))
     else go_on e m (wc, Adding (rq\<lparr>to_client := out\<rparr>) data) (v # w # us))"
  unfolding go_on_step [of e m wc "Reading rq f"] request_step_def
  by (simp only: phase.case bindE_assoc, rule bindE_cong [OF refl]) (simp add: split_beta Let_def go_on_Finished)

definition to_finish :: "(cache option \<times> phase) result \<Rightarrow> (cache option \<times> conn) result" where
  "to_finish r = bindE r (\<lambda>(wc, ph). case ph of Finished rq \<Rightarrow> Inr (wc, rq) | _ \<Rightarrow> Inl Nontermination)"

lemma phases_alone:
  "do_server_request e m wc rq = to_finish (go_on e m (wc, Begin rq) (replicate 5 ()))"
proof (cases "request_init e rq")
  case (Inr r)
  obtain rq1 name where r: "r = (rq1, name)" by (cases r)
  show ?thesis
  proof (cases name)
    case (Some f)
    let ?us = "[(), (), ()]"
    have read: "to_finish (go_on e m (wc', Reading rq1 f) (() # () # () # us)) =
        bindE (request_readfile e (to_client rq1) (file_data_init\<lparr>file_name := f\<rparr>)) (\<lambda>(out, data, ok).
         if \<not> ok then Inr (wc', request_destroy (rq1\<lparr>to_client := out\<rparr>))
         else
           bindE (if file_size data \<le> m
                  then on_cache (\<lambda>c. add_to_hash_table c (file_name data) data) wc'
                  else Inr (wc', False)) (\<lambda>(wc2, added).
           bindE (request_sendfile out data) (\<lambda>out'.
           Inr (wc2, request_destroy (rq1\<lparr>to_client := out'\<rparr>)))))" for wc' us
      unfolding go_on_Reading to_finish_def bindE_assoc
      by (rule bindE_cong [OF refl]) (auto simp: go_on_Adding bindE_assoc split_beta intro!: bindE_cong [OF refl])
    have add: "to_finish (go_on e m (wc', Adding rq1 d) (() # () # us)) =
        bindE (if file_size d \<le> m then on_cache (\<lambda>c. add_to_hash_table c (file_name d) d) wc' else Inr (wc', False)) (\<lambda>(wc2, added).
        bindE (request_sendfile (to_client rq1) d) (\<lambda>out'. Inr (wc2, request_destroy (rq1\<lparr>to_client := out'\<rparr>))))" for wc' d us
      unfolding go_on_Adding to_finish_def bindE_assoc
      by (rule bindE_cong [OF refl]) (auto simp: bindE_assoc intro!: bindE_cong [OF refl])
    have five: "replicate 5 () = () # () # () # () # [()]" by (simp add: eval_nat_numeral)
    show ?thesis
    proof (cases "m = 0")
      case True
      have b: "go_on e m (wc, Begin rq) (replicate 5 ()) = go_on e m (wc, Reading rq1 f) (() # () # () # [()])"
        using Inr r Some True unfolding five go_on_step [of e m wc "Begin rq"] by (simp add: request_step_def)
      show ?thesis unfolding b read do_server_request_def using Inr r Some True by simp
    next
      case False
      have "go_on e m (wc, Begin rq) (replicate 5 ()) = go_on e m (wc, Finding rq1 f) (() # ?us)"
        using Inr r Some False by (simp add: five go_on_step [of e m wc "Begin rq"] request_step_def)
      also have "\<dots> = bindE (on_cache (\<lambda>c. find_in_hash_table c f) wc) (\<lambda>(wc, temp_data).
           go_on e m (wc, case temp_data of Some d \<Rightarrow> Adding rq1 d | None \<Rightarrow> Reading rq1 f) ?us)"
        unfolding go_on_step [of e m wc "Finding rq1 f"] request_step_def
        by (simp only: phase.case bindE_assoc, rule bindE_cong [OF refl]) (simp add: split_beta)
      finally have g: "go_on e m (wc, Begin rq) (replicate 5 ()) =
          bindE (on_cache (\<lambda>c. find_in_hash_table c f) wc) (\<lambda>(wc, temp_data).
           go_on e m (wc, case temp_data of Some d \<Rightarrow> Adding rq1 d | None \<Rightarrow> Reading rq1 f) ?us)" .
      have f: "to_finish (go_on e m (wc, Begin rq) (replicate 5 ())) =
          bindE (on_cache (\<lambda>c. find_in_hash_table c f) wc) (\<lambda>(wc, temp_data).
           to_finish (go_on e m (wc, case temp_data of Some d \<Rightarrow> Adding rq1 d | None \<Rightarrow> Reading rq1 f) ?us))"
        unfolding g to_finish_def bindE_assoc by (rule bindE_cong [OF refl]) (simp split: prod.splits)
      show ?thesis unfolding f
        using Inr r Some False
        by (auto simp: do_server_request_def add read split: option.splits intro!: bindE_cong [OF refl])
    qed
  qed (use Inr r in \<open>simp add: do_server_request_def eval_nat_numeral go_on_step request_step_def go_on_Finished to_finish_def\<close>)
qed (simp add: do_server_request_def eval_nat_numeral go_on_step to_finish_def request_step_def)

section \<open>Requests for texts, and requests that are refused\<close>

text \<open>The rest of a request once the text is there.\<close>

definition text_answer :: "conn \<Rightarrow> string \<Rightarrow> string \<Rightarrow> conn result" where
  "text_answer rq f t =
     bindE (Rio_write (to_client rq) (response_header f (int (length t)) (csum t))) (\<lambda>out.
     bindE (if t \<noteq> [] then Rio_write out t else Inr out) (\<lambda>out'.
     Inr (request_destroy (rq\<lparr>to_client := out'\<rparr>))))"

definition holds_text :: "file_data \<Rightarrow> string \<Rightarrow> string \<Rightarrow> bool" where
  "holds_text d f t \<longleftrightarrow> file_name d = f \<and> file_size d = int (length t) \<and> file_bytes d = Inr t \<and> terminated d"

text \<open>The requests considered: the server of Lab 4 answers them, and they are malformed, or for one
  of the texts, or refused with an error page.\<close>

definition answerable :: "(string \<Rightarrow> string option) \<Rightarrow> env \<times> conn \<Rightarrow> bool" where
  "answerable texts = (\<lambda>(e, rq). (\<exists>rq'. do_server_request_uncached e rq = Inr rq') \<and>
     (\<forall>rq1 f. request_init e rq = Inr (rq1, Some f) \<longrightarrow>
       (case texts f of
          Some t \<Rightarrow> serves e texts
        | None \<Rightarrow> \<exists>out d. request_readfile e (to_client rq1) (file_data_init\<lparr>file_name := f\<rparr>) = Inr (out, d, False))))"

text \<open>\<open>leads_to texts e ph r\<close>: a request in the phase \<open>ph\<close> will leave its connection as \<open>r\<close>.\<close>

definition fetches :: "(string \<Rightarrow> string option) \<Rightarrow> env \<Rightarrow> conn \<Rightarrow> string \<Rightarrow> conn \<Rightarrow> bool" where
  "fetches texts e rq f r = (case texts f of
       Some t \<Rightarrow> serves e texts \<and> text_answer rq f t = Inr r
     | None \<Rightarrow> \<exists>out d. request_readfile e (to_client rq) (file_data_init\<lparr>file_name := f\<rparr>) = Inr (out, d, False) \<and>
         r = request_destroy (rq\<lparr>to_client := out\<rparr>))"

definition leads_to :: "(string \<Rightarrow> string option) \<Rightarrow> env \<Rightarrow> phase \<Rightarrow> conn \<Rightarrow> bool" where
  "leads_to texts e ph r = (case ph of
       Begin rq \<Rightarrow> answerable texts (e, rq) \<and> do_server_request_uncached e rq = Inr r
     | Finding rq f \<Rightarrow> fetches texts e rq f r
     | Reading rq f \<Rightarrow> fetches texts e rq f r
     | Adding rq d \<Rightarrow> \<exists>f t. texts f = Some t \<and> is_text t \<and> holds_text d f t \<and> text_answer rq f t = Inr r
     | Sending rq d \<Rightarrow> \<exists>f t. texts f = Some t \<and> is_text t \<and> holds_text d f t \<and> text_answer rq f t = Inr r
     | Finished rq \<Rightarrow> r = rq)"

fun rank :: "phase \<Rightarrow> nat" where
  "rank (Begin _) = 5"
| "rank (Finding _ _) = 4"
| "rank (Reading _ _) = 3"
| "rank (Adding _ _) = 2"
| "rank (Sending _ _) = 1"
| "rank (Finished _) = 0"

lemma sends_text:
  assumes "holds_text d f t"
  shows "bindE (request_sendfile (to_client rq) d) (\<lambda>out. Inr (request_destroy (rq\<lparr>to_client := out\<rparr>))) = text_answer rq f t"
  using assms by (simp add: holds_text_def request_sendfile_def request_processfile_def text_answer_def bindE_assoc)

lemma uncached_fetches:
  assumes a: "answerable texts (e, rq)" and u: "do_server_request_uncached e rq = Inr r"
    and i: "request_init e rq = Inr (rq1, Some f)"
  shows "fetches texts e rq1 f r"
proof (cases "texts f")
  case None
  then show ?thesis using a u i by (auto simp: answerable_def fetches_def do_server_request_uncached_def)
next
  case (Some t)
  have s: "serves e texts" using a i Some by (auto simp: answerable_def)
  from readfile_text [OF s Some, of "to_client rq1"] obtain d where
    d: "request_readfile e (to_client rq1) (file_data_init\<lparr>file_name := f\<rparr>) = Inr (to_client rq1, d, True)" "holds_text d f t"
    by (auto simp: holds_text_def)
  have "text_answer rq1 f t = Inr r"
    using u i d(1) sends_text [OF d(2), of rq1] by (simp add: do_server_request_uncached_def)
  then show ?thesis using Some s by (simp add: fetches_def)
qed

section \<open>Every step keeps the answers\<close>

definition sound_cache :: "int \<Rightarrow> (string \<Rightarrow> string option) \<Rightarrow> cache option \<Rightarrow> bool" where
  "sound_cache m texts wc \<longleftrightarrow> (\<exists>c. wc = Some c \<and> cache_state_ok m c \<and> coherent texts c)"

lemma find_step:
  assumes wc: "sound_cache m texts wc" and f: "fetches texts e rq f r"
  shows "\<exists>ph. request_step e m wc (Finding rq f) = Inr (wc, ph) \<and> leads_to texts e ph r \<and> rank ph \<le> 3"
proof -
  obtain c where c: "wc = Some c" "cache_state_ok m c" "coherent texts c" using wc by (auto simp: sound_cache_def)
  show ?thesis
  proof (cases "lookup c f")
    case None
    then have "find_in_hash_table c f = Inr (c, None)"
      using find_in_hash_table_ok [of c f] c(2) by (simp add: cache_state_ok_def)
    then show ?thesis using c f
      by (intro exI [of _ "Reading rq f"]) (simp add: request_step_def on_cache_def leads_to_def)
  next
    case (Some d)
    obtain t d' where t: "find_in_hash_table c f = Inr (c, Some d')" "texts f = Some t" "is_text t" "holds_text d' f t"
      using find_coherent [OF c(2,3) Some] by (auto simp: holds_text_def)
    then show ?thesis using c f
      by (intro exI [of _ "Adding rq d'"]) (auto simp: request_step_def on_cache_def leads_to_def fetches_def)
  qed
qed

lemma read_step:
  assumes "fetches texts e rq f r"
  shows "\<exists>ph. request_step e m wc (Reading rq f) = Inr (wc, ph) \<and> leads_to texts e ph r \<and> rank ph \<le> 2"
proof (cases "texts f")
  case None
  then show ?thesis using assms
    by (intro exI [of _ "Finished r"]) (auto simp: fetches_def request_step_def leads_to_def)
next
  case (Some t)
  then have s: "serves e texts" "text_answer rq f t = Inr r" using assms by (simp_all add: fetches_def)
  then have "is_text t" using Some unfolding serves_def by metis
  moreover from readfile_text [OF s(1) Some, of "to_client rq"] obtain d where
    "request_readfile e (to_client rq) (file_data_init\<lparr>file_name := f\<rparr>) = Inr (to_client rq, d, True)" "holds_text d f t"
    by (auto simp: holds_text_def)
  ultimately show ?thesis using Some s(2)
    by (intro exI [of _ "Adding rq d"]) (auto simp: request_step_def leads_to_def)
qed

lemma add_step:
  assumes wc: "sound_cache m texts wc" and l: "leads_to texts e (Adding rq d) r"
  shows "\<exists>wc'. request_step e m wc (Adding rq d) = Inr (wc', Sending rq d) \<and> sound_cache m texts wc' \<and>
    leads_to texts e (Sending rq d) r"
proof -
  obtain c where c: "wc = Some c" "cache_state_ok m c" "coherent texts c" using wc by (auto simp: sound_cache_def)
  obtain f t where t: "texts f = Some t" "is_text t" "file_name d = f" "file_size d = int (length t)"
    "file_bytes d = Inr t" "terminated d" using l by (auto simp: leads_to_def holds_text_def)
  have "\<exists>wc' b. (if file_size d \<le> m then on_cache (\<lambda>c. add_to_hash_table c (file_name d) d) wc else Inr (wc, False)) = Inr (wc', b) \<and>
      sound_cache m texts wc'"
    using add_coherent [OF c(2,3) t] wc c(1) t(3) by (cases "file_size d \<le> m") (auto simp: on_cache_def sound_cache_def)
  then show ?thesis using l by (auto simp: request_step_def leads_to_def)
qed

lemma request_step_ok:
  assumes m: "m \<noteq> 0" and wc: "sound_cache m texts wc" and l: "leads_to texts e ph r"
  shows "\<exists>wc' ph'. request_step e m wc ph = Inr (wc', ph') \<and> sound_cache m texts wc' \<and> leads_to texts e ph' r \<and>
    rank ph' \<le> rank ph - 1"
proof (cases ph)
  case (Begin rq)
  then have a: "answerable texts (e, rq)" "do_server_request_uncached e rq = Inr r" using l by (simp_all add: leads_to_def)
  then obtain rq1 name where i: "request_init e rq = Inr (rq1, name)"
    by (auto simp: do_server_request_uncached_def result_simps)
  show ?thesis
  proof (cases name)
    case None
    then show ?thesis using wc a(2) i Begin
      by (intro exI [of _ wc] exI [of _ "Finished rq1"]) (simp add: request_step_def leads_to_def do_server_request_uncached_def)
  next
    case (Some f)
    then show ?thesis using wc m i Begin uncached_fetches [OF a, of rq1 f]
      by (intro exI [of _ wc] exI [of _ "Finding rq1 f"]) (simp add: request_step_def leads_to_def)
  qed
next
  case (Finding rq f)
  then show ?thesis using find_step [OF wc, of e rq f r] l wc by (auto simp: leads_to_def)
next
  case (Reading rq f)
  then show ?thesis using read_step [of texts e rq f r m wc] l wc by (auto simp: leads_to_def)
next
  case (Adding rq d)
  then show ?thesis using add_step [OF wc, of e rq d r] l by auto
next
  case (Sending rq d)
  then obtain f t where "holds_text d f t" "text_answer rq f t = Inr r" using l by (auto simp: leads_to_def)
  then have "bindE (request_sendfile (to_client rq) d) (\<lambda>out. Inr (request_destroy (rq\<lparr>to_client := out\<rparr>))) = Inr r"
    using sends_text by simp
  then show ?thesis using Sending wc
    by (intro exI [of _ wc] exI [of _ "Finished r"]) (auto simp: request_step_def leads_to_def result_simps)
next
  case (Finished rq)
  then show ?thesis using wc l by (simp add: request_step_def)
qed

section \<open>All workers\<close>

definition lab4_answer :: "env \<times> conn \<Rightarrow> conn result" where
  "lab4_answer = (\<lambda>(e, rq). do_server_request_uncached e rq)"

definition worker_good :: "(string \<Rightarrow> string option) \<Rightarrow> (env \<times> conn) list \<Rightarrow> worker \<Rightarrow> bool" where
  "worker_good texts jobs w \<longleftrightarrow> (\<forall>j\<in>set (to_come w). answerable texts j) \<and>
     (case at_work w of
        None \<Rightarrow> map lab4_answer jobs = map Inr (done_with w) @ map lab4_answer (to_come w)
      | Some (e, ph) \<Rightarrow> \<exists>r. leads_to texts e ph r \<and>
          map lab4_answer jobs = map Inr (done_with w) @ Inr r # map lab4_answer (to_come w))"

definition work_left :: "worker \<Rightarrow> nat" where
  "work_left w = 7 * length (to_come w) + (case at_work w of None \<Rightarrow> 0 | Some (e, ph) \<Rightarrow> rank ph + 1)"

definition all_good :: "int \<Rightarrow> (string \<Rightarrow> string option) \<Rightarrow> (nat \<Rightarrow> (env \<times> conn) list) \<Rightarrow> server_state \<Rightarrow> bool" where
  "all_good m texts jobs s \<longleftrightarrow> sound_cache m texts (shared_cache s) \<and> (\<forall>i. worker_good texts (jobs i) (worker_of s i))"

lemma all_goodI:
  assumes "all_good m texts jobs s" and "sound_cache m texts wc" and "worker_good texts (jobs i) w"
  shows "all_good m texts jobs (s\<lparr>shared_cache := wc, worker_of := (worker_of s)(i := w)\<rparr>)"
  using assms by (simp add: all_good_def)

lemma worker_step_ok:
  assumes m: "m \<noteq> 0" and s: "all_good m texts jobs s"
  shows "\<exists>s'. worker_step m s i = Inr s' \<and> all_good m texts jobs s' \<and>
    work_left (worker_of s' i) \<le> work_left (worker_of s i) - 1 \<and> (\<forall>j. j \<noteq> i \<longrightarrow> worker_of s' j = worker_of s j)"
proof -
  let ?w = "worker_of s i"
  have w: "worker_good texts (jobs i) ?w" and c: "sound_cache m texts (shared_cache s)" using s by (simp_all add: all_good_def)
  have keep: ?thesis if a: "worker_step m s i = Inr (s\<lparr>shared_cache := wc, worker_of := (worker_of s)(i := w')\<rparr>)"
    and b: "sound_cache m texts wc" "worker_good texts (jobs i) w'" "work_left w' \<le> work_left ?w - 1" for wc w'
    using a b all_goodI [OF s b(1,2)]
    by (intro exI [of _ "s\<lparr>shared_cache := wc, worker_of := (worker_of s)(i := w')\<rparr>"]) simp
  have same: "s\<lparr>shared_cache := shared_cache s, worker_of := g\<rparr> = s\<lparr>worker_of := g\<rparr>" for g by simp
  show ?thesis
  proof (cases "at_work ?w")
    case None
    show ?thesis
    proof (cases "to_come ?w")
      case Nil
      then show ?thesis using None s by (intro exI [of _ s]) (simp add: worker_step_def work_left_def)
    next
      case (Cons j js)
      obtain e rq where j: "j = (e, rq)" by (cases j)
      let ?w' = "?w\<lparr>at_work := Some (e, Begin rq), to_come := js\<rparr>"
      have "answerable texts (e, rq)" using w Cons j by (simp add: worker_good_def)
      then obtain r where r: "do_server_request_uncached e rq = Inr r" "answerable texts (e, rq)"
        by (auto simp: answerable_def)
      then have "worker_good texts (jobs i) ?w'"
        using w Cons j None by (auto simp: worker_good_def leads_to_def lab4_answer_def)
      then show ?thesis using None Cons j c
        by (intro keep [where wc = "shared_cache s" and w' = ?w']) (simp_all add: worker_step_def Let_def work_left_def)
    qed
  next
    case (Some x)
    obtain e ph where x: "x = (e, ph)" by (cases x)
    obtain r where r: "leads_to texts e ph r" "map lab4_answer (jobs i) = map Inr (done_with ?w) @ Inr r # map lab4_answer (to_come ?w)"
      using w Some x by (auto simp: worker_good_def)
    show ?thesis
    proof (cases "\<exists>rq. ph = Finished rq")
      case True
      then have f: "ph = Finished r" using r(1) by (auto simp: leads_to_def)
      let ?w' = "?w\<lparr>at_work := None, done_with := done_with ?w @ [r]\<rparr>"
      have "worker_good texts (jobs i) ?w'" using w r(2) by (simp add: worker_good_def)
      then show ?thesis using Some x f c
        by (intro keep [where wc = "shared_cache s" and w' = ?w']) (simp_all add: worker_step_def Let_def work_left_def)
    next
      case False
      obtain wc' ph' where p: "request_step e m (shared_cache s) ph = Inr (wc', ph')" "sound_cache m texts wc'"
        "leads_to texts e ph' r" "rank ph' \<le> rank ph - 1" using request_step_ok [OF m c r(1)] by blast
      let ?w' = "?w\<lparr>at_work := Some (e, ph')\<rparr>"
      have "worker_good texts (jobs i) ?w'" using w r(2) p(3) by (auto simp: worker_good_def)
      moreover have "worker_step m s i = Inr (s\<lparr>shared_cache := wc', worker_of := (worker_of s)(i := ?w')\<rparr>)"
        using Some x p(1) False by (cases ph) (simp_all add: worker_step_def Let_def)
      moreover have "rank ph \<noteq> 0" using False by (cases ph) auto
      then have "work_left ?w' \<le> work_left ?w - 1" using Some x p(4) by (simp add: work_left_def)
      ultimately show ?thesis using p(2) by (intro keep [where wc = wc' and w' = ?w'])
    qed
  qed
qed

lemma schedule_ok:
  assumes m: "m \<noteq> 0"
  shows "all_good m texts jobs s \<Longrightarrow> \<exists>s'. foldE (worker_step m) s sched = Inr s' \<and> all_good m texts jobs s' \<and>
    (\<forall>i. work_left (worker_of s' i) \<le> work_left (worker_of s i) - count_list sched i)"
proof (induction sched arbitrary: s)
  case Nil
  then show ?case by simp
next
  case (Cons k ks)
  obtain s1 where s1: "worker_step m s k = Inr s1" "all_good m texts jobs s1"
    "work_left (worker_of s1 k) \<le> work_left (worker_of s k) - 1" "\<forall>j. j \<noteq> k \<longrightarrow> worker_of s1 j = worker_of s j"
    using worker_step_ok [OF m Cons.prems, of k] by blast
  obtain s' where s': "foldE (worker_step m) s1 ks = Inr s'" "all_good m texts jobs s'"
    "\<forall>i. work_left (worker_of s' i) \<le> work_left (worker_of s1 i) - count_list ks i" using Cons.IH [OF s1(2)] by blast
  have "work_left (worker_of s' i) \<le> work_left (worker_of s i) - count_list (k # ks) i" for i
  proof (cases "i = k")
    case True
    then show ?thesis using s'(3) [rule_format, of k] s1(3) unfolding True count_list.simps by simp
  next
    case False
    then show ?thesis using s'(3) [rule_format, of i] s1(4) by simp
  qed
  then show ?case using s1(1) s'(1,2) by auto
qed

text \<open>A client's request for a text is such a request.\<close>

lemma text_answerable:
  assumes s: "serves e texts" and rq: "readable (from_client rq)" "arriving (from_client rq) = client_request_text host f"
    "url_ok host f" "writable (to_client rq)" and t: "texts (''./'' @ f) = Some t"
  shows "answerable texts (e, rq)"
proof -
  let ?f = "''./'' @ f"
  obtain rq1 where i: "request_init e rq = Inr (rq1, Some ?f)" "to_client rq1 = to_client rq"
    using request_init_get [OF rq(1-3)] by blast
  from readfile_text [OF s t, of "to_client rq1"] obtain d where
    d: "request_readfile e (to_client rq1) (file_data_init\<lparr>file_name := ?f\<rparr>) = Inr (to_client rq1, d, True)"
    "file_bytes d = Inr t" "file_size d = int (length t)" by auto
  obtain out where "request_sendfile (to_client rq1) d = Inr out"
    using request_sendfile_ok [of "to_client rq1", OF _ d(2,3)] rq(4) i(2) by auto
  then have "do_server_request_uncached e rq = Inr (request_destroy (rq1\<lparr>to_client := out\<rparr>))"
    using i(1) d(1) by (simp add: do_server_request_uncached_def)
  then show ?thesis using s i(1) t by (simp add: answerable_def)
qed

definition demo_jobs :: "nat \<Rightarrow> (env \<times> conn) list" where
  "demo_jobs i = (if i < 2 then [(demo_env ''./a.html'' ''hi!'', demo_conn ''a.html'')] else [])"

lemma demo_answerable: "answerable demo_texts (demo_env ''./a.html'' ''hi!'', demo_conn ''a.html'')"
proof -
  have "url_ok ''h'' ''a.html''" by (simp add: url_ok_def is_space_def newline_def NUL_def)
  moreover have "demo_texts (''./'' @ ''a.html'') = Some ''hi!''" by (simp add: demo_texts_def)
  ultimately show ?thesis by (rule text_answerable [OF demo_serves demo_conn_ok(1,2) _ demo_conn_ok(3)])
qed



end
