(* ===== verification/Call_Stacks.thy ===== *)
theory Call_Stacks
  imports Sched_Masks Thread_Properties
begin

text \<open>
  The saved contexts of threads_3/thread.c as typed stacks of calls: which function of the library
  can be waiting for which, and with what signal mask it goes on. The type is kept by every step of
  the process, so that no context ever continues in a function that did not make the call, and
  the code behind the last \<open>thread_yield\<close> of \<open>thread_exit\<close> is never reached.
\<close>

section \<open>The types of stacks\<close>

text \<open>Where signals may be unblocked: in user code, and in \<open>cv_wait\<close> before and after it sleeps.\<close>

definition unmasked :: "frame list \<Rightarrow> bool" where
  "unmasked fs \<longleftrightarrow> (case fs of [] \<Rightarrow> True | f # _ \<Rightarrow>
     (case f of Cv_sleep _ _ \<Rightarrow> True | Cv_acquire _ \<Rightarrow> True | _ \<Rightarrow> False))"

text \<open>Who calls \<open>thread_yield\<close>, and who calls \<open>thread_sleep\<close>.\<close>

definition calls_yield :: "frame list \<Rightarrow> bool" where
  "calls_yield fs \<longleftrightarrow> (case fs of [] \<Rightarrow> True | f # _ \<Rightarrow>
     (case f of Handler_return \<Rightarrow> True | Sleep_return _ \<Rightarrow> True | _ \<Rightarrow> False))"

definition calls_sleep :: "frame list \<Rightarrow> bool" where
  "calls_sleep fs \<longleftrightarrow> (case fs of [] \<Rightarrow> True | f # _ \<Rightarrow>
     (case f of Wait_return _ _ \<Rightarrow> True | Acquire_loop _ _ \<Rightarrow> True | Cv_acquire _ \<Rightarrow> True | _ \<Rightarrow> False))"

inductive call_stack :: "frame list \<Rightarrow> bool" where
  in_user_code: "call_stack []"
| not_started: "call_stack [At_stub fn parg]"
| to_be_killed: "call_stack [At_thread_exit]"
| in_yield: "call_stack fs \<Longrightarrow> calls_yield fs \<Longrightarrow> (prev \<longrightarrow> unmasked fs) \<Longrightarrow> call_stack (Yield_return prev t # fs)"
| in_sleep: "call_stack fs \<Longrightarrow> calls_sleep fs \<Longrightarrow> (prev \<longrightarrow> unmasked fs) \<Longrightarrow> call_stack (Sleep_return prev # fs)"
| in_wait: "call_stack [Wait_return prev t]"
| in_acquire: "call_stack [Acquire_loop prev l]"
| in_cv_wait: "call_stack [Cv_sleep cv l]"
| woken_in_cv_wait: "call_stack [Cv_acquire l]"
| in_handler: "call_stack fs \<Longrightarrow> unmasked fs \<Longrightarrow> call_stack (Handler_return # fs)"

inductive_cases call_stack_ConsE: "call_stack (f # fs)"

inductive_simps call_stack_frame:
  "call_stack (At_stub fn parg # fs)" "call_stack (At_thread_exit # fs)" "call_stack (Wait_return prev t # fs)"
  "call_stack (Acquire_loop prev l # fs)" "call_stack (Cv_sleep cv l # fs)" "call_stack (Cv_acquire l # fs)"
  "call_stack (Exit_yield # fs)" "call_stack (After_exit # fs)" "call_stack (Yield_return prev t # fs)"
  "call_stack (Sleep_return prev # fs)" "call_stack (Handler_return # fs)"

declare call_stack_frame [simp] call_stack.in_user_code [simp]

lemma caller_simps [simp]:
  "unmasked []" "unmasked [Cv_acquire l]" "unmasked [Cv_sleep cv l]" "calls_yield []" "calls_sleep []"
  "calls_yield (Handler_return # fs)" "calls_yield (Sleep_return b # fs)" "calls_sleep (Wait_return b t # fs)"
  "calls_sleep (Acquire_loop b l # fs)" "calls_sleep (Cv_acquire l # fs)" "\<not> unmasked (Sleep_return b # fs)"
  "\<not> unmasked (Handler_return # fs)" "\<not> unmasked (Wait_return b t # fs)" "\<not> unmasked (Acquire_loop b l # fs)"
  by (simp_all add: unmasked_def calls_yield_def calls_sleep_def)

text \<open>A thread that does not run is inside \<open>thread_yield\<close> or has not started.\<close>

definition suspended :: "frame list \<Rightarrow> bool" where
  "suspended fs \<longleftrightarrow> (case fs of [] \<Rightarrow> False | f # _ \<Rightarrow>
     (case f of Yield_return _ _ \<Rightarrow> True | At_stub _ _ \<Rightarrow> True | _ \<Rightarrow> False))"

lemma suspended_simps [simp]: "suspended (Yield_return b t # fs)" "suspended (At_stub fn parg # fs)"
  by (simp_all add: suspended_def)

definition live :: "sys \<Rightarrow> int \<Rightarrow> bool" where
  "live s t \<longleftrightarrow> state_of s t \<noteq> NOT_INITIALIZED \<and> state_of s t \<noteq> EXITED"

definition others_typed :: "sys \<Rightarrow> bool" where
  "others_typed s \<longleftrightarrow> (\<forall>t. t \<noteq> running_thread_id s \<longrightarrow> live s t \<longrightarrow>
     call_stack (frames_of s t) \<and> suspended (frames_of s t))"

definition runs_typed :: "sys \<Rightarrow> bool" where
  "runs_typed s \<longleftrightarrow> (live s (running_thread_id s) \<longrightarrow>
     call_stack (frames_of s (running_thread_id s)) \<and> (interrupts s \<longrightarrow> unmasked (frames_of s (running_thread_id s))))"

definition well_typed :: "sys \<Rightarrow> bool" where
  "well_typed s \<longleftrightarrow> others_typed s \<and> runs_typed s"

lemma live_upd [sys_simps]:
  "live (s\<lparr>interrupts := b\<rparr>) = live s" "live (push_frame f s) = live s" "live (pop_frame s) = live s"
  "live (leave b v s) = live s" "live (s\<lparr>thread_queue := q\<rparr>) = live s" "live (s\<lparr>locks := hl\<rparr>) = live s"
  "live (s\<lparr>cvs := hw\<rparr>) = live s" "live (s\<lparr>wait_queues := hw\<rparr>) = live s" "live (s\<lparr>result_ptr := p\<rparr>) = live s"
  by (simp_all add: live_def fun_eq_iff sys_simps)

lemma others_typed_upd [sys_simps]:
  "others_typed (s\<lparr>interrupts := b\<rparr>) = others_typed s" "others_typed (push_frame f s) = others_typed s"
  "others_typed (pop_frame s) = others_typed s" "others_typed (leave b v s) = others_typed s"
  "others_typed (s\<lparr>thread_queue := q\<rparr>) = others_typed s" "others_typed (s\<lparr>locks := hl\<rparr>) = others_typed s"
  "others_typed (s\<lparr>cvs := hw\<rparr>) = others_typed s" "others_typed (s\<lparr>wait_queues := hw\<rparr>) = others_typed s"
  "others_typed (s\<lparr>result_ptr := p\<rparr>) = others_typed s"
  by (auto simp: others_typed_def sys_simps)

lemma user_code_typed: "frames_of s (running_thread_id s) = [] \<Longrightarrow> others_typed s \<Longrightarrow> well_typed s"
  by (simp add: well_typed_def runs_typed_def)

section \<open>Switching\<close>

lemma frames_set_state [sys_simps]:
  "frames_of (upd_thread u (\<lambda>th. th\<lparr>ucontext := fs th, context_mask := b\<rparr>) s) = (frames_of s)(u := fs (thread_array s u))"
  "frames_of (upd_thread u (\<lambda>th. th\<lparr>ucontext := gs\<rparr>) s) = (frames_of s)(u := gs)"
  "context_mask (thread_array (set_state u st s) t) = context_mask (thread_array s t)"
  "context_mask (thread_array (upd_thread u (\<lambda>th. th\<lparr>ucontext := gs\<rparr>) s) t) = context_mask (thread_array s t)"
  by (auto simp: frames_of_def upd_thread_def set_state_def)

lemma switch_to_typed_frames:
  assumes "switch_to prev cur new s = Inr s'"
  shows "frames_of s' = (let fs = (frames_of s)(cur := Yield_return prev new # frames_of s cur)
      in if state_of s new = KILLED then fs(new := [At_thread_exit]) else fs)"
    and "interrupts s' = (if new = cur then False else context_mask (thread_array s new))"
proof -
  define s0 where "s0 = s\<lparr>running_thread_id := new\<rparr>"
  define s1 where "s1 = upd_thread cur
    (\<lambda>th. th\<lparr>ucontext := Yield_return prev new # ucontext th, context_mask := interrupts s0\<rparr>) s0"
  define s2 where "s2 = (if state_of s1 new = KILLED
    then upd_thread new (\<lambda>th. th\<lparr>ucontext := [At_thread_exit]\<rparr>) s1 else s1)"
  define s3 where "s3 = set_state new RUNNING (set_state cur
    (if state_of s2 cur = EXITED \<or> state_of s2 cur = SLEEPING then state_of s2 cur else READY) s2)"
  have s': "s' = s3\<lparr>interrupts := context_mask (thread_array s3 new)\<rparr>"
    using assms unfolding switch_to_def Let_def s3_def s2_def s1_def s0_def
    by (elim bindE_eq_Inr [THEN iffD1, elim_format] exE conjE) (simp only: sum.inject)
  have off: "\<not> interrupts s"
    using assms by (cases "interrupts s"; cases "0 \<le> new") (simp_all add: switch_to_def interrupts_enabled_def sys_simps)
  have st: "state_of s1 new = state_of s new" by (simp add: s1_def s0_def sys_simps)
  show "frames_of s' = (let fs = (frames_of s)(cur := Yield_return prev new # frames_of s cur)
      in if state_of s new = KILLED then fs(new := [At_thread_exit]) else fs)"
    by (simp add: s' s3_def s2_def st s1_def s0_def sys_simps Let_def) (simp add: frames_of_def)
  have "context_mask (thread_array s3 new) = context_mask (thread_array s1 new)"
    by (simp add: s3_def s2_def sys_simps)
  then show "interrupts s' = (if new = cur then False else context_mask (thread_array s new))"
    using off by (simp add: s' s1_def s0_def sys_simps)
qed

lemma switch_to_contexts:
  assumes "switch_to prev cur new s = Inr s'" and "new \<noteq> cur"
  shows "frames_of s' = (frames_of s)(cur := Yield_return prev new # frames_of s cur,
      new := if state_of s new = KILLED then [At_thread_exit] else frames_of s new)"
    and "interrupts s' = context_mask (thread_array s new)"
  using switch_to_typed_frames [OF assms(1)] assms(2) by (auto simp: Let_def)

lemma switch_to_self:
  assumes "switch_to prev cur cur s = Inr s'" and "state_of s cur \<noteq> KILLED"
  shows "frames_of s' = (frames_of s)(cur := Yield_return prev cur # frames_of s cur)" and "\<not> interrupts s'"
  using switch_to_typed_frames [OF assms(1)] assms(2) by (simp_all add: Let_def)

text \<open>A switch away from \<open>r\<close>, whose stack has its type with the call of \<open>thread_yield\<close> on top.\<close>

lemma switch_typed:
  assumes sw: "switch_to prev r n s = Inr s'" and r: "r = running_thread_id s" "n \<noteq> r" "state_of s r \<noteq> NOT_INITIALIZED"
    and o: "others_typed s" and m: "masks_ok s" and n: "live s n"
    and t: "live s r \<Longrightarrow> call_stack (Yield_return prev n # frames_of s r)"
  shows "well_typed s'"
proof -
  note e = switch_to_effect(1,3) [OF sw] and f = switch_to_contexts [OF sw r(2)]
  have st: "live s' u \<longleftrightarrow> u = n \<or> live s u" for u
    using n r(2,3) by (auto simp: live_def e(2))
  have "call_stack (frames_of s n)" using o n r by (simp add: others_typed_def)
  then have "runs_typed s'" using m r by (simp add: runs_typed_def e(1) f masks_ok_def)
  moreover have "others_typed s'" using o t r by (auto simp: others_typed_def e(1) f(1) st)
  ultimately show ?thesis by (simp add: well_typed_def)
qed

lemma yield_typed:
  assumes a: "active s" and y: "thread_yield want s = Inr s'" and w: "well_typed s" and m: "masks_ok s"
    and c: "calls_yield (frames_of s (running_thread_id s))"
  shows "well_typed s'"
proof -
  let ?r = "running_thread_id s"
  have l: "live s ?r" using activeD(3) [OF a] by (simp add: live_def)
  have o: "others_typed s" and t: "call_stack (frames_of s ?r)" "interrupts s \<longrightarrow> unmasked (frames_of s ?r)"
    using w l by (simp_all add: well_typed_def runs_typed_def)
  show ?thesis
    using a y
  proof (cases rule: yield_cases)
    case (stay v)
    then show ?thesis using w by (simp add: well_typed_def runs_typed_def sys_simps)
  next
    case (switch n)
    let ?s = "s\<lparr>interrupts := False, thread_queue := remove1 n (thread_queue s @ [?r])\<rparr>"
    have st: "call_stack (Yield_return (interrupts s) n # frames_of s ?r)" using t c by simp
    show ?thesis
    proof (cases "n = ?r")
      case True
      have sw: "switch_to (interrupts s) ?r ?r ?s = Inr s'" using switch(4) True by simp
      have "state_of ?s ?r \<noteq> KILLED" using activeD(3) [OF a] by (simp add: sys_simps)
      note f = switch_to_self [OF sw this] and e = switch_to_effect(1,3) [OF sw]
      have "live s' u \<longleftrightarrow> live s u" for u using activeD(3) [OF a] by (auto simp: live_def e(2) sys_simps)
      then show ?thesis using o st True
        by (simp add: well_typed_def others_typed_def runs_typed_def e(1) f sys_simps)
    next
      case False
      then have "n \<in> set (thread_queue s)" using switch(1) by simp
      then have "live s n" using core_queued [OF activeD(1) [OF a], of n] by (auto simp: live_def)
      then show ?thesis using o m st False activeD(3) [OF a]
        by (intro switch_typed [OF switch(4)]) (simp_all add: sys_simps)
    qed
  qed
qed

lemma yield_exited_typed:
  assumes c: "sched_core s" "state_of s (running_thread_id s) = EXITED" "thread_queue s = t # q"
    and y: "thread_yield THREAD_ANY s = Inr s'" and o: "others_typed s" and m: "masks_ok s"
  shows "well_typed s'"
proof -
  have core: "core_inv (running_thread_id s) (t # q) (state_of s) (sleepers s)"
    using c(1,3) by (simp add: sched_core_def)
  have t: "t \<noteq> running_thread_id s" "live s t" using core_queued [OF core, of t] by (auto simp: live_def)
  have sw: "switch_to (interrupts s) (running_thread_id s) t (s\<lparr>interrupts := False, thread_queue := q\<rparr>) = Inr s'"
    using y yield_any_leave [of s t q] c(2,3) t(1) by simp
  show ?thesis using t o m c(2) by (intro switch_typed [OF sw]) (simp_all add: sys_simps live_def)
qed

lemma sleep_typed:
  assumes a: "active s" and k: "thread_sleep x s = Inr s'" and w: "well_typed s" and m: "masks_ok s"
    and c: "calls_sleep (frames_of s (running_thread_id s))"
  shows "well_typed s'"
  using k a
proof (cases rule: thread_sleep_cases)
  case (switch t q s1)
  let ?r = "running_thread_id s"
  let ?s = "(push_frame (Sleep_return (interrupts s)) (set_state ?r SLEEPING s1))\<lparr>interrupts := False, thread_queue := q\<rparr>"
  note e = put_wq_effect [OF switch(3)]
  have l: "live s ?r" using activeD(3) [OF a] by (simp add: live_def)
  have o: "others_typed s" and ty: "call_stack (frames_of s ?r)" "interrupts s \<longrightarrow> unmasked (frames_of s ?r)"
    using w l by (simp_all add: well_typed_def runs_typed_def)
  have t: "t \<noteq> ?r" "live s t" using core_queued [OF activeD(1) [OF a], of t] switch(2) by (auto simp: live_def)
  have "masks_ok s1" using put_wq_quiet [OF switch(3)] m by (simp add: quiet_def sys_simps)
  then have mo: "masks_ok ?s" by (simp add: sys_simps)
  have r: "running_thread_id s1 = ?r" using e(4) by simp
  have "others_typed ?s" using o by (auto simp: others_typed_def live_def sys_simps e(2,4,7))
  moreover have "live ?s t" using t by (simp add: live_def sys_simps e(2))
  moreover have "call_stack (Yield_return False t # frames_of ?s ?r)"
    using ty c by (simp add: sys_simps e(7) r)
  ultimately show ?thesis using mo t(1) r
    by (intro switch_typed [OF switch(4)]) (simp_all add: sys_simps)
qed (use w in \<open>auto simp: well_typed_def runs_typed_def sys_simps\<close>)

lemma pushed_sleep_typed:
  assumes a: "active s" and k: "thread_sleep x (push_frame f s) = Inr s'" and o: "others_typed s" and m: "masks_ok s"
    and t: "call_stack (f # frames_of s (running_thread_id s))" "calls_sleep (f # frames_of s (running_thread_id s))"
    and i: "interrupts s \<longrightarrow> unmasked (f # frames_of s (running_thread_id s))"
  shows "well_typed s'"
proof (rule sleep_typed [OF _ k])
  show "active (push_frame f s)" "masks_ok (push_frame f s)" using a m by (simp_all add: sys_simps)
  show "well_typed (push_frame f s)" using o t(1) i by (simp add: well_typed_def runs_typed_def sys_simps)
  show "calls_sleep (frames_of (push_frame f s) (running_thread_id (push_frame f s)))" using t(2) by (simp add: sys_simps)
qed

section \<open>Calls that do not switch\<close>

definition leaves_others :: "sys \<Rightarrow> sys \<Rightarrow> bool" where
  "leaves_others s s' \<longleftrightarrow> running_thread_id s' = running_thread_id s \<and>
     (\<forall>t. t \<noteq> running_thread_id s \<longrightarrow> live s' t \<longrightarrow>
        (live s t \<and> frames_of s' t = frames_of s t) \<or> (\<exists>fn parg. frames_of s' t = [At_stub fn parg]))"

definition leaves_stacks :: "sys \<Rightarrow> sys \<Rightarrow> bool" where
  "leaves_stacks s s' \<longleftrightarrow> leaves_others s s' \<and> frames_of s' (running_thread_id s) = frames_of s (running_thread_id s)"

lemma leaves_others_typed: "leaves_others s s' \<Longrightarrow> others_typed s \<Longrightarrow> others_typed s'"
  by (auto simp: leaves_others_def others_typed_def)

lemma leaves_stacks_typed:
  "leaves_stacks s s' \<Longrightarrow> others_typed s \<Longrightarrow> frames_of s (running_thread_id s) = [] \<Longrightarrow> well_typed s'"
  by (intro user_code_typed leaves_others_typed [of s s']) (auto simp: leaves_stacks_def leaves_others_def)

lemma same_stacks:
  "running_thread_id s' = running_thread_id s \<Longrightarrow> frames_of s' = frames_of s \<Longrightarrow> (\<And>t. live s' t \<Longrightarrow> live s t) \<Longrightarrow>
   leaves_stacks s s'"
  by (simp add: leaves_stacks_def leaves_others_def)

lemma leaves_stacks_refl [simp]: "leaves_stacks s s"
  by (rule same_stacks) simp_all

lemma leaves_stacks_trans: "leaves_stacks s s' \<Longrightarrow> leaves_stacks s' s'' \<Longrightarrow> leaves_stacks s s''"
  unfolding leaves_stacks_def leaves_others_def by metis

lemma leaves_stacks_upd [sys_simps]:
  "leaves_stacks s (leave b v s') = leaves_stacks s s'" "leaves_stacks s (s'\<lparr>interrupts := b\<rparr>) = leaves_stacks s s'"
  "leaves_stacks (s\<lparr>interrupts := b\<rparr>) s' = leaves_stacks s s'" "leaves_stacks s (s'\<lparr>locks := hl\<rparr>) = leaves_stacks s s'"
  "leaves_stacks s (s'\<lparr>cvs := hw\<rparr>) = leaves_stacks s s'" "leaves_stacks s (s'\<lparr>wait_queues := hw\<rparr>) = leaves_stacks s s'"
  "leaves_stacks s (s'\<lparr>result_ptr := p\<rparr>) = leaves_stacks s s'" "leaves_stacks (s\<lparr>locks := hl\<rparr>) s' = leaves_stacks s s'"
  by (simp_all add: leaves_stacks_def leaves_others_def sys_simps)

lemma cleanup_leaves: "thread_exit_cleanup s = Inr s' \<Longrightarrow> leaves_stacks s s'"
  using thread_exit_cleanup_effect(2,6,11) [of s s'] by (intro same_stacks) (auto simp: live_def split: if_splits)

lemma wakeup_leaves: "thread_wakeup x all s = Inr s' \<Longrightarrow> leaves_stacks s s'"
  using thread_wakeup_effect(3,5,8) [of x all s s']
  by (intro same_stacks) (auto simp: live_def wake_states_def split: if_splits)

lemma put_wq_leaves: "put_wq s x (Wq ts) = Inr s' \<Longrightarrow> leaves_stacks s s'"
  using put_wq_effect(2,4,7) [of s x ts s'] by (intro same_stacks) (simp_all add: live_def)

lemma kill_leaves:
  assumes a: "active s" and k: "thread_kill tid s = Inr s'"
  shows "leaves_stacks s s'"
proof -
  obtain s1 where c: "thread_exit_cleanup (s\<lparr>interrupts := False\<rparr>) = Inr s1"
    and s': "s' = leave (interrupts s) THREAD_INVALID s1 \<or>
      (valid_tid tid \<and> state_of s1 tid \<noteq> NOT_INITIALIZED \<and> s' = leave (interrupts s) tid (set_state tid KILLED s1))"
    using k by (auto simp: thread_kill_def set_simps result_simps Let_def valid_tid_def split: if_splits)
  have "active (s\<lparr>interrupts := False\<rparr>)" using a by (simp add: sys_simps)
  note c2 = cleanup_active(2) [OF this c, of tid]
  have "leaves_stacks s1 (set_state tid KILLED s1)" if "valid_tid tid" "state_of s1 tid \<noteq> NOT_INITIALIZED"
    using c2 [OF that(1)] that(2) by (intro same_stacks) (auto simp: live_def sys_simps split: if_splits)
  then show ?thesis using s' cleanup_leaves [OF c] by (auto simp: sys_simps intro: leaves_stacks_trans)
qed

lemma create_leaves:
  assumes a: "active s" and k: "thread_create fn parg s = Inr s'"
  shows "leaves_stacks s s'"
  using k
proof (cases rule: thread_create_cases)
  case (full s1)
  then show ?thesis using cleanup_leaves [OF full(1)] by (simp add: sys_simps)
next
  case (no_memory s1 i s2)
  then have "leaves_stacks s1 s2" by (intro same_stacks) (simp_all add: same_view_def live_def)
  then show ?thesis using cleanup_leaves [OF no_memory(1)] no_memory(7) by (auto simp: sys_simps intro: leaves_stacks_trans)
next
  case (ok s1 i s2)
  have "active (s\<lparr>interrupts := False\<rparr>)" using a by (simp add: sys_simps)
  note a1 = cleanup_active(1) [OF this ok(1)]
  have "i \<noteq> running_thread_id s1" using activeD(3) [OF a1] ok(2) by (auto simp: find_slot_Some)
  then have "leaves_stacks s1 s2"
    unfolding leaves_stacks_def leaves_others_def using ok(4,6,10) by (auto simp: live_def)
  then show ?thesis using cleanup_leaves [OF ok(1)] ok(12) by (auto simp: sys_simps intro: leaves_stacks_trans)
qed

lemma release_leaves: "lock_release p s = Inr s' \<Longrightarrow> leaves_stacks s s'"
  by (auto simp: lock_release_def interrupts_set_def result_simps sys_simps dest!: wakeup_leaves)

lemma quiet_call_leaves:
  "wait_queue_create s = Inr s' \<Longrightarrow> leaves_stacks s s'" "wait_queue_destroy p s = Inr s' \<Longrightarrow> leaves_stacks s s'"
  "lock_create s = Inr s' \<Longrightarrow> leaves_stacks s s'" "lock_destroy p s = Inr s' \<Longrightarrow> leaves_stacks s s'"
  "cv_create s = Inr s' \<Longrightarrow> leaves_stacks s s'" "cv_destroy p s = Inr s' \<Longrightarrow> leaves_stacks s s'"
  "cv_signal p l s = Inr s' \<Longrightarrow> leaves_stacks s s'" "cv_broadcast p l s = Inr s' \<Longrightarrow> leaves_stacks s s'"
  by (auto simp: wait_queue_create_def wait_queue_destroy_def lock_create_def lock_destroy_def cv_create_def
      cv_destroy_def cv_signal_def cv_broadcast_def interrupts_set_def result_simps sys_simps Let_def
      split: prod.splits if_splits dest!: wakeup_leaves put_wq_leaves)

lemmas call_leaves = wakeup_leaves kill_leaves create_leaves release_leaves quiet_call_leaves

section \<open>Calls from user code\<close>

lemma exit_typed:
  assumes k: "thread_exit s = Inr s'" and o: "others_typed s"
  shows "well_typed s'"
proof -
  let ?r = "running_thread_id s"
  obtain s1 s3 where c: "thread_exit_cleanup (s\<lparr>interrupts := False\<rparr>) = Inr s1"
    and w: "thread_wakeup (WQ_thread ?r) 1 ((set_state ?r EXITED s1)\<lparr>thread_exit_cleanup_needs_to_run := True\<rparr>) = Inr s3"
    and s': "s' = push_frame Exit_yield (s3\<lparr>interrupts := interrupts s\<rparr>)"
    using k by (auto simp: thread_exit_def set_simps result_simps Let_def split: if_splits)
  have r: "running_thread_id s1 = ?r" using thread_exit_cleanup_effect(2) [OF c] by simp
  have "leaves_stacks s s1" using cleanup_leaves [OF c] by (simp add: sys_simps)
  then have "others_typed s1" using leaves_others_typed [of s s1] o by (simp add: leaves_stacks_def)
  then have "others_typed s3" using r thread_wakeup_effect(3,5,8) [OF w]
    by (auto simp: others_typed_def live_def sys_simps wake_states_def split: if_splits)
  moreover have "\<not> live s3 ?r" "running_thread_id s3 = ?r"
    using thread_wakeup_effect(3,5) [OF w] r by (simp_all add: live_def sys_simps wake_states_def)
  ultimately show ?thesis by (simp add: s' well_typed_def runs_typed_def sys_simps)
qed

lemma acquire_typed:
  assumes a: "active s" and k: "acquire_loop prev p s = Inr s'" and f: "frames_of s (running_thread_id s) = []"
    and i: "\<not> interrupts s" and o: "others_typed s" and m: "masks_ok s"
  shows "well_typed s'"
proof -
  obtain l where l: "load (locks s) p = Inr l" using k by (auto simp: acquire_loop_def result_simps)
  show ?thesis
  proof (cases "acquired l")
    case True
    then have "thread_sleep (WQ_lock p) (push_frame (Acquire_loop prev p) s) = Inr s'"
      using k l by (simp add: acquire_loop_def)
    from pushed_sleep_typed [OF a this o m] show ?thesis using f i by simp
  next
    case False
    then have "leaves_stacks s s'" using k l by (auto simp: acquire_loop_def result_simps sys_simps)
    then show ?thesis using o f by (rule leaves_stacks_typed)
  qed
qed

lemma api_call_typed:
  assumes a: "active s" and k: "api_call c s = Inr s'" and f: "frames_of s (running_thread_id s) = []"
    and o: "others_typed s" and m: "masks_ok s"
  shows "well_typed s'"
proof -
  have w: "well_typed s" using f o by (rule user_code_typed)
  have calm: "leaves_stacks s s' \<Longrightarrow> well_typed s'" using o f by (blast intro: leaves_stacks_typed)
  show ?thesis
  proof (cases c)
    case (Api_yield t)
    then show ?thesis using yield_typed [OF a _ w m] k f by simp
  next
    case Api_exit
    then show ?thesis using exit_typed k o by simp
  next
    case (Api_sleep x)
    then show ?thesis using sleep_typed [OF a _ w m] k f by simp
  next
    case (Api_wait t)
    let ?s = "s\<lparr>interrupts := False\<rparr>"
    have "leaves_stacks s s' \<or> thread_sleep (WQ_thread t) (push_frame (Wait_return (interrupts s) t) ?s) = Inr s'"
      using k Api_wait by (auto simp: thread_wait_def interrupts_set_def sys_simps split: if_splits)
    then show ?thesis
    proof
      assume k': "thread_sleep (WQ_thread t) (push_frame (Wait_return (interrupts s) t) ?s) = Inr s'"
      show ?thesis by (rule pushed_sleep_typed [OF _ k']) (use a o m f in \<open>simp_all add: sys_simps\<close>)
    qed (rule calm)
  next
    case (Api_acquire p)
    then have "acquire_loop (interrupts s) p (s\<lparr>interrupts := False\<rparr>) = Inr s'"
      using k by (auto simp: lock_acquire_def interrupts_set_def result_simps)
    from acquire_typed [OF _ this] show ?thesis using a o m f by (simp add: sys_simps)
  next
    case (Api_cv_wait cv l)
    then obtain s1 where s1: "lock_release l s = Inr s1" "s' = push_frame (Cv_sleep cv l) s1"
      using k by (auto simp: cv_wait_def result_simps)
    have "leaves_stacks s s1" using release_leaves [OF s1(1)] .
    then have "others_typed s1" "frames_of s1 (running_thread_id s1) = []"
      using leaves_others_typed [of s s1] o f by (auto simp: leaves_stacks_def leaves_others_def)
    then show ?thesis by (simp add: s1(2) well_typed_def runs_typed_def sys_simps)
  next
    case (Api_interrupts b)
    then have "s' = s\<lparr>interrupts := b\<rparr>" using k by (simp add: interrupts_set_def)
    then have "leaves_stacks s s'" by (simp add: sys_simps)
    then show ?thesis by (rule calm)
  qed (use k a in \<open>auto intro!: calm dest: call_leaves\<close>)
qed

section \<open>Every step keeps the types\<close>

lemma resume_typed:
  assumes a: "active s" and f: "frames_of s (running_thread_id s) = f # fs" and k: "resume f (pop_frame s) = Inr s'"
    and w: "well_typed s" and m: "masks_ok s" and i: "interrupts s \<longrightarrow> unmasked (f # fs)"
  shows "well_typed s'"
proof -
  let ?s = "pop_frame s"
  have l: "live s (running_thread_id s)" using activeD(3) [OF a] by (simp add: live_def)
  have o: "others_typed ?s" and t: "call_stack (f # fs)"
    using w l f by (simp_all add: well_typed_def runs_typed_def sys_simps)
  have a': "active ?s" and m': "masks_ok ?s" and r: "running_thread_id ?s = running_thread_id s"
    and fs: "frames_of ?s (running_thread_id s) = fs" using a m f by (simp_all add: sys_simps)
  have base: "well_typed (?s\<lparr>interrupts := b\<rparr>)" "well_typed (leave b v ?s)" if "call_stack fs" "b \<longrightarrow> unmasked fs" for b v
    using o that fs r by (simp_all add: well_typed_def runs_typed_def sys_simps)
  show ?thesis
  proof (cases f)
    case (At_stub fn parg)
    then show ?thesis using t k base(1) [of True]
      by (simp add: resume_def thread_stub_def interrupts_on_def interrupts_set_def)
  next
    case At_thread_exit
    then show ?thesis using k exit_typed [OF _ o] by (simp add: resume_def)
  next
    case (Acquire_loop prev p)
    then have k': "\<not> interrupts ?s" "fs = []" "acquire_loop prev p ?s = Inr s'" using t i k by (simp_all add: resume_def sys_simps)
    show ?thesis by (rule acquire_typed [OF a' k'(3)]) (use k'(1,2) o m' fs r in simp_all)
  next
    case (Cv_sleep cv p)
    then have k': "fs = []" "thread_sleep (WQ_cv cv) (push_frame (Cv_acquire p) ?s) = Inr s'"
      using t k by (simp_all add: resume_def)
    show ?thesis by (rule pushed_sleep_typed [OF a' k'(2) o m']) (use fs r k'(1) in simp_all)
  next
    case (Cv_acquire p)
    then have k': "fs = []" "acquire_loop (interrupts s) p (?s\<lparr>interrupts := False\<rparr>) = Inr s'"
      using t k by (auto simp: resume_def lock_acquire_def interrupts_set_def result_simps sys_simps)
    have "frames_of ?s (running_thread_id ?s) = []" using fs r k'(1) by simp
    then show ?thesis by (intro acquire_typed [OF _ k'(2)]) (use a' o m' in \<open>simp_all add: sys_simps\<close>)
  qed (use t k base in \<open>auto simp: resume_def\<close>)
qed

lemma step_typed:
  assumes "sys_step s s'" and i: "sched_inv s" and w: "well_typed s" and m: "masks_ok s"
  shows "well_typed s'"
proof -
  consider (call) c where "frames_of s (running_thread_id s) = []" "api_call c s = Inr s'"
    | (continue) f fs where "frames_of s (running_thread_id s) = f # fs" "resume f (pop_frame s) = Inr s'"
    | (tick) "interrupts s" "interrupt_handler s = Inr s'"
    using assms(1) by (rule sys_step_cases) blast+
  then show ?thesis
  proof cases
    case (call c)
    from i show ?thesis
    proof (cases rule: sched_inv_cases)
      case active
      then show ?thesis using api_call_typed call w m by (simp add: well_typed_def)
    qed (use call in simp)
  next
    case (continue f fs)
    from i show ?thesis
    proof (cases rule: sched_inv_cases)
      case active
      then have "live s (running_thread_id s)" using activeD(3) by (simp add: live_def)
      then have "interrupts s \<longrightarrow> unmasked (f # fs)" using w continue(1) by (simp add: well_typed_def runs_typed_def)
      then show ?thesis using resume_typed [OF active continue w m] by simp
    next
      case (exiting t q fs')
      then have "f = Exit_yield" using continue(1) by simp
      then show ?thesis using exiting i w m continue(2)
        by (intro yield_exited_typed [of "push_frame After_exit (pop_frame s)" t q])
          (simp_all add: resume_def sys_simps sched_inv_def well_typed_def)
    qed
  next
    case tick
    let ?s = "push_frame Handler_return (s\<lparr>interrupts := False\<rparr>)"
    have y: "thread_yield THREAD_ANY ?s = Inr s'"
      using tick by (simp add: interrupt_handler_def interrupts_enabled_def)
    from i show ?thesis
    proof (cases rule: sched_inv_cases)
      case active
      then have "live s (running_thread_id s)" using activeD(3) by (simp add: live_def)
      then have "well_typed ?s" using w tick(1) by (auto simp: well_typed_def runs_typed_def sys_simps)
      then show ?thesis using active m by (intro yield_typed [OF _ y]) (simp_all add: sys_simps)
    next
      case (exiting t q fs)
      then show ?thesis using i w m
        by (intro yield_exited_typed [OF _ _ _ y, of t q]) (simp_all add: sys_simps sched_inv_def well_typed_def)
    qed
  qed
qed

lemma boot_typed: "well_typed (boot ps pw pl pc b)"
  by (simp add: well_typed_def others_typed_def runs_typed_def live_def boot_effect)

text \<open>
  Property C22. In every state the process can reach, the saved context of every live thread is a
  well-typed stack of calls: every unfinished call is on top of a function that makes this call,
  and goes on with signals blocked wherever the function below needs it. A thread that does not
  run is inside \<open>thread_yield\<close> or has not started; while signals are unblocked the running
  thread is in user code or in \<open>cv_wait\<close>; and \<open>thread_exit\<close> never gets past its last
  \<open>thread_yield\<close>, to the \<open>assert(false)\<close> behind it.
\<close>
theorem contexts_are_typed:
  assumes "good_malloc ps pw pl pc" and "reachable (boot ps pw pl pc b) s"
  shows "(\<forall>t. live s t \<longrightarrow> call_stack (frames_of s t) \<and> (t \<noteq> running_thread_id s \<longrightarrow> suspended (frames_of s t))) \<and>
    (interrupts s \<and> live s (running_thread_id s) \<longrightarrow> unmasked (frames_of s (running_thread_id s))) \<and>
    (\<forall>fs. frames_of s (running_thread_id s) \<noteq> After_exit # fs)"
proof -
  have w: "well_typed s"
    using assms(2)
  proof (induction rule: reachable.induct)
    case (step s s')
    then show ?case
      using step_typed reachable_boot_inv [OF assms(1) step(1)] reachable_masks(1) [OF assms(1) step(1)] by blast
  qed (rule boot_typed)
  have "\<forall>t. live s t \<longrightarrow> call_stack (frames_of s t) \<and> (t \<noteq> running_thread_id s \<longrightarrow> suspended (frames_of s t))"
    using w unfolding well_typed_def others_typed_def runs_typed_def by metis
  moreover have "interrupts s \<and> live s (running_thread_id s) \<longrightarrow> unmasked (frames_of s (running_thread_id s))"
    using w unfolding well_typed_def runs_typed_def by blast
  moreover have "frames_of s (running_thread_id s) \<noteq> After_exit # fs" for fs
    using reachable_boot_inv [OF assms]
  proof (cases rule: sched_inv_cases)
    case active
    then have "call_stack (frames_of s (running_thread_id s))"
      using w activeD(3) [OF active] by (simp add: well_typed_def runs_typed_def live_def)
    then show ?thesis by auto
  qed simp
  ultimately show ?thesis by blast
qed

theorem contexts_are_typed_witness:
  "\<exists>s. reachable demo_boot s \<and> state_of s 1 = SLEEPING \<and> call_stack (frames_of s 1) \<and>
    frames_of s (running_thread_id s) \<noteq> [After_exit]"
proof (rule demo_wait)
  fix s assume r: "reachable demo_boot s" "state_of s = (\<lambda>_. NOT_INITIALIZED)(0 := RUNNING, 1 := SLEEPING)"
  from contexts_are_typed [OF demo_malloc demo_reachable [OF r(1)]] r
  show ?thesis by (intro exI [of _ s]) (simp add: live_def)
qed

end
