(* ===== verification/Simple_Client.thy ===== *)
theory Simple_Client
  imports Web_Properties
begin

text \<open>
  The primitive client client_simple.c (the same file in both labs): it sends one request,
  prints the header lines of the response with a prefix and then the body, and compares the
  length of the body with the header. The standard output is a stream; \<open>printf\<close> and \<open>fflush\<close>
  write all their text, as their results are not looked at.
\<close>

section \<open>The program\<close>

definition stdio_text :: "string \<Rightarrow> out_stream \<Rightarrow> out_stream" where
  "stdio_text s out = out\<lparr>sent := sent out @ s\<rparr>"

text \<open>\<open>client_send\<close> is that of client.c. An overflow of the number of bytes, which is an
  \<open>int\<close>, is undefined. The header loop of \<open>client_print\<close>, with the text that
  it has printed.\<close>

partial_function (option) print_headers ::
  "rio \<Rightarrow> string option \<Rightarrow> int \<Rightarrow> int \<Rightarrow> string \<Rightarrow> (rio \<times> string option \<times> int \<times> string) result option" where
  "print_headers rp buf n len shown = (case buf of
      None \<Rightarrow> Some (Inl Undefined)
    | Some b \<Rightarrow>
        if c_text b \<noteq> CRLF \<and> n > 0 then
          (case Rio_readlineb rp buf MAXBUF of
             Inl e \<Rightarrow> Some (Inl e)
           | Inr r \<Rightarrow>
               let s = c_text (case fst (snd r) of None \<Rightarrow> [] | Some b' \<Rightarrow> b') in
               print_headers (snd (snd r)) (fst (snd r)) (fst r)
                 (case scan_tag ''Content-Length:'' s of None \<Rightarrow> len | Some i \<Rightarrow> i)
                 (shown @ ''Header: '' @ c_text b))
        else Some (Inr (rp, buf, len, shown)))"

partial_function (option) print_body ::
  "rio \<Rightarrow> string option \<Rightarrow> out_stream \<Rightarrow> int \<Rightarrow> (rio \<times> out_stream \<times> int) result option" where
  "print_body rp buf out received =
     (case Rio_readlineb rp buf MAXBUF of
        Inl e \<Rightarrow> Some (Inl e)
      | Inr r \<Rightarrow>
          (case Rio_write out (take (nat (fst r)) (case fst (snd r) of None \<Rightarrow> [] | Some b \<Rightarrow> b)) of
             Inl e \<Rightarrow> Some (Inl e)
           | Inr out' \<Rightarrow>
               if received + fst r > 2147483647 then Some (Inl Undefined)
               else if fst r > 0 then print_body (snd (snd r)) (fst (snd r)) out' (received + fst r)
               else Some (Inr (snd (snd r), out', received + fst r))))"

definition simple_print :: "in_stream \<Rightarrow> string \<Rightarrow> out_stream \<Rightarrow> out_stream result" where
  "simple_print fd stale_buf out =
     bindE (Rio_readlineb (rio_init fd stale_buf) None MAXBUF) (\<lambda>(n, buf, rp).
     bindE (loopE (print_headers rp buf n 0 [])) (\<lambda>(rp, buf, len, shown).
     bindE (loopE (print_body rp buf (stdio_text shown out) 0)) (\<lambda>(rp, out, received).
     bindE (assertE (len \<noteq> 0 \<longrightarrow> len = received)) (\<lambda>_. Inr out))))"

text \<open>
  The program, \<open>Inr\<close> with what it has printed when it ends with status 0. \<open>open_clientfd\<close> gives
  the stream to the server and what comes back for the bytes that are sent there; \<open>close_ok\<close>
  says whether \<open>close\<close> succeeds.
\<close>

definition simple_client ::
  "(string \<Rightarrow> int \<Rightarrow> (out_stream \<times> (string \<Rightarrow> in_stream)) result) \<Rightarrow> bool \<Rightarrow> string \<Rightarrow> out_stream \<Rightarrow>
   string list \<Rightarrow> out_stream result" where
  "simple_client open_clientfd close_ok stale_buf out argv =
     (if length argv \<noteq> 4 then Inl (Exit_with 1)
      else
        let host = argv ! 1; port = atoi (argv ! 2); filename = argv ! 3 in
        bindE (open_clientfd host port) (\<lambda>(up, answer).
        bindE (client_send up host filename) (\<lambda>up'.
        bindE (simple_print (answer (sent up')) stale_buf out) (\<lambda>out'.
        if close_ok then Inr out' else Inl (Exit_with 1)))))"

section \<open>The header\<close>

text \<open>A response with the header lines \<open>ls\<close>, and the length that the client takes from them: the
  last tag counts.\<close>

definition response_text :: "string list \<Rightarrow> string \<Rightarrow> string" where
  "response_text ls body = concat (map (\<lambda>l. l @ CRLF) ls) @ CRLF @ body"

definition header_line :: "string \<Rightarrow> bool" where
  "header_line l \<longleftrightarrow> plain_line l \<and> l \<noteq> []"

definition tagged_length :: "int \<Rightarrow> string list \<Rightarrow> int" where
  "tagged_length = foldl (\<lambda>n l. case scan_tag ''Content-Length:'' (l @ CRLF) of None \<Rightarrow> n | Some i \<Rightarrow> i)"

definition printed_header :: "string list \<Rightarrow> string" where
  "printed_header ls = concat (map (\<lambda>l. ''Header: '' @ l @ CRLF) ls)"

lemma response_text_simps [simp]:
  "response_text [] body = CRLF @ body"
  "response_text (l # ls) body = l @ CRLF @ response_text ls body"
  by (simp_all add: response_text_def)

lemma tagged_length_simps [simp]:
  "tagged_length n [] = n"
  "tagged_length n (l # ls) =
     tagged_length (case scan_tag ''Content-Length:'' (l @ CRLF) of None \<Rightarrow> n | Some i \<Rightarrow> i) ls"
  by (simp_all add: tagged_length_def)

lemma printed_header_simps [simp]:
  "printed_header [] = []"
  "printed_header (l # ls) = ''Header: '' @ l @ CRLF @ printed_header ls"
  by (simp_all add: printed_header_def)

lemma plain_empty: "plain_line []"
  by (simp add: plain_line_def MAXBUF_def)

lemma no_tag_in_CRLF: "scan_tag ''Content-Length:'' CRLF = None"
  by (simp add: scan_tag_def CRLF_def return_char_def)

lemma print_headers_step:
  assumes ok: "rio_ok rp" and u: "unread rp = l @ CRLF @ rest" and l: "plain_line l"
    and b: "c_text b \<noteq> CRLF" and n: "0 < n"
  shows "\<exists>rp'. print_headers rp (Some b) n len shown =
      print_headers rp' (Some (l @ CRLF @ [NUL])) (int (length l + 2))
        (case scan_tag ''Content-Length:'' (l @ CRLF) of None \<Rightarrow> len | Some i \<Rightarrow> i)
        (shown @ ''Header: '' @ c_text b) \<and>
    rio_ok rp' \<and> unread rp' = rest"
proof -
  obtain rp' where r: "Rio_readlineb rp (Some b) MAXBUF = Inr (int (length l + 2), Some (l @ CRLF @ [NUL]), rp')"
    "rio_ok rp'" "unread rp' = rest" using read_plain_line [OF ok u l] by blast
  have "print_headers rp (Some b) n len shown = print_headers rp' (Some (l @ CRLF @ [NUL])) (int (length l + 2))
        (case scan_tag ''Content-Length:'' (l @ CRLF) of None \<Rightarrow> len | Some i \<Rightarrow> i) (shown @ ''Header: '' @ c_text b)"
    using r(1) b n c_text_line [OF l] by (subst print_headers.simps) (simp add: Let_def del: append_assoc)
  then show ?thesis using r by blast
qed

lemma print_headers_end: "print_headers rp (Some (CRLF @ [NUL])) n len shown = Some (Inr (rp, Some (CRLF @ [NUL]), len, shown))"
  using c_text_line [OF plain_empty] by (subst print_headers.simps) simp

lemma print_headers_all:
  "rio_ok rp \<Longrightarrow> unread rp = response_text ls body \<Longrightarrow> \<forall>l\<in>set ls. header_line l \<Longrightarrow> header_line l \<Longrightarrow> 0 < n \<Longrightarrow>
   \<exists>rp'. print_headers rp (Some (l @ CRLF @ [NUL])) n len shown =
       Some (Inr (rp', Some (CRLF @ [NUL]), tagged_length len ls, shown @ printed_header (l # ls))) \<and>
     rio_ok rp' \<and> unread rp' = body"
proof (induction ls arbitrary: rp l n len shown)
  case Nil
  have b: "c_text (l @ CRLF @ [NUL]) = l @ CRLF" "c_text (l @ CRLF @ [NUL]) \<noteq> CRLF"
    using Nil.prems(4) c_text_line by (auto simp: header_line_def)
  have u: "unread rp = [] @ CRLF @ body" using Nil.prems(2) by simp
  from print_headers_step [OF Nil.prems(1) u plain_empty b(2) Nil.prems(5), of len shown]
  show ?case by (auto simp: print_headers_end no_tag_in_CRLF b(1))
next
  case (Cons l' ls)
  have b: "c_text (l @ CRLF @ [NUL]) = l @ CRLF" "c_text (l @ CRLF @ [NUL]) \<noteq> CRLF"
    using Cons.prems(4) c_text_line by (auto simp: header_line_def)
  have u: "unread rp = l' @ CRLF @ response_text ls body" using Cons.prems(2) by simp
  have h: "plain_line l'" "header_line l'" "\<forall>l\<in>set ls. header_line l" using Cons.prems(3) by (auto simp: header_line_def)
  let ?len = "case scan_tag ''Content-Length:'' (l' @ CRLF) of None \<Rightarrow> len | Some i \<Rightarrow> i"
  obtain rp1 where 1: "print_headers rp (Some (l @ CRLF @ [NUL])) n len shown =
      print_headers rp1 (Some (l' @ CRLF @ [NUL])) (int (length l' + 2)) ?len (shown @ ''Header: '' @ l @ CRLF)"
    "rio_ok rp1" "unread rp1 = response_text ls body"
    using print_headers_step [OF Cons.prems(1) u h(1) b(2) Cons.prems(5), of len shown] b(1) by auto
  have "0 < int (length l' + 2)" by simp
  from Cons.IH [OF 1(2,3) h(3,2) this, of ?len "shown @ ''Header: '' @ l @ CRLF"] show ?case using 1(1) by simp
qed

section \<open>The body\<close>

lemma print_body_all:
  "rio_ok rp \<Longrightarrow> lines_below MAXBUF 0 (unread rp) \<Longrightarrow> writable out \<Longrightarrow>
   r + int (length (unread rp)) < 2147483648 \<Longrightarrow>
   \<exists>rp' out'. print_body rp buf out r = Some (Inr (rp', out', r + int (length (unread rp)))) \<and>
     sent out' = sent out @ unread rp"
proof (induction "length (unread rp)" arbitrary: rp buf out r rule: less_induct)
  case less
  show ?case
  proof (cases "unread rp = []")
    case True
    then obtain rp' where r: "Rio_readlineb rp buf MAXBUF = Inr (0, buf, rp')"
      using read_end [OF less.prems(1), of MAXBUF buf] by (auto simp: MAXBUF_def)
    obtain out' where "Rio_write out [] = Inr out'" "sent out' = sent out"
      using Rio_write_all [OF less.prems(3), of "[]"] by auto
    then show ?thesis using r True less.prems(4) by (subst print_body.simps) simp
  next
    case False
    let ?l = "first_line MAXBUF (unread rp)"
    obtain rp' where rp': "Rio_readlineb rp buf MAXBUF = Inr (int (length ?l), Some (?l @ [NUL]), rp')"
      "rio_ok rp'" "unread rp' = drop (length ?l) (unread rp)" "lines_below MAXBUF 0 (unread rp')" "?l \<noteq> []"
      using read_short_line [OF less.prems(1,2) False] by blast
    have split: "unread rp = ?l @ unread rp'" using first_line_prefix [of MAXBUF "unread rp"] rp'(3)
      by (metis append_take_drop_id)
    then have len: "length (unread rp) = length ?l + length (unread rp')" by (metis length_append)
    then have shorter: "length (unread rp') < length (unread rp)" using rp'(5) by simp
    obtain out1 where o1: "Rio_write out ?l = Inr out1" "sent out1 = sent out @ ?l" "writable out1"
      using Rio_write_all [OF less.prems(3), of ?l] by auto
    have room: "r + int (length ?l) + int (length (unread rp')) < 2147483648" using less.prems(4) len by simp
    from less.hyps [OF shorter rp'(2,4) o1(3) room] obtain rp2 out2 where
      rest: "print_body rp' (Some (?l @ [NUL])) out1 (r + int (length ?l)) =
         Some (Inr (rp2, out2, r + int (length ?l) + int (length (unread rp'))))"
      "sent out2 = sent out1 @ unread rp'" by blast
    have "print_body rp buf out r = print_body rp' (Some (?l @ [NUL])) out1 (r + int (length ?l))"
      using rp'(1,5) o1(1) room by (subst print_body.simps) simp
    moreover have "sent out2 = sent out @ unread rp" by (subst split) (simp add: rest(2) o1(2))
    ultimately show ?thesis using rest(1) len by (simp add: add.assoc)
  qed
qed

section \<open>The response as a whole\<close>

lemma simple_print_response:
  assumes fd: "readable fd" "arriving fd = response_text ls body" and ls: "\<forall>l\<in>set ls. header_line l"
    and body: "lines_below MAXBUF 0 body" "length body < 2147483648" and out: "writable out"
  shows "if tagged_length 0 (tl ls) \<in> {0, int (length body)}
    then \<exists>out'. simple_print fd stale_buf out = Inr out' \<and> sent out' = sent out @ printed_header ls @ body
    else simple_print fd stale_buf out = Inl Assertion"
proof -
  define rp0 where "rp0 = rio_init fd stale_buf"
  have rp0: "rio_ok rp0" "unread rp0 = response_text ls body"
    using rio_init_ok [OF fd(1)] fd(2) by (simp_all add: rp0_def)
  obtain n b rp1 rp2 where h: "Rio_readlineb rp0 None MAXBUF = Inr (n, b, rp1)"
    "print_headers rp1 b n 0 [] = Some (Inr (rp2, Some (CRLF @ [NUL]), tagged_length 0 (tl ls), printed_header ls))"
    "rio_ok rp2" "unread rp2 = body"
  proof (cases ls)
    case Nil
    have u: "unread rp0 = [] @ CRLF @ body" using rp0(2) Nil by simp
    show ?thesis using read_plain_line [OF rp0(1) u plain_empty, of None] that print_headers_end Nil by auto
  next
    case (Cons l ls')
    have u: "unread rp0 = l @ CRLF @ response_text ls' body" using rp0(2) Cons by simp
    have l: "header_line l" "plain_line l" "\<forall>l\<in>set ls'. header_line l" using ls Cons by (auto simp: header_line_def)
    obtain rp1 where 1: "Rio_readlineb rp0 None MAXBUF = Inr (int (length l + 2), Some (l @ CRLF @ [NUL]), rp1)"
      "rio_ok rp1" "unread rp1 = response_text ls' body" using read_plain_line [OF rp0(1) u l(2), of None] by blast
    have "0 < int (length l + 2)" by simp
    from print_headers_all [OF 1(2,3) l(3,1) this, of 0 "[]"] obtain rp2 where
      "print_headers rp1 (Some (l @ CRLF @ [NUL])) (int (length l + 2)) 0 [] =
        Some (Inr (rp2, Some (CRLF @ [NUL]), tagged_length 0 ls', [] @ printed_header (l # ls')))"
      "rio_ok rp2" "unread rp2 = body" by blast
    with that [OF 1(1)] Cons show ?thesis by simp
  qed
  have w: "writable (stdio_text (printed_header ls) out)" using out by (simp add: writable_def stdio_text_def)
  have len: "0 + int (length (unread rp2)) < 2147483648" using body(2) h(4) by simp
  obtain rp3 out' where b: "print_body rp2 (Some (CRLF @ [NUL])) (stdio_text (printed_header ls) out) 0 =
      Some (Inr (rp3, out', int (length body)))" "sent out' = sent out @ printed_header ls @ body"
    using print_body_all [OF h(3) _ w len, of "Some (CRLF @ [NUL])"] body(1) h(4) by (auto simp: stdio_text_def)
  have "simple_print fd stale_buf out =
      bindE (assertE (tagged_length 0 (tl ls) \<noteq> 0 \<longrightarrow> tagged_length 0 (tl ls) = int (length body))) (\<lambda>_. Inr out')"
    unfolding simple_print_def rp0_def [symmetric] h(1) by (simp add: h(2) b(1))
  then show ?thesis using b(2) by auto
qed


section \<open>Against the server\<close>

lemma ok_page_response: "ok_page name bytes = response_text (page_header name bytes) bytes"
  by (simp add: ok_page_def response_header_def page_header_def show_int_def)

lemma page_header_lines: "length bytes < 2147483648 \<Longrightarrow> \<forall>l\<in>set (page_header name bytes). header_line l"
  using page_header_plain by (simp add: header_line_def)

lemma page_header_length: "tagged_length 0 (tl (page_header name bytes)) = int (length bytes)"
  using page_tags by (simp add: page_header_def)

text \<open>A server with a cache that answers one connection.\<close>

definition lab_server :: "env \<Rightarrow> int \<Rightarrow> cache \<Rightarrow> string \<Rightarrow> in_stream" where
  "lab_server e m wc req =
     (case do_server_request e m (Some wc)
         \<lparr>from_client = \<lparr>arriving = req, replies = []\<rparr>, to_client = \<lparr>sent = [], accepts = []\<rparr>, closed = False\<rparr> of
        Inl _ \<Rightarrow> \<lparr>arriving = [], replies = []\<rparr>
      | Inr (_, rq) \<Rightarrow> \<lparr>arriving = sent (to_client rq), replies = []\<rparr>)"

lemma lab_server_page:
  assumes "cache_state_ok m wc" and "m \<noteq> 0" and "coherent texts wc" and "serves e texts"
    and "url_ok h f" and "texts (''./'' @ f) = Some t"
  shows "lab_server e m wc (client_request_text h f) = \<lparr>arriving = ok_page (''./'' @ f) t, replies = []\<rparr>"
proof -
  define rq where "rq = \<lparr>from_client = \<lparr>arriving = client_request_text h f, replies = []\<rparr>,
    to_client = \<lparr>sent = [], accepts = []\<rparr>, closed = False\<rparr>"
  have rq: "readable (from_client rq)" "arriving (from_client rq) = client_request_text h f"
    "writable (to_client rq)" "sent (to_client rq) = []" by (simp_all add: rq_def readable_def writable_def)
  obtain rq1 where i: "request_init e rq = Inr (rq1, Some (''./'' @ f))" "to_client rq1 = to_client rq"
    using request_init_get [OF rq(1,2) assms(5)] by blast
  obtain wc' rq' where "do_server_request e m (Some wc) rq = Inr (Some wc', rq')"
    "sent (to_client rq') = ok_page (''./'' @ f) t"
    using request_for_text [OF assms(1-4) i(1) assms(6)] rq(3,4) i(2) by auto
  then show ?thesis unfolding rq_def lab_server_def by simp
qed


end
