(* ===== verification/Coop_Scheduler.thy ===== *)
theory Coop_Scheduler
  imports Lab2_Reach
begin

text \<open>
  What the Lab 2 thread library promises, as a scheduler over lists: a list of ready threads,
  the running one, and for each thread its state, the calls that it has unfinished and its
  stack. There is no heap of nodes, no loop over the slots and nothing that can fail. When
  memory does not run out, every call of the library is the step of the scheduler
  (\<open>lab2_is_scheduler\<close>); the only choice that is left is where \<open>malloc\<close> puts a stack.
\<close>

section \<open>The scheduler\<close>

record sched =
  sch_ready :: "int list"
  sch_now :: int
  sch_state :: "int \<Rightarrow> THREAD_STATE2"
  sch_calls :: "int \<Rightarrow> frame2 list"
  sch_stack :: "int \<Rightarrow> ptr"
  sch_result :: int

text \<open>Give the processor to \<open>t\<close>, which leaves \<open>q\<close> ready; a killed thread has only its exit ahead.\<close>

definition sched_switch :: "int \<Rightarrow> int list \<Rightarrow> sched \<Rightarrow> sched" where
  "sched_switch t q c =
     (let f = (sch_calls c)(sch_now c := Yield_return2 t # sch_calls c (sch_now c)) in
      c\<lparr>sch_ready := q, sch_now := t,
        sch_state := (sch_state c)(sch_now c := if sch_state c (sch_now c) = EXITED2 then EXITED2 else READY2, t := RUNNING2),
        sch_calls := if sch_state c t = KILLED2 then f(t := [At_thread_exit2]) else f\<rparr>)"

definition sched_yield :: "int \<Rightarrow> sched \<Rightarrow> sched" where
  "sched_yield want c =
     (let t = (if want = THREAD_SELF then sch_now c else want) in
      if want = THREAD_ANY then
        (case sch_ready c of
           [] \<Rightarrow> c\<lparr>sch_result := THREAD_NONE\<rparr>
         | u # q \<Rightarrow> sched_switch u (q @ [sch_now c]) c)
      else if t \<in> set (sch_ready c @ [sch_now c])
      then sched_switch t (remove1 t (sch_ready c @ [sch_now c])) c
      else c\<lparr>sch_result := THREAD_INVALID\<rparr>)"

text \<open>The clean-up: a slot whose thread has exited is free again.\<close>

definition sched_reap :: "sched \<Rightarrow> sched" where
  "sched_reap c = c\<lparr>sch_state := (\<lambda>t. if valid_tid t \<and> sch_state c t = EXITED2 then NOT_INITIALIZED2 else sch_state c t)\<rparr>"

definition lowest_slot :: "(int \<Rightarrow> THREAD_STATE2) \<Rightarrow> int option" where
  "lowest_slot st = List.find (\<lambda>t. st t = NOT_INITIALIZED2) (map int [0..<nat THREAD_MAX_THREADS])"

text \<open>A new thread with the stack \<open>a\<close>.\<close>

definition sched_create :: "nat \<Rightarrow> nat \<Rightarrow> ptr \<Rightarrow> sched \<Rightarrow> sched" where
  "sched_create fn arg a c =
     (let c1 = sched_reap c in
      case lowest_slot (sch_state c1) of
        None \<Rightarrow> c1\<lparr>sch_result := THREAD_NOMORE\<rparr>
      | Some i \<Rightarrow> c1\<lparr>sch_ready := sch_ready c1 @ [i], sch_state := (sch_state c1)(i := READY2),
          sch_calls := (sch_calls c1)(i := [At_stub2 fn arg]), sch_stack := (sch_stack c1)(i := a), sch_result := i\<rparr>)"

definition sched_kill :: "int \<Rightarrow> sched \<Rightarrow> sched" where
  "sched_kill t c =
     (let c1 = sched_reap c in
      if valid_tid t \<and> t \<noteq> sch_now c1 \<and> sch_state c1 t \<noteq> NOT_INITIALIZED2
      then c1\<lparr>sch_state := (sch_state c1)(t := KILLED2), sch_result := t\<rparr>
      else c1\<lparr>sch_result := THREAD_INVALID\<rparr>)"

text \<open>The last thread that exits ends the program.\<close>

definition sched_exit :: "sched \<Rightarrow> sched result" where
  "sched_exit c =
     (case sch_ready c of
        [] \<Rightarrow> Inl (Exit_with 0)
      | t # q \<Rightarrow> Inr (sched_switch t q
          (c\<lparr>sch_state := (sch_state c)(sch_now c := EXITED2),
             sch_calls := (sch_calls c)(sch_now c := After_exit2 # sch_calls c (sch_now c))\<rparr>)))"

definition sched_continue :: "sched \<Rightarrow> sched result" where
  "sched_continue c =
     (let f = hd (sch_calls c (sch_now c));
          c1 = c\<lparr>sch_calls := (sch_calls c)(sch_now c := tl (sch_calls c (sch_now c)))\<rparr>
      in case f of
        At_stub2 fn arg \<Rightarrow> Inr c1
      | At_thread_exit2 \<Rightarrow> sched_exit c1
      | Yield_return2 t \<Rightarrow> Inr (c1\<lparr>sch_result := t\<rparr>)
      | After_exit2 \<Rightarrow> Inl Assertion)"

fun sched_step :: "ptr \<Rightarrow> api2 \<Rightarrow> sched \<Rightarrow> sched result" where
  "sched_step a (Yield2 t) c = Inr (sched_yield t c)"
| "sched_step a (Create2 fn arg) c = Inr (sched_create fn arg a c)"
| "sched_step a (Kill2 t) c = Inr (sched_kill t c)"
| "sched_step a Exit2 c = sched_exit c"
| "sched_step a Continue2 c = sched_continue c"

section \<open>How the library represents it\<close>

text \<open>The heap of nodes holds the ready queue and nothing else.\<close>

definition nodes_exact :: "node_heap \<times> FIFO_QUEUE \<Rightarrow> int list \<Rightarrow> bool" where
  "nodes_exact p ts \<longleftrightarrow> roomy (fst p) \<and>
     (\<exists>xs. queue_rep (fst p) (snd p) xs \<and> map snd xs = ts \<and> dom (cells (fst p)) = footprint xs)"

definition sched_rel :: "sys2 \<Rightarrow> sched \<Rightarrow> bool" where
  "sched_rel s c \<longleftrightarrow> coop_inv s \<and> nodes_exact (thread_queue2 s) (sch_ready c) \<and> roomy (stacks2 s) \<and>
     sch_now c = running_thread_id2 s \<and> sch_state c = state_of2 s \<and> sch_calls c = frames_of2 s \<and>
     sch_stack c = (\<lambda>t. orig_stack_begin2 (thread_array2 s t)) \<and> sch_result c = result2 s"

lemma nodes_exact_rep: "nodes_exact p ts \<Longrightarrow> rq_rep p ts"
  by (auto simp: nodes_exact_def rq_rep_def roomy_def)

lemma nodes_exact_push:
  assumes e: "nodes_exact p ts" and t: "valid_tid t"
  shows "\<exists>p'. push_pair p t = Inr p' \<and> nodes_exact p' (ts @ [t])"
proof -
  obtain h q where p: "p = (h, q)" by (cases p)
  obtain xs where xs: "queue_rep h q xs" "map snd xs = ts" "dom (cells h) = footprint xs" and r: "roomy h"
    using e by (auto simp: nodes_exact_def p)
  obtain a c where m: "malloc h = (Addr a, h\<lparr>cells := (cells h)(a \<mapsto> c), calls := Suc (calls h)\<rparr>)"
    using r by (rule roomy_malloc)
  then have pol: "policy h (calls h) (cells h) = Some (a, c)"
    by (auto simp: malloc_def split: option.splits) (metis fun_upd_same option.inject heap.ext_inject heap.surjective heap.update_convs(1,2))
  have "fresh_policy (policy h)" using r by (simp add: roomy_def)
  from push_back_rq_rep [OF xs(1) this t pol] obtain h' q' where
    n: "push_back_rq False h q t = Inr (h', q')" "queue_rep h' q' (xs @ [(a, t)])"
      "dom (cells h') = insert a (dom (cells h))" "policy h' = policy h" by blast
  have "push_pair p t = Inr (h', q')"
    using push_back_cases [OF t, of h q] m n(1) by (simp add: push_pair_def p)
  moreover have "nodes_exact (h', q') (ts @ [t])"
    using n(2-4) xs(2,3) r by (auto simp: nodes_exact_def roomy_def intro!: exI [of _ "xs @ [(a, t)]"])
  ultimately show ?thesis by blast
qed

lemma nodes_exact_pop:
  assumes e: "nodes_exact p (t # ts)"
  shows "\<exists>p'. pop_pair p = Inr (p', Some t) \<and> nodes_exact p' ts"
proof -
  obtain h q where p: "p = (h, q)" by (cases p)
  obtain a xs where xs: "queue_rep h q ((a, t) # xs)" "map snd xs = ts" "dom (cells h) = footprint ((a, t) # xs)" and r: "roomy h"
    using e by (auto simp: nodes_exact_def p)
  let ?h = "h\<lparr>cells := (cells h)(a := None)\<rparr>"
  obtain q' where n: "pop_front_rq False h q = Inr (?h, q', Some t)" "queue_rep ?h q' xs"
    using pop_front_rq_rep [OF xs(1)] by blast
  have a: "a \<notin> footprint xs" using xs(1) by (auto simp: queue_rep_def)
  have "roomy ?h" using r by (auto simp: roomy_def)
  then have "nodes_exact (?h, q') ts" using n(2) xs(2,3) a by (auto simp: nodes_exact_def)
  moreover have "pop_pair p = Inr ((?h, q'), Some t)" using n(1) by (simp add: lab2_is_lab3 pop_pair_rq_def p)
  ultimately show ?thesis by blast
qed

lemma nodes_exact_remove:
  assumes e: "nodes_exact p ts" and t: "t \<in> set ts"
  shows "\<exists>p'. remove_pair p t = Inr (p', True) \<and> nodes_exact p' (remove1 t ts)"
proof -
  obtain h q where p: "p = (h, q)" by (cases p)
  obtain xs where xs: "queue_rep h q xs" "map snd xs = ts" "dom (cells h) = footprint xs" and r: "roomy h"
    using e by (auto simp: nodes_exact_def p)
  obtain us vs where uv: "ts = us @ t # vs" "t \<notin> set us" using t by (rule split_first)
  from map_eq_append_conv [THEN iffD1, OF xs(2) [unfolded uv(1)]] obtain ys ws where
    yw: "xs = ys @ ws" "map snd ys = us" "map snd ws = t # vs" by (elim exE conjE) (rule that; simp)
  then obtain a zs where ws: "ws = (a, t) # zs" "map snd zs = vs" by auto
  have rep: "queue_rep h q (ys @ (a, t) # zs)" using xs(1) by (simp add: yw(1) ws(1))
  have ny: "t \<notin> snd ` set ys" using uv(2) yw(2) by (metis set_map)
  obtain h' q' where n: "remove_node_rq False h q t = Inr (h', q', True)" "queue_rep h' q' (ys @ zs)"
    "dom (cells h') = dom (cells h) - {a}" "policy h' = policy h"
    using remove_node_rq_rep [OF rep ny] by blast
  have "a \<notin> footprint (ys @ zs)" using rep by (auto simp: queue_rep_def)
  then have "dom (cells h') = footprint (ys @ zs)" using n(3) xs(3) yw(1) ws(1) by auto
  moreover have "roomy h'" using r n(3,4) by (simp add: roomy_def)
  moreover have "map snd (ys @ zs) = remove1 t ts" using yw(2) ws(2) uv by (simp add: remove1_append)
  ultimately have "nodes_exact (h', q') (remove1 t ts)" using n(2) unfolding nodes_exact_def by (intro conjI exI [of _ "ys @ zs"]) simp_all
  moreover have "remove_pair p t = Inr ((h', q'), True)" using n(1) by (simp add: remove_pair_is remove_pair_rq_def p)
  ultimately show ?thesis by blast
qed

section \<open>What holds of it\<close>

lemma sched_rel_inv:
  assumes "sched_rel s c"
  shows "active (lift (sch_ready c) s)" and "stack_inv (lift (sch_ready c) s)" and "tidy (lift (sch_ready c) s)"
proof -
  obtain q where q: "rq_rep (thread_queue2 s) q" "active (lift q s)" "stack_inv (lift q s)" "tidy (lift q s)"
    using assms by (auto simp: sched_rel_def elim: coop_invE)
  have "rq_rep (thread_queue2 s) (sch_ready c)" using assms by (auto simp: sched_rel_def intro: nodes_exact_rep)
  then have "q = sch_ready c" using q(1) by (auto simp: rq_rep_def dest: queue_rep_unique)
  then show "active (lift (sch_ready c) s)" "stack_inv (lift (sch_ready c) s)" "tidy (lift (sch_ready c) s)"
    using q(2-4) by simp_all
qed

lemma sched_rel_facts:
  assumes "sched_rel s c"
  shows "valid_tid (sch_now c)" and "sch_state c (sch_now c) = RUNNING2" and "distinct (sch_ready c)"
    and "sch_now c \<notin> set (sch_ready c)"
    and "t \<in> set (sch_ready c) \<Longrightarrow> valid_tid t \<and> (sch_state c t = READY2 \<or> sch_state c t = KILLED2)"
    and "valid_tid t \<Longrightarrow> sch_state c t = READY2 \<or> sch_state c t = KILLED2 \<Longrightarrow> t \<in> set (sch_ready c)"
    and "valid_tid t \<Longrightarrow> sch_state c t = RUNNING2 \<Longrightarrow> t = sch_now c"
    and "valid_tid t \<Longrightarrow> sch_state c t = EXITED2 \<Longrightarrow> cleanup_needs_to_run2 s"
proof -
  note a = sched_rel_inv(1) [OF assms] and td = sched_rel_inv(3) [OF assms]
  note k = activeD(1) [OF a]
  have c: "sch_now c = running_thread_id2 s" "sch_state c = state_of2 s" using assms by (simp_all add: sched_rel_def)
  show "valid_tid (sch_now c)" "sch_state c (sch_now c) = RUNNING2" "distinct (sch_ready c)"
    using core_distinct [OF k] activeD(3,4) [OF a] by (simp_all add: lift_simps c)
  show "sch_now c \<notin> set (sch_ready c)"
    using core_queued [OF k, of "sch_now c"] by (auto simp: lift_simps c)
  show "t \<in> set (sch_ready c) \<Longrightarrow> valid_tid t \<and> (sch_state c t = READY2 \<or> sch_state c t = KILLED2)"
    using core_queued [OF k, of t] by (auto simp: lift_simps c)
  show "valid_tid t \<Longrightarrow> sch_state c t = READY2 \<or> sch_state c t = KILLED2 \<Longrightarrow> t \<in> set (sch_ready c)"
    using core_READY [OF k, of t] tidyD(1) [OF td, of t] by (auto simp: lift_simps c)
  show "valid_tid t \<Longrightarrow> sch_state c t = RUNNING2 \<Longrightarrow> t = sch_now c"
    using core_RUNNING [OF k, of t] by (simp add: lift_simps c)
  show "valid_tid t \<Longrightarrow> sch_state c t = EXITED2 \<Longrightarrow> cleanup_needs_to_run2 s"
    using activeD(6) [OF a] by (auto simp: lift_simps reap_ok_def c)
qed

text \<open>A relation without the invariant, which the calls of the library keep by themselves.\<close>

definition sched_view :: "sys2 \<Rightarrow> sched \<Rightarrow> bool" where
  "sched_view s c \<longleftrightarrow> nodes_exact (thread_queue2 s) (sch_ready c) \<and> roomy (stacks2 s) \<and>
     sch_now c = running_thread_id2 s \<and> sch_state c = state_of2 s \<and> sch_calls c = frames_of2 s \<and>
     sch_stack c = (\<lambda>t. orig_stack_begin2 (thread_array2 s t)) \<and> sch_result c = result2 s"

lemma sched_rel_view: "sched_rel s c \<longleftrightarrow> coop_inv s \<and> sched_view s c"
  by (auto simp: sched_rel_def sched_view_def)

lemma view_switch:
  assumes v: "sched_view s c" and q: "nodes_exact p q" and t: "0 \<le> t"
  shows "\<exists>s'. switch_to2 (sch_now c) t (s\<lparr>thread_queue2 := p\<rparr>) = Inr s' \<and> sched_view s' (sched_switch t q c)"
proof -
  have c: "sch_now c = running_thread_id2 s" "sch_state c = state_of2 s" "sch_calls c = frames_of2 s"
    "sch_stack c = (\<lambda>t. orig_stack_begin2 (thread_array2 s t))" "sch_result c = result2 s" "roomy (stacks2 s)"
    using v by (simp_all add: sched_view_def)
  define s' where "s' = (case switch_to2 (sch_now c) t (s\<lparr>thread_queue2 := p\<rparr>) of Inr x \<Rightarrow> x | Inl _ \<Rightarrow> s)"
  have "switch_to2 (sch_now c) t (s\<lparr>thread_queue2 := p\<rparr>) = Inr s'"
    using t by (simp add: switch_to2_def Let_def s'_def)
  moreover have "sched_view s' (sched_switch t q c)"
    using t q c unfolding s'_def sched_view_def
    by (auto simp: switch_to2_def sched_switch_def Let_def set_state2_def upd_thread2_def state_of2_def
        frames_of2_def fun_eq_iff)
  ultimately show ?thesis by blast
qed

lemma view_result: "sched_view s c \<Longrightarrow> sched_view (s\<lparr>result2 := v\<rparr>) (c\<lparr>sch_result := v\<rparr>)"
  by (auto simp: sched_view_def state_of2_def frames_of2_def fun_eq_iff)

lemma view_yield:
  assumes r: "sched_rel s c"
  shows "\<exists>s'. thread_yield2 want s = Inr s' \<and> sched_view s' (sched_yield want c)"
proof -
  note f = sched_rel_facts [OF r]
  have v: "sched_view s c" and c: "sch_now c = running_thread_id2 s" "sch_state c = state_of2 s"
    and n: "nodes_exact (thread_queue2 s) (sch_ready c)"
    using r by (simp_all add: sched_rel_view) (simp_all add: sched_view_def)
  obtain p where p: "push_pair (thread_queue2 s) (sch_now c) = Inr p" "nodes_exact p (sch_ready c @ [sch_now c])"
    using nodes_exact_push [OF n f(1)] by blast
  define t where "t = (if want = THREAD_SELF then sch_now c else want)"
  have ne: "state_of2 s (sch_now c) \<noteq> EXITED2" using f(2) by (simp add: c(2))
  show ?thesis
  proof (cases "want = THREAD_ANY")
    case any: True
    show ?thesis
    proof (cases "sch_ready c")
      case Nil
      obtain p' where "pop_pair p = Inr (p', Some (sch_now c))" "nodes_exact p' []"
        using nodes_exact_pop [of p "sch_now c" "[]"] p(2) Nil by auto
      moreover from this(2) v Nil have "sched_view (s\<lparr>thread_queue2 := p', result2 := THREAD_NONE\<rparr>) (c\<lparr>sch_result := THREAD_NONE\<rparr>)"
        by (auto simp: sched_view_def state_of2_def frames_of2_def fun_eq_iff)
      ultimately show ?thesis
        using any p(1) ne Nil by (simp add: thread_yield2_def thread_id2_def sched_yield_def c(1) Let_def)
    next
      case (Cons u q)
      have u: "u \<noteq> sch_now c" "0 \<le> u" using f(4) f(5) [of u] Cons by (auto simp: valid_tid_def)
      obtain p' where pop: "pop_pair p = Inr (p', Some u)" "nodes_exact p' (q @ [sch_now c])"
        using nodes_exact_pop [of p u "q @ [sch_now c]"] p(2) Cons by auto
      from view_switch [OF v pop(2) u(2)] show ?thesis
        using any p(1) ne Cons pop(1) u(1) by (simp add: thread_yield2_def thread_id2_def sched_yield_def c(1) Let_def)
    qed
  next
    case tid: False
    have go: "(t = sch_now c \<or> want \<ge> 0 \<and> want < THREAD_MAX_THREADS \<and> (state_of2 s t = READY2 \<or> state_of2 s t = KILLED2)) \<longleftrightarrow>
        t \<in> set (sch_ready c @ [sch_now c])"
    proof (cases "t = sch_now c")
      case False
      then have "t = want" by (simp add: t_def split: if_splits)
      then show ?thesis using f(5) [of t] f(6) [of t] unfolding c(2) valid_tid_def by fastforce
    qed simp
    show ?thesis
    proof (cases "t \<in> set (sch_ready c @ [sch_now c])")
      case True
      have t0: "0 \<le> t" using True f(1) f(5) [of t] by (auto simp: valid_tid_def)
      obtain p' where rm: "remove_pair p t = Inr (p', True)" "nodes_exact p' (remove1 t (sch_ready c @ [sch_now c]))"
        using nodes_exact_remove [OF p(2) True] by blast
      from view_switch [OF v rm(2) t0] obtain s' where s': "switch_to2 (sch_now c) t (s\<lparr>thread_queue2 := p'\<rparr>) = Inr s'"
        "sched_view s' (sched_switch t (remove1 t (sch_ready c @ [sch_now c])) c)" by blast
      have "thread_yield2 want s = Inr s'"
        unfolding thread_yield2_def thread_id2_def Let_def c(1) [symmetric] t_def [symmetric]
        using tid go True p(1) ne rm(1) s'(1) by simp
      moreover have "sched_yield want c = sched_switch t (remove1 t (sch_ready c @ [sch_now c])) c"
        unfolding sched_yield_def Let_def t_def [symmetric] using tid True by simp
      ultimately show ?thesis using s'(2) by simp
    next
      case False
      then have "thread_yield2 want s = Inr (s\<lparr>result2 := THREAD_INVALID\<rparr>)"
        unfolding thread_yield2_def thread_id2_def Let_def c(1) [symmetric] t_def [symmetric]
        using tid go by auto
      moreover have "sched_yield want c = c\<lparr>sch_result := THREAD_INVALID\<rparr>"
        unfolding sched_yield_def Let_def t_def [symmetric] using tid False by simp
      ultimately show ?thesis using view_result [OF v] by simp
    qed
  qed
qed

section \<open>The other calls\<close>

lemma cleanup_loop2_effect:
  "cleanup_loop2 n i s = Inr s' \<Longrightarrow> thread_queue2 s' = thread_queue2 s \<and> running_thread_id2 s' = running_thread_id2 s \<and>
     result2 s' = result2 s \<and> frames_of2 s' = frames_of2 s \<and> (roomy (stacks2 s) \<longrightarrow> roomy (stacks2 s')) \<and>
     (\<forall>t. orig_stack_begin2 (thread_array2 s' t) = orig_stack_begin2 (thread_array2 s t)) \<and>
     state_of2 s' = (\<lambda>t. if i \<le> t \<and> t < i + int n \<and> state_of2 s t = EXITED2 then NOT_INITIALIZED2 else state_of2 s t)"
proof (induction n i s rule: cleanup_loop2.induct)
  case (1 i s)
  then show ?case by auto
next
  case (2 n i s)
  have split: "(i \<le> t \<and> t < i + int (Suc n)) = (t = i \<or> i + 1 \<le> t \<and> t < i + 1 + int n)" for t by auto
  show ?case
  proof (cases "state_of2 s i = EXITED2")
    case True
    define s1 where "s1 = set_state2 i NOT_INITIALIZED2 s"
    obtain h where h: "free (stacks2 s1) (orig_stack_begin2 (thread_array2 s1 i)) = Inr h"
      "cleanup_loop2 n (i + 1) (s1\<lparr>stacks2 := h\<rparr>) = Inr s'"
      using "2.prems" True by (auto simp: s1_def result_simps Let_def)
    have s1: "thread_queue2 s1 = thread_queue2 s" "running_thread_id2 s1 = running_thread_id2 s" "result2 s1 = result2 s"
      "stacks2 s1 = stacks2 s" "frames_of2 s1 = frames_of2 s" "state_of2 s1 = (state_of2 s)(i := NOT_INITIALIZED2)"
      "orig_stack_begin2 (thread_array2 s1 t) = orig_stack_begin2 (thread_array2 s t)" for t
      by (auto simp: s1_def set_state2_def upd_thread2_def frames_of2_def state_of2_def)
    have upd: "frames_of2 (x\<lparr>stacks2 := h\<rparr>) = frames_of2 x" "state_of2 (x\<lparr>stacks2 := h\<rparr>) = state_of2 x" for x
      by (simp_all add: frames_of2_def state_of2_def fun_eq_iff)
    have "roomy (stacks2 s) \<Longrightarrow> roomy h" using h(1) s1(4) by (auto dest: roomy_free)
    moreover note "2.IH"(1) [OF True s1_def h(2)]
    ultimately show ?thesis using True by (auto simp: s1 upd split fun_eq_iff)
  next
    case False
    have ix: "i \<le> x \<Longrightarrow> \<not> i + 1 \<le> x \<Longrightarrow> x = i" for x by simp
    show ?thesis using False "2.IH"(2) [OF False] "2.prems" by (auto simp: fun_eq_iff dest: ix)
  qed
qed

lemma view_reap:
  assumes r: "sched_rel s c"
  shows "\<exists>s1. thread_exit_cleanup2 s = Inr s1 \<and> sched_view s1 (sched_reap c)"
proof -
  have v: "sched_view s c" using r by (simp add: sched_rel_view)
  show ?thesis
  proof (cases "cleanup_needs_to_run2 s")
    case True
    obtain z where "thread_exit_cleanup (lift (sch_ready c) s) = Inr z"
      using cleanup_total [OF sched_rel_inv(2) [OF r]] by (auto simp: lift_simps)
    then obtain s0 where "thread_exit_cleanup2 s = Inr s0" unfolding cleanup_lift by (cases "thread_exit_cleanup2 s") auto
    then obtain s1 where s1: "cleanup_loop2 (nat THREAD_MAX_THREADS) 0 s = Inr s1"
      using True by (auto simp: thread_exit_cleanup2_def result_simps)
    note e = cleanup_loop2_effect [OF s1]
    have "sched_view (s1\<lparr>cleanup_needs_to_run2 := False\<rparr>) (sched_reap c)"
      using v e by (auto simp: sched_view_def sched_reap_def valid_tid_def THREAD_MAX_THREADS_def state_of2_def frames_of2_def
          fun_eq_iff)
    then show ?thesis using True s1 by (simp add: thread_exit_cleanup2_def)
  next
    case False
    then have "sched_reap c = c"
      using sched_rel_facts(8) [OF r] by (auto simp: sched_reap_def fun_eq_iff intro!: sched.equality)
    then show ?thesis using False v by (simp add: thread_exit_cleanup2_def)
  qed
qed

lemma find_slot2_lowest: "find_slot2 n i s = List.find (\<lambda>t. state_of2 s t = NOT_INITIALIZED2) (map (\<lambda>k. i + int k) [0..<n])"
proof (induction n arbitrary: i)
  case (Suc n)
  have "map (\<lambda>k. i + int k) [0..<Suc n] = i # map (\<lambda>k. i + 1 + int k) [0..<n]"
    by (simp add: upt_conv_Cons map_Suc_upt [symmetric] del: upt_Suc)
  then show ?case using Suc by (simp del: upt_Suc)
qed simp

lemma view_create:
  assumes r: "sched_rel s c"
  shows "\<exists>a s'. thread_create2 fn arg s = Inr s' \<and> sched_view s' (sched_create fn arg (Addr a) c)"
proof -
  obtain s1 where s1: "thread_exit_cleanup2 s = Inr s1" and v: "sched_view s1 (sched_reap c)"
    using view_reap [OF r] by blast
  have slot: "find_slot2 (nat THREAD_MAX_THREADS) 0 s1 = lowest_slot (sch_state (sched_reap c))"
    using v by (simp add: find_slot2_lowest lowest_slot_def sched_view_def)
  show ?thesis
  proof (cases "lowest_slot (sch_state (sched_reap c))")
    case None
    then show ?thesis using s1 slot view_result [OF v]
      by (intro exI [of _ 0]) (simp add: thread_create2_def sched_create_def)
  next
    case (Some i)
    then have i: "valid_tid i" by (auto simp: lowest_slot_def find_Some_iff valid_tid_def THREAD_MAX_THREADS_def)
    define s2 where "s2 = set_state2 i READY2 s1"
    have "roomy (stacks2 s2)" using v by (simp add: s2_def sched_view_def)
    then obtain a x where m: "malloc (stacks2 s2) = (Addr a, (stacks2 s2)\<lparr>cells := (cells (stacks2 s2))(a \<mapsto> x), calls := Suc (calls (stacks2 s2))\<rparr>)"
      and rm: "roomy ((stacks2 s2)\<lparr>cells := (cells (stacks2 s2))(a \<mapsto> x), calls := Suc (calls (stacks2 s2))\<rparr>)"
      by (rule roomy_malloc)
    define s5 where "s5 = upd_thread2 i (\<lambda>th. th\<lparr>context2 := [At_stub2 fn arg]\<rparr>) (upd_thread2 i (\<lambda>th. th\<lparr>orig_stack_begin2 := Addr a\<rparr>)
      (s2\<lparr>stacks2 := (stacks2 s2)\<lparr>cells := (cells (stacks2 s2))(a \<mapsto> x), calls := Suc (calls (stacks2 s2))\<rparr>\<rparr>))"
    have q5: "thread_queue2 s5 = thread_queue2 s1" by (simp add: s5_def s2_def)
    have "nodes_exact (thread_queue2 s1) (sch_ready c)" using v by (simp add: sched_view_def sched_reap_def)
    then obtain p where p: "push_pair (thread_queue2 s5) i = Inr p" "nodes_exact p (sch_ready c @ [i])"
      using nodes_exact_push [OF _ i] q5 by fastforce
    have ok: "rip_addr_ok (ptr_value (Addr a))" by (rule rip_addr_ok_always) (simp add: ptr_value_def)
    have "thread_create2 fn arg s = Inr (s5\<lparr>thread_queue2 := p, result2 := i\<rparr>)"
      using s1 slot Some m p(1) ok unfolding thread_create2_def s5_def s2_def
      by (simp add: Let_def)
    moreover have "sched_view (s5\<lparr>thread_queue2 := p, result2 := i\<rparr>) (sched_create fn arg (Addr a) c)"
      using v p(2) rm Some unfolding sched_view_def s5_def s2_def
      by (auto simp: sched_create_def sched_reap_def Let_def set_state2_def upd_thread2_def state_of2_def frames_of2_def fun_eq_iff)
    ultimately show ?thesis by blast
  qed
qed

lemma view_kill:
  assumes r: "sched_rel s c"
  shows "\<exists>s'. thread_kill2 t s = Inr s' \<and> sched_view s' (sched_kill t c)"
proof -
  obtain s1 where s1: "thread_exit_cleanup2 s = Inr s1" and v: "sched_view s1 (sched_reap c)"
    using view_reap [OF r] by blast
  have c: "thread_id2 s1 = sch_now (sched_reap c)" "state_of2 s1 = sch_state (sched_reap c)"
    using v by (simp_all add: sched_view_def thread_id2_def)
  show ?thesis
  proof (cases "valid_tid t \<and> t \<noteq> sch_now (sched_reap c) \<and> sch_state (sched_reap c) t \<noteq> NOT_INITIALIZED2")
    case True
    have "sched_view ((set_state2 t KILLED2 s1)\<lparr>result2 := t\<rparr>)
        ((sched_reap c)\<lparr>sch_state := (sch_state (sched_reap c))(t := KILLED2), sch_result := t\<rparr>)"
      using v by (auto simp: sched_view_def set_state2_def upd_thread2_def state_of2_def frames_of2_def fun_eq_iff)
    moreover have "\<not> (t < 0 \<or> t \<ge> THREAD_MAX_THREADS \<or> t = thread_id2 s1 \<or> state_of2 s1 t = NOT_INITIALIZED2)"
      using True by (auto simp: c valid_tid_def)
    then have "thread_kill2 t s = Inr ((set_state2 t KILLED2 s1)\<lparr>result2 := t\<rparr>)" using s1 by (simp add: thread_kill2_def)
    ultimately show ?thesis using True by (simp add: sched_kill_def Let_def)
  next
    case False
    then have "t < 0 \<or> t \<ge> THREAD_MAX_THREADS \<or> t = thread_id2 s1 \<or> state_of2 s1 t = NOT_INITIALIZED2"
      by (auto simp: c valid_tid_def)
    then have "thread_kill2 t s = Inr (s1\<lparr>result2 := THREAD_INVALID\<rparr>)" using s1 by (simp add: thread_kill2_def)
    moreover have "sched_kill t c = (sched_reap c)\<lparr>sch_result := THREAD_INVALID\<rparr>"
      unfolding sched_kill_def Let_def by (rule if_not_P [OF False])
    ultimately show ?thesis using view_result [OF v] by simp
  qed
qed

lemma view_exit:
  assumes r: "sched_rel s c"
  shows "case sched_exit c of Inl e \<Rightarrow> thread_exit2 s = Inl e
    | Inr c' \<Rightarrow> \<exists>s'. thread_exit2 s = Inr s' \<and> sched_view s' c'"
proof -
  have v: "sched_view s c" and c: "thread_id2 s = sch_now c" and n: "nodes_exact (thread_queue2 s) (sch_ready c)"
    using r by (simp_all add: sched_rel_view) (simp_all add: sched_view_def thread_id2_def)
  define x where "x = (set_state2 (sch_now c) EXITED2 s)\<lparr>cleanup_needs_to_run2 := True\<rparr>"
  define y where "y = push_frame2 After_exit2 x"
  have e: "queue_empty (snd (thread_queue2 s)) \<longleftrightarrow> sch_ready c = []"
    using nodes_exact_rep [OF n] by (auto simp: rq_rep_def queue_empty_def queue_rep_head_NULL queue_rep_tail_NULL empty_queue_def)
  have "thread_queue2 x = thread_queue2 s" by (simp add: x_def)
  then have t2: "thread_exit2 s = (if sch_ready c \<noteq> [] then thread_yield2 THREAD_ANY y else Inl (Exit_with 0))"
    using e by (simp add: thread_exit2_def c x_def [symmetric] y_def Let_def)
  show ?thesis
  proof (cases "sch_ready c")
    case Nil
    then show ?thesis using t2 by (simp add: sched_exit_def)
  next
    case (Cons t q)
    have t: "t \<noteq> sch_now c" "0 \<le> t" using sched_rel_facts(4) [OF r] sched_rel_facts(5) [OF r, of t] Cons by (auto simp: valid_tid_def)
    define c1 where "c1 = c\<lparr>sch_state := (sch_state c)(sch_now c := EXITED2),
      sch_calls := (sch_calls c)(sch_now c := After_exit2 # sch_calls c (sch_now c))\<rparr>"
    have vy: "sched_view y c1"
      using v by (auto simp: y_def x_def c1_def sched_view_def push_frame2_def set_state2_def upd_thread2_def
          state_of2_def frames_of2_def fun_eq_iff)
    have y: "thread_queue2 y = thread_queue2 s" "thread_id2 y = sch_now c" "state_of2 y (sch_now c) = EXITED2"
      using v by (simp_all add: y_def x_def sched_view_def thread_id2_def push_frame2_def set_state2_def upd_thread2_def state_of2_def)
    obtain p where p: "pop_pair (thread_queue2 y) = Inr (p, Some t)" "nodes_exact p q"
      using nodes_exact_pop n unfolding Cons y(1) by blast
    have "thread_yield2 THREAD_ANY y = switch_to2 (sch_now c) t (y\<lparr>thread_queue2 := p\<rparr>)"
      using p(1) y(3) t(1) by (simp add: thread_yield2_def y(2) Let_def)
    moreover obtain s' where "switch_to2 (sch_now c1) t (y\<lparr>thread_queue2 := p\<rparr>) = Inr s'" "sched_view s' (sched_switch t q c1)"
      using view_switch [OF vy p(2) t(2)] by blast
    ultimately show ?thesis using t2 Cons by (simp add: sched_exit_def c1_def)
  qed
qed

lemma view_continue:
  assumes r: "sched_rel s c" and f: "frames_of2 s (running_thread_id2 s) \<noteq> []"
  shows "case sched_continue c of Inl e \<Rightarrow> step2 Continue2 s = Inl e
    | Inr c' \<Rightarrow> \<exists>s'. step2 Continue2 s = Inr s' \<and> sched_view s' c'"
proof -
  have v: "sched_view s c" using r by (simp add: sched_rel_view)
  have c: "hd (sch_calls c (sch_now c)) = hd (frames_of2 s (running_thread_id2 s))" using v by (simp add: sched_view_def)
  define c1 where "c1 = c\<lparr>sch_calls := (sch_calls c)(sch_now c := tl (sch_calls c (sch_now c)))\<rparr>"
  have v1: "sched_view (pop_frame2 s) c1"
    using v by (auto simp: sched_view_def c1_def pop_frame2_def upd_thread2_def state_of2_def frames_of2_def fun_eq_iff)
  have r1: "sched_rel (pop_frame2 s) c1" using r v1 coop_pop_frame by (simp add: sched_rel_view)
  have s: "step2 Continue2 s = resume2 (hd (sch_calls c (sch_now c))) (pop_frame2 s)" by (simp add: c)
  show ?thesis
  proof (cases "hd (sch_calls c (sch_now c))")
    case (At_stub2 fn arg)
    then show ?thesis using v1 by (simp add: s sched_continue_def c1_def resume2_def thread_stub2_def del: step2.simps)
  next
    case At_thread_exit2
    then have "step2 Continue2 s = thread_exit2 (pop_frame2 s)" "sched_continue c = sched_exit c1"
      unfolding s by (simp_all add: sched_continue_def c1_def resume2_def)
    then show ?thesis using view_exit [OF r1] by (simp only:)
  next
    case (Yield_return2 t)
    then show ?thesis using view_result [OF v1, of t] by (simp add: s sched_continue_def c1_def resume2_def del: step2.simps)
  next
    case After_exit2
    then show ?thesis by (simp add: s sched_continue_def resume2_def del: step2.simps)
  qed
qed

section \<open>The library is the scheduler\<close>

text \<open>Every call that user code can make, and the rest of every unfinished call: the library
  fails as the scheduler does, or both go on and stay related.\<close>

definition follows :: "sys2 result \<Rightarrow> sched result \<Rightarrow> bool" where
  "follows r2 rc \<longleftrightarrow> (case rc of Inl e \<Rightarrow> r2 = Inl e | Inr c' \<Rightarrow> \<exists>s'. r2 = Inr s' \<and> sched_rel s' c')"

lemma lab2_is_scheduler:
  assumes r: "sched_rel s c" and a: "enabled2 s a"
  shows "\<exists>b. follows (step2 a s) (sched_step (Addr b) a c)"
proof -
  have inv: "sched_rel s' c'" if "step2 a s = Inr s'" "sched_view s' c'" for s' c'
    using coop_step [of s a] r a that by (auto simp: sched_rel_view)
  have ex: "\<exists>b. case sched_step (Addr b) a c of Inl e \<Rightarrow> step2 a s = Inl e
      | Inr c' \<Rightarrow> \<exists>s'. step2 a s = Inr s' \<and> sched_view s' c'"
  proof (cases a)
    case (Yield2 t)
    then show ?thesis using view_yield [OF r, of t] by simp
  next
    case (Create2 fn arg)
    then show ?thesis using view_create [OF r, of fn arg] by simp
  next
    case Exit2
    show ?thesis unfolding Exit2 step2.simps sched_step.simps using view_exit [OF r] by simp
  next
    case (Kill2 t)
    then show ?thesis using view_kill [OF r, of t] by simp
  next
    case Continue2
    then have "frames_of2 s (running_thread_id2 s) \<noteq> []" using a by (simp add: enabled2_def)
    from view_continue [OF r this] show ?thesis unfolding Continue2 sched_step.simps by blast
  qed
  then obtain b where b: "case sched_step (Addr b) a c of Inl e \<Rightarrow> step2 a s = Inl e
      | Inr c' \<Rightarrow> \<exists>s'. step2 a s = Inr s' \<and> sched_view s' c'" ..
  have "follows (step2 a s) (sched_step (Addr b) a c)"
    using b inv unfolding follows_def by (cases "sched_step (Addr b) a c") auto
  then show ?thesis ..
qed

definition sched_start :: sched where
  "sched_start = \<lparr>sch_ready = [], sch_now = 0, sch_state = (\<lambda>t. if t = 0 then RUNNING2 else NOT_INITIALIZED2),
     sch_calls = (\<lambda>_. []), sch_stack = (\<lambda>_. NULL), sch_result = 0\<rparr>"

lemma init_loop2_effect:
  "thread_queue2 (init_loop2 n i s) = thread_queue2 s \<and> running_thread_id2 (init_loop2 n i s) = running_thread_id2 s \<and>
   stacks2 (init_loop2 n i s) = stacks2 s \<and> result2 (init_loop2 n i s) = result2 s \<and>
   frames_of2 (init_loop2 n i s) = frames_of2 s \<and>
   ((\<forall>t. state_of2 s t = NOT_INITIALIZED2) \<longrightarrow> (\<forall>t. state_of2 (init_loop2 n i s) t = NOT_INITIALIZED2)) \<and>
   ((\<forall>t. orig_stack_begin2 (thread_array2 s t) = NULL) \<longrightarrow> (\<forall>t. orig_stack_begin2 (thread_array2 (init_loop2 n i s) t) = NULL))"
  by (induction n i s rule: init_loop2.induct)
    (auto simp: upd_thread2_def state_of2_def frames_of2_def fun_eq_iff split: if_splits)

lemma sched_rel_start:
  assumes "roomy (zero_heap pn)" and "roomy (zero_heap ps)"
  shows "sched_rel (boot2 pn ps) sched_start"
proof -
  have "coop_inv (boot2 pn ps)" using assms by (intro boot2_inv) (simp_all add: roomy_def zero_heap_def)
  moreover have "nodes_exact (thread_queue2 (boot2 pn ps)) []"
    using assms(1) by (simp add: boot2_queue nodes_exact_def zero_heap_def)
  moreover have "state_of2 (boot2 pn ps) = (\<lambda>t. if t = 0 then RUNNING2 else NOT_INITIALIZED2) \<and>
    frames_of2 (boot2 pn ps) = (\<lambda>_. []) \<and> (\<forall>t. orig_stack_begin2 (thread_array2 (boot2 pn ps) t) = NULL) \<and>
    stacks2 (boot2 pn ps) = zero_heap ps \<and> result2 (boot2 pn ps) = 0 \<and> running_thread_id2 (boot2 pn ps) = 0"
  proof -
    define z where "z = zero_sys2 (zero_heap pn) (zero_heap ps)"
    define y where "y = init_loop2 (nat THREAD_MAX_THREADS) 0 z"
    have z: "\<forall>t. state_of2 z t = NOT_INITIALIZED2" "\<forall>t. orig_stack_begin2 (thread_array2 z t) = NULL"
      "frames_of2 z = (\<lambda>_. [])" "stacks2 z = zero_heap ps" "result2 z = 0"
      by (simp_all add: z_def zero_sys2_def state_of2_def frames_of2_def fun_eq_iff)
    have y: "\<forall>t. state_of2 y t = NOT_INITIALIZED2" "\<forall>t. orig_stack_begin2 (thread_array2 y t) = NULL"
      "frames_of2 y = (\<lambda>_. [])" "stacks2 y = zero_heap ps" "result2 y = 0"
      using init_loop2_effect [of "nat THREAD_MAX_THREADS" 0 z] z by (simp_all add: y_def)
    have "boot2 pn ps = (set_state2 0 RUNNING2 y)\<lparr>running_thread_id2 := 0\<rparr>"
      by (simp add: boot2_def thread_init2_def z_def y_def Let_def)
    then show ?thesis using y by (auto simp: set_state2_def upd_thread2_def state_of2_def frames_of2_def fun_eq_iff)
  qed
  ultimately show ?thesis using assms(2) by (auto simp: sched_rel_def sched_start_def)
qed

section \<open>Whole runs\<close>

definition sched_moves :: "sched \<Rightarrow> api2 \<times> ptr \<Rightarrow> sched \<Rightarrow> bool" where
  "sched_moves c l c' \<longleftrightarrow> sched_step (snd l) (fst l) c = Inr c'"

text \<open>Property C40. The Lab 2 library refines the scheduler: as long as memory does not run out,
  every run of calls from \<open>thread_init\<close> is, call by call, a run of the scheduler over lists, in
  which the running thread, the ready queue, the states, the unfinished calls and the results
  are the same and the heap of nodes holds nothing but the ready queue; and whatever user code
  calls next, the library does what the scheduler does, the end of the program included.\<close>

theorem lab2_refines_the_scheduler:
  assumes "roomy (zero_heap pn)" and "roomy (zero_heap ps)" and "runs sys_step2 (boot2 pn ps) as s"
  shows "\<exists>bs c. length bs = length as \<and> runs sched_moves sched_start (zip as bs) c \<and>
    running_thread_id2 s = sch_now c \<and> nodes_exact (thread_queue2 s) (sch_ready c) \<and>
    state_of2 s = sch_state c \<and> frames_of2 s = sch_calls c \<and> result2 s = sch_result c \<and>
    (\<forall>a. enabled2 s a \<longrightarrow> (\<exists>b. follows (step2 a s) (sched_step (Addr b) a c)))"
proof -
  have "\<exists>bs c. length bs = length as \<and> runs sched_moves sched_start (zip as bs) c \<and> sched_rel s c"
    using assms(3)
  proof (induction rule: runs.induct)
    case start
    then show ?case using sched_rel_start [OF assms(1,2)] by auto
  next
    case (extend as s a s')
    then obtain bs c where c: "length bs = length as" "runs sched_moves sched_start (zip as bs) c" "sched_rel s c" by blast
    have a: "enabled2 s a" "step2 a s = Inr s'" using extend(2) by (simp_all add: sys_step2_def)
    obtain b where "follows (step2 a s) (sched_step (Addr b) a c)" using lab2_is_scheduler [OF c(3) a(1)] by blast
    then obtain c' where c': "sched_step (Addr b) a c = Inr c'" "sched_rel s' c'"
      using a(2) by (auto simp: follows_def split: sum.splits)
    have "runs sched_moves sched_start (zip as bs @ [(a, Addr b)]) c'"
      using c(2) c'(1) by (auto simp: sched_moves_def intro: runs.extend)
    then show ?case using c(1) c'(2) by (intro exI [of _ "bs @ [Addr b]"] exI [of _ c']) simp
  qed
  then obtain bs c where c: "length bs = length as" "runs sched_moves sched_start (zip as bs) c" "sched_rel s c" by blast
  then show ?thesis
    using lab2_is_scheduler [OF c(3)] by (intro exI [of _ bs] exI [of _ c]) (simp add: sched_rel_def)
qed

definition roomy_policy :: "'c \<Rightarrow> nat \<Rightarrow> (nat \<rightharpoonup> 'c) \<Rightarrow> (nat \<times> 'c) option" where
  "roomy_policy junk = policy (growing_heap junk)"

lemma roomy_policy: "roomy (zero_heap (roomy_policy junk))"
  using growing_heap_roomy [of junk] by (simp add: roomy_def zero_heap_def roomy_policy_def)

theorem lab2_refines_the_scheduler_witness:
  "\<exists>b. follows (step2 (Create2 3 4) (boot2 (roomy_policy \<lparr>nxt = NULL, val = 0\<rparr>) (roomy_policy ())))
    (sched_step (Addr b) (Create2 3 4) sched_start)"
proof -
  let ?s = "boot2 (roomy_policy \<lparr>nxt = NULL, val = 0\<rparr>) (roomy_policy ())"
  have "sched_rel ?s sched_start" by (intro sched_rel_start roomy_policy)
  then have "frames_of2 ?s (running_thread_id2 ?s) = []" by (metis sched_rel_def sched_start_def sched.select_convs(4))
  then have "enabled2 ?s (Create2 3 4)" by (simp add: enabled2_def)
  then show ?thesis using lab2_refines_the_scheduler [OF roomy_policy roomy_policy runs.start]
    by (auto simp del: step2.simps sched_step.simps)
qed

end
