(* ===== verification/Basic_Test.thy ===== *)
theory Basic_Test
  imports Coop_Scheduler C_Text
begin

text \<open>
  The basic test of the thread library, test_basic in threads_2/test_thread.c (the same text in
  threads_3), as a program over the library: the main thread and the functions that it starts
  as threads. A program is a tree of what the thread does next; it is run by a machine that
  keeps, for each thread, what is left of its program. \<open>main\<close> in test_basic.c calls
  \<open>thread_init\<close> and then \<open>test_basic\<close>.

  The machine works for any library with the calls of thread.h: the pointer model of Lab 2 and
  the scheduler that specifies it are two of them.
\<close>

section \<open>Programs\<close>

record test_globals =
  flag_value :: int
  stack_array :: "int \<Rightarrow> int"
  printed :: "string list"

text \<open>
  What a thread can look at between two calls: its id, \<open>mallinfo().uordblks\<close>, the address of
  a local variable \<open>d\<close> frames below the first one, the global variables.
\<close>

record look =
  me :: int
  in_use :: int
  here :: "nat \<Rightarrow> int"
  globals_seen :: test_globals

text \<open>\<open>Failed_assert\<close> is an assertion of the test that fails; \<open>Returned_main\<close> is the return from the
  function that the thread was started with. A thread may run for ever, so the type is coinductive.\<close>

codatatype user =
    Lib_call api2 "int \<Rightarrow> user"
  | Look_at "look \<Rightarrow> user"
  | Assign "look \<Rightarrow> test_globals" user
  | Returned_main
  | Failed_assert

definition print_line :: "string \<Rightarrow> user \<Rightarrow> user" where
  "print_line s k = Assign (\<lambda>v. (globals_seen v)\<lparr>printed := printed (globals_seen v) @ [s @ [newline]]\<rparr>) k"

definition assert_that :: "bool \<Rightarrow> user \<Rightarrow> user" where
  "assert_that b k = (if b then k else Failed_assert)"

text \<open>\<open>stack_array[thread_id()] = &x\<close>, with \<open>x\<close> in frame \<open>d\<close>.\<close>

definition note_stack :: "nat \<Rightarrow> user \<Rightarrow> user" where
  "note_stack d k = Assign (\<lambda>v. (globals_seen v)\<lparr>stack_array := (stack_array (globals_seen v))(me v := here v d)\<rparr>) k"

text \<open>The old value goes to the continuation; no other thread runs in between.\<close>

definition set_flag :: "int \<Rightarrow> (int \<Rightarrow> user) \<Rightarrow> user" where
  "set_flag v k = Look_at (\<lambda>l. Assign (\<lambda>l'. (globals_seen l')\<lparr>flag_value := v\<rparr>) (k (flag_value (globals_seen l))))"

abbreviation yield :: "int \<Rightarrow> (int \<Rightarrow> user) \<Rightarrow> user" where
  "yield t k \<equiv> Lib_call (Yield2 t) k"

section \<open>The threads\<close>

primcorec hello_loop :: user where
  "hello_loop = Lib_call (Yield2 THREAD_ANY) (\<lambda>_. hello_loop)"

definition hello :: "string \<Rightarrow> user" where
  "hello msg =
     print_line (''message: '' @ msg) (
     yield THREAD_SELF (\<lambda>ret.
     assert_that (thread_ret_ok ret \<noteq> 0) (
     print_line ''thread returns from  first yield'' (
     yield THREAD_SELF (\<lambda>ret.
     assert_that (thread_ret_ok ret \<noteq> 0) (
     print_line ''thread returns from second yield'' hello_loop))))))"

text \<open>\<open>fact\<close> for \<open>n\<close> in frame \<open>d\<close>; for 0 the recursion of the code would not end.\<close>

fun fact_thread :: "nat \<Rightarrow> nat \<Rightarrow> user" where
  "fact_thread d 0 = Failed_assert"
| "fact_thread d (Suc n) = note_stack d (if n = 0 then Returned_main else fact_thread (Suc d) n)"

definition suicide :: user where
  "suicide = set_flag 1 (\<lambda>ret. assert_that (ret = 0) (Lib_call Exit2 (\<lambda>_. Failed_assert)))"

definition finale :: user where
  "finale =
     print_line ''finale running'' (
     yield THREAD_ANY (\<lambda>ret.
     assert_that (ret = THREAD_NONE) (
     yield THREAD_ANY (\<lambda>ret.
     assert_that (ret = THREAD_NONE) (
     print_line ''basic test done'' Returned_main)))))"

text \<open>The functions that are started as threads, by number, with their arguments; the messages for
  \<open>hello\<close> are made when the thread is created.\<close>

definition HELLO :: nat where "HELLO = 0"
definition FACT :: nat where "FACT = 1"
definition SUICIDE :: nat where "SUICIDE = 2"
definition FINALE :: nat where "FINALE = 3"

definition pad3 :: "nat \<Rightarrow> string" where
  "pad3 n = replicate (3 - length (show_nat n)) CHR 0x20 @ show_nat n"

definition hello_message :: "nat \<Rightarrow> string" where
  "hello_message arg = (if arg = 0 then ''hello from first thread'' else ''hello from thread '' @ pad3 (arg - 1))"

definition thread_main :: "nat \<Rightarrow> nat \<Rightarrow> user" where
  "thread_main fn arg =
     (if fn = HELLO then hello (hello_message arg)
      else if fn = FACT then fact_thread 0 arg
      else if fn = SUICIDE then suicide
      else if fn = FINALE then finale
      else Failed_assert)"

section \<open>The test\<close>

definition NTHREADS :: nat where
  "NTHREADS = 128"

text \<open>The loops of the test; \<open>n\<close> turns are left.\<close>

fun create_hellos :: "nat \<Rightarrow> nat \<Rightarrow> int list \<Rightarrow> (int list \<Rightarrow> user) \<Rightarrow> user" where
  "create_hellos 0 ii child k = k child"
| "create_hellos (Suc n) ii child k = Lib_call (Create2 HELLO (Suc ii)) (\<lambda>ret.
     assert_that (thread_ret_ok ret \<noteq> 0) (create_hellos n (Suc ii) (child @ [ret]) k))"

fun yield_each :: "int list \<Rightarrow> user \<Rightarrow> user" where
  "yield_each [] k = k"
| "yield_each (t # ts) k = yield t (\<lambda>ret. assert_that (ret = t) (yield_each ts k))"

fun kill_each :: "int list \<Rightarrow> user \<Rightarrow> user" where
  "kill_each [] k = k"
| "kill_each (t # ts) k = Lib_call (Kill2 t) (\<lambda>ret. assert_that (ret = t) (kill_each ts k))"

fun drain_threads :: "nat \<Rightarrow> user \<Rightarrow> user" where
  "drain_threads 0 k = Failed_assert"
| "drain_threads (Suc n) k = yield THREAD_ANY (\<lambda>ret. if ret \<noteq> THREAD_NONE then drain_threads n k else k)"

fun create_facts :: "nat \<Rightarrow> int list \<Rightarrow> (int list \<Rightarrow> user) \<Rightarrow> user" where
  "create_facts 0 child k = k child"
| "create_facts (Suc n) child k = Lib_call (Create2 FACT 10) (\<lambda>ret.
     assert_that (thread_ret_ok ret \<noteq> 0) (create_facts n (child @ [ret]) k))"

fun yield_to_all :: "int list \<Rightarrow> user \<Rightarrow> user" where
  "yield_to_all [] k = k"
| "yield_to_all (t # ts) k = yield t (\<lambda>_. yield_to_all ts k)"

fun kill_some :: "int list \<Rightarrow> user \<Rightarrow> user" where
  "kill_some [] k = k"
| "kill_some (t # ts) k = Lib_call (Kill2 t) (\<lambda>ret. assert_that (thread_ret_ok ret \<noteq> 0) (kill_some ts k))"

definition all_tids :: "int list" where
  "all_tids = map int [0..<nat THREAD_MAX_THREADS]"

definition stacks_far_apart :: "(int \<Rightarrow> int) \<Rightarrow> bool" where
  "stacks_far_apart sa \<longleftrightarrow>
     list_all (\<lambda>ii. list_all (\<lambda>jj. ii = jj \<or> THREAD_MIN_STACK \<le> \<bar>sa ii - sa jj\<bar>) all_tids) all_tids"

definition grand_finale :: user where
  "grand_finale =
     print_line ''for my grand finale, I will destroy myself'' (
     print_line ''while my talented assistant prints \"basic test done\"'' (
     Lib_call (Create2 FINALE 0) (\<lambda>ret.
     assert_that (thread_ret_ok ret \<noteq> 0) (
     Lib_call Exit2 (\<lambda>_. Failed_assert)))))"

text \<open>The last part, with what \<open>mallinfo\<close> gave at the start. The number of blocks that are mapped
  on their own (\<open>hblks\<close>) is left out: blocks of the sizes in use are not.\<close>

definition test_destroy :: "int \<Rightarrow> user" where
  "test_destroy start_use =
     Look_at (\<lambda>v.
     Lib_call (Kill2 (me v)) (\<lambda>ret.
     assert_that (ret = THREAD_INVALID) (
     print_line ''testing some destroys even though I'm the only thread'' (
     Lib_call (Kill2 42) (\<lambda>ret.
     assert_that (ret = THREAD_INVALID) (
     Lib_call (Kill2 (- 42)) (\<lambda>ret.
     assert_that (ret = THREAD_INVALID) (
     Lib_call (Kill2 (THREAD_MAX_THREADS + 1000)) (\<lambda>ret.
     assert_that (ret = THREAD_INVALID) (
     print_line ''testing destroy self'' (
     set_flag 0 (\<lambda>_.
     Lib_call (Create2 SUICIDE 0) (\<lambda>ret.
     assert_that (thread_ret_ok ret \<noteq> 0) (
     yield ret (\<lambda>ret.
     assert_that (thread_ret_ok ret \<noteq> 0) (
     set_flag 0 (\<lambda>flag.
     assert_that (flag = 1) (
     yield ret (\<lambda>ret.
     assert_that (ret = THREAD_INVALID) (
     Look_at (\<lambda>v.
     assert_that (in_use v \<le> start_use + 2 * THREAD_MIN_STACK) grand_finale)))))))))))))))))))))"

text \<open>All slots taken, then run; then again, with every second thread killed.\<close>

definition test_many :: "user \<Rightarrow> user" where
  "test_many k =
     print_line (''creating  '' @ show_int (THREAD_MAX_THREADS - 1) @ '' threads'') (
     create_facts (nat (THREAD_MAX_THREADS - 1)) [] (\<lambda>_.
     Lib_call (Create2 FACT 10) (\<lambda>ret.
     assert_that (ret = THREAD_NOMORE) (
     print_line (''running   '' @ show_int (THREAD_MAX_THREADS - 1) @ '' threads'') (
     yield 0 (\<lambda>ret.
     assert_that (thread_ret_ok ret \<noteq> 0) (
     yield_to_all (tl all_tids) (
     Look_at (\<lambda>v.
     assert_that (stacks_far_apart (stack_array (globals_seen v))) k)))))))))"

definition test_many_again :: "user \<Rightarrow> user" where
  "test_many_again k =
     print_line (''creating  '' @ show_int (THREAD_MAX_THREADS - 1) @ '' threads'') (
     create_facts (nat (THREAD_MAX_THREADS - 1)) [] (\<lambda>child.
     print_line (''destroying '' @ show_int (THREAD_MAX_THREADS div 2) @ '' threads'') (
     kill_some (map (\<lambda>j. child ! (2 * j)) [0..<nat (THREAD_MAX_THREADS div 2)]) (
     yield_to_all all_tids k))))"

definition test_hellos :: "user \<Rightarrow> user" where
  "test_hellos k =
     Look_at (\<lambda>v. let allocated_space = in_use v in
     Lib_call (Create2 HELLO 0) (\<lambda>ret.
     Look_at (\<lambda>v.
     assert_that (\<not> in_use v \<le> allocated_space) (
     print_line (''my id is '' @ show_int (me v)) (
     assert_that (thread_ret_ok ret \<noteq> 0) (
     yield ret (\<lambda>ret2.
     assert_that (ret2 = ret) (
     note_stack 0 (
     create_hellos NTHREADS 0 [] (\<lambda>child.
     Look_at (\<lambda>v.
     print_line (''my id is '' @ show_int (me v)) (
     yield_each child (
     print_line ''destroying all threads'' (
     kill_each (ret2 # child) (
     drain_threads (NTHREADS + 2) k)))))))))))))))"

text \<open>\<open>0xDEADBEEF\<close> as an \<open>int\<close> is negative.\<close>

definition test_basic :: user where
  "test_basic =
     print_line ''starting basic test'' (
     Look_at (\<lambda>v. let start_use = in_use v in
     assert_that (me v = 0) (
     yield THREAD_SELF (\<lambda>ret.
     assert_that (thread_ret_ok ret \<noteq> 0) (
     print_line ''initial thread returns from yield(SELF)'' (
     yield 0 (\<lambda>ret.
     assert_that (thread_ret_ok ret \<noteq> 0) (
     print_line ''initial thread returns from yield(0)'' (
     yield THREAD_ANY (\<lambda>ret.
     assert_that (ret = THREAD_NONE) (
     print_line ''initial thread returns from yield(ANY)'' (
     yield (- 559038737) (\<lambda>ret.
     assert_that (ret = THREAD_INVALID) (
     print_line ''initial thread returns from yield(INVALID)'' (
     yield 16 (\<lambda>ret.
     assert_that (ret = THREAD_INVALID) (
     print_line ''initial thread returns from yield(INVALID2)'' (
     test_hellos (test_many (test_many_again (test_destroy start_use)))))))))))))))))))))"

section \<open>The machine\<close>

text \<open>A library: the running thread, its unfinished calls, the result of the last call, a call,
  the bytes in use and the addresses of the variables of the running thread.\<close>

record 'l library =
  lib_now :: "'l \<Rightarrow> int"
  lib_unfinished :: "'l \<Rightarrow> frame2 list"
  lib_result :: "'l \<Rightarrow> int"
  lib_call :: "api2 \<Rightarrow> 'l \<Rightarrow> 'l result"
  lib_in_use :: "'l \<Rightarrow> int"
  lib_here :: "'l \<Rightarrow> nat \<Rightarrow> int"

text \<open>\<open>code_of t\<close> is what is left of the program of thread \<open>t\<close>, given the result of its last call.\<close>

record 'l machine =
  library_state :: 'l
  test_globals :: test_globals
  code_of :: "int \<Rightarrow> int \<Rightarrow> user"

definition look_of :: "'l library \<Rightarrow> 'l machine \<Rightarrow> look" where
  "look_of L m = \<lparr>me = lib_now L (library_state m), in_use = lib_in_use L (library_state m),
     here = lib_here L (library_state m), globals_seen = test_globals m\<rparr>"

text \<open>A step: the rest of an unfinished call, which for a new thread is the start of its function,
  or the next thing that user code does, which is never \<open>Continue2\<close>. The stub calls \<open>thread_exit\<close> when the function returns.\<close>

definition user_step :: "'l library \<Rightarrow> 'l machine \<Rightarrow> 'l machine result" where
  "user_step L m =
     (let t = lib_now L (library_state m);
          code = (\<lambda>k. (code_of m)(t := k)) in
      case lib_unfinished L (library_state m) of
        f # _ \<Rightarrow> bindE (lib_call L Continue2 (library_state m)) (\<lambda>l.
          Inr (m\<lparr>library_state := l,
            code_of := (case f of At_stub2 fn arg \<Rightarrow> code (\<lambda>_. thread_main fn arg) | _ \<Rightarrow> code_of m)\<rparr>))
      | [] \<Rightarrow> (case code_of m t (lib_result L (library_state m)) of
          Lib_call a k \<Rightarrow> if a = Continue2 then Inl Undefined else bindE (lib_call L a (library_state m)) (\<lambda>l. Inr (m\<lparr>library_state := l, code_of := code k\<rparr>))
        | Look_at f \<Rightarrow> Inr (m\<lparr>code_of := code (\<lambda>_. f (look_of L m))\<rparr>)
        | Assign f k \<Rightarrow> Inr (m\<lparr>test_globals := f (look_of L m), code_of := code (\<lambda>_. k)\<rparr>)
        | Returned_main \<Rightarrow> bindE (lib_call L Exit2 (library_state m)) (\<lambda>l. Inr (m\<lparr>library_state := l\<rparr>))
        | Failed_assert \<Rightarrow> Inl Assertion))"

text \<open>\<open>main\<close>: the state after \<open>thread_init\<close>, with the whole test ahead.\<close>

definition test_start :: "'l \<Rightarrow> 'l machine" where
  "test_start l = \<lparr>library_state = l,
     test_globals = \<lparr>flag_value = 0, stack_array = (\<lambda>_. 0), printed = []\<rparr>,
     code_of = (\<lambda>t _. if t = 0 then test_basic else Failed_assert)\<rparr>"

text \<open>What the test sees of the C library and of the compiler: the bytes that \<open>malloc\<close> accounts for a
  stack and for a node of the queue, and the address of a variable in frame \<open>d\<close> of the stack \<open>p\<close>,
  which is NULL for the main thread.\<close>

record memory =
  stack_cost :: int
  node_cost :: int
  address_of :: "ptr \<Rightarrow> nat \<Rightarrow> int"

definition lab2_library :: "memory \<Rightarrow> sys2 library" where
  "lab2_library M = \<lparr>
     lib_now = running_thread_id2,
     lib_unfinished = (\<lambda>s. frames_of2 s (running_thread_id2 s)),
     lib_result = result2,
     lib_call = step2,
     lib_in_use = (\<lambda>s. stack_cost M * int (card (dom (cells (stacks2 s)))) +
       node_cost M * int (card (dom (cells (fst (thread_queue2 s)))))),
     lib_here = (\<lambda>s. address_of M (orig_stack_begin2 (thread_array2 s (running_thread_id2 s))))\<rparr>"

end
