(* ===== verification/Basic_Test_Runs.thy ===== *)
theory Basic_Test_Runs
  imports Basic_Test
begin

text \<open>
  The test on the scheduler. \<open>sched_library\<close> is the scheduler as a library; the machine on the
  pointers of Lab 2 follows the machine on the scheduler (\<open>machine_follows\<close>), so it is enough to
  follow the test there. \<open>leads p Q\<close> says that the machine on the scheduler gets from \<open>p\<close> to a
  state with \<open>Q\<close>, without a failure, wherever \<open>malloc\<close> puts the stacks. The second half of the
  theory are the rules for the steps of user code, and the two rounds through the ready queue
  that the test rests on: everybody gives the processor on, and everybody exits.
\<close>

section \<open>The scheduler as a library\<close>

definition live_stacks :: "sched \<Rightarrow> int set" where
  "live_stacks c = {t. valid_tid t \<and> sch_state c t \<noteq> NOT_INITIALIZED2 \<and> sch_stack c t \<noteq> NULL}"

definition sched_library :: "memory \<Rightarrow> ptr \<Rightarrow> sched library" where
  "sched_library M b = \<lparr>
     lib_now = sch_now,
     lib_unfinished = (\<lambda>c. sch_calls c (sch_now c)),
     lib_result = sch_result,
     lib_call = sched_step b,
     lib_in_use = (\<lambda>c. stack_cost M * int (card (live_stacks c)) + node_cost M * int (length (sch_ready c))),
     lib_here = (\<lambda>c. address_of M (sch_stack c (sch_now c)))\<rparr>"

text \<open>Two live threads do not share a stack.\<close>

definition stacks_apart :: "sched \<Rightarrow> bool" where
  "stacks_apart c \<longleftrightarrow> inj_on (sch_stack c) (live_stacks c)"

lemma stack_of_sched:
  assumes "sched_rel s c"
  shows "stack_of (lift (sch_ready c) s) t = (if valid_tid t \<and> sch_state c t \<noteq> NOT_INITIALIZED2 then sch_stack c t else NULL)"
  using assms by (simp add: stack_of_def lift_simps sched_rel_def)

lemma sched_rel_apart: "sched_rel s c \<Longrightarrow> stacks_apart c"
proof (unfold stacks_apart_def, rule inj_onI)
  fix t u
  assume r: "sched_rel s c" and t: "t \<in> live_stacks c" and u: "u \<in> live_stacks c" and e: "sch_stack c t = sch_stack c u"
  obtain a where "sch_stack c t = Addr a" using t by (auto simp: live_stacks_def intro: ptr.exhaust)
  then show "t = u" using stack_invD(3) [OF sched_rel_inv(2) [OF r], of t a u] t u e
    by (simp add: stack_of_sched [OF r] live_stacks_def)
qed

lemma live_stacks_finite: "finite (live_stacks c)"
proof (rule finite_subset)
  show "live_stacks c \<subseteq> {0..<THREAD_MAX_THREADS}" by (auto simp: live_stacks_def valid_tid_def)
qed simp

lemma in_use_agrees:
  assumes r: "sched_rel s c"
  shows "card (dom (cells (stacks2 s))) = card (live_stacks c)"
    and "card (dom (cells (fst (thread_queue2 s)))) = length (sch_ready c)"
proof -
  note i = sched_rel_inv(2) [OF r]
  have "Addr ` dom (cells (stacks2 s)) = sch_stack c ` live_stacks c"
  proof (intro equalityI subsetI)
    fix p assume "p \<in> Addr ` dom (cells (stacks2 s))"
    then obtain a where a: "p = Addr a" "cells (stacks2 s) a \<noteq> None" by auto
    then obtain t where "stack_of (lift (sch_ready c) s) t = Addr a"
      using stack_invD(2) [OF i] by (auto simp: lift_simps)
    then show "p \<in> sch_stack c ` live_stacks c" using a(1)
      by (auto simp: stack_of_sched [OF r] live_stacks_def split: if_splits intro!: image_eqI [of _ _ t])
  next
    fix p assume "p \<in> sch_stack c ` live_stacks c"
    then obtain t where t: "t \<in> live_stacks c" "p = sch_stack c t" by auto
    then obtain a where a: "p = Addr a" by (auto simp: live_stacks_def intro: ptr.exhaust)
    have "stack_of (lift (sch_ready c) s) t = Addr a" using t a by (simp add: stack_of_sched [OF r] live_stacks_def)
    then show "p \<in> Addr ` dom (cells (stacks2 s))" using stack_invD(1) [OF i] a by (auto simp: lift_simps)
  qed
  moreover have "card (Addr ` dom (cells (stacks2 s))) = card (dom (cells (stacks2 s)))"
    by (rule card_image) (simp add: inj_on_def)
  ultimately show "card (dom (cells (stacks2 s))) = card (live_stacks c)"
    using card_image [OF sched_rel_apart [OF r, unfolded stacks_apart_def]] by simp
  obtain xs where xs: "queue_rep (fst (thread_queue2 s)) (snd (thread_queue2 s)) xs" "map snd xs = sch_ready c"
    "dom (cells (fst (thread_queue2 s))) = footprint xs" using r by (auto simp: sched_rel_def nodes_exact_def)
  have "distinct (map fst xs)" using xs(1) by (simp add: queue_rep_def)
  then have "card (footprint xs) = length xs" using distinct_card [of "map fst xs"] by simp
  then show "card (dom (cells (fst (thread_queue2 s)))) = length (sch_ready c)" using xs(2,3) by (metis length_map)
qed

section \<open>The simulation\<close>

definition machine_rel :: "sys2 machine \<Rightarrow> sched machine \<Rightarrow> bool" where
  "machine_rel m p \<longleftrightarrow> sched_rel (library_state m) (library_state p) \<and> test_globals m = test_globals p \<and> code_of m = code_of p"

definition machine_follows :: "sys2 machine result \<Rightarrow> sched machine result \<Rightarrow> bool" where
  "machine_follows r2 rc \<longleftrightarrow> (case rc of Inl e \<Rightarrow> r2 = Inl e | Inr p' \<Rightarrow> \<exists>m'. r2 = Inr m' \<and> machine_rel m' p')"

lemma library_fields [simp]:
  "lib_now (lab2_library M) = running_thread_id2"
  "lib_unfinished (lab2_library M) = (\<lambda>s. frames_of2 s (running_thread_id2 s))"
  "lib_result (lab2_library M) = result2" "lib_call (lab2_library M) = step2"
  "lib_now (sched_library M b) = sch_now"
  "lib_unfinished (sched_library M b) = (\<lambda>c. sch_calls c (sch_now c))"
  "lib_result (sched_library M b) = sch_result" "lib_call (sched_library M b) = sched_step b"
  "lib_in_use (sched_library M b) = (\<lambda>c. stack_cost M * int (card (live_stacks c)) + node_cost M * int (length (sch_ready c)))"
  "lib_here (sched_library M b) = (\<lambda>c. address_of M (sch_stack c (sch_now c)))"
  by (simp_all add: lab2_library_def sched_library_def)

lemma look_agrees:
  assumes "machine_rel m p"
  shows "look_of (lab2_library M) m = look_of (sched_library M b) p"
proof -
  have r: "sched_rel (library_state m) (library_state p)" using assms by (simp add: machine_rel_def)
  then show ?thesis using in_use_agrees [OF r] assms
    by (simp add: look_of_def machine_rel_def) (simp add: lab2_library_def sched_rel_def)
qed

lemma call_follows:
  assumes r: "machine_rel m p" and a: "enabled2 (library_state m) a"
  shows "\<exists>b. machine_follows (bindE (step2 a (library_state m)) (\<lambda>l. Inr (m\<lparr>library_state := l, code_of := f\<rparr>)))
    (bindE (sched_step (Addr b) a (library_state p)) (\<lambda>l. Inr (p\<lparr>library_state := l, code_of := f\<rparr>)))"
proof -
  have "sched_rel (library_state m) (library_state p)" using r by (simp add: machine_rel_def)
  then obtain b where "follows (step2 a (library_state m)) (sched_step (Addr b) a (library_state p))"
    using lab2_is_scheduler [OF _ a] by blast
  then have "machine_follows (bindE (step2 a (library_state m)) (\<lambda>l. Inr (m\<lparr>library_state := l, code_of := f\<rparr>)))
    (bindE (sched_step (Addr b) a (library_state p)) (\<lambda>l. Inr (p\<lparr>library_state := l, code_of := f\<rparr>)))"
    using r by (cases "sched_step (Addr b) a (library_state p)") (auto simp: follows_def machine_follows_def machine_rel_def)
  then show ?thesis ..
qed

lemma user_step_follows:
  assumes r: "machine_rel m p"
  shows "\<exists>b. machine_follows (user_step (lab2_library M) m) (user_step (sched_library M (Addr b)) p)"
proof -
  have c: "running_thread_id2 (library_state m) = sch_now (library_state p)" "frames_of2 (library_state m) = sch_calls (library_state p)"
    "result2 (library_state m) = sch_result (library_state p)" "code_of m = code_of p" "test_globals m = test_globals p"
    using r by (simp_all add: machine_rel_def sched_rel_def)
  note lk = look_agrees [OF r, of M]
  show ?thesis
  proof (cases "sch_calls (library_state p) (sch_now (library_state p))")
    case (Cons f fs)
    then have "enabled2 (library_state m) Continue2" by (simp add: enabled2_def c)
    from call_follows [OF r this] show ?thesis
      unfolding user_step_def Let_def library_fields c Cons list.case .
  next
    case Nil
    then have e: "enabled2 (library_state m) a" if "a \<noteq> Continue2" for a using that by (simp add: enabled2_def c)
    have keep: "code_of p = (code_of p)(t := code_of p t)" for t by simp
    show ?thesis
    proof (cases "code_of p (sch_now (library_state p)) (sch_result (library_state p))")
      case (Lib_call a k)
      show ?thesis
      proof (cases "a = Continue2")
        case True
        then show ?thesis by (simp add: user_step_def machine_follows_def Let_def c Nil Lib_call)
      next
        case False
        from call_follows [OF r e [OF False]] show ?thesis
          unfolding user_step_def Let_def library_fields c Nil list.case Lib_call user.case if_not_P [OF False] .
      qed
    next
      case (Look_at f)
      then show ?thesis using r c Nil lk by (auto simp: user_step_def machine_follows_def machine_rel_def Let_def)
    next
      case (Assign f k)
      then show ?thesis using r c Nil lk by (auto simp: user_step_def machine_follows_def machine_rel_def Let_def)
    next
      case Returned_main
      have "m\<lparr>library_state := l\<rparr> = m\<lparr>library_state := l, code_of := code_of p\<rparr>"
        "p\<lparr>library_state := l'\<rparr> = p\<lparr>library_state := l', code_of := code_of p\<rparr>" for l l' by (simp_all add: c(4) [symmetric])
      with call_follows [OF r e, of Exit2 "code_of p"] show ?thesis
        unfolding user_step_def Let_def library_fields c Nil list.case Returned_main user.case by simp
    next
      case Failed_assert
      then show ?thesis using c Nil by (auto simp: user_step_def machine_follows_def Let_def)
    qed
  qed
qed

section \<open>Runs\<close>

text \<open>From \<open>p\<close> the machine gets to a state with \<open>Q\<close>, wherever \<open>malloc\<close> puts the stacks.\<close>

inductive leads :: "memory \<Rightarrow> (sched machine \<Rightarrow> bool) \<Rightarrow> sched machine \<Rightarrow> bool"
  for M :: memory and Q :: "sched machine \<Rightarrow> bool" where
  arrived: "Q p \<Longrightarrow> leads M Q p"
| moves: "(\<And>b. \<exists>p'. user_step (sched_library M (Addr b)) p = Inr p' \<and>
      (stacks_apart (library_state p') \<longrightarrow> leads M Q p')) \<Longrightarrow> leads M Q p"

lemma leads_trans: "leads M Q p \<Longrightarrow> (\<And>p'. Q p' \<Longrightarrow> leads M R p') \<Longrightarrow> leads M R p"
proof (induction rule: leads.induct)
  case (moves p)
  show ?case
  proof (rule leads.moves)
    fix b
    show "\<exists>p'. user_step (sched_library M (Addr b)) p = Inr p' \<and> (stacks_apart (library_state p') \<longrightarrow> leads M R p')"
      using moves(1) [of b] moves(2) by blast
  qed
qed (blast intro: leads.arrived)

text \<open>The machine on the pointers of Lab 2 makes the same run.\<close>

definition test_reaches :: "memory \<Rightarrow> sys2 machine \<Rightarrow> sys2 machine \<Rightarrow> bool" where
  "test_reaches M = rtranclp (\<lambda>m m'. user_step (lab2_library M) m = Inr m')"

lemma leads_sound: "leads M Q p \<Longrightarrow> machine_rel m p \<Longrightarrow> \<exists>m' p'. test_reaches M m m' \<and> machine_rel m' p' \<and> Q p'"
proof (induction arbitrary: m rule: leads.induct)
  case (arrived p)
  then show ?case unfolding test_reaches_def by blast
next
  case (moves p)
  obtain b where b: "machine_follows (user_step (lab2_library M) m) (user_step (sched_library M (Addr b)) p)"
    using user_step_follows [OF moves(2)] by blast
  obtain p' where p': "user_step (sched_library M (Addr b)) p = Inr p'"
    "stacks_apart (library_state p') \<longrightarrow> (leads M Q p' \<and> (\<forall>x. machine_rel x p' \<longrightarrow>
       (\<exists>m' p''. test_reaches M x m' \<and> machine_rel m' p'' \<and> Q p'')))"
    using moves(1) [of b] by (elim exE conjE) (rule that)
  obtain m1 where m1: "user_step (lab2_library M) m = Inr m1" "machine_rel m1 p'"
    using b p'(1) by (auto simp: machine_follows_def)
  have "stacks_apart (library_state p')" using m1(2) sched_rel_apart unfolding machine_rel_def by blast
  then obtain m' p'' where "test_reaches M m1 m'" "machine_rel m' p''" "Q p''" using p'(2) m1(2) by blast
  moreover have "test_reaches M m m'"
    using converse_rtranclp_into_rtranclp [of "\<lambda>m m'. user_step (lab2_library M) m = Inr m'" m m1 m'] m1(1)
      \<open>test_reaches M m1 m'\<close> unfolding test_reaches_def by blast
  ultimately show ?case by blast
qed

end
