(* ===== verification/Basic_Test_Scenes.thy ===== *)
theory Basic_Test_Scenes
  imports Basic_Test_Runs
begin

text \<open>
  The test without the library. A scene says what matters of a state of the machine: which
  thread runs, who is ready and what each ready thread will do when it gets the processor
  (\<open>None\<close> when it was killed), where the stacks are, who has exited and is not yet cleaned up,
  and the global variables. The rules give, for each thing that user code does, the scene in
  which the program goes on; \<open>hand_over\<close> is the way of the processor through killed threads.
\<close>

section \<open>Scenes\<close>

record scene =
  s_now :: int
  s_ready :: "int list"
  s_role :: "int \<Rightarrow> user option"
  s_stack :: "int \<Rightarrow> ptr"
  s_exited :: "int set"
  s_flag :: int
  s_array :: "int \<Rightarrow> int"

text \<open>Updates in the order of the fields.\<close>

lemma scene_order [simp]:
  fixes S :: scene
  shows
  "S\<lparr>s_ready := q, s_now := n\<rparr> = S\<lparr>s_now := n, s_ready := q\<rparr>"
  "S\<lparr>s_role := r, s_now := n\<rparr> = S\<lparr>s_now := n, s_role := r\<rparr>"
  "S\<lparr>s_stack := st, s_now := n\<rparr> = S\<lparr>s_now := n, s_stack := st\<rparr>"
  "S\<lparr>s_exited := ex, s_now := n\<rparr> = S\<lparr>s_now := n, s_exited := ex\<rparr>"
  "S\<lparr>s_flag := fl, s_now := n\<rparr> = S\<lparr>s_now := n, s_flag := fl\<rparr>"
  "S\<lparr>s_array := ar, s_now := n\<rparr> = S\<lparr>s_now := n, s_array := ar\<rparr>"
  "S\<lparr>s_role := r, s_ready := q\<rparr> = S\<lparr>s_ready := q, s_role := r\<rparr>"
  "S\<lparr>s_stack := st, s_ready := q\<rparr> = S\<lparr>s_ready := q, s_stack := st\<rparr>"
  "S\<lparr>s_exited := ex, s_ready := q\<rparr> = S\<lparr>s_ready := q, s_exited := ex\<rparr>"
  "S\<lparr>s_flag := fl, s_ready := q\<rparr> = S\<lparr>s_ready := q, s_flag := fl\<rparr>"
  "S\<lparr>s_array := ar, s_ready := q\<rparr> = S\<lparr>s_ready := q, s_array := ar\<rparr>"
  "S\<lparr>s_stack := st, s_role := r\<rparr> = S\<lparr>s_role := r, s_stack := st\<rparr>"
  "S\<lparr>s_exited := ex, s_role := r\<rparr> = S\<lparr>s_role := r, s_exited := ex\<rparr>"
  "S\<lparr>s_flag := fl, s_role := r\<rparr> = S\<lparr>s_role := r, s_flag := fl\<rparr>"
  "S\<lparr>s_array := ar, s_role := r\<rparr> = S\<lparr>s_role := r, s_array := ar\<rparr>"
  "S\<lparr>s_exited := ex, s_stack := st\<rparr> = S\<lparr>s_stack := st, s_exited := ex\<rparr>"
  "S\<lparr>s_flag := fl, s_stack := st\<rparr> = S\<lparr>s_stack := st, s_flag := fl\<rparr>"
  "S\<lparr>s_array := ar, s_stack := st\<rparr> = S\<lparr>s_stack := st, s_array := ar\<rparr>"
  "S\<lparr>s_flag := fl, s_exited := ex\<rparr> = S\<lparr>s_exited := ex, s_flag := fl\<rparr>"
  "S\<lparr>s_array := ar, s_exited := ex\<rparr> = S\<lparr>s_exited := ex, s_array := ar\<rparr>"
  "S\<lparr>s_array := ar, s_flag := fl\<rparr> = S\<lparr>s_flag := fl, s_array := ar\<rparr>"
  by (cases S; simp)+

definition s_live :: "scene \<Rightarrow> int set" where
  "s_live S = {v. valid_tid v \<and> (v = s_now S \<or> v \<in> set (s_ready S) \<or> v \<in> s_exited S) \<and> s_stack S v \<noteq> NULL}"

definition s_apart :: "scene \<Rightarrow> bool" where
  "s_apart S \<longleftrightarrow> inj_on (s_stack S) (s_live S)"

lemma machine_order [simp]: "p\<lparr>code_of := f, library_state := l\<rparr> = p\<lparr>library_state := l, code_of := f\<rparr>"
  by (cases p) simp

text \<open>The thread \<open>v\<close>, when it gets the processor, goes on with \<open>u\<close>.\<close>

definition resumes :: "sched machine \<Rightarrow> int \<Rightarrow> user \<Rightarrow> bool" where
  "resumes p v u \<longleftrightarrow>
     (\<exists>fn arg. sch_calls (library_state p) v = [At_stub2 fn arg] \<and> u = thread_main fn arg) \<or>
     (\<exists>n. sch_calls (library_state p) v = [Yield_return2 n] \<and> code_of p v n = u)"

definition plays :: "sched machine \<Rightarrow> int \<Rightarrow> user option \<Rightarrow> bool" where
  "plays p v r \<longleftrightarrow> (case r of
      None \<Rightarrow> sch_state (library_state p) v = KILLED2
    | Some u \<Rightarrow> sch_state (library_state p) v = READY2 \<and> resumes p v u)"

definition scene_of :: "scene \<Rightarrow> sched machine \<Rightarrow> bool" where
  "scene_of S p \<longleftrightarrow> (let c = library_state p in
     sch_now c = s_now S \<and> valid_tid (s_now S) \<and> sch_ready c = s_ready S \<and> distinct (s_now S # s_ready S) \<and>
     sch_state c (s_now S) = RUNNING2 \<and> (\<forall>v\<in>set (s_ready S). valid_tid v \<and> plays p v (s_role S v)) \<and>
     (\<forall>v. valid_tid v \<longrightarrow> v \<noteq> s_now S \<longrightarrow> v \<notin> set (s_ready S) \<longrightarrow>
        sch_state c v = (if v \<in> s_exited S then EXITED2 else NOT_INITIALIZED2)) \<and>
     sch_stack c = s_stack S \<and> flag_value (test_globals p) = s_flag S \<and> stack_array (test_globals p) = s_array S \<and>
     stacks_apart c)"

definition stage :: "scene \<Rightarrow> user \<Rightarrow> sched machine \<Rightarrow> bool" where
  "stage S u p \<longleftrightarrow> scene_of S p \<and> sch_calls (library_state p) (s_now S) = [] \<and>
     code_of p (s_now S) (sch_result (library_state p)) = u"

text \<open>The running thread has just got the processor.\<close>

definition s_woken :: "scene \<Rightarrow> user option \<Rightarrow> sched machine \<Rightarrow> bool" where
  "s_woken S r p \<longleftrightarrow> scene_of S p \<and> (case r of
      None \<Rightarrow> sch_calls (library_state p) (s_now S) = [At_thread_exit2]
    | Some u \<Rightarrow> resumes p (s_now S) u)"

definition arrives :: "memory \<Rightarrow> scene \<Rightarrow> user \<Rightarrow> (scene \<Rightarrow> user \<Rightarrow> bool) \<Rightarrow> bool" where
  "arrives M S u P \<longleftrightarrow> (\<forall>p. stage S u p \<longrightarrow> leads M (\<lambda>p'. \<exists>S' u'. stage S' u' p' \<and> P S' u') p)"

lemma stageD:
  assumes "stage S u p"
  shows "sch_now (library_state p) = s_now S" and "valid_tid (s_now S)" and "sch_ready (library_state p) = s_ready S"
    and "distinct (s_ready S)" and "s_now S \<notin> set (s_ready S)" and "sch_state (library_state p) (s_now S) = RUNNING2"
    and "v \<in> set (s_ready S) \<Longrightarrow> valid_tid v \<and> plays p v (s_role S v)"
    and "valid_tid v \<Longrightarrow> v \<noteq> s_now S \<Longrightarrow> v \<notin> set (s_ready S) \<Longrightarrow>
      sch_state (library_state p) v = (if v \<in> s_exited S then EXITED2 else NOT_INITIALIZED2)"
    and "sch_stack (library_state p) = s_stack S" and "flag_value (test_globals p) = s_flag S"
    and "stack_array (test_globals p) = s_array S" and "stacks_apart (library_state p)"
    and "sch_calls (library_state p) (s_now S) = []" and "code_of p (s_now S) (sch_result (library_state p)) = u"
  using assms by (auto simp: stage_def scene_of_def Let_def)

lemma stage_live: "stage S u p \<Longrightarrow> live_stacks (library_state p) = s_live S"
proof (rule set_eqI)
  fix v
  assume st: "stage S u p"
  note d = stageD [OF st]
  show "v \<in> live_stacks (library_state p) \<longleftrightarrow> v \<in> s_live S"
  proof (cases "valid_tid v \<and> v \<noteq> s_now S \<and> v \<notin> set (s_ready S)")
    case True
    then show ?thesis using d(8) [of v] d(9) by (auto simp: live_stacks_def s_live_def)
  next
    case False
    have "v \<in> set (s_ready S) \<Longrightarrow> sch_state (library_state p) v \<noteq> NOT_INITIALIZED2"
      using d(7) [of v] by (auto simp: plays_def split: option.splits)
    then show ?thesis using False d(6,9) by (auto simp: live_stacks_def s_live_def)
  qed
qed

lemma stage_apart: "stage S u p \<Longrightarrow> s_apart S"
  using stage_live [of S u p] stageD(9,12) [of S u p] by (simp add: s_apart_def stacks_apart_def)

lemma arrives_here: "P S u \<Longrightarrow> arrives M S u P"
  unfolding arrives_def by (blast intro: leads.arrived)

lemma arrives_trans:
  assumes "arrives M S u P" and "\<And>S' u'. P S' u' \<Longrightarrow> arrives M S' u' R"
  shows "arrives M S u R"
  using assms unfolding arrives_def by (blast intro: leads_trans)

lemma arrives_if_apart: "(s_apart S \<Longrightarrow> arrives M S u P) \<Longrightarrow> arrives M S u P"
  unfolding arrives_def using stage_apart by blast

text \<open>A step that leads from every machine with the scene to one with the next scene.\<close>

lemma arrives_step:
  assumes "\<And>p b. stage S u p \<Longrightarrow> \<exists>p'. user_step (sched_library M (Addr b)) p = Inr p' \<and>
      (stacks_apart (library_state p') \<longrightarrow> (\<exists>S' u'. stage S' u' p' \<and> arrives M S' u' P))"
  shows "arrives M S u P"
  unfolding arrives_def
proof (intro allI impI)
  fix p assume st: "stage S u p"
  show "leads M (\<lambda>p'. \<exists>S' u'. stage S' u' p' \<and> P S' u') p"
  proof (rule leads.moves)
    fix b
    from assms [OF st, of b] show "\<exists>p'. user_step (sched_library M (Addr b)) p = Inr p' \<and>
        (stacks_apart (library_state p') \<longrightarrow> leads M (\<lambda>p'. \<exists>S' u'. stage S' u' p' \<and> P S' u') p')"
      unfolding arrives_def by blast
  qed
qed

section \<open>What user code does by itself\<close>

text \<open>The scene does not see a change of the running thread's program.\<close>

lemma scene_of_code:
  "scene_of S (p\<lparr>code_of := (code_of p)(s_now S := k)\<rparr>) = scene_of S p"
  by (auto simp: scene_of_def plays_def resumes_def Let_def split: option.splits)

lemma scene_of_globals:
  "scene_of S p \<Longrightarrow> flag_value g = F \<Longrightarrow> stack_array g = A \<Longrightarrow>
   scene_of (S\<lparr>s_flag := F, s_array := A\<rparr>) (p\<lparr>test_globals := g\<rparr>)"
  by (auto simp: scene_of_def plays_def resumes_def Let_def split: option.splits)

lemma arrives_assign:
  assumes f: "\<And>l. me l = s_now S \<Longrightarrow> here l = address_of M (s_stack S (s_now S)) \<Longrightarrow>
      flag_value (globals_seen l) = s_flag S \<Longrightarrow> stack_array (globals_seen l) = s_array S \<Longrightarrow>
      flag_value (f l) = F \<and> stack_array (f l) = A"
    and k: "arrives M (S\<lparr>s_flag := F, s_array := A\<rparr>) k P"
  shows "arrives M S (Assign f k) P"
proof (rule arrives_step)
  fix p b assume st: "stage S (Assign f k) p"
  note d = stageD [OF st]
  let ?l = "look_of (sched_library M (Addr b)) p"
  let ?p = "p\<lparr>test_globals := f ?l, code_of := (code_of p)(s_now S := \<lambda>_. k)\<rparr>"
  have "user_step (sched_library M (Addr b)) p = Inr ?p"
    using d(1,13,14) by (simp add: user_step_def)
  moreover have l: "me ?l = s_now S" "here ?l = address_of M (s_stack S (s_now S))"
    "flag_value (globals_seen ?l) = s_flag S" "stack_array (globals_seen ?l) = s_array S"
    using d by (simp_all add: look_of_def)
  have "scene_of (S\<lparr>s_flag := F, s_array := A\<rparr>) (p\<lparr>test_globals := f ?l\<rparr>)"
    using st f [OF l] by (intro scene_of_globals) (simp_all add: stage_def)
  then have "stage (S\<lparr>s_flag := F, s_array := A\<rparr>) k ?p"
    using d(13) scene_of_code [of "S\<lparr>s_flag := F, s_array := A\<rparr>" "p\<lparr>test_globals := f ?l\<rparr>" "\<lambda>_. k"]
    by (simp add: stage_def)
  ultimately show "\<exists>p'. user_step (sched_library M (Addr b)) p = Inr p' \<and>
      (stacks_apart (library_state p') \<longrightarrow> (\<exists>S' u'. stage S' u' p' \<and> arrives M S' u' P))"
    using k by blast
qed

lemma arrives_print:
  assumes "arrives M S k P"
  shows "arrives M S (print_line s k) P"
  unfolding print_line_def by (rule arrives_assign [of _ _ _ "s_flag S" "s_array S"]) (simp_all add: assms)

lemma arrives_note:
  assumes "arrives M (S\<lparr>s_array := (s_array S)(s_now S := address_of M (s_stack S (s_now S)) d)\<rparr>) k P"
  shows "arrives M S (note_stack d k) P"
  unfolding note_stack_def
  by (rule arrives_assign [of _ _ _ "s_flag S" "(s_array S)(s_now S := address_of M (s_stack S (s_now S)) d)"])
    (simp_all add: assms)

lemma arrives_look:
  assumes "\<And>l. me l = s_now S \<Longrightarrow>
      in_use l = stack_cost M * int (card (s_live S)) + node_cost M * int (length (s_ready S)) \<Longrightarrow>
      flag_value (globals_seen l) = s_flag S \<Longrightarrow> stack_array (globals_seen l) = s_array S \<Longrightarrow> arrives M S (f l) P"
  shows "arrives M S (Look_at f) P"
proof (rule arrives_step)
  fix p b assume st: "stage S (Look_at f) p"
  note d = stageD [OF st]
  let ?l = "look_of (sched_library M (Addr b)) p"
  let ?p = "p\<lparr>code_of := (code_of p)(s_now S := \<lambda>_. f ?l)\<rparr>"
  have "user_step (sched_library M (Addr b)) p = Inr ?p"
    using d(1,13,14) by (simp add: user_step_def)
  moreover have "stage S (f ?l) ?p" using st by (simp add: stage_def scene_of_code)
  moreover have "arrives M S (f ?l) P"
    using d stage_live [OF st] by (intro assms) (simp_all add: look_of_def)
  ultimately show "\<exists>p'. user_step (sched_library M (Addr b)) p = Inr p' \<and>
      (stacks_apart (library_state p') \<longrightarrow> (\<exists>S' u'. stage S' u' p' \<and> arrives M S' u' P))" by blast
qed

lemma arrives_set_flag:
  assumes "arrives M (S\<lparr>s_flag := v\<rparr>) (k (s_flag S)) P"
  shows "arrives M S (set_flag v k) P"
  unfolding set_flag_def
proof (rule arrives_look)
  fix l assume "flag_value (globals_seen l) = s_flag S"
  then show "arrives M S (Assign (\<lambda>l'. (globals_seen l')\<lparr>flag_value := v\<rparr>) (k (flag_value (globals_seen l)))) P"
    using assms by (intro arrives_assign [of _ _ _ v "s_array S"]) simp_all
qed

section \<open>Giving the processor away\<close>

abbreviation goal :: "(scene \<Rightarrow> user \<Rightarrow> bool) \<Rightarrow> sched machine \<Rightarrow> bool" where
  "goal P \<equiv> \<lambda>p. \<exists>S u. stage S u p \<and> P S u"

text \<open>The next thread of \<open>q\<close> that is not killed; the killed ones before it exit.\<close>

fun hand_over :: "scene \<Rightarrow> int list \<Rightarrow> (scene \<times> user) option" where
  "hand_over S [] = None"
| "hand_over S (v # q) = (case s_role S v of
      Some u \<Rightarrow> Some (S\<lparr>s_now := v, s_ready := q\<rparr>, u)
    | None \<Rightarrow> hand_over (S\<lparr>s_exited := insert v (s_exited S)\<rparr>) q)"

lemma plays_cong:
  "sch_state (library_state p') v = sch_state (library_state p) v \<Longrightarrow>
   sch_calls (library_state p') v = sch_calls (library_state p) v \<Longrightarrow> code_of p' v = code_of p v \<Longrightarrow>
   plays p' v r = plays p v r"
  by (simp add: plays_def resumes_def split: option.splits)

lemma arrives_call:
  assumes "\<And>p b. stage S u p \<Longrightarrow> \<exists>p'. user_step (sched_library M (Addr b)) p = Inr p' \<and>
      (stacks_apart (library_state p') \<longrightarrow> leads M (goal P) p')"
  shows "arrives M S u P"
  unfolding arrives_def
proof (intro allI impI)
  fix p assume "stage S u p"
  then show "leads M (goal P) p" by (intro leads.moves assms)
qed

text \<open>A thread that has the processor finishes its switch.\<close>

lemma woken_resume:
  assumes w: "s_woken S (Some u) p" and k: "arrives M S u P"
  shows "leads M (goal P) p"
proof (rule leads.moves)
  fix b
  let ?c = "library_state p"
  have sc: "scene_of S p" and r: "resumes p (s_now S) u" using w by (simp_all add: s_woken_def)
  have now: "sch_now ?c = s_now S" using sc by (simp add: scene_of_def Let_def)
  have fin: "scene_of S (p\<lparr>library_state := l, code_of := (code_of p)(s_now S := k)\<rparr>)"
    if "sch_state l = sch_state ?c" "sch_ready l = sch_ready ?c" "sch_now l = sch_now ?c" "sch_stack l = sch_stack ?c"
      "\<forall>v. v \<noteq> s_now S \<longrightarrow> sch_calls l v = sch_calls ?c v" for l k
    using sc that by (auto simp: scene_of_def Let_def stacks_apart_def live_stacks_def plays_def resumes_def split: option.splits)
  have fin1: "scene_of S (p\<lparr>library_state := l\<rparr>)"
    if "sch_state l = sch_state ?c" "sch_ready l = sch_ready ?c" "sch_now l = sch_now ?c" "sch_stack l = sch_stack ?c"
      "\<forall>v. v \<noteq> s_now S \<longrightarrow> sch_calls l v = sch_calls ?c v" for l
    using fin [OF that, of "code_of p (s_now S)"] by simp
  from r consider (stub) fn arg where "sch_calls ?c (s_now S) = [At_stub2 fn arg]" "u = thread_main fn arg"
    | (ret) n where "sch_calls ?c (s_now S) = [Yield_return2 n]" "code_of p (s_now S) n = u" by (auto simp: resumes_def)
  then obtain p' where "user_step (sched_library M (Addr b)) p = Inr p'" "stage S u p'"
  proof cases
    case stub
    let ?l = "?c\<lparr>sch_calls := (sch_calls ?c)(s_now S := [])\<rparr>"
    let ?p = "p\<lparr>library_state := ?l, code_of := (code_of p)(s_now S := \<lambda>_. u)\<rparr>"
    have "user_step (sched_library M (Addr b)) p = Inr ?p"
      using stub now by (simp add: user_step_def sched_continue_def)
    moreover have "stage S u ?p" using fin [of ?l "\<lambda>_. u"] by (simp add: stage_def)
    ultimately show ?thesis by (rule that)
  next
    case ret
    let ?l = "?c\<lparr>sch_calls := (sch_calls ?c)(s_now S := []), sch_result := n\<rparr>"
    have "user_step (sched_library M (Addr b)) p = Inr (p\<lparr>library_state := ?l\<rparr>)"
      using ret now by (simp add: user_step_def sched_continue_def)
    moreover have "stage S u (p\<lparr>library_state := ?l\<rparr>)" using fin1 [of ?l] ret by (simp add: stage_def)
    ultimately show ?thesis by (rule that)
  qed
  then show "\<exists>p'. user_step (sched_library M (Addr b)) p = Inr p' \<and> (stacks_apart (library_state p') \<longrightarrow> leads M (goal P) p')"
    using k unfolding arrives_def by blast
qed

text \<open>The running thread exits: its calls no longer matter.\<close>

lemma scene_exit:
  assumes sc: "scene_of S p" and q: "s_ready S = v # q"
    and g: "\<forall>w. w \<noteq> s_now S \<longrightarrow> g w = sch_calls (library_state p) w"
    and l: "l = sched_switch v q ((library_state p)\<lparr>sch_state := (sch_state (library_state p))(s_now S := EXITED2), sch_calls := g\<rparr>)"
    and a: "stacks_apart l"
  shows "s_woken (S\<lparr>s_now := v, s_ready := q, s_exited := insert (s_now S) (s_exited S)\<rparr>) (s_role S v) (p\<lparr>library_state := l\<rparr>)"
proof -
  let ?c = "library_state p" and ?p = "p\<lparr>library_state := l\<rparr>"
  let ?S = "S\<lparr>s_now := v, s_ready := q, s_exited := insert (s_now S) (s_exited S)\<rparr>"
  have d: "sch_now ?c = s_now S" "valid_tid (s_now S)" "sch_ready ?c = v # q" "distinct (s_now S # v # q)"
    "\<forall>w\<in>set (v # q). valid_tid w \<and> plays p w (s_role S w)" "sch_stack ?c = s_stack S"
    using sc q by (simp_all add: scene_of_def Let_def)
  have l': "sch_now l = v" "sch_ready l = q" "sch_stack l = s_stack S"
    "sch_state l = (sch_state ?c)(s_now S := EXITED2, v := RUNNING2)"
    "\<And>w. w \<noteq> v \<Longrightarrow> w \<noteq> s_now S \<Longrightarrow> sch_calls l w = sch_calls ?c w"
    "sch_calls l v = (if sch_state ?c v = KILLED2 then [At_thread_exit2] else sch_calls ?c v)"
    using d g by (auto simp: l sched_switch_def Let_def)
  have "plays ?p w (s_role S w)" if "w \<in> set q" for w
  proof -
    have w: "w \<noteq> v" "w \<noteq> s_now S" "plays p w (s_role S w)" using that d(4,5) by auto
    have "plays ?p w (s_role S w) = plays p w (s_role S w)"
      by (rule plays_cong) (use w l' in simp_all)
    then show ?thesis using w(3) by simp
  qed
  then have "scene_of ?S ?p" using sc d l' a q by (auto simp: scene_of_def Let_def)
  moreover have "case s_role S v of None \<Rightarrow> sch_calls l v = [At_thread_exit2] | Some u \<Rightarrow> resumes ?p v u"
    using d(5) l'(6) by (auto simp: plays_def resumes_def split: option.splits)
  ultimately show ?thesis by (cases "s_role S v") (simp_all add: s_woken_def)
qed

lemma hand_over_ignores:
  "hand_over (S\<lparr>s_now := a, s_ready := b, s_exited := X\<rparr>) q = hand_over (S\<lparr>s_exited := X\<rparr>) q"
  by (induction q arbitrary: X) (simp_all split: option.splits)

lemma woken_hand_over:
  assumes "s_woken S r p" and "r = None \<Longrightarrow> hand_over (S\<lparr>s_exited := insert (s_now S) (s_exited S)\<rparr>) (s_ready S) = Some (S', u')"
    and "r = None \<Longrightarrow> arrives M S' u' P" and "\<And>u. r = Some u \<Longrightarrow> arrives M S u P"
  shows "leads M (goal P) p"
  using assms
proof (induction "length (s_ready S)" arbitrary: S r p)
  case 0
  then show ?case by (cases r) (auto intro: woken_resume)
next
  case (Suc n)
  show ?case
  proof (cases r)
    case (Some u)
    then show ?thesis using Suc.prems by (auto intro: woken_resume)
  next
    case None
    obtain v q where q: "s_ready S = v # q" using Suc.hyps(2) by (cases "s_ready S") auto
    let ?S = "S\<lparr>s_exited := insert (s_now S) (s_exited S)\<rparr>"
    let ?T = "S\<lparr>s_now := v, s_ready := q, s_exited := insert (s_now S) (s_exited S)\<rparr>"
    have sc: "scene_of S p" and f: "sch_calls (library_state p) (s_now S) = [At_thread_exit2]"
      using Suc.prems(1) None by (simp_all add: s_woken_def)
    have now: "sch_now (library_state p) = s_now S" "sch_ready (library_state p) = v # q"
      using sc q by (simp_all add: scene_of_def Let_def)
    have ho: "hand_over ?S (v # q) = Some (S', u')" using Suc.prems(2) [OF None] q by simp
    define l where "l = sched_switch v q ((library_state p)\<lparr>sch_state := (sch_state (library_state p))(s_now S := EXITED2),
      sch_calls := (sch_calls (library_state p))(s_now S := [After_exit2])\<rparr>)"
    have step: "user_step (sched_library M b) p = Inr (p\<lparr>library_state := l\<rparr>)" for b
      using f now by (simp add: user_step_def sched_continue_def sched_exit_def l_def)
    have "leads M (goal P) (p\<lparr>library_state := l\<rparr>)" if a: "stacks_apart l"
    proof (rule Suc.hyps(1) [of ?T])
      show "s_woken ?T (s_role S v) (p\<lparr>library_state := l\<rparr>)"
        by (rule scene_exit [OF sc q _ l_def a]) simp
      show "hand_over (?T\<lparr>s_exited := insert (s_now ?T) (s_exited ?T)\<rparr>) (s_ready ?T) = Some (S', u')" if "s_role S v = None"
        using ho that hand_over_ignores [where S = S and a = v and b = q and q = q and X = "insert v (insert (s_now S) (s_exited S))"] by simp
      show "arrives M S' u' P" using Suc.prems(3) [OF None] .
      show "arrives M ?T u P" if "s_role S v = Some u" for u
        using ho Suc.prems(3) [OF None] that by simp
    qed (use Suc.hyps(2) q in simp)
    then show ?thesis by (intro leads.moves) (simp add: step)
  qed
qed

section \<open>The calls of the library\<close>

lemma user_step_call:
  assumes "stage S (Lib_call a k) p" and "a \<noteq> Continue2"
  shows "user_step (sched_library M b) p =
    bindE (sched_step b a (library_state p)) (\<lambda>l. Inr (p\<lparr>library_state := l, code_of := (code_of p)(s_now S := k)\<rparr>))"
  using stageD(1,13,14) [OF assms(1)] assms(2) by (simp add: user_step_def)

lemma stage_result:
  assumes "stage S (Lib_call a k) p"
  shows "stage S (k r) (p\<lparr>library_state := (library_state p)\<lparr>sch_result := r\<rparr>, code_of := (code_of p)(s_now S := k)\<rparr>)"
proof -
  have "scene_of S (p\<lparr>library_state := (library_state p)\<lparr>sch_result := r\<rparr>\<rparr>)"
    using assms by (auto simp: stage_def scene_of_def Let_def stacks_apart_def live_stacks_def plays_def resumes_def split: option.splits)
  then show ?thesis using assms scene_of_code [of S "p\<lparr>library_state := (library_state p)\<lparr>sch_result := r\<rparr>\<rparr>" k]
    by (simp add: stage_def)
qed

text \<open>A call that only gives a result.\<close>

lemma arrives_result:
  assumes "\<And>p b. stage S (Lib_call a k) p \<Longrightarrow> sched_step b a (library_state p) = Inr ((library_state p)\<lparr>sch_result := r\<rparr>)"
    and "a \<noteq> Continue2" and "arrives M S (k r) P"
  shows "arrives M S (Lib_call a k) P"
proof (rule arrives_step)
  fix p b assume st: "stage S (Lib_call a k) p"
  show "\<exists>p'. user_step (sched_library M (Addr b)) p = Inr p' \<and>
      (stacks_apart (library_state p') \<longrightarrow> (\<exists>S' u'. stage S' u' p' \<and> arrives M S' u' P))"
    using user_step_call [OF st assms(2)] assms(1) [OF st] stage_result [OF st, of r] assms(3) by auto
qed

lemma arrives_yield_none:
  assumes "s_ready S = []" and "arrives M S (k THREAD_NONE) P"
  shows "arrives M S (yield THREAD_ANY k) P"
proof (rule arrives_result [where r = THREAD_NONE])
  fix p b assume "stage S (yield THREAD_ANY k) p"
  then show "sched_step b (Yield2 THREAD_ANY) (library_state p) = Inr ((library_state p)\<lparr>sch_result := THREAD_NONE\<rparr>)"
    using stageD(3) assms(1) by (simp add: sched_yield_def)
qed (simp_all add: assms(2))

lemma arrives_yield_invalid:
  assumes "w \<noteq> THREAD_ANY" and "w \<noteq> THREAD_SELF" and "w \<noteq> s_now S" and "w \<notin> set (s_ready S)"
    and "arrives M S (k THREAD_INVALID) P"
  shows "arrives M S (yield w k) P"
proof (rule arrives_result [where r = THREAD_INVALID])
  fix p b assume "stage S (yield w k) p"
  then show "sched_step b (Yield2 w) (library_state p) = Inr ((library_state p)\<lparr>sch_result := THREAD_INVALID\<rparr>)"
    using stageD(1,3) assms(1-4) by (simp add: sched_yield_def)
qed (simp_all add: assms(5))

lemma arrives_yield_self:
  assumes "w = THREAD_SELF \<or> w = s_now S" and "arrives M S (k (s_now S)) P"
  shows "arrives M S (yield w k) P"
proof (rule arrives_call)
  fix p b assume st: "stage S (yield w k) p"
  note d = stageD [OF st]
  let ?c = "library_state p" and ?t = "s_now S"
  have "w \<noteq> THREAD_ANY" using assms(1) d(2) by (auto simp: thread_codes valid_tid_def)
  moreover have "remove1 ?t (s_ready S @ [?t]) = s_ready S" using d(5) by (simp add: remove1_append)
  ultimately have y: "sched_yield w ?c = ?c\<lparr>sch_calls := (sch_calls ?c)(?t := [Yield_return2 ?t])\<rparr>"
    using assms(1) d(1,3,6,13) by (auto simp: sched_yield_def sched_switch_def Let_def intro!: sched.equality)
  let ?p = "p\<lparr>library_state := sched_yield w ?c, code_of := (code_of p)(?t := k)\<rparr>"
  have "scene_of S (p\<lparr>library_state := sched_yield w ?c\<rparr>)"
    using st unfolding y by (auto simp: stage_def scene_of_def Let_def stacks_apart_def live_stacks_def plays_def resumes_def split: option.splits)
  then have "s_woken S (Some (k ?t)) ?p"
    using scene_of_code [of S "p\<lparr>library_state := sched_yield w ?c\<rparr>" k] by (simp add: s_woken_def resumes_def y)
  then have "leads M (goal P) ?p" by (rule woken_resume [OF _ assms(2)])
  then show "\<exists>p'. user_step (sched_library M (Addr b)) p = Inr p' \<and> (stacks_apart (library_state p') \<longrightarrow> leads M (goal P) p')"
    using user_step_call [OF st] by simp
qed

lemma arrives_yield_to:
  assumes t: "w = THREAD_ANY \<and> s_ready S = v # qs \<and> q = qs @ [s_now S] \<or>
      w = v \<and> v \<in> set (s_ready S) \<and> q = remove1 v (s_ready S) @ [s_now S]"
    and h: "hand_over (S\<lparr>s_role := (s_role S)(s_now S := Some (k v))\<rparr>) (v # q) = Some (S', u')" and k: "arrives M S' u' P"
  shows "arrives M S (yield w k) P"
proof (rule arrives_call)
  fix p b assume st: "stage S (yield w k) p"
  note d = stageD [OF st]
  let ?c = "library_state p" and ?t = "s_now S"
  have v: "v \<in> set (s_ready S)" "valid_tid v" "v \<noteq> ?t" "plays p v (s_role S v)"
    using t d(5) d(7) [of v] by auto
  have q: "set q = insert ?t (set (s_ready S) - {v})" "distinct q" "v \<notin> set q"
    using t d(4,5) v(3) by auto
  have "w \<noteq> THREAD_SELF" using t v(2) by (auto simp: thread_codes valid_tid_def)
  moreover have "w = v \<Longrightarrow> w \<noteq> THREAD_ANY" using v(2) by (auto simp: thread_codes valid_tid_def)
  ultimately have y: "sched_yield w ?c = sched_switch v q ?c"
    using t d(1,3) v(1) by (auto simp: sched_yield_def Let_def remove1_append)
  let ?p = "p\<lparr>library_state := sched_switch v q ?c, code_of := (code_of p)(?t := k)\<rparr>"
  let ?S = "S\<lparr>s_now := v, s_ready := q, s_role := (s_role S)(?t := Some (k v))\<rparr>"
  have l: "sch_now (sched_switch v q ?c) = v" "sch_ready (sched_switch v q ?c) = q" "sch_stack (sched_switch v q ?c) = s_stack S"
    "sch_state (sched_switch v q ?c) = (sch_state ?c)(?t := READY2, v := RUNNING2)"
    "sch_calls (sched_switch v q ?c) = (sch_calls ?c)(?t := [Yield_return2 v], v := if sch_state ?c v = KILLED2 then [At_thread_exit2] else sch_calls ?c v)"
    using d(1,6,9,13) v(3) by (auto simp: sched_switch_def Let_def fun_eq_iff)
  have "plays ?p x (s_role ?S x)" if x: "x \<in> set q" for x
  proof (cases "x = ?t")
    case True
    then show ?thesis using v(3) by (simp add: plays_def resumes_def l)
  next
    case False
    then have "x \<in> set (s_ready S)" "x \<noteq> v" using x q(1) by auto
    then have "plays p x (s_role S x)" using d(7) by blast
    moreover have "plays ?p x (s_role S x) = plays p x (s_role S x)"
      using False \<open>x \<noteq> v\<close> by (intro plays_cong) (simp_all add: l)
    ultimately show ?thesis using False by simp
  qed
  moreover have "\<forall>x\<in>set q. valid_tid x" using q(1) d(2) d(7) by auto
  moreover have "\<forall>x. valid_tid x \<longrightarrow> x \<noteq> v \<longrightarrow> x \<notin> set q \<longrightarrow> sch_state (sched_switch v q ?c) x = (if x \<in> s_exited S then EXITED2 else NOT_INITIALIZED2)"
    using q(1) d(8) v(1) by (auto simp: l)
  ultimately have "stacks_apart (sched_switch v q ?c) \<Longrightarrow> scene_of ?S ?p"
    using v(2) q(2,3) d(9-11) by (simp add: scene_of_def Let_def l)
  moreover have "case s_role S v of None \<Rightarrow> sch_calls (sched_switch v q ?c) v = [At_thread_exit2] | Some u \<Rightarrow> resumes ?p v u"
    using v(3,4) by (auto simp: plays_def resumes_def l split: option.splits)
  ultimately have w: "stacks_apart (sched_switch v q ?c) \<Longrightarrow> s_woken ?S (s_role S v) ?p"
    by (cases "s_role S v") (simp_all add: s_woken_def)
  have "leads M (goal P) ?p" if a: "stacks_apart (sched_switch v q ?c)"
  proof (rule woken_hand_over [OF w [OF a]])
    show "hand_over (?S\<lparr>s_exited := insert (s_now ?S) (s_exited ?S)\<rparr>) (s_ready ?S) = Some (S', u')" if "s_role S v = None"
      using h that v(3) hand_over_ignores [where S = "S\<lparr>s_role := (s_role S)(?t := Some (k v))\<rparr>" and a = v and b = q and q = q
          and X = "insert v (s_exited S)"] by simp
    show "arrives M ?S u P" if "s_role S v = Some u" for u
      using h that v(3) k by simp
  qed (rule k)
  then show "\<exists>p'. user_step (sched_library M (Addr b)) p = Inr p' \<and> (stacks_apart (library_state p') \<longrightarrow> leads M (goal P) p')"
    using user_step_call [OF st] y by simp
qed

lemma arrives_exit:
  assumes u: "u = Returned_main \<or> u = Lib_call Exit2 k"
    and h: "hand_over (S\<lparr>s_exited := insert (s_now S) (s_exited S)\<rparr>) (s_ready S) = Some (S', u')" and k: "arrives M S' u' P"
  shows "arrives M S u P"
proof (rule arrives_call)
  fix p b assume st: "stage S u p"
  note d = stageD [OF st]
  let ?c = "library_state p" and ?t = "s_now S"
  obtain v q where q: "s_ready S = v # q" using h by (cases "s_ready S") auto
  have sc: "scene_of S p" using st by (simp add: stage_def)
  define l where "l = sched_switch v q (?c\<lparr>sch_state := (sch_state ?c)(?t := EXITED2),
      sch_calls := (sch_calls ?c)(?t := [After_exit2])\<rparr>)"
  have x: "sched_exit ?c = Inr l" using d(1,3,13) q by (simp add: sched_exit_def l_def)
  obtain k' where step: "user_step (sched_library M (Addr b)) p = Inr (p\<lparr>library_state := l, code_of := (code_of p)(?t := k')\<rparr>)"
  proof (cases "u = Returned_main")
    case True
    then have "user_step (sched_library M (Addr b)) p = Inr (p\<lparr>library_state := l\<rparr>)"
      using d(1,13,14) x by (simp add: user_step_def)
    then show ?thesis using that [of "code_of p ?t"] by simp
  next
    case False
    then show ?thesis using u st x user_step_call [of S Exit2 k p M "Addr b"] by (intro that [of k]) simp
  qed
  have "leads M (goal P) (p\<lparr>library_state := l, code_of := (code_of p)(?t := k')\<rparr>)" if a: "stacks_apart l"
  proof (rule woken_hand_over)
    have "scene_of S (p\<lparr>code_of := (code_of p)(?t := k')\<rparr>)" using sc by (simp add: scene_of_code)
    from scene_exit [OF this q _ _ a, of "(sch_calls ?c)(?t := [After_exit2])"]
    show "s_woken (S\<lparr>s_now := v, s_ready := q, s_exited := insert ?t (s_exited S)\<rparr>) (s_role S v)
        (p\<lparr>library_state := l, code_of := (code_of p)(?t := k')\<rparr>)" by (simp add: l_def)
    show "hand_over (S\<lparr>s_now := v, s_ready := q, s_exited := insert ?t (s_exited S)\<rparr>\<lparr>s_exited :=
        insert (s_now (S\<lparr>s_now := v, s_ready := q, s_exited := insert ?t (s_exited S)\<rparr>))
          (s_exited (S\<lparr>s_now := v, s_ready := q, s_exited := insert ?t (s_exited S)\<rparr>))\<rparr>)
        (s_ready (S\<lparr>s_now := v, s_ready := q, s_exited := insert ?t (s_exited S)\<rparr>)) = Some (S', u')" if "s_role S v = None"
      using h q that hand_over_ignores [where S = S and a = v and b = q and q = q and X = "insert v (insert ?t (s_exited S))"] by simp
    show "arrives M (S\<lparr>s_now := v, s_ready := q, s_exited := insert ?t (s_exited S)\<rparr>) w P" if "s_role S v = Some w" for w
      using h q that k by simp
  qed (rule k)
  then show "\<exists>p'. user_step (sched_library M (Addr b)) p = Inr p' \<and> (stacks_apart (library_state p') \<longrightarrow> leads M (goal P) p')"
    using step by auto
qed

text \<open>Calls that clean up first. The scene after the clean-up has nobody exited.\<close>

lemma reaped_state:
  assumes "stage S u p" and "valid_tid v"
  shows "sch_state (sched_reap (library_state p)) v =
    (if v = s_now S \<or> v \<in> set (s_ready S) then sch_state (library_state p) v else NOT_INITIALIZED2)"
    and "v = s_now S \<or> v \<in> set (s_ready S) \<Longrightarrow> sch_state (library_state p) v \<notin> {NOT_INITIALIZED2, EXITED2}"
proof -
  note d = stageD [OF assms(1)]
  have p: "v \<in> set (s_ready S) \<Longrightarrow> sch_state (library_state p) v = READY2 \<or> sch_state (library_state p) v = KILLED2"
    using d(7) [of v] by (auto simp: plays_def split: option.splits)
  then show "v = s_now S \<or> v \<in> set (s_ready S) \<Longrightarrow> sch_state (library_state p) v \<notin> {NOT_INITIALIZED2, EXITED2}"
    using d(6) by auto
  show "sch_state (sched_reap (library_state p)) v =
      (if v = s_now S \<or> v \<in> set (s_ready S) then sch_state (library_state p) v else NOT_INITIALIZED2)"
    using p d(6) d(8) [OF assms(2)] assms(2) by (auto simp: sched_reap_def)
qed

lemma reaped_fields [simp]:
  "sch_now (sched_reap c) = sch_now c" "sch_ready (sched_reap c) = sch_ready c" "sch_calls (sched_reap c) = sch_calls c"
  "sch_stack (sched_reap c) = sch_stack c" "sch_result (sched_reap c) = sch_result c"
  by (simp_all add: sched_reap_def)

lemma scene_of_reaped:
  assumes st: "stage S u p" and l: "sch_now l = s_now S" "sch_ready l = s_ready S" "sch_calls l = sch_calls (library_state p)"
    "sch_stack l = s_stack S" "sch_state l = sch_state (sched_reap (library_state p))" and a: "stacks_apart l"
  shows "scene_of (S\<lparr>s_exited := {}\<rparr>) (p\<lparr>library_state := l\<rparr>)"
proof -
  note d = stageD [OF st] and r = reaped_state(1) [OF st]
  have "plays (p\<lparr>library_state := l\<rparr>) v (s_role S v)" if "v \<in> set (s_ready S)" for v
  proof -
    have "plays (p\<lparr>library_state := l\<rparr>) v (s_role S v) = plays p v (s_role S v)"
      using that d(7) [OF that] r [of v] l by (intro plays_cong) simp_all
    then show ?thesis using d(7) [OF that] by simp
  qed
  then show ?thesis using d a l r by (auto simp: scene_of_def Let_def)
qed

lemma apart_result [simp]: "stacks_apart (c\<lparr>sch_result := r\<rparr>) = stacks_apart c"
  by (simp add: stacks_apart_def live_stacks_def)

lemma arrives_reap_result:
  assumes "\<And>p b. stage S (Lib_call a k) p \<Longrightarrow> sched_step b a (library_state p) = Inr ((sched_reap (library_state p))\<lparr>sch_result := r\<rparr>)"
    and "a \<noteq> Continue2" and "arrives M (S\<lparr>s_exited := {}\<rparr>) (k r) P"
  shows "arrives M S (Lib_call a k) P"
proof (rule arrives_step)
  fix p b assume st: "stage S (Lib_call a k) p"
  note d = stageD [OF st]
  let ?l = "(sched_reap (library_state p))\<lparr>sch_result := r\<rparr>"
  have "stage (S\<lparr>s_exited := {}\<rparr>) (k r) (p\<lparr>library_state := ?l, code_of := (code_of p)(s_now S := k)\<rparr>)" if "stacks_apart ?l"
    using scene_of_reaped [OF st _ _ _ _ _ that] d scene_of_code [of "S\<lparr>s_exited := {}\<rparr>" "p\<lparr>library_state := ?l\<rparr>" k]
    by (simp add: stage_def)
  then show "\<exists>p'. user_step (sched_library M (Addr b)) p = Inr p' \<and>
      (stacks_apart (library_state p') \<longrightarrow> (\<exists>S' u'. stage S' u' p' \<and> arrives M S' u' P))"
    using user_step_call [OF st assms(2)] assms(1) [OF st] assms(3) by auto
qed

lemma lowest_slot_Some:
  assumes "valid_tid i" and "st i = NOT_INITIALIZED2" and "\<forall>j. 0 \<le> j \<longrightarrow> j < i \<longrightarrow> st j \<noteq> NOT_INITIALIZED2"
  shows "lowest_slot st = Some i"
  unfolding lowest_slot_def find_Some_iff using assms
  by (intro exI [of _ "nat i"]) (auto simp: valid_tid_def THREAD_MAX_THREADS_def)

lemma lowest_slot_None: "(\<forall>j. valid_tid j \<longrightarrow> st j \<noteq> NOT_INITIALIZED2) \<Longrightarrow> lowest_slot st = None"
  by (auto simp: lowest_slot_def find_None_iff valid_tid_def THREAD_MAX_THREADS_def)

lemma arrives_create_full:
  assumes "\<forall>j. valid_tid j \<longrightarrow> j = s_now S \<or> j \<in> set (s_ready S)" and "arrives M (S\<lparr>s_exited := {}\<rparr>) (k THREAD_NOMORE) P"
  shows "arrives M S (Lib_call (Create2 fn arg) k) P"
proof (rule arrives_reap_result [where r = THREAD_NOMORE])
  fix p b assume st: "stage S (Lib_call (Create2 fn arg) k) p"
  have "lowest_slot (sch_state (sched_reap (library_state p))) = None"
    using reaped_state [OF st] assms(1) by (intro lowest_slot_None) auto
  then show "sched_step b (Create2 fn arg) (library_state p) = Inr ((sched_reap (library_state p))\<lparr>sch_result := THREAD_NOMORE\<rparr>)"
    by (simp add: sched_create_def Let_def)
qed (simp_all add: assms(2))

lemma arrives_create:
  assumes i: "valid_tid i" "i \<noteq> s_now S" "i \<notin> set (s_ready S)" and low: "\<forall>j. 0 \<le> j \<longrightarrow> j < i \<longrightarrow> j = s_now S \<or> j \<in> set (s_ready S)"
    and k: "\<And>a. arrives M (S\<lparr>s_ready := s_ready S @ [i], s_role := (s_role S)(i := Some (thread_main fn arg)),
      s_stack := (s_stack S)(i := Addr a), s_exited := {}\<rparr>) (k i) P"
  shows "arrives M S (Lib_call (Create2 fn arg) k) P"
proof (rule arrives_step)
  fix p b assume st: "stage S (Lib_call (Create2 fn arg) k) p"
  note d = stageD [OF st] and r = reaped_state [OF st]
  let ?c = "sched_reap (library_state p)"
  have slot: "lowest_slot (sch_state ?c) = Some i"
  proof (rule lowest_slot_Some [OF i(1)])
    show "sch_state ?c i = NOT_INITIALIZED2" using r(1) [OF i(1)] i(2,3) by simp
    show "\<forall>j. 0 \<le> j \<longrightarrow> j < i \<longrightarrow> sch_state ?c j \<noteq> NOT_INITIALIZED2"
    proof (intro allI impI)
      fix j assume j: "0 \<le> j" "j < i"
      then have "valid_tid j" using i(1) by (simp add: valid_tid_def)
      then show "sch_state ?c j \<noteq> NOT_INITIALIZED2" using r [of j] low j by auto
    qed
  qed
  define l where "l = ?c\<lparr>sch_ready := sch_ready ?c @ [i], sch_state := (sch_state ?c)(i := READY2),
    sch_calls := (sch_calls ?c)(i := [At_stub2 fn arg]), sch_stack := (sch_stack ?c)(i := Addr b), sch_result := i\<rparr>"
  let ?p = "p\<lparr>library_state := l, code_of := (code_of p)(s_now S := k)\<rparr>"
  let ?S = "S\<lparr>s_ready := s_ready S @ [i], s_role := (s_role S)(i := Some (thread_main fn arg)),
      s_stack := (s_stack S)(i := Addr b), s_exited := {}\<rparr>"
  have step: "sched_step (Addr b) (Create2 fn arg) (library_state p) = Inr l"
    using slot by (simp add: sched_create_def l_def Let_def)
  have "plays ?p v (s_role ?S v)" if v: "v \<in> set (s_ready S @ [i])" for v
  proof (cases "v = i")
    case True
    then show ?thesis by (auto simp: plays_def resumes_def l_def)
  next
    case False
    then have "v \<in> set (s_ready S)" using v by simp
    moreover from this have "plays ?p v (s_role S v) = plays p v (s_role S v)"
      using False d(5) d(7) [of v] r(1) [of v] by (intro plays_cong) (auto simp: l_def)
    ultimately show ?thesis using False d(7) [of v] by simp
  qed
  then have "scene_of ?S ?p" if "stacks_apart l"
    using that d r(1) i by (auto simp: scene_of_def Let_def l_def)
  then have "stage ?S (k i) ?p" if "stacks_apart l" using that d(13) i(2) by (simp add: stage_def l_def)
  then show "\<exists>p'. user_step (sched_library M (Addr b)) p = Inr p' \<and>
      (stacks_apart (library_state p') \<longrightarrow> (\<exists>S' u'. stage S' u' p' \<and> arrives M S' u' P))"
    using user_step_call [OF st, of M "Addr b"] step k by auto
qed

lemma arrives_kill_invalid:
  assumes "\<not> valid_tid t \<or> t = s_now S \<or> t \<notin> set (s_ready S)" and "arrives M (S\<lparr>s_exited := {}\<rparr>) (k THREAD_INVALID) P"
  shows "arrives M S (Lib_call (Kill2 t) k) P"
proof (rule arrives_reap_result [where r = THREAD_INVALID])
  fix p b assume st: "stage S (Lib_call (Kill2 t) k) p"
  have "\<not> (valid_tid t \<and> t \<noteq> sch_now (sched_reap (library_state p)) \<and> sch_state (sched_reap (library_state p)) t \<noteq> NOT_INITIALIZED2)"
    using reaped_state(1) [OF st, of t] stageD(1) [OF st] assms(1) by auto
  note n = if_not_P [OF this]
  show "sched_step b (Kill2 t) (library_state p) = Inr ((sched_reap (library_state p))\<lparr>sch_result := THREAD_INVALID\<rparr>)"
    by (simp only: sched_step.simps sched_kill_def Let_def n)
qed (simp_all add: assms(2))

lemma arrives_kill:
  assumes t: "t \<in> set (s_ready S)" and k: "arrives M (S\<lparr>s_role := (s_role S)(t := None), s_exited := {}\<rparr>) (k t) P"
  shows "arrives M S (Lib_call (Kill2 t) k) P"
proof (rule arrives_step)
  fix p b assume st: "stage S (Lib_call (Kill2 t) k) p"
  note d = stageD [OF st] and r = reaped_state [OF st]
  let ?c = "sched_reap (library_state p)"
  have v: "valid_tid t" "t \<noteq> s_now S" using d(5) d(7) [OF t] t by auto
  define l where "l = ?c\<lparr>sch_state := (sch_state ?c)(t := KILLED2), sch_result := t\<rparr>"
  let ?p = "p\<lparr>library_state := l, code_of := (code_of p)(s_now S := k)\<rparr>"
  let ?S = "S\<lparr>s_role := (s_role S)(t := None), s_exited := {}\<rparr>"
  have step: "sched_step (Addr b) (Kill2 t) (library_state p) = Inr l"
    using v r [OF v(1)] t d(1) by (simp add: sched_kill_def l_def Let_def)
  have "plays ?p w (s_role ?S w)" if w: "w \<in> set (s_ready S)" for w
  proof (cases "w = t")
    case True
    then show ?thesis by (simp add: plays_def l_def)
  next
    case False
    have "plays ?p w (s_role S w) = plays p w (s_role S w)"
      using False w d(5) d(7) [of w] r(1) [of w] by (intro plays_cong) (auto simp: l_def)
    then show ?thesis using False d(7) [OF w] by simp
  qed
  then have "scene_of ?S ?p" if "stacks_apart l"
    using that d r(1) v t by (auto simp: scene_of_def Let_def l_def)
  then have "stage ?S (k t) ?p" if "stacks_apart l" using that d(13) by (simp add: stage_def l_def)
  then show "\<exists>p'. user_step (sched_library M (Addr b)) p = Inr p' \<and>
      (stacks_apart (library_state p') \<longrightarrow> (\<exists>S' u'. stage S' u' p' \<and> arrives M S' u' P))"
    using user_step_call [OF st, of M "Addr b"] step k by auto
qed

end
