(* ===== verification/Basic_Test_Passes.thy ===== *)
theory Basic_Test_Passes
  imports Basic_Test_Scenes
begin

text \<open>
  The test passes. Two rounds through the ready queue carry it: threads that give the processor on
  for ever bring it back to the main thread with all of them still ready (\<open>looper_round\<close>); threads
  that exit, or are killed, bring it back with nobody ready (\<open>last_round\<close>). The parts of the test
  are runs from one crowd of ready threads to the next.
\<close>

section \<open>Small steps\<close>

lemma arrives_if_scene:
  "(valid_tid (s_now S) \<Longrightarrow> distinct (s_now S # s_ready S) \<Longrightarrow> s_apart S \<Longrightarrow> arrives M S u P) \<Longrightarrow> arrives M S u P"
proof -
  assume k: "valid_tid (s_now S) \<Longrightarrow> distinct (s_now S # s_ready S) \<Longrightarrow> s_apart S \<Longrightarrow> arrives M S u P"
  have "arrives M S u P" if "stage S u p" for p
    using stageD(2,4,5) [OF that] stage_apart [OF that] by (intro k) simp_all
  then show "arrives M S u P" unfolding arrives_def by blast
qed

lemma arrives_assert: "b \<Longrightarrow> arrives M S k P \<Longrightarrow> arrives M S (assert_that b k) P"
  by (simp add: assert_that_def)

lemma ret_ok_iff [simp]: "thread_ret_ok t \<noteq> 0 \<longleftrightarrow> 0 \<le> t"
  by (simp add: thread_ret_ok_def)

lemma valid_tid_codes: "0 \<le> t \<Longrightarrow> t \<noteq> THREAD_ANY \<and> t \<noteq> THREAD_SELF \<and> t \<noteq> THREAD_NONE \<and> t \<noteq> THREAD_INVALID"
  by (auto simp: thread_codes)

section \<open>Everybody gives the processor on\<close>

definition hellish :: "user \<Rightarrow> bool" where
  "hellish u \<longleftrightarrow> u = hello_loop \<or> (\<exists>arg. u = thread_main HELLO arg)"

lemma hello_settles:
  assumes "hellish u" and "arrives M S hello_loop P"
  shows "arrives M S u P"
proof (cases "u = hello_loop")
  case False
  then obtain arg where u: "u = hello (hello_message arg)"
    using assms(1) by (auto simp: hellish_def thread_main_def HELLO_def)
  have ok: "thread_ret_ok (s_now S) \<noteq> 0" if "valid_tid (s_now S)" using that by (simp add: valid_tid_def)
  show ?thesis
    unfolding u hello_def
    by (rule arrives_if_scene) (intro arrives_print arrives_yield_self arrives_assert disjI1 refl ok assms(2))
qed (use assms(2) in simp)

lemma looper_round:
  assumes "s_ready S = xs @ 0 # ys" and "s_role S 0 = Some w" and "s_now S \<noteq> 0"
    and "\<forall>v\<in>set xs. \<exists>u. s_role S v = Some u \<and> hellish u"
    and "\<And>r. \<forall>v. r v = (if v = s_now S \<or> v \<in> set xs then Some hello_loop else s_role S v) \<Longrightarrow>
      arrives M (S\<lparr>s_now := 0, s_ready := ys @ s_now S # xs, s_role := r\<rparr>) w P"
  shows "arrives M S hello_loop P"
  using assms
proof (induction xs arbitrary: S ys)
  case Nil
  show ?case
  proof (subst hello_loop.code, rule arrives_yield_to [where v = 0 and qs = ys])
    show "hand_over (S\<lparr>s_role := (s_role S)(s_now S := Some hello_loop)\<rparr>) (0 # ys @ [s_now S]) =
        Some (S\<lparr>s_now := 0, s_ready := ys @ [s_now S], s_role := (s_role S)(s_now S := Some hello_loop)\<rparr>, w)"
      using Nil.prems(2,3) by simp
    show "arrives M (S\<lparr>s_now := 0, s_ready := ys @ [s_now S], s_role := (s_role S)(s_now S := Some hello_loop)\<rparr>) w P"
      by (rule Nil.prems(5)) simp
  qed (use Nil.prems(1) in simp)
next
  case (Cons x xs)
  show ?case
  proof (rule arrives_if_scene)
    assume "distinct (s_now S # s_ready S)"
    then have ne: "x \<noteq> s_now S" "x \<noteq> 0" "x \<notin> set xs" "s_now S \<notin> set xs" "0 \<notin> set xs" "s_now S \<notin> set ys"
      using Cons.prems(1) by auto
    obtain u where u: "s_role S x = Some u" "hellish u" using Cons.prems(4) by auto
    let ?r = "(s_role S)(s_now S := Some hello_loop)"
    let ?S = "S\<lparr>s_now := x, s_ready := xs @ 0 # ys @ [s_now S], s_role := ?r\<rparr>"
    have "arrives M ?S hello_loop P"
    proof (rule Cons.IH [of ?S "ys @ [s_now S]"])
      show "s_role ?S 0 = Some w" using Cons.prems(2,3) by simp
      show "\<forall>v\<in>set xs. \<exists>u. s_role ?S v = Some u \<and> hellish u" using Cons.prems(4) ne by auto
      fix r
      assume "\<forall>v. r v = (if v = s_now ?S \<or> v \<in> set xs then Some hello_loop else s_role ?S v)"
      then have "\<forall>v. r v = (if v = s_now S \<or> v \<in> set (x # xs) then Some hello_loop else s_role S v)" by auto
      from Cons.prems(5) [OF this]
      show "arrives M (?S\<lparr>s_now := 0, s_ready := (ys @ [s_now S]) @ s_now ?S # xs, s_role := r\<rparr>) w P" by simp
    qed (use ne in simp_all)
    then have "arrives M ?S u P" by (rule hello_settles [OF u(2)])
    then show "arrives M S hello_loop P"
      using Cons.prems(1) ne(1) u(1)
      by (subst hello_loop.code)
        (rule arrives_yield_to [where v = x and qs = "xs @ 0 # ys" and q = "xs @ 0 # ys @ [s_now S]"]; simp)
  qed
qed

section \<open>Everybody exits\<close>

lemma fact_runs:
  assumes "0 < n" and "arrives M (S\<lparr>s_array := (s_array S)(s_now S := address_of M (s_stack S (s_now S)) (d + n - 1))\<rparr>) Returned_main P"
  shows "arrives M S (fact_thread d n) P"
  using assms
proof (induction n arbitrary: d S)
  case (Suc n)
  show ?case
  proof (cases "n = 0")
    case True
    then have "arrives M S (note_stack d Returned_main) P" using Suc.prems(2) by (intro arrives_note) (simp add: fun_upd_def)
    then show ?thesis using True by simp
  next
    case False
    have "arrives M (S\<lparr>s_array := (s_array S)(s_now S := address_of M (s_stack S (s_now S)) d)\<rparr>) (fact_thread (Suc d) n) P"
      using Suc.prems(2) False by (intro Suc.IH) (simp_all add: fun_upd_def cong: if_cong)
    from arrives_note [OF this] show ?thesis using False by simp
  qed
qed simp

definition FACT10 :: user where
  "FACT10 = thread_main FACT 10"

text \<open>The scene after all of \<open>A\<close>, which were ready, have exited.\<close>

definition after_all :: "memory \<Rightarrow> int set \<Rightarrow> scene \<Rightarrow> scene \<Rightarrow> bool" where
  "after_all M A S S' \<longleftrightarrow> s_now S' = 0 \<and> s_ready S' = [] \<and> s_exited S' = s_exited S \<union> A \<and> s_stack S' = s_stack S \<and>
     s_flag S' = s_flag S \<and>
     s_array S' = (\<lambda>v. if v \<in> A \<and> s_role S v \<noteq> None then address_of M (s_stack S v) 9 else s_array S v)"

lemma last_round:
  assumes "s_role S 0 = Some w" and "0 \<notin> set xs" and "distinct xs"
    and "\<forall>v\<in>set xs. s_role S v = None \<or> s_role S v = Some FACT10"
    and "\<And>S'. after_all M (set xs) S S' \<Longrightarrow> arrives M S' w P"
  shows "\<exists>S' u'. hand_over S (xs @ [0]) = Some (S', u') \<and> arrives M S' u' P"
  using assms
proof (induction xs arbitrary: S)
  case Nil
  have "arrives M (S\<lparr>s_now := 0, s_ready := []\<rparr>) w P" by (rule Nil.prems(5)) (simp add: after_all_def)
  then show ?case using Nil.prems(1) by simp
next
  case (Cons x xs)
  note pr = Cons.prems
  show ?case
  proof (cases "s_role S x")
    case None
    let ?S = "S\<lparr>s_exited := insert x (s_exited S)\<rparr>"
    have "\<exists>S' u'. hand_over ?S (xs @ [0]) = Some (S', u') \<and> arrives M S' u' P"
    proof (rule Cons.IH)
      fix S' assume "after_all M (set xs) ?S S'"
      then show "arrives M S' w P" using None pr(3) by (intro pr(5)) (auto simp: after_all_def fun_eq_iff)
    qed (use pr in simp_all)
    then show ?thesis using None by simp
  next
    case (Some u)
    then have u: "u = fact_thread 0 10" using pr(4) by (auto simp: FACT10_def thread_main_def HELLO_def FACT_def)
    let ?A = "(s_array S)(x := address_of M (s_stack S x) 9)"
    let ?S = "S\<lparr>s_now := x, s_ready := xs @ [0], s_array := ?A\<rparr>"
    have "\<exists>S' u'. hand_over (?S\<lparr>s_exited := insert x (s_exited S)\<rparr>) (xs @ [0]) = Some (S', u') \<and> arrives M S' u' P"
    proof (rule Cons.IH)
      fix S' assume "after_all M (set xs) (?S\<lparr>s_exited := insert x (s_exited S)\<rparr>) S'"
      then show "arrives M S' w P" using Some pr(3) by (intro pr(5)) (auto simp: after_all_def fun_eq_iff)
    qed (use pr in simp_all)
    then obtain S' u' where h: "hand_over (?S\<lparr>s_exited := insert x (s_exited S)\<rparr>) (xs @ [0]) = Some (S', u')" "arrives M S' u' P"
      by blast
    have "arrives M ?S Returned_main P" by (rule arrives_exit [OF _ _ h(2)]) (use h(1) in simp_all)
    then have "arrives M (S\<lparr>s_now := x, s_ready := xs @ [0]\<rparr>) u P" unfolding u by (intro fact_runs) simp_all
    then show ?thesis using Some by simp
  qed
qed

section \<open>Crowds\<close>

text \<open>The main thread runs; the threads of \<open>A\<close> are ready, of which those in \<open>K\<close> are killed and the
  others go on with a program in \<open>U\<close>; \<open>ar\<close> are the noted stack addresses.\<close>

definition crowd :: "(user \<Rightarrow> bool) \<Rightarrow> int set \<Rightarrow> int set \<Rightarrow> (int \<Rightarrow> int) \<Rightarrow> scene \<Rightarrow> bool" where
  "crowd U A K ar S \<longleftrightarrow> s_now S = 0 \<and> set (s_ready S) = A \<and> distinct (s_ready S) \<and> 0 \<notin> A \<and>
     (\<forall>v\<in>A. (v \<in> K \<and> s_role S v = None) \<or> (v \<notin> K \<and> (\<exists>u. s_role S v = Some u \<and> U u))) \<and>
     s_stack S 0 = NULL \<and> (\<forall>v\<in>A. s_stack S v \<noteq> NULL) \<and> s_array S = ar"

lemma crowd_empty: "crowd U {} K ar S \<longleftrightarrow> s_now S = 0 \<and> s_ready S = [] \<and> s_stack S 0 = NULL \<and> s_array S = ar"
  by (auto simp: crowd_def)

lemma crowd_create:
  assumes c: "crowd U {1..<int j} {} ar S" and j: "1 \<le> j" "j < nat THREAD_MAX_THREADS" and u: "U (thread_main fn arg)"
    and k: "\<And>S'. crowd U {1..<int (Suc j)} {} ar S' \<Longrightarrow> s_exited S' = {} \<Longrightarrow> arrives M S' (k (int j)) P"
  shows "arrives M S (Lib_call (Create2 fn arg) k) P"
proof (rule arrives_create [where i = "int j"])
  note cd = c [unfolded crowd_def]
  show "valid_tid (int j)" using j by (auto simp: valid_tid_def THREAD_MAX_THREADS_def)
  show "int j \<noteq> s_now S" "int j \<notin> set (s_ready S)" using cd j(1) by auto
  show "\<forall>i. 0 \<le> i \<longrightarrow> i < int j \<longrightarrow> i = s_now S \<or> i \<in> set (s_ready S)" using cd by auto
  fix a
  show "arrives M (S\<lparr>s_ready := s_ready S @ [int j], s_role := (s_role S)(int j := Some (thread_main fn arg)),
      s_stack := (s_stack S)(int j := Addr a), s_exited := {}\<rparr>) (k (int j)) P"
    using cd j(1) u by (intro k) (auto simp: crowd_def)
qed

lemma crowd_kill:
  assumes c: "crowd U A K ar S" and t: "t \<in> A"
    and k: "\<And>S'. crowd U A (insert t K) ar S' \<Longrightarrow> s_exited S' = {} \<Longrightarrow> arrives M S' (k t) P"
  shows "arrives M S (Lib_call (Kill2 t) k) P"
proof (rule arrives_kill)
  show "t \<in> set (s_ready S)" using c t by (simp add: crowd_def)
  show "arrives M (S\<lparr>s_role := (s_role S)(t := None), s_exited := {}\<rparr>) (k t) P"
    using c [unfolded crowd_def] by (intro k) (auto simp: crowd_def)
qed

lemma crowd_yield_hellos:
  assumes c: "crowd hellish A {} ar S" and t: "t \<in> A"
    and k: "\<And>S'. crowd hellish A {} ar S' \<Longrightarrow> s_exited S' = s_exited S \<Longrightarrow> arrives M S' (k t) P"
  shows "arrives M S (yield t k) P"
proof -
  note cd = c [unfolded crowd_def]
  define xs where "xs = remove1 t (s_ready S)"
  obtain u where u: "s_role S t = Some u" "hellish u" using cd t by auto
  have xs: "set xs = A - {t}" "t \<notin> set xs" "distinct xs" using cd by (auto simp: xs_def)
  let ?S = "S\<lparr>s_now := t, s_ready := xs @ [0], s_role := (s_role S)(0 := Some (k t))\<rparr>"
  have t0: "t \<noteq> 0" using cd t by auto
  have "arrives M ?S hello_loop P"
  proof (rule looper_round [of ?S xs "[]"])
    show "\<forall>v\<in>set xs. \<exists>u. s_role ?S v = Some u \<and> hellish u" using cd xs(1) by auto
    fix r assume "\<forall>v. r v = (if v = s_now ?S \<or> v \<in> set xs then Some hello_loop else s_role ?S v)"
    then have "crowd hellish A {} ar (?S\<lparr>s_now := 0, s_ready := [] @ s_now ?S # xs, s_role := r\<rparr>)"
      using cd xs t by (auto simp: crowd_def hellish_def)
    from k [OF this] show "arrives M (?S\<lparr>s_now := 0, s_ready := [] @ s_now ?S # xs, s_role := r\<rparr>) (k t) P" by simp
  qed (use t0 in simp_all)
  then have "arrives M ?S u P" by (rule hello_settles [OF u(2)])
  then show ?thesis
    using cd t u(1) t0
    by (intro arrives_yield_to [where v = t and q = "xs @ [0]" and S' = ?S and u' = u]) (simp_all add: xs_def)
qed

text \<open>Facts and killed threads: one \<open>yield\<close> and they are gone.\<close>

lemma crowd_last_yield:
  assumes c: "crowd U A K ar S" and u: "\<And>v. v \<in> A - K \<Longrightarrow> s_role S v = Some FACT10"
    and w: "w = t \<and> t \<in> A \<or> w = THREAD_ANY \<and> s_ready S = t # qs"
    and k: "\<And>S'. crowd V {} {} (\<lambda>v. if v \<in> A - K then address_of M (s_stack S v) 9 else ar v) S' \<Longrightarrow>
      s_exited S' = s_exited S \<union> A \<Longrightarrow> s_stack S' = s_stack S \<Longrightarrow> arrives M S' (k t) P"
  shows "arrives M S (yield w k) P"
proof -
  note cd = c [unfolded crowd_def]
  define xs where "xs = t # remove1 t (s_ready S)"
  have t: "t \<in> set (s_ready S)" using w cd by auto
  have xs: "set xs = A" "distinct xs" using cd t by (auto simp: xs_def)
  have "\<exists>S' u'. hand_over (S\<lparr>s_role := (s_role S)(0 := Some (k t))\<rparr>) (xs @ [0]) = Some (S', u') \<and> arrives M S' u' P"
  proof (rule last_round)
    show "\<forall>v\<in>set xs. s_role (S\<lparr>s_role := (s_role S)(0 := Some (k t))\<rparr>) v = None \<or>
        s_role (S\<lparr>s_role := (s_role S)(0 := Some (k t))\<rparr>) v = Some FACT10"
      using cd u xs(1) by auto
    fix S' assume "after_all M (set xs) (S\<lparr>s_role := (s_role S)(0 := Some (k t))\<rparr>) S'"
    then show "arrives M S' (k t) P" using cd xs(1) by (intro k) (auto simp: after_all_def crowd_def fun_eq_iff)
  qed (use cd xs in auto)
  then obtain S' u' where h: "hand_over (S\<lparr>s_role := (s_role S)(0 := Some (k t))\<rparr>) (xs @ [0]) = Some (S', u')" "arrives M S' u' P"
    by blast
  show ?thesis
    by (rule arrives_yield_to [OF _ _ h(2), where v = t and q = "remove1 t (s_ready S) @ [0]" and qs = qs])
      (use w cd h(1) in \<open>auto simp: xs_def\<close>)
qed

lemma alone_yields:
  assumes "\<forall>t\<in>set ts. 0 \<le> t" and "s_now S = 0" and "s_ready S = []" and "arrives M S k P"
  shows "arrives M S (yield_to_all ts k) P"
  using assms(1)
proof (induction ts)
  case (Cons t ts)
  then have "arrives M S (yield_to_all ts k) P" by simp
  then show ?case
    using Cons.prems assms(2,3) valid_tid_codes [of t]
      arrives_yield_self [of t S M "\<lambda>_. yield_to_all ts k" P] arrives_yield_invalid [of t S M "\<lambda>_. yield_to_all ts k" P]
    by (cases "t = 0") simp_all
qed (simp add: assms(4))

section \<open>The loops of the test\<close>

lemma create_hellos_runs:
  assumes "crowd hellish {1..<int j} {} ar S" and "1 \<le> j" and "j + n \<le> nat THREAD_MAX_THREADS"
    and "\<And>S'. crowd hellish {1..<int (j + n)} {} ar S' \<Longrightarrow> arrives M S' (k (child @ map int [j..<j + n])) P"
  shows "arrives M S (create_hellos n ii child k) P"
  using assms
proof (induction n arbitrary: j ii child S)
  case (Suc n)
  have "arrives M S (Lib_call (Create2 HELLO (Suc ii)) (\<lambda>ret.
      assert_that (thread_ret_ok ret \<noteq> 0) (create_hellos n (Suc ii) (child @ [ret]) k))) P"
  proof (rule crowd_create [OF Suc.prems(1,2)])
    fix S' assume c: "crowd hellish {1..<int (Suc j)} {} ar S'"
    have "child @ map int [j..<j + Suc n] = (child @ [int j]) @ map int [Suc j..<Suc j + n]"
      by (simp add: upt_conv_Cons del: upt_Suc)
    then have "arrives M S' (create_hellos n (Suc ii) (child @ [int j]) k) P"
      using Suc.prems(3,4) by (intro Suc.IH [OF c]) simp_all
    then show "arrives M S' (assert_that (thread_ret_ok (int j) \<noteq> 0) (create_hellos n (Suc ii) (child @ [int j]) k)) P"
      by (rule arrives_assert [rotated]) simp
  qed (use Suc.prems(3) in \<open>auto simp: hellish_def\<close>)
  then show ?case by simp
qed (use assms in simp)

lemma create_facts_runs:
  assumes "crowd ((=) FACT10) {1..<int j} {} ar S" and "1 \<le> j" and "j + n \<le> nat THREAD_MAX_THREADS"
    and "s_exited S = {} \<or> 0 < n"
    and "\<And>S'. crowd ((=) FACT10) {1..<int (j + n)} {} ar S' \<Longrightarrow> s_exited S' = {} \<Longrightarrow> arrives M S' (k (child @ map int [j..<j + n])) P"
  shows "arrives M S (create_facts n child k) P"
  using assms
proof (induction n arbitrary: j child S)
  case (Suc n)
  have "arrives M S (Lib_call (Create2 FACT 10) (\<lambda>ret.
      assert_that (thread_ret_ok ret \<noteq> 0) (create_facts n (child @ [ret]) k))) P"
  proof (rule crowd_create [OF Suc.prems(1,2)])
    fix S' assume c: "crowd ((=) FACT10) {1..<int (Suc j)} {} ar S'" "s_exited S' = {}"
    have "child @ map int [j..<j + Suc n] = (child @ [int j]) @ map int [Suc j..<Suc j + n]"
      by (simp add: upt_conv_Cons del: upt_Suc)
    then have "arrives M S' (create_facts n (child @ [int j]) k) P"
      using Suc.prems(3,5) c(2) by (intro Suc.IH [OF c(1)]) simp_all
    then show "arrives M S' (assert_that (thread_ret_ok (int j) \<noteq> 0) (create_facts n (child @ [int j]) k)) P"
      by (rule arrives_assert [rotated]) simp
  qed (use Suc.prems(3) in \<open>auto simp: FACT10_def\<close>)
  then show ?case by simp
qed (use assms in simp)

lemma yield_each_runs:
  assumes "set ts \<subseteq> A" and "crowd hellish A {} ar S"
    and "\<And>S'. crowd hellish A {} ar S' \<Longrightarrow> arrives M S' k P"
  shows "arrives M S (yield_each ts k) P"
  using assms(1,2)
proof (induction ts arbitrary: S)
  case (Cons t ts)
  have "arrives M S (yield t (\<lambda>ret. assert_that (ret = t) (yield_each ts k))) P"
  proof (rule crowd_yield_hellos [OF Cons.prems(2)])
    fix S' assume "crowd hellish A {} ar S'"
    then show "arrives M S' (assert_that (t = t) (yield_each ts k)) P"
      using Cons.prems(1) by (intro arrives_assert Cons.IH) simp_all
  qed (use Cons.prems(1) in simp)
  then show ?case by simp
qed (simp add: assms(3))

lemma kill_each_runs:
  assumes "set ts \<subseteq> A" and "crowd U A K ar S"
    and "\<And>S'. crowd U A (K \<union> set ts) ar S' \<Longrightarrow> arrives M S' k P"
  shows "arrives M S (kill_each ts k) P"
  using assms
proof (induction ts arbitrary: S K)
  case (Cons t ts)
  have "arrives M S (Lib_call (Kill2 t) (\<lambda>ret. assert_that (ret = t) (kill_each ts k))) P"
  proof (rule crowd_kill [OF Cons.prems(2)])
    fix S' assume "crowd U A (insert t K) ar S'"
    then show "arrives M S' (assert_that (t = t) (kill_each ts k)) P"
      using Cons.prems(1,3) by (intro arrives_assert Cons.IH [of "insert t K"]) simp_all
  qed (use Cons.prems(1) in simp)
  then show ?case by simp
qed simp

lemma kill_some_runs:
  assumes "set ts \<subseteq> A" and "crowd U A K ar S" and "\<forall>t\<in>A. 0 \<le> t"
    and "\<And>S'. crowd U A (K \<union> set ts) ar S' \<Longrightarrow> arrives M S' k P"
  shows "arrives M S (kill_some ts k) P"
  using assms
proof (induction ts arbitrary: S K)
  case (Cons t ts)
  have "arrives M S (Lib_call (Kill2 t) (\<lambda>ret. assert_that (thread_ret_ok ret \<noteq> 0) (kill_some ts k))) P"
  proof (rule crowd_kill [OF Cons.prems(2)])
    fix S' assume "crowd U A (insert t K) ar S'"
    then show "arrives M S' (assert_that (thread_ret_ok t \<noteq> 0) (kill_some ts k)) P"
      using Cons.prems(1,3,4) by (intro arrives_assert Cons.IH [of "insert t K"]) simp_all
  qed (use Cons.prems(1) in simp)
  then show ?case by simp
qed simp

section \<open>The parts of the test\<close>

lemma set_ints: "set (map int [a..<b]) = {int a..<int b}"
  unfolding set_map set_upt by (rule image_int_atLeastLessThan)

lemma crowd_live:
  assumes "crowd U A K ar S" and "s_exited S \<subseteq> A" and "A \<subseteq> {0..<THREAD_MAX_THREADS}"
  shows "s_live S = A" and "length (s_ready S) = card A"
  using assms by (auto simp: crowd_def s_live_def valid_tid_def distinct_card)

lemma drain_runs:
  assumes c: "crowd hellish A A ar S" and ne: "A \<noteq> {}" "\<forall>t\<in>A. 0 \<le> t"
    and k: "\<And>S'. crowd V {} {} ar S' \<Longrightarrow> arrives M S' k P"
  shows "arrives M S (drain_threads (Suc (Suc n)) k) P"
proof -
  note cd = c [unfolded crowd_def]
  obtain t qs where t: "s_ready S = t # qs" using cd ne(1) by (cases "s_ready S") auto
  then have "t \<in> A" using cd by auto
  then have "t \<noteq> THREAD_NONE" using ne(2) valid_tid_codes by auto
  show ?thesis
    unfolding drain_threads.simps
  proof (rule crowd_last_yield [OF c, where V = V])
    show "THREAD_ANY = t \<and> t \<in> A \<or> THREAD_ANY = THREAD_ANY \<and> s_ready S = t # qs" using t by simp
    fix S' assume "crowd V {} {} (\<lambda>v. if v \<in> A - A then address_of M (s_stack S v) 9 else ar v) S'"
    then have c': "crowd V {} {} ar S'" by simp
    then show "arrives M S' (if t \<noteq> THREAD_NONE then yield THREAD_ANY (\<lambda>ret. if ret \<noteq> THREAD_NONE then drain_threads n k else k) else k) P"
      using \<open>t \<noteq> THREAD_NONE\<close> k by (auto simp: crowd_empty intro!: arrives_yield_none)
  qed (use cd in auto)
qed

lemma test_hellos_runs:
  assumes S: "crowd hellish {} {} ar S" "s_exited S = {}" and cost: "0 < stack_cost M" "0 \<le> node_cost M"
    and k: "\<And>S'. crowd V {} {} (ar(0 := address_of M NULL 0)) S' \<Longrightarrow> arrives M S' k P"
  shows "arrives M S (test_hellos k) P"
  unfolding test_hellos_def Let_def
proof (rule arrives_look, rule crowd_create [where j = 1])
  let ?A = "{1..<int (2 + NTHREADS)}" and ?ar = "ar(0 := address_of M NULL 0)"
  have N: "2 + NTHREADS \<le> nat THREAD_MAX_THREADS" "NTHREADS + 2 = Suc (Suc NTHREADS)" "NTHREADS = 128"
    by (simp_all add: NTHREADS_def THREAD_MAX_THREADS_def)
  show "crowd hellish {1..<int 1} {} ar S" using S(1) by simp
  fix l S1
  assume l: "in_use l = stack_cost M * int (card (s_live S)) + node_cost M * int (length (s_ready S))"
    and c1: "crowd hellish {1..<int (Suc 1)} {} ar S1" and e1: "s_exited S1 = {}"
  have one: "{1..<int (Suc 1)} = {1}" by auto
  note c1' = c1 [unfolded one]
  have l0: "in_use l = 0" using l S crowd_live [OF S(1)] by simp
  have n1: "s_now S1 = 0" using c1 by (simp add: crowd_def)
  have rest: "arrives M S2 (create_hellos NTHREADS 0 [] (\<lambda>child. Look_at (\<lambda>v. print_line (''my id is '' @ show_int (me v)) (
      yield_each child (print_line ''destroying all threads'' (kill_each (1 # child) (drain_threads (NTHREADS + 2) k))))))) P"
    if c2: "crowd hellish {1..<int 2} {} ?ar S2" for S2
  proof (rule create_hellos_runs [OF c2 _ N(1)], simp, rule arrives_look, rule arrives_print)
    fix S3 assume c3: "crowd hellish ?A {} ?ar S3"
    have A: "set ([] @ map int [2..<2 + NTHREADS]) \<subseteq> ?A" "set (1 # [] @ map int [2..<2 + NTHREADS]) \<subseteq> ?A"
      "{} \<union> set (1 # [] @ map int [2..<2 + NTHREADS]) = ?A"
      using N(3) by (auto simp only: list.set append_Nil set_ints of_nat_add of_nat_numeral insert_iff atLeastLessThan_iff empty_iff Un_empty_left)
    show "arrives M S3 (yield_each ([] @ map int [2..<2 + NTHREADS]) (print_line ''destroying all threads'' (
        kill_each (1 # [] @ map int [2..<2 + NTHREADS]) (drain_threads (NTHREADS + 2) k)))) P"
    proof (rule yield_each_runs [OF A(1) c3], rule arrives_print)
      fix S4 assume c4: "crowd hellish ?A {} ?ar S4"
      show "arrives M S4 (kill_each (1 # [] @ map int [2..<2 + NTHREADS]) (drain_threads (NTHREADS + 2) k)) P"
      proof (rule kill_each_runs [OF A(2) c4])
        fix S5 assume "crowd hellish ?A ({} \<union> set (1 # [] @ map int [2..<2 + NTHREADS])) ?ar S5"
        then show "arrives M S5 (drain_threads (NTHREADS + 2) k) P"
          unfolding A(3) N(2) by (rule drain_runs [where V = V]) (auto simp: N(3) intro: k)
      qed
    qed
  qed
  have "arrives M S1 (yield (int 1) (\<lambda>ret2. assert_that (ret2 = int 1) (note_stack 0 (create_hellos NTHREADS 0 []
      (\<lambda>child. Look_at (\<lambda>v. print_line (''my id is '' @ show_int (me v)) (yield_each child (
       print_line ''destroying all threads'' (kill_each (ret2 # child) (drain_threads (NTHREADS + 2) k)))))))))) P"
  proof (rule crowd_yield_hellos [OF c1], simp, rule arrives_assert [OF refl], rule arrives_note)
    fix S' assume "crowd hellish {1..<int (Suc 1)} {} ar S'"
    then have "crowd hellish {1..<int 2} {} ?ar (S'\<lparr>s_array := (s_array S')(s_now S' := address_of M (s_stack S' (s_now S')) 0)\<rparr>)"
      by (auto simp: crowd_def)
    from rest [OF this]
    show "arrives M (S'\<lparr>s_array := (s_array S')(s_now S' := address_of M (s_stack S' (s_now S')) 0)\<rparr>) (create_hellos NTHREADS 0 []
      (\<lambda>child. Look_at (\<lambda>v. print_line (''my id is '' @ show_int (me v)) (yield_each child (
       print_line ''destroying all threads'' (kill_each (int 1 # child) (drain_threads (NTHREADS + 2) k))))))) P" by simp
  qed
  moreover have "\<not> stack_cost M + node_cost M \<le> 0" using cost by simp
  ultimately show "arrives M S1 (Look_at (\<lambda>v. assert_that (\<not> in_use v \<le> in_use l) (print_line (''my id is '' @ show_int (me v)) (
      assert_that (thread_ret_ok (int 1) \<noteq> 0) (yield (int 1) (\<lambda>ret2. assert_that (ret2 = int 1) (note_stack 0 (create_hellos NTHREADS 0 []
      (\<lambda>child. Look_at (\<lambda>v. print_line (''my id is '' @ show_int (me v)) (yield_each child (
       print_line ''destroying all threads'' (kill_each (ret2 # child) (drain_threads (NTHREADS + 2) k)))))))))))))) P"
    using crowd_live [OF c1'] e1 l0
    by (intro arrives_look arrives_assert arrives_print) (simp_all add: THREAD_MAX_THREADS_def)
qed (auto simp: hellish_def THREAD_MAX_THREADS_def)

definition all_facts :: "int set" where
  "all_facts = {1..<THREAD_MAX_THREADS}"

text \<open>The frames of different stacks are apart: at the same depth, and all of them from those of main.\<close>

definition stacks_placed :: "memory \<Rightarrow> bool" where
  "stacks_placed M \<longleftrightarrow> (\<forall>p q d e. p \<noteq> q \<longrightarrow> d = e \<or> p = NULL \<or> q = NULL \<longrightarrow>
     THREAD_MIN_STACK \<le> \<bar>address_of M p d - address_of M q e\<bar>)"

lemma stacks_far_apartI:
  assumes p: "stacks_placed M" and st: "st 0 = NULL" "inj_on st all_facts" "\<forall>v\<in>all_facts. st v \<noteq> NULL"
    and a: "a 0 = address_of M NULL 0" "\<forall>v\<in>all_facts. a v = address_of M (st v) 9"
  shows "stacks_far_apart a"
proof -
  define depth where "depth i = (if i = 0 then 0 else 9 :: nat)" for i :: int
  have "THREAD_MIN_STACK \<le> \<bar>a i - a j\<bar>" if "i \<in> insert 0 all_facts" "j \<in> insert 0 all_facts" "i \<noteq> j" for i j
  proof -
    have "0 \<notin> all_facts" by (simp add: all_facts_def)
    then have "a i = address_of M (st i) (depth i)" "a j = address_of M (st j) (depth j)"
      "depth i = depth j \<or> st i = NULL \<or> st j = NULL"
      using that(1,2) st(1) a by (auto simp: depth_def)
    moreover have "st i \<noteq> st j" using that st by (auto dest: inj_onD)
    ultimately show ?thesis using p [unfolded stacks_placed_def, rule_format, of "st i" "st j" "depth i" "depth j"] by simp
  qed
  moreover have "t \<in> insert 0 all_facts" if "t \<in> set all_tids" for t
    using that by (auto simp: all_tids_def all_facts_def)
  ultimately show ?thesis unfolding stacks_far_apart_def list_all_iff by blast
qed

lemma all_tids_split: "all_tids = 0 # 1 # map int [2..<nat THREAD_MAX_THREADS]"
proof -
  have "map int [0..<n] = 0 # 1 # map int [2..<n]" if "2 \<le> n" for n
    using that by (simp add: upt_conv_Cons numeral_2_eq_2)
  then show ?thesis unfolding all_tids_def by (simp add: THREAD_MAX_THREADS_def del: upt_rec_numeral)
qed

lemma upto_all: "{1..<int (1 + nat (THREAD_MAX_THREADS - 1))} = all_facts"
  by (simp add: all_facts_def THREAD_MAX_THREADS_def)

lemma test_many_runs:
  assumes S: "crowd ((=) FACT10) {} {} ar S" and ar: "ar 0 = address_of M NULL 0" and p: "stacks_placed M"
    and k: "\<And>S' ar'. crowd V {} {} ar' S' \<Longrightarrow> arrives M S' k P"
  shows "arrives M S (test_many k) P"
  unfolding test_many_def
proof (rule arrives_print, rule create_facts_runs [where j = 1])
  show "crowd ((=) FACT10) {1..<int 1} {} ar S" using S by simp
  fix S1 assume "crowd ((=) FACT10) {1..<int (1 + nat (THREAD_MAX_THREADS - 1))} {} ar S1"
  then have c1: "crowd ((=) FACT10) all_facts {} ar S1" by (simp only: upto_all)
  show "arrives M S1 (Lib_call (Create2 FACT 10) (\<lambda>ret. assert_that (ret = THREAD_NOMORE) (
     print_line (''running   '' @ show_int (THREAD_MAX_THREADS - 1) @ '' threads'') (
     yield 0 (\<lambda>ret. assert_that (thread_ret_ok ret \<noteq> 0) (yield_to_all (tl all_tids) (
     Look_at (\<lambda>v. assert_that (stacks_far_apart (stack_array (globals_seen v))) k)))))))) P"
  proof (rule arrives_create_full, use c1 in \<open>force simp: crowd_def all_facts_def valid_tid_def\<close>,
      rule arrives_assert [OF refl], rule arrives_print, rule arrives_yield_self)
    let ?S = "S1\<lparr>s_exited := {}\<rparr>"
    have c: "crowd ((=) FACT10) all_facts {} ar ?S" using c1 by (simp add: crowd_def)
    show "0 = THREAD_SELF \<or> 0 = s_now ?S" using c by (simp add: crowd_def)
    have "tl all_tids = 1 # map int [2..<nat THREAD_MAX_THREADS]" by (simp only: all_tids_split list.sel)
    moreover have "arrives M ?S (yield 1 (\<lambda>_. yield_to_all (map int [2..<nat THREAD_MAX_THREADS]) (
        Look_at (\<lambda>v. assert_that (stacks_far_apart (stack_array (globals_seen v))) k)))) P"
    proof (rule crowd_last_yield [OF c, where V = V])
      show "1 = (1 :: int) \<and> 1 \<in> all_facts \<or> 1 = THREAD_ANY \<and> s_ready ?S = 1 # undefined"
        by (simp add: all_facts_def THREAD_MAX_THREADS_def)
      show "\<And>v. v \<in> all_facts - {} \<Longrightarrow> s_role ?S v = Some FACT10" using c by (auto simp: crowd_def)
      fix S2
      let ?a = "\<lambda>v. if v \<in> all_facts - {} then address_of M (s_stack ?S v) 9 else ar v"
      assume c2: "crowd V {} {} ?a S2" and e2: "s_exited S2 = s_exited ?S \<union> all_facts" and st: "s_stack S2 = s_stack ?S"
      show "arrives M S2 (yield_to_all (map int [2..<nat THREAD_MAX_THREADS]) (
          Look_at (\<lambda>v. assert_that (stacks_far_apart (stack_array (globals_seen v))) k))) P"
      proof (rule alone_yields, simp, use c2 in \<open>simp add: crowd_empty\<close>, use c2 in \<open>simp add: crowd_empty\<close>,
          rule arrives_if_scene, rule arrives_look, rule arrives_assert)
        fix l
        assume a: "s_apart S2" and l: "stack_array (globals_seen l) = s_array S2"
        have nn: "\<forall>v\<in>all_facts. s_stack S2 v \<noteq> NULL" using c st by (simp add: crowd_def)
        then have "all_facts \<subseteq> s_live S2" using e2 by (auto simp: s_live_def all_facts_def valid_tid_def)
        then have "inj_on (s_stack S2) all_facts" using a inj_on_subset unfolding s_apart_def by blast
        then show "stacks_far_apart (stack_array (globals_seen l))"
          using p c2 nn ar l st
          by (intro stacks_far_apartI [where st = "s_stack S2"]) (auto simp: crowd_empty all_facts_def)
        show "arrives M S2 k P" by (rule k [OF c2])
      qed
    qed
    moreover have "0 \<le> s_now ?S" using c by (simp add: crowd_def)
    ultimately show "arrives M ?S (assert_that (thread_ret_ok (s_now ?S) \<noteq> 0) (yield_to_all (tl all_tids) (
        Look_at (\<lambda>v. assert_that (stacks_far_apart (stack_array (globals_seen v))) k)))) P"
      by (intro arrives_assert) simp_all
  qed
qed (simp_all add: THREAD_MAX_THREADS_def)

lemma test_many_again_runs:
  assumes S: "crowd ((=) FACT10) {} {} ar S" and k: "\<And>S' ar'. crowd V {} {} ar' S' \<Longrightarrow> arrives M S' k P"
  shows "arrives M S (test_many_again k) P"
  unfolding test_many_again_def
proof (rule arrives_print, rule create_facts_runs [where j = 1], use S in simp)
  let ?child = "[] @ map int [1..<1 + nat (THREAD_MAX_THREADS - 1)]"
  let ?odd = "map (\<lambda>j. ?child ! (2 * j)) [0..<nat (THREAD_MAX_THREADS div 2)]"
  fix S1 assume "crowd ((=) FACT10) {1..<int (1 + nat (THREAD_MAX_THREADS - 1))} {} ar S1"
  then have c1: "crowd ((=) FACT10) all_facts {} ar S1" by (simp only: upto_all)
  have child: "set ?child = all_facts" "length ?child = 1023" by (simp_all only: append_Nil set_ints upto_all of_nat_1) (simp add: THREAD_MAX_THREADS_def)
  have "?child ! (2 * j) \<in> all_facts" if "j < nat (THREAD_MAX_THREADS div 2)" for j
    unfolding child(1) [symmetric] by (rule nth_mem) (use that child(2) in \<open>simp add: THREAD_MAX_THREADS_def\<close>)
  then have odd: "set ?odd \<subseteq> all_facts" by (auto simp only: set_map set_upt image_subset_iff atLeastLessThan_iff)
  show "arrives M S1 (print_line (''destroying '' @ show_int (THREAD_MAX_THREADS div 2) @ '' threads'') (
      kill_some ?odd (yield_to_all all_tids k))) P"
  proof (rule arrives_print, rule kill_some_runs [OF odd c1], simp add: all_facts_def)
    fix S2 assume c2: "crowd ((=) FACT10) all_facts ({} \<union> set ?odd) ar S2"
    have tids: "all_tids = 0 # tl all_tids" by (simp only: all_tids_split list.sel)
    have "tl all_tids = 1 # map int [2..<nat THREAD_MAX_THREADS]" by (simp only: all_tids_split list.sel)
    moreover have "arrives M S2 (yield 1 (\<lambda>_. yield_to_all (map int [2..<nat THREAD_MAX_THREADS]) k)) P"
    proof (rule crowd_last_yield [OF c2, where V = V])
      show "1 = (1 :: int) \<and> 1 \<in> all_facts \<or> 1 = THREAD_ANY \<and> s_ready S2 = 1 # undefined"
        by (simp add: all_facts_def THREAD_MAX_THREADS_def)
      show "\<And>v. v \<in> all_facts - ({} \<union> set ?odd) \<Longrightarrow> s_role S2 v = Some FACT10" using c2 by (auto simp: crowd_def)
      fix S3 ar' assume c3: "crowd V {} {} ar' S3"
      show "arrives M S3 (yield_to_all (map int [2..<nat THREAD_MAX_THREADS]) k) P"
        by (rule alone_yields) (use c3 k in \<open>auto simp: crowd_empty\<close>)
    qed
    ultimately have "arrives M S2 (yield_to_all (tl all_tids) k) P" by simp
    moreover have "0 = s_now S2" using c2 by (simp add: crowd_def)
    ultimately show "arrives M S2 (yield_to_all all_tids k) P"
      by (subst tids) (auto intro: arrives_yield_self)
  qed
qed (simp_all add: THREAD_MAX_THREADS_def)

section \<open>The last part\<close>

lemma finale_runs:
  assumes "s_ready S = []" and "P S (print_line ''basic test done'' Returned_main)"
  shows "arrives M S finale P"
  unfolding finale_def
  by (intro arrives_print arrives_yield_none arrives_assert refl arrives_here assms)

lemma grand_finale_runs:
  assumes S: "crowd U {} K ar S" and P: "\<And>S'. s_ready S' = [] \<Longrightarrow> P S' (print_line ''basic test done'' Returned_main)"
  shows "arrives M S grand_finale P"
  unfolding grand_finale_def
proof (intro arrives_print, rule crowd_create [where j = 1 and U = "(=) finale" and ar = ar], use S in \<open>simp add: crowd_empty\<close>)
  fix S1 assume c: "crowd ((=) finale) {1..<int (Suc 1)} {} ar S1"
  have one: "{1..<int (Suc 1)} = {1}" by auto
  note cd = c [unfolded one crowd_def]
  have "length (s_ready S1) = 1" using cd distinct_card [of "s_ready S1"] by simp
  then have r: "s_ready S1 = [1]" using cd by (auto simp: length_Suc_conv)
  have f: "s_role S1 1 = Some finale" using cd by auto
  have "arrives M (S1\<lparr>s_now := 1, s_ready := [], s_exited := insert 0 (s_exited S1)\<rparr>) finale P"
    by (rule finale_runs) (simp_all add: P)
  then have "arrives M S1 (Lib_call Exit2 (\<lambda>_. Failed_assert)) P"
    by (rule arrives_exit [OF disjI2 [OF refl], rotated]) (use cd r f in simp)
  then show "arrives M S1 (assert_that (thread_ret_ok (int 1) \<noteq> 0) (Lib_call Exit2 (\<lambda>_. Failed_assert))) P"
    by (intro arrives_assert) simp_all
qed (simp_all add: THREAD_MAX_THREADS_def thread_main_def HELLO_def FACT_def SUICIDE_def FINALE_def)

lemma suicide_runs:
  assumes S: "s_now S = 1" "s_ready S = [0]" "s_role S 0 = Some u" "s_flag S = 0"
    and k: "arrives M (S\<lparr>s_now := 0, s_ready := [], s_exited := insert 1 (s_exited S), s_flag := 1\<rparr>) u P"
  shows "arrives M S suicide P"
  unfolding suicide_def
proof (rule arrives_set_flag, rule arrives_assert [OF S(4)])
  show "arrives M (S\<lparr>s_flag := 1\<rparr>) (Lib_call Exit2 (\<lambda>_. Failed_assert)) P"
    by (rule arrives_exit [OF disjI2 [OF refl] _ k]) (use S in simp)
qed

lemma crowd_flag: "crowd U A K ar (S\<lparr>s_flag := v\<rparr>) = crowd U A K ar S"
  by (simp add: crowd_def)

lemma suicide_part_runs:
  assumes S: "crowd U {} K ar S" "s_flag S = 0" and cost: "0 \<le> stack_cost M" "stack_cost M \<le> 2 * THREAD_MIN_STACK" and use0: "0 \<le> use0"
    and P: "\<And>S'. s_ready S' = [] \<Longrightarrow> P S' (print_line ''basic test done'' Returned_main)"
  shows "arrives M S (Lib_call (Create2 SUICIDE 0) (\<lambda>ret. assert_that (thread_ret_ok ret \<noteq> 0) (
     yield ret (\<lambda>ret. assert_that (thread_ret_ok ret \<noteq> 0) (set_flag 0 (\<lambda>flag. assert_that (flag = 1) (
     yield ret (\<lambda>ret. assert_that (ret = THREAD_INVALID) (
     Look_at (\<lambda>v. assert_that (in_use v \<le> use0 + 2 * THREAD_MIN_STACK) grand_finale)))))))))) P"
proof (rule arrives_create [where i = 1])
  have s: "s_now S = 0" "s_ready S = []" "s_stack S 0 = NULL" using S(1) by (simp_all add: crowd_empty)
  show "valid_tid 1" "1 \<noteq> s_now S" "1 \<notin> set (s_ready S)" "\<forall>j. 0 \<le> j \<longrightarrow> j < 1 \<longrightarrow> j = s_now S \<or> j \<in> set (s_ready S)"
    using s by (simp_all add: valid_tid_def THREAD_MAX_THREADS_def)
  fix a
  let ?main = "\<lambda>ret. assert_that (thread_ret_ok ret \<noteq> 0) (set_flag 0 (\<lambda>flag. assert_that (flag = 1) (
     yield ret (\<lambda>ret. assert_that (ret = THREAD_INVALID) (
     Look_at (\<lambda>v. assert_that (in_use v \<le> use0 + 2 * THREAD_MIN_STACK) grand_finale))))))"
  let ?S = "S\<lparr>s_ready := s_ready S @ [1], s_role := (s_role S)(1 := Some (thread_main SUICIDE 0)),
    s_stack := (s_stack S)(1 := Addr a), s_exited := {}\<rparr>"
  let ?T = "?S\<lparr>s_now := 1, s_ready := [0], s_role := (s_role ?S)(0 := Some (?main 1))\<rparr>"
  let ?E = "?T\<lparr>s_now := 0, s_ready := [], s_exited := {1}, s_flag := 0\<rparr>"
  have u: "thread_main SUICIDE 0 = suicide" by (simp add: thread_main_def HELLO_def FACT_def SUICIDE_def)
  have live: "s_live ?E \<subseteq> {1}" using s by (auto simp: s_live_def)
  have c: "crowd (\<lambda>_. True) {} {} (s_array S) ?E" using s by (simp add: crowd_empty)
  have "arrives M ?E (Look_at (\<lambda>v. assert_that (in_use v \<le> use0 + 2 * THREAD_MIN_STACK) grand_finale)) P"
  proof (rule arrives_look, rule arrives_assert)
    fix l assume l: "in_use l = stack_cost M * int (card (s_live ?E)) + node_cost M * int (length (s_ready ?E))"
    have "card (s_live ?E) \<le> card {1 :: int}" by (rule card_mono [OF _ live]) simp
    then have "stack_cost M * int (card (s_live ?E)) \<le> stack_cost M * 1" using cost(1) by (intro mult_left_mono) simp_all
    then show "in_use l \<le> use0 + 2 * THREAD_MIN_STACK" using l cost(2) use0 by simp
    show "arrives M ?E grand_finale P" by (rule grand_finale_runs [OF c]) (rule P)
  qed
  then have "arrives M ?E (yield 1 (\<lambda>ret. assert_that (ret = THREAD_INVALID) (
     Look_at (\<lambda>v. assert_that (in_use v \<le> use0 + 2 * THREAD_MIN_STACK) grand_finale)))) P"
    using valid_tid_codes [of 1] by (intro arrives_yield_invalid arrives_assert) simp_all
  then have "arrives M (?T\<lparr>s_now := 0, s_ready := [], s_exited := {1}, s_flag := 1\<rparr>) (?main 1) P"
    by (intro arrives_assert arrives_set_flag) simp_all
  then have "arrives M ?T suicide P" using s S(2) by (intro suicide_runs [where u = "?main 1"]) simp_all
  then have "arrives M ?S (yield 1 ?main) P"
    by (rule arrives_yield_to [where v = 1 and q = "[0]", rotated 2]) (use s u in simp_all)
  then show "arrives M ?S (assert_that (thread_ret_ok 1 \<noteq> 0) (yield 1 ?main)) P" by (intro arrives_assert) simp_all
qed

lemma crowd_exited: "crowd U A K ar (S\<lparr>s_exited := E\<rparr>) = crowd U A K ar S"
  by (simp add: crowd_def)

lemma test_destroy_runs:
  assumes S: "crowd U {} K ar S" and cost: "0 \<le> stack_cost M" "stack_cost M \<le> 2 * THREAD_MIN_STACK" and use0: "0 \<le> use0"
    and P: "\<And>S'. s_ready S' = [] \<Longrightarrow> P S' (print_line ''basic test done'' Returned_main)"
  shows "arrives M S (test_destroy use0) P"
  unfolding test_destroy_def
proof (rule arrives_look)
  fix l assume me: "me l = s_now S"
  have s: "s_ready S = []" using S by (simp add: crowd_empty)
  have c: "crowd U {} K ar (S\<lparr>s_exited := {}, s_flag := 0\<rparr>)" using S by (simp add: crowd_exited crowd_flag)
  show "arrives M S (Lib_call (Kill2 (me l)) (\<lambda>ret. assert_that (ret = THREAD_INVALID) (
     print_line ''testing some destroys even though I'm the only thread'' (
     Lib_call (Kill2 42) (\<lambda>ret. assert_that (ret = THREAD_INVALID) (
     Lib_call (Kill2 (- 42)) (\<lambda>ret. assert_that (ret = THREAD_INVALID) (
     Lib_call (Kill2 (THREAD_MAX_THREADS + 1000)) (\<lambda>ret. assert_that (ret = THREAD_INVALID) (
     print_line ''testing destroy self'' (
     set_flag 0 (\<lambda>_.
     Lib_call (Create2 SUICIDE 0) (\<lambda>ret. assert_that (thread_ret_ok ret \<noteq> 0) (
     yield ret (\<lambda>ret. assert_that (thread_ret_ok ret \<noteq> 0) (set_flag 0 (\<lambda>flag. assert_that (flag = 1) (
     yield ret (\<lambda>ret. assert_that (ret = THREAD_INVALID) (
     Look_at (\<lambda>v. assert_that (in_use v \<le> use0 + 2 * THREAD_MIN_STACK) grand_finale))))))))))))))))))))) P"
    using s suicide_part_runs [OF c _ cost use0, of P] P
    by (intro arrives_kill_invalid arrives_assert arrives_print arrives_set_flag) simp_all
qed

text \<open>The whole test, as far as the last line.\<close>

lemma test_basic_runs:
  assumes S: "crowd hellish {} {} ar S" "s_exited S = {}"
    and cost: "0 < stack_cost M" "0 \<le> node_cost M" "stack_cost M \<le> 2 * THREAD_MIN_STACK" and pl: "stacks_placed M"
    and P: "\<And>S'. s_ready S' = [] \<Longrightarrow> P S' (print_line ''basic test done'' Returned_main)"
  shows "arrives M S test_basic P"
  unfolding test_basic_def Let_def
proof (rule arrives_print, rule arrives_look)
  fix l assume l: "me l = s_now S" "in_use l = stack_cost M * int (card (s_live S)) + node_cost M * int (length (s_ready S))"
  have s: "s_ready S = []" "s_now S = 0" using S by (simp_all add: crowd_empty)
  have use0: "0 \<le> in_use l" using l cost by simp
  have main: "arrives M S (test_hellos (test_many (test_many_again (test_destroy (in_use l))))) P"
  proof (rule test_hellos_runs [OF S cost(1,2), where V = "(=) FACT10"])
    fix S1 assume c1: "crowd ((=) FACT10) {} {} (ar(0 := address_of M NULL 0)) S1"
    show "arrives M S1 (test_many (test_many_again (test_destroy (in_use l)))) P"
    proof (rule test_many_runs [OF c1 _ pl, where V = "(=) FACT10"])
      fix S2 ar2 assume c2: "crowd ((=) FACT10) {} {} ar2 S2"
      show "arrives M S2 (test_many_again (test_destroy (in_use l))) P"
      proof (rule test_many_again_runs [OF c2, where V = "(=) FACT10"])
        fix S3 ar3 assume "crowd ((=) FACT10) {} {} ar3 S3"
        then show "arrives M S3 (test_destroy (in_use l)) P"
          by (rule test_destroy_runs) (use cost use0 P in simp_all)
      qed
    qed simp
  qed
  have codes: "- 559038737 \<noteq> THREAD_ANY" "- 559038737 \<noteq> THREAD_SELF" "16 \<noteq> THREAD_ANY" "16 \<noteq> THREAD_SELF"
    by (simp_all add: thread_codes)
  have "arrives M S (yield (- 559038737) (\<lambda>ret. assert_that (ret = THREAD_INVALID) (
     print_line ''initial thread returns from yield(INVALID)'' (
     yield 16 (\<lambda>ret. assert_that (ret = THREAD_INVALID) (
     print_line ''initial thread returns from yield(INVALID2)'' (
     test_hellos (test_many (test_many_again (test_destroy (in_use l))))))))))) P"
    using s codes main by (intro arrives_yield_invalid arrives_assert arrives_print) simp_all
  then have any: "arrives M S (yield THREAD_ANY (\<lambda>ret. assert_that (ret = THREAD_NONE) (
     print_line ''initial thread returns from yield(ANY)'' (
     yield (- 559038737) (\<lambda>ret. assert_that (ret = THREAD_INVALID) (
     print_line ''initial thread returns from yield(INVALID)'' (
     yield 16 (\<lambda>ret. assert_that (ret = THREAD_INVALID) (
     print_line ''initial thread returns from yield(INVALID2)'' (
     test_hellos (test_many (test_many_again (test_destroy (in_use l)))))))))))))) P"
    using s by (intro arrives_yield_none arrives_assert arrives_print) simp_all
  show "arrives M S (assert_that (me l = 0) (
     yield THREAD_SELF (\<lambda>ret. assert_that (thread_ret_ok ret \<noteq> 0) (
     print_line ''initial thread returns from yield(SELF)'' (
     yield 0 (\<lambda>ret. assert_that (thread_ret_ok ret \<noteq> 0) (
     print_line ''initial thread returns from yield(0)'' (
     yield THREAD_ANY (\<lambda>ret. assert_that (ret = THREAD_NONE) (
     print_line ''initial thread returns from yield(ANY)'' (
     yield (- 559038737) (\<lambda>ret. assert_that (ret = THREAD_INVALID) (
     print_line ''initial thread returns from yield(INVALID)'' (
     yield 16 (\<lambda>ret. assert_that (ret = THREAD_INVALID) (
     print_line ''initial thread returns from yield(INVALID2)'' (
     test_hellos (test_many (test_many_again (test_destroy (in_use l))))))))))))))))))))) P"
    by (rule arrives_assert, use s l(1) in simp, rule arrives_yield_self, simp, rule arrives_assert, use s in simp,
        rule arrives_print, rule arrives_yield_self, use s in simp, rule arrives_assert, use s in simp, rule arrives_print, rule any)
qed

section \<open>The run on the pointers of Lab 2\<close>

text \<open>Property C7. The basic test passes on the Lab 2 library. Let memory not run out, a stack take
  some accounted bytes but at most two times \<open>THREAD_MIN_STACK\<close>, and frames at the same depth of
  different stacks, as well as any frame of the first stack and any of another, be
  \<open>THREAD_MIN_STACK\<close> apart. Then the program that calls \<open>thread_init\<close> and \<open>test_basic\<close> gets to its
  last line, ''basic test done'', with no assertion failing, neither of the test nor of the
  library; and after that line the process ends with status 0.\<close>

theorem basic_test_passes:
  assumes "roomy (zero_heap pn)" and "roomy (zero_heap ps)"
    and "0 < stack_cost M" and "stack_cost M \<le> 2 * THREAD_MIN_STACK" and "0 \<le> node_cost M" and "stacks_placed M"
  shows "\<exists>m m'. test_reaches M (test_start (boot2 pn ps)) m \<and> user_step (lab2_library M) m = Inr m' \<and>
    last (printed (test_globals m')) = ''basic test done'' @ [newline] \<and> user_step (lab2_library M) m' = Inl (Exit_with 0)"
proof -
  let ?S = "\<lparr>s_now = 0, s_ready = [], s_role = \<lambda>_. None, s_stack = \<lambda>_. NULL, s_exited = {}, s_flag = 0, s_array = \<lambda>_. 0\<rparr>"
  define finished where "finished = (\<lambda>(S :: scene) u. s_ready S = [] \<and> u = print_line ''basic test done'' Returned_main)"
  have start: "machine_rel (test_start (boot2 pn ps)) (test_start sched_start)"
    using sched_rel_start [OF assms(1,2)] by (simp add: machine_rel_def test_start_def)
  have "stage ?S test_basic (test_start sched_start)"
    by (auto simp: stage_def scene_of_def test_start_def sched_start_def valid_tid_def THREAD_MAX_THREADS_def stacks_apart_def
        live_stacks_def)
  moreover have "arrives M ?S test_basic finished"
    by (rule test_basic_runs [where ar = "\<lambda>_. 0"]) (use assms in \<open>simp_all add: crowd_empty finished_def\<close>)
  ultimately have "leads M (goal finished) (test_start sched_start)" unfolding arrives_def by blast
  from leads_sound [OF this start] obtain m p S u where m: "test_reaches M (test_start (boot2 pn ps)) m" "machine_rel m p"
    "stage S u p" "finished S u" by blast
  note d = stageD [OF m(3)]
  have u: "u = print_line ''basic test done'' Returned_main" "s_ready S = []" using m(4) by (simp_all add: finished_def)
  obtain b where b: "machine_follows (user_step (lab2_library M) m) (user_step (sched_library M (Addr b)) p)"
    using user_step_follows [OF m(2)] by blast
  define p1 where "p1 = p\<lparr>test_globals := (test_globals p)\<lparr>printed := printed (test_globals p) @ [''basic test done'' @ [newline]]\<rparr>,
    code_of := (code_of p)(s_now S := \<lambda>_. Returned_main)\<rparr>"
  have "user_step (sched_library M (Addr b)) p = Inr p1"
    using d(1,13,14) by (simp add: user_step_def u(1) print_line_def look_of_def p1_def)
  then obtain m1 where m1: "user_step (lab2_library M) m = Inr m1" "machine_rel m1 p1"
    using b by (auto simp: machine_follows_def)
  obtain b1 where b1: "machine_follows (user_step (lab2_library M) m1) (user_step (sched_library M (Addr b1)) p1)"
    using user_step_follows [OF m1(2)] by blast
  have "user_step (sched_library M (Addr b1)) p1 = Inl (Exit_with 0)"
    using d(1,3,13) u(2) by (simp add: user_step_def p1_def sched_exit_def)
  then have "user_step (lab2_library M) m1 = Inl (Exit_with 0)" using b1 by (simp add: machine_follows_def)
  moreover have "last (printed (test_globals m1)) = ''basic test done'' @ [newline]"
    using m1(2) by (simp add: machine_rel_def p1_def)
  ultimately show ?thesis using m(1) m1(1) by blast
qed

text \<open>Stacks of 64 KiB, one after the other, with that of the main thread below.\<close>

definition row_of_stacks :: memory where
  "row_of_stacks = \<lparr>stack_cost = 32784, node_cost = 32,
     address_of = (\<lambda>p d. case p of NULL \<Rightarrow> - 65536 - int d | Addr a \<Rightarrow> 65536 * int a + int d)\<rparr>"

lemma row_of_stacks_placed: "stacks_placed row_of_stacks"
proof -
  have "65536 \<le> \<bar>65536 * int a - 65536 * int b\<bar>" if "a \<noteq> b" for a b
    using that by (cases "a < b") (auto simp: abs_if)
  then show ?thesis
    by (auto simp: stacks_placed_def row_of_stacks_def THREAD_MIN_STACK_def split: ptr.splits)
qed

theorem basic_test_passes_witness:
  "\<exists>m m'. test_reaches row_of_stacks (test_start (boot2 (roomy_policy \<lparr>nxt = NULL, val = 0\<rparr>) (roomy_policy ()))) m \<and>
    user_step (lab2_library row_of_stacks) m = Inr m' \<and>
    last (printed (test_globals m')) = ''basic test done'' @ [newline] \<and> user_step (lab2_library row_of_stacks) m' = Inl (Exit_with 0)"
  by (rule basic_test_passes [OF roomy_policy roomy_policy _ _ _ row_of_stacks_placed])
    (simp_all add: row_of_stacks_def THREAD_MIN_STACK_def)

end
