(* ===== verification/Spec2Isabelle.thy ===== *)
theory Spec2Isabelle
  imports Queue_Properties Lock_Properties Lab2_Properties Web_Properties Warmup_Properties
    Linked_Cache_Properties Load_Properties Fileset_Main Server_Shutdown Interrupt_Properties
    Concurrent_Requests Call_Stacks Simple_Client Coop_Scheduler Basic_Test_Passes
begin

text \<open>
  This development verifies the C programs of a course on operating systems: a library of
  user-level threads (Lab 2 in threads_2, Lab 3 in threads_3), a web server with worker
  threads (Lab 4 in webserver) and with a file cache (Lab 5 in webserver_5), its client and
  the generator of its files, and the warm-up programs in warmup.

  \<^bold>\<open>How the programs work together.\<close> thread.c keeps an array of thread control blocks and a
  ready queue, which queue.c implements as a linked list. Threads give up the processor by
  \<open>thread_yield\<close> and, in Lab 3, sleep on wait queues, which locks and condition variables are
  built from; interrupt.c delivers a timer signal whose handler yields, and blocks the signal
  where the library must not be interrupted. The server's main thread (server.c) accepts
  connections and pushes them on a bounded queue, from which worker threads
  (server_thread.c) take them; a worker reads the request (request.c, through the buffered
  I/O of common.c), looks the file up in the cache (hash_table.h, with the eviction queue of
  queue.c) or reads it, and answers. fileset.c writes random files with an index; client.c
  reads the index, asks for files and checks length and checksum of the answers.

  \<^bold>\<open>Common ground.\<close>
  \<^item> Prelude: the ways a C call can fail (\<open>Assertion\<close>; \<open>Undefined\<close> for undefined behaviour,
    such as a dangling pointer; \<open>Nontermination\<close>; \<open>Exit_with\<close>), results as a sum type with
    \<open>bindE\<close>, a typed heap with \<open>malloc\<close>, \<open>free\<close>, \<open>load\<close> and \<open>store\<close>. What \<open>malloc\<close>
    answers is given by a policy: it may return NULL at any call, any address that is not in
    use and any content. \<open>chain\<close> says that a heap holds a linked list.
  \<^item> Node_Queue: the head-and-tail queue that the repository builds by hand several times.
  \<^item> Fifo_Interface: the contract of the queues as locales. \<open>fifo_partial\<close> and \<open>fifo\<close> say
    what push and pop do to the list that a queue represents, \<open>fifo_remove\<close> adds removal;
    they are interpreted on the queues of Lab 2, Lab 3 and the server.
  \<^item> Labelled_Runs: step relations with labels, their runs, and the locale
    \<open>invariant_system\<close> for what holds in every reachable state; interpreted on the
    cooperative threads and on the worker threads.
  \<^item> C_Text: the conversions and searches of the C library on strings.

  \<^bold>\<open>Lab 3: threads_3.\<close>
  \<^item> Thread_Queue: every function of queue.c on the heap, for any family of queues that share
    the allocator, and the proof that they implement lists. Queue_Properties: refinement,
    memory safety, what \<open>delete_queue\<close> frees.
  \<^item> Thread_State, Thread_Lib: the data and every function of thread.c, and the signal mask
    and the handler of interrupt.c. The record \<open>sys\<close> holds the global variables; the queues
    are the lists that Thread_Queue justifies. A context that \<open>getcontext\<close> saves is the list of
    library calls that the thread has unfinished with what is left to do in each, and the
    empty list is user code. \<open>sys_step\<close> is one step of the process: the running thread calls
    the library or goes on with an unfinished call, or a timer signal arrives while signals
    are unblocked.
  \<^item> Sched_Core, Sched_Inv, Sched_Ops, Sched_Locks, Sched_Reach: the invariant of the scheduler
    (every thread is in exactly one place), kept by every operation and every step.
    Sched_Stacks: the stacks that are allocated are those of the live threads. Sched_Progress:
    how a step changes the ready queue and the owners of the locks. Sched_Masks: saved
    contexts have signals blocked.
  \<^item> Thread_Properties, Lock_Properties: what follows for the threads, the locks and the
    condition variables, with concrete runs from \<open>thread_init\<close>.
  \<^item> Call_Stacks: the saved contexts as typed stacks of calls, kept by every step.
  \<^item> Interrupt_Timer: the rest of interrupt.c around the library: registration, the one-shot timer,
    the whole handler, \<open>unintr_printf\<close>, \<open>spin\<close>. Interrupt_Properties: preemption goes on.

  \<^bold>\<open>Lab 2: threads_2.\<close>
  \<^item> Lab2_Queue, Lab2_Threads: queue.c and thread.c up to the marker of Lab 3. Names that both
    labs use have the suffix 2.
  \<^item> Lab2_Lab3: \<open>lift\<close> makes a Lab 2 state and the list that its linked queue holds into a
    state of Lab 3 with signals blocked; the functions of the two labs agree on it. Lab2_Reach
    carries the invariant of Lab 3 over, Lab2_Properties states it.
  \<^item> Coop_Scheduler: a scheduler over lists as the specification of the library, and the proof that
    every call of the library is its step.
  \<^item> Basic_Test: \<open>test_basic\<close> of test_thread.c with the functions that it starts as threads, as trees
    of what each does next, and the machine that runs them over a library. Basic_Test_Runs: the
    machine on the pointers follows the machine on the scheduler. Basic_Test_Scenes: one rule for
    each thing that the test does. Basic_Test_Passes: the test ends with its last line.

  \<^bold>\<open>Labs 4 and 5: webserver and webserver_5.\<close>
  The copies of common.c, client.c and fileset.c in the two directories are identical, and
  queue.c and server_thread.c share most of their text. Where that is so, one definition is
  mapped to one of the copies and its helper definitions to the other.
  \<^item> Request_Queue, Filesize_Queue: the two linked queues of queue.c at pointer level.
  \<^item> File_Data, File_Cache: the file records, the hash function, the cache with its buckets and
    evictions. Cache_Properties: the properties of queues and cache.
  \<^item> Linked_Table: the loops over a collision list, and what they do to a table of lists in one
    heap. Linked_Cache: hash_table.h again, with its pointers. Linked_Cache_Facts,
    Linked_Cache_Sim: \<open>linked_rep\<close> relates it to File_Cache, and every call keeps the relation.
    Linked_Cache_Properties: whole runs, with the deletion of the table at the end.
  \<^item> Rio: the robust I/O of common.c, over calls of \<open>read\<close> and \<open>write\<close> that move any number
    of bytes, are interrupted or fail. Request: request.c. Server_Requests:
    \<open>do_server_request\<close> of both labs. Client, Fileset: client.c and fileset.c. Web_Server: the
    arguments of server.c and sequences of requests. Web_Properties: the properties of
    requests, responses and index files.
  \<^item> Server_Pool: the main thread and the workers as interleaved steps, with the mutex and the
    two condition variables. A step is what a thread does between two points where it can
    wait: lock, wait, the body under the lock, one request, one join; the flag \<open>exiting\<close> is
    read in steps of its own, since it is read without the lock. Pool_Properties: what holds in
    every interleaving. Server_Shutdown: the turns of the loop in server.c, the frees at the end of
    \<open>server_exit\<close>.

  \<^item> Load_Test: client.c from its arguments to the end of its threads, with the server at the
    other end. Fileset_Clear, Fileset_Main: fileset.c from its options, over the file system of
    Tree_Copy. Load_Properties: the generator, the client and the server together.
  \<^item> Concurrent_Requests: \<open>do_server_request\<close> cut at its calls of the cache, for any number of
    workers that share it: every interleaving answers as the server of Lab 4.
  \<^item> Simple_Client: client_simple.c, against any response and against the server.

  \<^bold>\<open>Warm-up.\<close> Word_Count: wc.c over lists. Linked_Words: wc.c with its pointers,
  related to the lists as the file cache is. Fact_Program: fact.c. Tree_Copy: cpr.c over a model of the
  POSIX calls it makes; Tree_Copy_Facts, Tree_Copy_Dir: its specification \<open>graft\<close> and the proof.
  Warmup_Properties: the properties.

  \<^bold>\<open>Termination and fuel.\<close> No definition has fuel. A loop that need not end is a
  \<open>partial_function\<close> with option, so that not returning is \<open>None\<close>, which \<open>loopE\<close> turns into
  the failure \<open>Nontermination\<close>; the properties then show that the failure does not occur or
  say when it does. The other recursive functions have termination proofs.

  \<^bold>\<open>Bounds.\<close> Array sizes, \<open>THREAD_MAX_THREADS\<close>, the numbers of buckets and the sizes of the
  buffers are those of the code. Checksums, hash values and occurrences are machine words. An
  \<open>int\<close> of the code is an integer where the properties bound it and is truncated where the code
  truncates it. A buffer carries the bytes that lie behind it, so that a read past the end is
  visible.

  \<^bold>\<open>Not modelled.\<close> Sockets, DNS and the creation of the exit fifo; the random distributions,
  point.c and the statistics, which are floating point; the parsing of options by popt, the
  texts of usage messages, and the clock of the client; the handlers show_handler.c and
  show_ucontext.c, which print machine contexts, and the tests but the basic one, which spin for given times;
  hello.c, hi.c and words.c, which print constants; scripts and data. The
  instruction pointer and the registers of a context are represented by what the thread has
  left to do, since the model has no machine code. No symbolic links exist in the file system
  of Tree_Copy. The strings that name files, hosts and directories are values, so their own
  allocations and frees are not seen; the words of wc.c are blocks on a heap. The mutex of the
  cache and the region that it protects are one step.
\<close>

end
